(* ===== verification/Beel_Prelude.thy ===== *)
theory Beel_Prelude
  imports Main "HOL-Library.Word"
begin

text \<open>
  Shared vocabulary of the development: the machine integer types of
  \<^verbatim>\<open>sysheaders/amd64/beel\<close>, the rounding and extremum helpers of
  \<^verbatim>\<open>sysheaders/common/math.h\<close>, and the generic lemmas (chains of array indices, words
  read as natural numbers, bits of masks) on which the components rely.
\<close>

unbundle bit_operations_syntax

section \<open>Machine integers\<close>

type_synonym u8 = "8 word"
type_synonym u16 = "16 word"
type_synonym u32 = "32 word"
type_synonym u64 = "64 word"

text \<open>A pointer-sized unsigned integer, a physical or virtual address and a size on amd64.\<close>

type_synonym uintptr = u64
type_synonym paddr = u64
type_synonym psize = u64
type_synonym vaddr = u64
type_synonym vsize = u64

section \<open>Lemma collections\<close>

named_theorems chain_simps \<open>rewriting of index chains under array updates\<close>
named_theorems word_nat \<open>machine words read as natural numbers\<close>
named_theorems mask_bits \<open>single bits of the masks and shifts a component uses\<close>

section \<open>Words as natural numbers\<close>

lemma unat_lt_exp [word_nat]: "unat (w :: 'a::len word) < 2 ^ LENGTH('a)"
  by (rule unsigned_less)

lemma unat_inject: "unat (a :: 'a::len word) = unat b \<longleftrightarrow> a = b"
  by (auto dest: unsigned_word_eqI)

lemma of_nat_unat: "of_nat (unat (a :: 'a::len word)) = a"
  by simp

lemma plus_one_small: "unat (a :: 'a::len word) + 1 < 2 ^ LENGTH('a) \<Longrightarrow> unat (a + 1) = unat a + 1"
  by (simp add: unat_word_ariths)

lemma unat_plus_small [word_nat]:
  fixes a b :: "'a::len word"
  assumes "unat a + unat b < 2 ^ LENGTH('a)"
  shows "unat (a + b) = unat a + unat b"
  using assms by (simp add: unat_word_ariths)

lemma unat_minus_le [word_nat]:
  fixes a b :: "'a::len word"
  assumes "b \<le> a"
  shows "unat (a - b) = unat a - unat b"
  using assms by (rule unat_sub)

lemma unat_mult_small:
  fixes a b :: "'a::len word"
  assumes "unat a * unat b < 2 ^ LENGTH('a)"
  shows "unat (a * b) = unat a * unat b"
  using assms by (simp add: unat_word_ariths)

lemma unat_push_bit_small:
  fixes a :: "'a::len word"
  assumes "unat a * 2 ^ n < 2 ^ LENGTH('a)"
  shows "unat (push_bit n a) = unat a * 2 ^ n"
proof -
  have "unat (push_bit n a) = (unat a * 2 ^ n) mod 2 ^ LENGTH('a)"
    by (subst unsigned_push_bit_eq) (simp add: push_bit_eq_mult take_bit_eq_mod)
  with assms show ?thesis by simp
qed

lemma unat_drop_bit [word_nat]: "unat (drop_bit n (a :: 'a::len word)) = unat a div 2 ^ n"
  by (subst unsigned_drop_bit_eq) (simp add: drop_bit_eq_div take_bit_eq_mod unsigned_less)

lemma unat_ucast_mod: "unat (ucast (a :: 'a::len word) :: 'b::len word) = unat a mod 2 ^ LENGTH('b)"
  by (simp add: unsigned_ucast_eq take_bit_eq_mod)

lemma unat_ucast_up: "unat (ucast (a :: u32) :: u64) = unat a"
proof -
  have "unat a < 2 ^ 32" using unsigned_less [of a] by simp
  then show ?thesis by (simp add: unat_ucast_mod)
qed

lemma unat_and_mask: "unat (a AND mask n :: 'a::len word) = unat a mod 2 ^ n"
  by (subst take_bit_eq_mask [symmetric], subst unsigned_take_bit_eq) (simp add: take_bit_eq_mod)

text \<open>\<open>RoundUp\<close> (on x86) and \<open>RoundDown\<close> of \<^verbatim>\<open>math.h\<close>.\<close>

definition RoundUp :: "'a::len word \<Rightarrow> 'a word \<Rightarrow> 'a word" where
  "RoundUp value step = ((value + step - 1) div step) * step"

definition RoundDown :: "'a::len word \<Rightarrow> 'a word \<Rightarrow> 'a word" where
  "RoundDown value step = value - value mod step"

lemma unat_RoundDown: "unat (RoundDown v s) = unat v - unat v mod unat s"
  unfolding RoundDown_def
  by (subst unat_minus_le) (simp_all add: word_le_nat_alt unat_mod)

section \<open>Chains of array indices\<close>

text \<open>
  \<open>seg nxt null x xs z\<close>: following \<open>nxt\<close> from \<open>x\<close> one meets exactly the indices \<open>xs\<close>, none of
  them null, and arrives at \<open>z\<close>. A null-terminated list threaded through an array is a segment
  that ends in \<open>null\<close>; \<open>backlinks prv p xs\<close> says that its back links are the converse of the forward
  ones, the first of them being \<open>p\<close>.
\<close>

fun seg :: "('i \<Rightarrow> 'i) \<Rightarrow> 'i \<Rightarrow> 'i \<Rightarrow> 'i list \<Rightarrow> 'i \<Rightarrow> bool" where
  "seg nxt null x [] z \<longleftrightarrow> x = z"
| "seg nxt null x (y # ys) z \<longleftrightarrow> x = y \<and> y \<noteq> null \<and> seg nxt null (nxt y) ys z"

fun backlinks :: "('i \<Rightarrow> 'i) \<Rightarrow> 'i \<Rightarrow> 'i list \<Rightarrow> bool" where
  "backlinks prv p [] \<longleftrightarrow> True"
| "backlinks prv p (y # ys) \<longleftrightarrow> prv y = p \<and> backlinks prv y ys"

lemma seg_append [chain_simps]:
  "seg nxt null x (xs @ ys) z \<longleftrightarrow> (\<exists>m. seg nxt null x xs m \<and> seg nxt null m ys z)"
  by (induction xs arbitrary: x) auto

lemma backlinks_append [chain_simps]:
  "backlinks prv p (xs @ ys) \<longleftrightarrow> backlinks prv p xs \<and> backlinks prv (last (p # xs)) ys"
  by (induction xs arbitrary: p) auto

lemma seg_cong:
  assumes "\<And>y. y \<in> set xs \<Longrightarrow> nxt y = nxt' y"
  shows "seg nxt null x xs z \<longleftrightarrow> seg nxt' null x xs z"
  using assms by (induction xs arbitrary: x) auto

lemma backlinks_cong:
  assumes "\<And>y. y \<in> set xs \<Longrightarrow> prv y = prv' y"
  shows "backlinks prv p xs \<longleftrightarrow> backlinks prv' p xs"
  using assms by (induction xs arbitrary: p) auto

lemma seg_null_head [chain_simps]: "seg nxt null null xs null \<longleftrightarrow> xs = []"
  by (cases xs) auto

lemma seg_nonnull_head:
  assumes "seg nxt null x xs null" "x \<noteq> null"
  obtains ys where "xs = x # ys" "seg nxt null (nxt x) ys null"
  using assms by (cases xs) auto

lemma seg_not_null: "seg nxt null x xs z \<Longrightarrow> null \<notin> set xs"
  by (induction xs arbitrary: x) auto

lemma seg_deterministic:
  "seg nxt null x xs null \<Longrightarrow> seg nxt null x ys null \<Longrightarrow> xs = ys"
proof (induction xs arbitrary: x ys)
  case Nil
  then show ?case by (cases ys) auto
next
  case (Cons a xs)
  then show ?case by (cases ys) auto
qed

lemma seg_distinct: "seg nxt null x xs null \<Longrightarrow> distinct xs"
proof (induction xs arbitrary: x)
  case (Cons a xs)
  have "a \<notin> set xs"
  proof
    assume "a \<in> set xs"
    then obtain us vs where xs: "xs = us @ a # vs"
      by (meson split_list)
    with Cons.prems have "seg nxt null (nxt a) vs null" "seg nxt null (nxt a) xs null"
      by (auto simp: seg_append)
    then have "xs = vs"
      by (rule seg_deterministic [rotated])
    with xs show False
      by simp
  qed
  with Cons show ?case by auto
qed simp

text \<open>An array whose elements are linked in order.\<close>

lemma seg_upt:
  fixes nxt :: "'a::len word \<Rightarrow> 'a word"
  assumes "\<And>j. k \<le> j \<Longrightarrow> j < n \<Longrightarrow> of_nat j \<noteq> null"
    and "\<And>j. k \<le> j \<Longrightarrow> j < n \<Longrightarrow> nxt (of_nat j) = (if j + 1 = n then null else of_nat (j + 1))"
    and "k < n"
  shows "seg nxt null (of_nat k) (map of_nat [k..<n]) null"
  using assms
proof (induction "n - k" arbitrary: k)
  case (Suc m)
  show ?case
  proof (cases "k + 1 = n")
    case True
    then show ?thesis using Suc.prems by (simp add: True [symmetric])
  next
    case False
    then have "seg nxt null (of_nat (k + 1)) (map of_nat [k + 1..<n]) null"
      using Suc.hyps(2) Suc.prems by (intro Suc.hyps(1)) simp_all
    with False Suc.prems show ?thesis
      by (simp add: upt_conv_Cons)
  qed
qed simp

section \<open>Stacks threaded through an array\<close>

text \<open>
  The pseudo-stacks of the kernel keep a head index and, in every element, the index of the
  next one. A client sees a list of indices: \<open>push\<close> puts an element on it and \<open>pop\<close> takes the
  head off, while nothing else is disturbed.
\<close>

locale index_stack =
  fixes head :: "'s \<Rightarrow> 'i"
    and nxt :: "'s \<Rightarrow> 'i \<Rightarrow> 'i"
    and null :: 'i
    and valid :: "'s \<Rightarrow> 'i \<Rightarrow> bool"
    and push :: "'i \<Rightarrow> 's \<Rightarrow> 's"
    and pop :: "'s \<Rightarrow> 's"
  assumes head_push: "head (push i s) = i"
    and nxt_push: "valid s i \<Longrightarrow> nxt (push i s) j = (if j = i then head s else nxt s j)"
    and head_pop: "head (pop s) = nxt s (head s)"
    and nxt_pop: "valid s (head s) \<Longrightarrow> nxt (pop s) j = nxt s j"
begin

definition stack :: "'s \<Rightarrow> 'i list \<Rightarrow> bool" where
  "stack s xs \<longleftrightarrow> seg (nxt s) null (head s) xs null"

lemma stack_unique: "stack s xs \<Longrightarrow> stack s ys \<Longrightarrow> xs = ys"
  unfolding stack_def by (rule seg_deterministic)

lemma stack_distinct: "stack s xs \<Longrightarrow> distinct xs"
  unfolding stack_def by (rule seg_distinct)

lemma stack_empty: "stack s xs \<Longrightarrow> head s = null \<longleftrightarrow> xs = []"
  unfolding stack_def by (cases xs) auto

lemma stack_push:
  assumes "stack s xs" "valid s i" "i \<noteq> null" "i \<notin> set xs"
  shows "stack (push i s) (i # xs)"
proof -
  have "seg (nxt (push i s)) null (head s) xs null \<longleftrightarrow> seg (nxt s) null (head s) xs null"
    using assms by (intro seg_cong) (auto simp: nxt_push)
  with assms show ?thesis
    by (simp add: stack_def head_push nxt_push)
qed

lemma stack_pop:
  assumes "stack s (x # xs)" "valid s x"
  shows "stack (pop s) xs" "head s = x"
proof -
  from assms show head: "head s = x" by (simp add: stack_def)
  have "seg (nxt (pop s)) null (nxt s x) xs null \<longleftrightarrow> seg (nxt s) null (nxt s x) xs null"
    using assms head by (intro seg_cong) (auto simp: nxt_pop)
  with assms head show "stack (pop s) xs"
    by (simp add: stack_def head_pop)
qed

lemma stack_pop_push:
  assumes "stack s xs" "valid s i" "valid (push i s) i" "i \<noteq> null" "i \<notin> set xs"
  shows "stack (pop (push i s)) xs"
  using stack_pop(1) [OF stack_push] assms by blast

end

section \<open>Simulations\<close>

text \<open>
  A step relation implements an abstract one when related states stay related; then every state
  the implementation reaches is related to one the abstraction reaches.
\<close>

locale simulation =
  fixes step :: "'s \<Rightarrow> 's \<Rightarrow> bool"
    and astep :: "'a \<Rightarrow> 'a \<Rightarrow> bool"
    and rel :: "'s \<Rightarrow> 'a \<Rightarrow> bool"
  assumes step_simulates: "rel s a \<Longrightarrow> step s s' \<Longrightarrow> \<exists>a'. (astep a a' \<or> a' = a) \<and> rel s' a'"
begin

lemma reachable_simulates:
  assumes "rtranclp step s s'" "rel s a"
  shows "\<exists>a'. rtranclp astep a a' \<and> rel s' a'"
  using assms
proof (induction rule: rtranclp_induct)
  case (step y z)
  then obtain a' where "rtranclp astep a a'" "rel y a'" by blast
  moreover from step_simulates [OF this(2) step(2)]
  obtain b where "astep a' b \<or> b = a'" "rel z b" by blast
  ultimately show ?case by (metis rtranclp.rtrancl_into_rtrancl)
qed blast

end

end
