(* ===== verification/Handles.thy ===== *)
theory Handles
  imports Beel_Prelude
begin

text \<open>
  \<^verbatim>\<open>sysheaders/common/beel/handles.h\<close>: the 64-bit \<open>Handle\<close> that every fallible kernel
  operation returns. Its low byte is the handle type; a result handle keeps up to six
  one-byte result codes above it, their count in bits 60 to 62 and a fatal flag in bit 63.
\<close>

section \<open>Result codes and handle types\<close>

datatype HandleType =
    Invalid | Result | Page | Thread | Process | Job | KernelModule | Channel
  | InitRdFile | InitRdDirectory

fun HandleType_code :: "HandleType \<Rightarrow> u8" where
  "HandleType_code Invalid = 0x00"
| "HandleType_code Result = 0x01"
| "HandleType_code Page = 0x02"
| "HandleType_code Thread = 0x10"
| "HandleType_code Process = 0x11"
| "HandleType_code Job = 0x12"
| "HandleType_code KernelModule = 0x1F"
| "HandleType_code Channel = 0x20"
| "HandleType_code InitRdFile = 0x30"
| "HandleType_code InitRdDirectory = 0x31"

datatype HandleResult =
    Okay | OutOfMemory | NotFound | IntegrityFailure | CardinalityViolation | Timeout
  | AlignmentFailure | UnsupportedOperation | NotImplemented | ObjectDisposed | Failed
  | ArgumentTemplateInvalid | ArgumentOutOfRange | ArgumentNull | HandleInvalid
  | SyscallSelectionInvalid | FormatBadSpecifier | FormatBadArgumentSize
  | PagesOutOfAllocatorRange | PageReserved | PageFree | PageInUse | PageCaching
  | PageStacked | PageNotStacked | PageMapIllegalRange | PageMapped | PageUnmapped
  | PageUndemandable | PageGuard | ThreadAlreadyLinked | CmdOptionsMalformatted
  | CmdOptionValueTypeInvalid | CmdOptionValueNotInTable | ObjaPoolsExhausted
  | ObjaAlreadyFree | ObjaMaximumCapacity | ImageLoadingFailure | ImageRelocationFailure
  | RuntimeMismatch | ImmediateTermination | AssertionFailure | NonZeroReturnCode

fun HandleResult_code :: "HandleResult \<Rightarrow> u8" where
  "HandleResult_code Okay = 0x00"
| "HandleResult_code OutOfMemory = 0x01"
| "HandleResult_code NotFound = 0x02"
| "HandleResult_code IntegrityFailure = 0x03"
| "HandleResult_code CardinalityViolation = 0x04"
| "HandleResult_code Timeout = 0x05"
| "HandleResult_code AlignmentFailure = 0x08"
| "HandleResult_code UnsupportedOperation = 0x09"
| "HandleResult_code NotImplemented = 0x0A"
| "HandleResult_code ObjectDisposed = 0x0B"
| "HandleResult_code Failed = 0x0F"
| "HandleResult_code ArgumentTemplateInvalid = 0x10"
| "HandleResult_code ArgumentOutOfRange = 0x11"
| "HandleResult_code ArgumentNull = 0x12"
| "HandleResult_code HandleInvalid = 0x1E"
| "HandleResult_code SyscallSelectionInvalid = 0x1F"
| "HandleResult_code FormatBadSpecifier = 0x20"
| "HandleResult_code FormatBadArgumentSize = 0x21"
| "HandleResult_code PagesOutOfAllocatorRange = 0x30"
| "HandleResult_code PageReserved = 0x31"
| "HandleResult_code PageFree = 0x32"
| "HandleResult_code PageInUse = 0x33"
| "HandleResult_code PageCaching = 0x34"
| "HandleResult_code PageStacked = 0x35"
| "HandleResult_code PageNotStacked = 0x36"
| "HandleResult_code PageMapIllegalRange = 0x40"
| "HandleResult_code PageMapped = 0x41"
| "HandleResult_code PageUnmapped = 0x42"
| "HandleResult_code PageUndemandable = 0x43"
| "HandleResult_code PageGuard = 0x44"
| "HandleResult_code ThreadAlreadyLinked = 0x50"
| "HandleResult_code CmdOptionsMalformatted = 0x60"
| "HandleResult_code CmdOptionValueTypeInvalid = 0x61"
| "HandleResult_code CmdOptionValueNotInTable = 0x62"
| "HandleResult_code ObjaPoolsExhausted = 0x70"
| "HandleResult_code ObjaAlreadyFree = 0x71"
| "HandleResult_code ObjaMaximumCapacity = 0x72"
| "HandleResult_code ImageLoadingFailure = 0x80"
| "HandleResult_code ImageRelocationFailure = 0x81"
| "HandleResult_code RuntimeMismatch = 0x82"
| "HandleResult_code ImmediateTermination = 0xFD"
| "HandleResult_code AssertionFailure = 0xFE"
| "HandleResult_code NonZeroReturnCode = 0xFF"

section \<open>The handle word\<close>

type_synonym Handle = u64

definition OkayResultWord :: u16 where
  "OkayResultWord = 0x0001"

definition TypeBits :: u64 where "TypeBits = 0x00000000000000FF"
definition IndexBits :: u64 where "IndexBits = 0x7FFFFFFFFFFFFF00"
definition GlobalFatalBit :: u64 where "GlobalFatalBit = 0x8000000000000000"
definition ResultCountBits :: u64 where "ResultCountBits = 0x7000000000000000"
definition ResultsPreshiftBits :: u64 where "ResultsPreshiftBits = 0x0000FFFFFFFFFF00"

text \<open>The union member \<open>Bytes[i]\<close> of the little-endian handle.\<close>

definition Bytes :: "Handle \<Rightarrow> nat \<Rightarrow> u8" where
  "Bytes h i = ucast (drop_bit (8 * i) h)"

definition Handle_of_index :: "HandleType \<Rightarrow> u64 \<Rightarrow> bool \<Rightarrow> Handle" where
  "Handle_of_index type index global =
     ucast (HandleType_code type) OR (push_bit 8 index AND IndexBits)
       OR (if global then GlobalFatalBit else 0)"

definition Handle_of_result :: "HandleResult \<Rightarrow> Handle" where
  "Handle_of_result res =
     ucast (ucast (HandleType_code Result) OR push_bit 8 (ucast (HandleResult_code res)) :: u16)"

definition Handle_of_result_fatal :: "HandleResult \<Rightarrow> bool \<Rightarrow> Handle" where
  "Handle_of_result_fatal res fatal =
     ucast (ucast (HandleType_code Result) OR push_bit 8 (ucast (HandleResult_code res)) :: u16)
       OR (if fatal then GlobalFatalBit else 0)"

definition IsType :: "Handle \<Rightarrow> HandleType \<Rightarrow> bool" where
  "IsType h type \<longleftrightarrow> Bytes h 0 = HandleType_code type"

definition IsGlobal :: "Handle \<Rightarrow> bool" where
  "IsGlobal h \<longleftrightarrow> 0 \<noteq> Bytes h 7 AND 0x80 \<and> Bytes h 0 \<noteq> HandleType_code Result
     \<and> Bytes h 0 \<noteq> HandleType_code Invalid"

definition IsValid :: "Handle \<Rightarrow> bool" where
  "IsValid h \<longleftrightarrow> \<not> IsType h Invalid"

definition GetIndex :: "Handle \<Rightarrow> u64" where
  "GetIndex h =
     (if IsType h Result \<or> IsType h Invalid then NOT 0 else drop_bit 8 (h AND IndexBits))"

definition GetResult :: "Handle \<Rightarrow> u8" where
  "GetResult h = Bytes h 1"

definition GetResultCount :: "Handle \<Rightarrow> nat" where
  "GetResultCount h = unat (drop_bit 4 (Bytes h 7 AND 0x70))"

definition WithPreppendedResult :: "Handle \<Rightarrow> HandleResult \<Rightarrow> Handle" where
  "WithPreppendedResult h res =
     (if \<not> IsType h Result then 0
      else
        let resultCount = GetResultCount h;
            nonResultBits =
              (if resultCount < 6
               then push_bit 60 (of_nat resultCount + 1) OR (h AND (TypeBits OR GlobalFatalBit))
               else h AND (TypeBits OR GlobalFatalBit OR ResultCountBits))
        in nonResultBits OR push_bit 8 (h AND ResultsPreshiftBits)
             OR push_bit 8 (ucast (HandleResult_code res)))"

definition IsResult :: "Handle \<Rightarrow> HandleResult \<Rightarrow> bool" where
  "IsResult h res \<longleftrightarrow> Bytes h 1 = HandleResult_code res \<and> Bytes h 0 = HandleType_code Result"

definition IsFatalResult :: "Handle \<Rightarrow> bool" where
  "IsFatalResult h \<longleftrightarrow> 0 \<noteq> Bytes h 7 AND 0x80 \<and> Bytes h 0 = HandleType_code Result"

definition IsOkayResult :: "Handle \<Rightarrow> bool" where
  "IsOkayResult h \<longleftrightarrow> (ucast h :: u16) = OkayResultWord"

section \<open>Bits of the handle word\<close>

lemma TypeBits_mask [mask_bits]: "TypeBits = mask 8"
  by (simp add: TypeBits_def mask_eq_exp_minus_1)

lemma IndexBits_mask [mask_bits]: "IndexBits = push_bit 8 (mask 55)"
  by (simp add: IndexBits_def mask_eq_exp_minus_1 push_bit_eq_mult)

lemma bit_GlobalFatalBit [mask_bits]: "bit GlobalFatalBit n \<longleftrightarrow> n = 63"
proof -
  have e: "GlobalFatalBit = 2 ^ 63" by (simp add: GlobalFatalBit_def)
  show ?thesis by (subst e, subst bit_exp_iff) auto
qed

lemma ResultCountBits_mask [mask_bits]: "ResultCountBits = push_bit 60 (mask 3)"
  by (simp add: ResultCountBits_def mask_eq_exp_minus_1 push_bit_eq_mult)

lemma ResultsPreshiftBits_mask [mask_bits]: "ResultsPreshiftBits = push_bit 8 (mask 40)"
  by (simp add: ResultsPreshiftBits_def mask_eq_exp_minus_1 push_bit_eq_mult)

lemma bit_Bytes [mask_bits]: "bit (Bytes h i) n \<longleftrightarrow> n < 8 \<and> bit h (8 * i + n)"
  by (auto simp: Bytes_def bit_simps algebra_simps)

lemma fatal_byte_bit: "0 \<noteq> Bytes h 7 AND 0x80 \<longleftrightarrow> bit h 63"
proof -
  have "(0x80 :: u8) = push_bit 7 1" by (simp add: push_bit_eq_mult)
  then have "Bytes h 7 AND 0x80 = 0 \<longleftrightarrow> \<not> bit (Bytes h 7) 7"
    by (simp only: and_exp_eq_0_iff_not_bit push_bit_of_1)
  then show ?thesis by (auto simp: bit_Bytes)
qed

lemma GetResultCount_eq: "GetResultCount h = unat (drop_bit 60 h) mod 8"
proof -
  have m: "(0x70 :: u8) = push_bit 4 (mask 3)"
    by (simp add: mask_eq_exp_minus_1 push_bit_eq_mult)
  have "(drop_bit 4 (Bytes h 7 AND 0x70) :: u8) = ucast (drop_bit 60 h AND mask 3)"
    by (rule bit_word_eqI) (auto simp: m bit_simps bit_Bytes ac_simps)
  then have "GetResultCount h = unat (ucast (drop_bit 60 h AND mask 3) :: u8)"
    by (simp add: GetResultCount_def)
  moreover have "unat (drop_bit 60 h AND mask 3) < 8"
    by (simp add: unat_and_mask)
  ultimately show ?thesis
    by (simp add: unsigned_ucast_eq take_bit_eq_mod unat_and_mask)
qed

lemma GetResultCount_less: "GetResultCount h < 8"
  by (simp add: GetResultCount_eq)

lemma code_inj: "HandleResult_code a = HandleResult_code b \<longleftrightarrow> a = b"
  by (cases a; cases b; simp)

lemma type_code_inj: "HandleType_code a = HandleType_code b \<longleftrightarrow> a = b"
  by (cases a; cases b; simp)

section \<open>Properties\<close>

lemmas handle_word_defs =
  IsType_def IsResult_def IsFatalResult_def IsOkayResult_def GetResult_def OkayResultWord_def

lemma Handle_of_result_eq:
  "Handle_of_result r = ucast (HandleType_code Result) OR push_bit 8 (ucast (HandleResult_code r))"
  by (rule bit_word_eqI) (auto simp: Handle_of_result_def bit_simps dest: bit_imp_le_length)

lemma Bytes_Handle_of_result:
  "Bytes (Handle_of_result r) 0 = HandleType_code Result"
  "Bytes (Handle_of_result r) 1 = HandleResult_code r"
  by (rule bit_word_eqI;
      auto simp: Handle_of_result_eq bit_Bytes bit_simps simp del: HandleType_code.simps
        dest: bit_imp_le_length)+

text \<open>
  A handle built from a result code answers exactly that code: \<open>IsResult\<close> recognises it and
  no other one, \<open>GetResult\<close> returns it, the handle is a valid non-fatal result, and
  \<open>IsOkayResult\<close> (which compares only the low word) holds exactly for \<open>Okay\<close>.
\<close>

theorem Handle_of_result_roundtrip:
  "GetResult (Handle_of_result r) = HandleResult_code r
   \<and> (IsResult (Handle_of_result r) r' \<longleftrightarrow> r' = r)
   \<and> IsValid (Handle_of_result r) \<and> \<not> IsFatalResult (Handle_of_result r)
   \<and> (IsOkayResult (Handle_of_result r) \<longleftrightarrow> r = Okay)"
proof (intro conjI)
  show "GetResult (Handle_of_result r) = HandleResult_code r"
    by (simp add: GetResult_def Bytes_Handle_of_result [simplified])
  show "IsResult (Handle_of_result r) r' \<longleftrightarrow> r' = r"
    using code_inj [of r r'] by (auto simp: IsResult_def Bytes_Handle_of_result [simplified])
  show "IsValid (Handle_of_result r)"
    by (simp add: IsValid_def IsType_def Bytes_Handle_of_result)
  show "\<not> IsFatalResult (Handle_of_result r)"
    by (simp only: IsFatalResult_def fatal_byte_bit)
       (auto simp: Handle_of_result_eq bit_simps dest: bit_imp_le_length)
  have "(ucast (Handle_of_result r) :: u16) = 1 OR push_bit 8 (ucast (HandleResult_code r))"
    by (rule bit_word_eqI) (auto simp: Handle_of_result_def bit_simps)
  moreover have "(1 OR push_bit 8 (ucast (HandleResult_code r)) :: u16) = 1 \<longleftrightarrow> r = Okay"
    by (cases r) simp_all
  ultimately show "IsOkayResult (Handle_of_result r) \<longleftrightarrow> r = Okay"
    by (simp add: IsOkayResult_def OkayResultWord_def)
qed

lemma Handle_of_index_bits:
  "bit (Handle_of_index t i g) n \<longleftrightarrow>
     (if n < 8 then bit (HandleType_code t) n
      else if n < 63 then bit i (n - 8)
      else n = 63 \<and> g)"
  by (auto simp: Handle_of_index_def mask_bits bit_simps dest: bit_imp_le_length)

text \<open>
  An object handle keeps its type, its global flag and every index that fits the 55 index
  bits; \<open>GetIndex\<close> answers all ones for a result or an invalid handle instead.
\<close>

theorem Handle_of_index_roundtrip:
  assumes "i < 2 ^ 55" and "t \<noteq> Result" and "t \<noteq> Invalid"
  shows "GetIndex (Handle_of_index t i g) = i \<and> IsType (Handle_of_index t i g) t
         \<and> (IsGlobal (Handle_of_index t i g) \<longleftrightarrow> g)"
proof -
  have b0: "Bytes (Handle_of_index t i g) 0 = HandleType_code t"
    by (rule bit_word_eqI) (simp add: bit_Bytes Handle_of_index_bits)
  have high: "\<not> bit i n" if "55 \<le> n" for n
  proof -
    have "take_bit 55 i = i"
      using assms(1) by (simp add: take_bit_eq_mask less_mask_eq)
    then show ?thesis using that by (metis bit_take_bit_iff not_le)
  qed
  have "drop_bit 8 (Handle_of_index t i g AND IndexBits) = i"
    by (rule bit_word_eqI)
       (auto simp: bit_simps mask_bits Handle_of_index_bits high dest: bit_imp_le_length intro: ccontr [where P = "_ < (55::nat)"])
  moreover have "IsGlobal (Handle_of_index t i g) \<longleftrightarrow> g"
    using assms(2,3) by (simp only: IsGlobal_def b0 type_code_inj fatal_byte_bit Handle_of_index_bits) simp
  ultimately show ?thesis
    using b0 assms(2,3) by (simp add: GetIndex_def IsType_def type_code_inj del: HandleType_code.simps)
qed

theorem Handle_of_index_roundtrip_witness:
  "GetIndex (Handle_of_index Thread 0x1234 True) = 0x1234
   \<and> IsType (Handle_of_index Thread 0x1234 True) Thread
   \<and> (IsGlobal (Handle_of_index Thread 0x1234 True) \<longleftrightarrow> True)"
  by (rule Handle_of_index_roundtrip) simp_all

text \<open>The result codes a result handle carries, primary first: at most six of them.\<close>

definition handle_results :: "Handle \<Rightarrow> u8 list" where
  "handle_results h = map (\<lambda>i. Bytes h (i + 1)) [0..<min 6 (GetResultCount h + 1)]"

lemma GetResultCount_word: "(of_nat (GetResultCount h) :: u64) = take_bit 3 (drop_bit 60 h)"
proof -
  have "unat (take_bit 3 (drop_bit 60 h)) = GetResultCount h"
    by (simp add: take_bit_eq_mod GetResultCount_eq unat_mod)
  then show ?thesis by (metis of_nat_unat ucast_id)
qed

definition next_count :: "Handle \<Rightarrow> nat" where
  "next_count h = (if GetResultCount h < 6 then GetResultCount h + 1 else GetResultCount h)"

lemma next_count_less: "next_count h < 8"
  using GetResultCount_less [of h] by (auto simp: next_count_def)

lemma small_count_high_bits:
  assumes "c < 8" and "3 \<le> n"
  shows "\<not> bit (of_nat c :: u64) n"
proof -
  have "(of_nat c :: u64) < 2 ^ 3"
    using assms(1) by (simp add: word_less_nat_alt unat_of_nat)
  then have "take_bit 3 (of_nat c :: u64) = of_nat c"
    by (simp only: take_bit_eq_mask less_mask_eq)
  then show ?thesis using assms(2) by (metis bit_take_bit_iff not_le)
qed

lemma WithPreppendedResult_bits:
  assumes "IsType h Result"
  shows "bit (WithPreppendedResult h r) n \<longleftrightarrow>
     (if n < 8 then bit h n
      else if n < 16 then bit (HandleResult_code r) (n - 8)
      else if n < 56 then bit h (n - 8)
      else if n < 60 then False
      else if n < 63 then bit (of_nat (next_count h) :: u64) (n - 60)
      else n = 63 \<and> bit h 63)"
proof -
  have c: "bit h n = bit (of_nat (GetResultCount h) :: u64) (n - 60)" if "60 \<le> n" "n < 63"
    using that by (auto simp: GetResultCount_word bit_simps)
  have hi: "\<not> bit (1 + of_nat (GetResultCount h) :: u64) (n - 60)"
    if "GetResultCount h < 6" "\<not> n < 63"
    using small_count_high_bits [of "GetResultCount h + 1" "n - 60"] that by (simp add: ac_simps)
  show ?thesis
  proof (cases "GetResultCount h < 6")
    case True
    then show ?thesis using assms
      by (auto simp: WithPreppendedResult_def Let_def bit_simps mask_bits next_count_def hi ac_simps dest: bit_imp_le_length)
  next
    case False
    then show ?thesis using assms
      by (auto simp: WithPreppendedResult_def Let_def bit_simps mask_bits next_count_def c dest: bit_imp_le_length)
  qed
qed

lemma GetResultCount_prepended:
  assumes "IsType h Result"
  shows "GetResultCount (WithPreppendedResult h r) = next_count h"
proof -
  have "(of_nat (GetResultCount (WithPreppendedResult h r)) :: u64) = of_nat (next_count h)"
    unfolding GetResultCount_word
    using small_count_high_bits [OF next_count_less, of _ h]
    by (intro bit_word_eqI) (auto simp: bit_simps WithPreppendedResult_bits [OF assms])
  from arg_cong [OF this, of unat] show ?thesis
    using GetResultCount_less [of "WithPreppendedResult h r"] next_count_less [of h]
    by (simp add: unat_of_nat)
qed

lemma Bytes_prepended:
  assumes "IsType h Result"
  shows "Bytes (WithPreppendedResult h r) 0 = Bytes h 0"
    and "Bytes (WithPreppendedResult h r) (Suc 0) = HandleResult_code r"
    and "1 \<le> i \<Longrightarrow> i < 6 \<Longrightarrow> Bytes (WithPreppendedResult h r) (Suc i) = Bytes h i"
proof -
  show "Bytes (WithPreppendedResult h r) 0 = Bytes h 0"
    by (rule bit_word_eqI) (simp add: bit_Bytes WithPreppendedResult_bits [OF assms])
  show "Bytes (WithPreppendedResult h r) (Suc 0) = HandleResult_code r"
    by (rule bit_word_eqI) (simp add: bit_Bytes WithPreppendedResult_bits [OF assms])
  show "Bytes (WithPreppendedResult h r) (Suc i) = Bytes h i" if "1 \<le> i" "i < 6"
    using that by (intro bit_word_eqI) (simp add: bit_Bytes WithPreppendedResult_bits [OF assms])
qed

text \<open>
  Prepending a result to a result handle pushes its code in front of the codes already
  there, keeping the six most recent ones, and keeps the type and the fatal flag; on any other
  handle it answers the invalid null handle.
\<close>

theorem WithPreppendedResult_pushes:
  "(IsType h Result \<longrightarrow>
      handle_results (WithPreppendedResult h r) = take 6 (HandleResult_code r # handle_results h)
      \<and> IsType (WithPreppendedResult h r) Result
      \<and> (IsFatalResult (WithPreppendedResult h r) \<longleftrightarrow> IsFatalResult h))
   \<and> (\<not> IsType h Result \<longrightarrow> WithPreppendedResult h r = 0 \<and> \<not> IsValid (WithPreppendedResult h r))"
proof (intro conjI impI)
  assume t: "IsType h Result"
  let ?m = "min 6 (GetResultCount h + 1)"
  let ?f = "\<lambda>i. Bytes (WithPreppendedResult h r) (i + 1)"
  have tail: "take 5 (map (?f \<circ> Suc) [0..<m]) = take 5 (map (\<lambda>i. Bytes h (i + 1)) [0..<m])" for m
    by (rule nth_equalityI) (auto simp: Bytes_prepended [OF t])
  have "min 6 (next_count h + 1) = min 6 (Suc ?m)"
    by (simp add: next_count_def)
  then have "handle_results (WithPreppendedResult h r) = map ?f [0..<min 6 (Suc ?m)]"
    by (simp only: handle_results_def GetResultCount_prepended [OF t])
  also have "\<dots> = take 6 (map ?f [0..<Suc ?m])"
    by (simp only: take_map take_upt [symmetric] min_def) (auto simp: take_upt simp del: upt_Suc)
  also have "\<dots> = take 6 (?f 0 # map (?f \<circ> Suc) [0..<?m])"
    by (simp only: upt_conv_Cons [OF zero_less_Suc] map_Suc_upt [symmetric] list.map map_map)
  also have "\<dots> = take 6 (HandleResult_code r # handle_results h)"
    using tail [of ?m] by (simp add: take_Cons' handle_results_def Bytes_prepended [OF t])
  finally show "handle_results (WithPreppendedResult h r) = take 6 (HandleResult_code r # handle_results h)" .
  show "IsType (WithPreppendedResult h r) Result"
    using t Bytes_prepended(1) [OF t, of r] by (simp add: IsType_def)
  then show "IsFatalResult (WithPreppendedResult h r) \<longleftrightarrow> IsFatalResult h"
    using t by (simp only: IsFatalResult_def fatal_byte_bit WithPreppendedResult_bits [OF t] IsType_def) simp
next
  assume "\<not> IsType h Result"
  then show z: "WithPreppendedResult h r = 0" by (simp add: WithPreppendedResult_def)
  show "\<not> IsValid (WithPreppendedResult h r)"
    by (simp add: z IsValid_def IsType_def Bytes_def)
qed

theorem WithPreppendedResult_pushes_witness:
  "IsType (Handle_of_result NotFound) Result
   \<and> handle_results (WithPreppendedResult (Handle_of_result NotFound) Failed)
       = take 6 (HandleResult_code Failed # handle_results (Handle_of_result NotFound))
   \<and> \<not> IsType 0 Result \<and> WithPreppendedResult 0 Failed = 0"
proof -
  have "IsType (Handle_of_result NotFound) Result"
    by (simp add: IsType_def Bytes_Handle_of_result)
  moreover have "\<not> IsType 0 Result"
    by (simp add: IsType_def Bytes_def)
  ultimately show ?thesis
    using WithPreppendedResult_pushes [of "Handle_of_result NotFound" Failed]
      WithPreppendedResult_pushes [of 0 Failed] by blast
qed

end
