(* ===== verification/Avl_Tree.thy ===== *)
theory Avl_Tree
  imports Handles
begin

text \<open>
  \<^verbatim>\<open>sysheaders/common/beel/utils/avl.tree.hpp\<close>: the intrusive AVL tree the kernel keeps its
  memory regions in.

  A node is owned by exactly one parent, so a subtree reached through a \<open>Node *\<close> is a value
  of the tree type and a \<open>Node * & node\<close> parameter is a subtree passed in and returned
  updated. A pointer to a detached node is the payload it carries (\<open>None\<close> for \<open>nullptr\<close>).
  Following a null pointer is the value \<open>None\<close> of the outer option: no operation below ever
  yields it on a tree whose stored heights are right, which is part of what is proved.

  What the class leaves to its users is a parameter here: \<open>Compare\<close> (two template
  specialisations, payload against payload and payload against key) and the static members
  \<open>AllocateNode\<close> and \<open>RemoveNode\<close>, which work on the tree's \<open>Cookie\<close>.
\<close>

section \<open>Nodes\<close>

datatype 'p avl_node =
    Nullptr
  | AvlTreeNode (Left: "'p avl_node") (Right: "'p avl_node") (Height: int) (Payload: 'p)

fun GetHeight :: "'p avl_node \<Rightarrow> int" where
  "GetHeight Nullptr = 0"
| "GetHeight (AvlTreeNode l r h p) = h"

fun GetBalance :: "'p avl_node \<Rightarrow> int" where
  "GetBalance Nullptr = 0"
| "GetBalance (AvlTreeNode l r h p) = GetHeight r - GetHeight l"

text \<open>\<open>ComputeHeight\<close> stores the recomputed height in the node it is called on.\<close>

fun ComputeHeight :: "'p avl_node \<Rightarrow> 'p avl_node" where
  "ComputeHeight Nullptr = Nullptr"
| "ComputeHeight (AvlTreeNode l r h p) = AvlTreeNode l r (max (GetHeight l) (GetHeight r) + 1) p"

fun FindMinimum :: "'p avl_node \<Rightarrow> 'p avl_node option" where
  "FindMinimum Nullptr = None"
| "FindMinimum (AvlTreeNode l r h p) =
     (if l = Nullptr then Some (AvlTreeNode l r h p) else FindMinimum l)"

fun FindMaximum :: "'p avl_node \<Rightarrow> 'p avl_node option" where
  "FindMaximum Nullptr = None"
| "FindMaximum (AvlTreeNode l r h p) =
     (if r = Nullptr then Some (AvlTreeNode l r h p) else FindMaximum r)"

fun RotateLeft :: "'p avl_node \<Rightarrow> 'p avl_node option" where
  "RotateLeft (AvlTreeNode l (AvlTreeNode rl rr rh rp) h p) =
     Some (ComputeHeight (AvlTreeNode (ComputeHeight (AvlTreeNode l rl h p)) rr rh rp))"
| "RotateLeft _ = None"

fun RotateRight :: "'p avl_node \<Rightarrow> 'p avl_node option" where
  "RotateRight (AvlTreeNode (AvlTreeNode ll lr lh lp) r h p) =
     Some (ComputeHeight (AvlTreeNode ll (ComputeHeight (AvlTreeNode lr r h p)) lh lp))"
| "RotateRight _ = None"

fun Balance :: "'p avl_node \<Rightarrow> 'p avl_node option" where
  "Balance Nullptr = None"
| "Balance (AvlTreeNode l r h p) =
     (let this = ComputeHeight (AvlTreeNode l r h p); balance = GetBalance this in
      if balance > 1 then
        (if GetBalance r < 0
         then Option.bind (RotateRight r) (\<lambda>r'. RotateLeft (AvlTreeNode l r' (Height this) p))
         else RotateLeft this)
      else if balance < -1 then
        (if GetBalance l > 0
         then Option.bind (RotateLeft l) (\<lambda>l'. RotateRight (AvlTreeNode l' r (Height this) p))
         else RotateRight this)
      else Some this)"

section \<open>Static operations on subtrees\<close>

fun Find :: "('p \<Rightarrow> 'k \<Rightarrow> int) \<Rightarrow> 'k \<Rightarrow> 'p avl_node \<Rightarrow> 'p option" where
  "Find Compare key Nullptr = None"
| "Find Compare key (AvlTreeNode l r h p) =
     (let compRes = Compare p key in
      if compRes = 0 then Some p
      else if compRes > 0 then Find Compare key l
      else Find Compare key r)"

fun FindPred :: "('p \<Rightarrow> int) \<Rightarrow> 'p avl_node \<Rightarrow> 'p option" where
  "FindPred pred Nullptr = None"
| "FindPred pred (AvlTreeNode l r h p) =
     (let compRes = pred p in
      if compRes = 0 then Some p
      else if compRes > 0 then FindPred pred l
      else FindPred pred r)"

text \<open>
  \<open>Create\<close>: a fresh leaf, when \<open>AllocateNode\<close> provides one. The allocator is a function on
  its state \<open>'c\<close> (what the \<open>Cookie\<close> points to); a failed allocation leaves the pointer null.
\<close>

type_synonym 'c node_alloc = "'c \<Rightarrow> HandleResult \<times> 'c"

definition Create :: "'c node_alloc \<Rightarrow> 'p \<Rightarrow> 'c \<Rightarrow> HandleResult \<times> 'p avl_node \<times> 'c" where
  "Create AllocateNode payload cookie =
     (let (res, cookie') = AllocateNode cookie in
      if res = Okay then (res, AvlTreeNode Nullptr Nullptr 1 payload, cookie')
      else (res, Nullptr, cookie'))"

text \<open>
  \<open>Insert\<close>. Its out-parameter \<open>newNode\<close> is the pointer \<open>Create\<close> left in the null link the
  descent ended at: on success the node that carries \<open>payload\<close>, so it is no separate result.
\<close>

fun Insert :: "('p \<Rightarrow> 'p \<Rightarrow> int) \<Rightarrow> 'c node_alloc \<Rightarrow> 'p \<Rightarrow> 'p avl_node \<Rightarrow> 'c
    \<Rightarrow> (HandleResult \<times> 'p avl_node \<times> 'c) option" where
  "Insert Compare AllocateNode payload Nullptr cookie =
     Some (Create AllocateNode payload cookie)"
| "Insert Compare AllocateNode payload (AvlTreeNode l r h p) cookie =
     (let compRes = Compare p payload in
      if compRes = 0 then Some (CardinalityViolation, AvlTreeNode l r h p, cookie)
      else if compRes > 0 then
        Option.bind (Insert Compare AllocateNode payload l cookie) (\<lambda>(res, l', cookie').
          if res = Okay
          then map_option (\<lambda>node. (res, node, cookie')) (Balance (AvlTreeNode l' r h p))
          else Some (res, AvlTreeNode l' r h p, cookie'))
      else
        Option.bind (Insert Compare AllocateNode payload r cookie) (\<lambda>(res, r', cookie').
          if res = Okay
          then map_option (\<lambda>node. (res, node, cookie')) (Balance (AvlTreeNode l r' h p))
          else Some (res, AvlTreeNode l r' h p, cookie')))"

text \<open>
  \<open>InsertOrFind\<close>: the cover's own comparison against payloads, and its \<open>Finding\<close> as result.
\<close>

fun InsertOrFind :: "('p \<Rightarrow> 'p \<Rightarrow> int) \<Rightarrow> 'c node_alloc \<Rightarrow> 'p \<Rightarrow> 'p avl_node \<Rightarrow> 'c
    \<Rightarrow> (HandleResult \<times> 'p option \<times> 'p avl_node \<times> 'c) option" where
  "InsertOrFind CompareCover AllocateNode payload Nullptr cookie =
     (let (res, node, cookie') = Create AllocateNode payload cookie
      in Some (res, None, node, cookie'))"
| "InsertOrFind CompareCover AllocateNode payload (AvlTreeNode l r h p) cookie =
     (let compRes = CompareCover p payload in
      if compRes = 0 then Some (CardinalityViolation, Some p, AvlTreeNode l r h p, cookie)
      else if compRes > 0 then
        Option.bind (InsertOrFind CompareCover AllocateNode payload l cookie)
          (\<lambda>(res, finding, l', cookie').
            if res = Okay
            then map_option (\<lambda>node. (res, finding, node, cookie')) (Balance (AvlTreeNode l' r h p))
            else Some (res, finding, AvlTreeNode l' r h p, cookie'))
      else
        Option.bind (InsertOrFind CompareCover AllocateNode payload r cookie)
          (\<lambda>(res, finding, r', cookie').
            if res = Okay
            then map_option (\<lambda>node. (res, finding, node, cookie')) (Balance (AvlTreeNode l r' h p))
            else Some (res, finding, AvlTreeNode l r' h p, cookie')))"

text \<open>
  \<open>InsertBlank\<close>: like \<open>Insert\<close>, but placed by a key; the new node's payload is left as the
  allocator returned it (\<open>blank\<close>) for the caller to fill in.
\<close>

fun InsertBlank :: "('p \<Rightarrow> 'k \<Rightarrow> int) \<Rightarrow> 'c node_alloc \<Rightarrow> 'p \<Rightarrow> 'k \<Rightarrow> 'p avl_node \<Rightarrow> 'c
    \<Rightarrow> (HandleResult \<times> 'p avl_node \<times> 'c) option" where
  "InsertBlank Compare AllocateNode blank key Nullptr cookie =
     Some (Create AllocateNode blank cookie)"
| "InsertBlank Compare AllocateNode blank key (AvlTreeNode l r h p) cookie =
     (let compRes = Compare p key in
      if compRes = 0 then Some (CardinalityViolation, AvlTreeNode l r h p, cookie)
      else if compRes > 0 then
        Option.bind (InsertBlank Compare AllocateNode blank key l cookie) (\<lambda>(res, l', cookie').
          if res = Okay
          then map_option (\<lambda>node. (res, node, cookie')) (Balance (AvlTreeNode l' r h p))
          else Some (res, AvlTreeNode l' r h p, cookie'))
      else
        Option.bind (InsertBlank Compare AllocateNode blank key r cookie) (\<lambda>(res, r', cookie').
          if res = Okay
          then map_option (\<lambda>node. (res, node, cookie')) (Balance (AvlTreeNode l r' h p))
          else Some (res, AvlTreeNode l r' h p, cookie')))"

fun RemoveMinimum :: "'p avl_node \<Rightarrow> ('p option \<times> 'p avl_node) option" where
  "RemoveMinimum Nullptr = Some (None, Nullptr)"
| "RemoveMinimum (AvlTreeNode l r h p) =
     (if l = Nullptr then Some (Some p, r)
      else
        Option.bind (RemoveMinimum l) (\<lambda>(res, l').
          map_option (\<lambda>node. (res, node)) (Balance (AvlTreeNode l' r h p))))"

text \<open>
  The unlinking of a node that was found, shared by \<open>Remove\<close> and \<open>RemoveIf\<close>: a leaf leaves a
  null link without rebalancing; a node with one child is replaced by it; a node with two
  children is replaced by its successor, which takes over its links and its stored height.
\<close>

fun unlink_found :: "'p avl_node \<Rightarrow> 'p avl_node \<Rightarrow> int \<Rightarrow> 'p avl_node option" where
  "unlink_found l r h =
     (if l = Nullptr then (if r = Nullptr then Some Nullptr else Balance r)
      else if r = Nullptr then Balance l
      else
        Option.bind (RemoveMinimum r) (\<lambda>(temp, r').
          Option.bind temp (\<lambda>q. Balance (AvlTreeNode l r' h q))))"

fun Remove :: "('p \<Rightarrow> 'k \<Rightarrow> int) \<Rightarrow> 'k \<Rightarrow> 'p avl_node \<Rightarrow> ('p option \<times> 'p avl_node) option" where
  "Remove Compare key Nullptr = Some (None, Nullptr)"
| "Remove Compare key (AvlTreeNode l r h p) =
     (let compRes = Compare p key in
      if compRes > 0 then
        Option.bind (Remove Compare key l) (\<lambda>(res, l').
          if res \<noteq> None
          then map_option (\<lambda>node. (res, node)) (Balance (AvlTreeNode l' r h p))
          else Some (res, AvlTreeNode l' r h p))
      else if compRes < 0 then
        Option.bind (Remove Compare key r) (\<lambda>(res, r').
          if res \<noteq> None
          then map_option (\<lambda>node. (res, node)) (Balance (AvlTreeNode l r' h p))
          else Some (res, AvlTreeNode l r' h p))
      else map_option (\<lambda>node. (Some p, node)) (unlink_found l r h))"

fun RemoveIf :: "('p \<Rightarrow> 'k \<Rightarrow> int) \<Rightarrow> 'k \<Rightarrow> ('p \<Rightarrow> bool) \<Rightarrow> 'p avl_node
    \<Rightarrow> (bool \<times> 'p option \<times> 'p avl_node) option" where
  "RemoveIf Compare key pred Nullptr = Some (False, None, Nullptr)"
| "RemoveIf Compare key pred (AvlTreeNode l r h p) =
     (let compRes = Compare p key in
      if compRes > 0 then
        Option.bind (RemoveIf Compare key pred l) (\<lambda>(res, find, l').
          if res then map_option (\<lambda>node. (res, find, node)) (Balance (AvlTreeNode l' r h p))
          else Some (res, find, AvlTreeNode l' r h p))
      else if compRes < 0 then
        Option.bind (RemoveIf Compare key pred r) (\<lambda>(res, find, r').
          if res then map_option (\<lambda>node. (res, find, node)) (Balance (AvlTreeNode l r' h p))
          else Some (res, find, AvlTreeNode l r' h p))
      else if pred p then map_option (\<lambda>node. (True, Some p, node)) (unlink_found l r h)
      else Some (False, None, AvlTreeNode l r h p))"

section \<open>Traversal and clearing\<close>

text \<open>
  The visitor \<open>lambda\<close> is called on a node and may have effects: it takes and returns a state
  \<open>'s\<close>; its boolean result is false to stop.
\<close>

type_synonym ('p, 's) visitor = "'p \<Rightarrow> 's \<Rightarrow> bool \<times> 's"

fun IteratePreOrder :: "('p, 's) visitor \<Rightarrow> 'p avl_node \<Rightarrow> 's \<Rightarrow> bool \<times> 's" where
  "IteratePreOrder lambda Nullptr s = (True, s)"
| "IteratePreOrder lambda (AvlTreeNode l r h p) s =
     (let (ok, s1) = lambda p s in
      if \<not> ok then (False, s1)
      else let (ok, s2) = IteratePreOrder lambda l s1 in
        if \<not> ok then (False, s2) else IteratePreOrder lambda r s2)"

fun IterateInOrder :: "('p, 's) visitor \<Rightarrow> 'p avl_node \<Rightarrow> 's \<Rightarrow> bool \<times> 's" where
  "IterateInOrder lambda Nullptr s = (True, s)"
| "IterateInOrder lambda (AvlTreeNode l r h p) s =
     (let (ok, s1) = IterateInOrder lambda l s in
      if \<not> ok then (False, s1)
      else let (ok, s2) = lambda p s1 in
        if \<not> ok then (False, s2) else IterateInOrder lambda r s2)"

fun IteratePostOrder :: "('p, 's) visitor \<Rightarrow> 'p avl_node \<Rightarrow> 's \<Rightarrow> bool \<times> 's" where
  "IteratePostOrder lambda Nullptr s = (True, s)"
| "IteratePostOrder lambda (AvlTreeNode l r h p) s =
     (let (ok, s1) = IteratePostOrder lambda l s in
      if \<not> ok then (False, s1)
      else let (ok, s2) = IteratePostOrder lambda r s1 in
        if \<not> ok then (False, s2) else lambda p s2)"

text \<open>\<open>IterateLevelOrder\<close> visits the nodes at depth \<open>target\<close> and counts them.\<close>

fun IterateLevelOrder :: "('p, 's) visitor \<Rightarrow> 'p avl_node \<Rightarrow> nat \<Rightarrow> nat \<Rightarrow> nat \<Rightarrow> 's
    \<Rightarrow> bool \<times> nat \<times> 's" where
  "IterateLevelOrder lambda Nullptr level target count s = (True, count, s)"
| "IterateLevelOrder lambda (AvlTreeNode l r h p) level target count s =
     (if level = target
      then (let (ok, s1) = lambda p s in (ok, count + 1, s1))
      else let (ok, count1, s1) = IterateLevelOrder lambda l (level + 1) target count s in
        if \<not> ok then (False, count1, s1)
        else IterateLevelOrder lambda r (level + 1) target count1 s1)"

text \<open>The true depth of a subtree, which bounds the levels the level-order loop can visit.\<close>

fun depth :: "'p avl_node \<Rightarrow> nat" where
  "depth Nullptr = 0"
| "depth (AvlTreeNode l r h p) = max (depth l) (depth r) + 1"

lemma IterateLevelOrder_beyond:
  "level + depth t \<le> target \<Longrightarrow> IterateLevelOrder lambda t level target count s = (True, count, s)"
  by (induction t arbitrary: level count s) auto

lemma level_counted:
  assumes "IterateLevelOrder lambda t 0 level 0 s = (ok, count, s')" and "0 < count"
  shows "level < depth t"
  using assms IterateLevelOrder_beyond [of 0 t level lambda 0 s] by (cases "level < depth t") auto

text \<open>The \<open>do \<dots> while (count > 0)\<close> loop of \<open>Traverse\<close> over the levels.\<close>

function level_loop :: "('p, 's) visitor \<Rightarrow> 'p avl_node \<Rightarrow> nat \<Rightarrow> 's \<Rightarrow> bool \<times> 's" where
  "level_loop lambda root level s =
     (case IterateLevelOrder lambda root 0 level 0 s of
        (ok, count, s') \<Rightarrow>
          if \<not> ok then (False, s')
          else if count > 0 then level_loop lambda root (level + 1) s'
          else (True, s'))"
  by pat_completeness auto
termination
  by (relation "measure (\<lambda>(lambda, root, level, s). depth root + 1 - level)")
     (auto dest!: level_counted [OF sym])

declare level_loop.simps [simp del]

datatype TreeTraversalOrder = PreOrder | InOrder | PostOrder | LevelOrder

fun Clear :: "('p \<Rightarrow> 'c \<Rightarrow> HandleResult \<times> 'c) \<Rightarrow> 'p avl_node \<Rightarrow> 'c \<Rightarrow> HandleResult \<times> 'c" where
  "Clear RemoveNode Nullptr cookie = (Okay, cookie)"
| "Clear RemoveNode (AvlTreeNode l r h p) cookie =
     (let (res1, c1) = Clear RemoveNode l cookie;
          (res2, c2) = Clear RemoveNode r c1;
          (res3, c3) = RemoveNode p c2
      in (if res1 = Okay then (if res2 = Okay then res3 else res2) else res1, c3))"

section \<open>The tree object\<close>

record ('p, 'c) avl_tree =
  Root :: "'p avl_node"
  NodeCount :: u64
  Cookie :: 'c

definition tree_Find :: "('p \<Rightarrow> 'k \<Rightarrow> int) \<Rightarrow> 'k \<Rightarrow> ('p, 'c) avl_tree \<Rightarrow> 'p option" where
  "tree_Find Compare key t = Find Compare key (Root t)"

definition tree_FindPred :: "('p \<Rightarrow> int) \<Rightarrow> ('p, 'c) avl_tree \<Rightarrow> 'p option" where
  "tree_FindPred pred t = FindPred pred (Root t)"

definition tree_InsertOrFind :: "('p \<Rightarrow> 'p \<Rightarrow> int) \<Rightarrow> 'c node_alloc \<Rightarrow> 'p \<Rightarrow> ('p, 'c) avl_tree
    \<Rightarrow> (HandleResult \<times> 'p option \<times> ('p, 'c) avl_tree) option" where
  "tree_InsertOrFind CompareCover AllocateNode payload t =
     map_option (\<lambda>(res, finding, node, c). (res, finding, t\<lparr>Root := node, Cookie := c\<rparr>))
       (InsertOrFind CompareCover AllocateNode payload (Root t) (Cookie t))"

text \<open>The four \<open>Insert\<close> overloads; the pointer two of them return is null on failure.\<close>

definition tree_Insert :: "('p \<Rightarrow> 'p \<Rightarrow> int) \<Rightarrow> 'c node_alloc \<Rightarrow> 'p \<Rightarrow> ('p, 'c) avl_tree
    \<Rightarrow> (HandleResult \<times> 'p option \<times> ('p, 'c) avl_tree) option" where
  "tree_Insert Compare AllocateNode payload t =
     map_option (\<lambda>(res, node, c).
         (res, if res = Okay then Some payload else None,
          t\<lparr>Root := node, Cookie := c,
             NodeCount := (if res = Okay then NodeCount t + 1 else NodeCount t)\<rparr>))
       (Insert Compare AllocateNode payload (Root t) (Cookie t))"

definition tree_InsertBlank :: "('p \<Rightarrow> 'k \<Rightarrow> int) \<Rightarrow> 'c node_alloc \<Rightarrow> 'p \<Rightarrow> 'k \<Rightarrow> ('p, 'c) avl_tree
    \<Rightarrow> (HandleResult \<times> ('p, 'c) avl_tree) option" where
  "tree_InsertBlank Compare AllocateNode blank key t =
     map_option (\<lambda>(res, node, c).
         (res, t\<lparr>Root := node, Cookie := c,
             NodeCount := (if res = Okay then NodeCount t + 1 else NodeCount t)\<rparr>))
       (InsertBlank Compare AllocateNode blank key (Root t) (Cookie t))"

text \<open>The four \<open>Remove\<close> overloads; the payload copied out by two of them is the second result.\<close>

definition tree_Remove :: "('p \<Rightarrow> 'k \<Rightarrow> int) \<Rightarrow> ('p \<Rightarrow> 'c \<Rightarrow> HandleResult \<times> 'c) \<Rightarrow> 'k
    \<Rightarrow> ('p, 'c) avl_tree \<Rightarrow> (HandleResult \<times> 'p option \<times> ('p, 'c) avl_tree) option" where
  "tree_Remove Compare RemoveNode key t =
     map_option (\<lambda>(node, root).
         (case node of
            None \<Rightarrow> (NotFound, None, t\<lparr>Root := root\<rparr>)
          | Some p \<Rightarrow>
              (let (res, c) = RemoveNode p (Cookie t)
               in (res, Some p, t\<lparr>Root := root, NodeCount := NodeCount t - 1, Cookie := c\<rparr>))))
       (Remove Compare key (Root t))"

definition tree_RemoveIf :: "('p \<Rightarrow> 'k \<Rightarrow> int) \<Rightarrow> ('p \<Rightarrow> 'c \<Rightarrow> HandleResult \<times> 'c) \<Rightarrow> 'k
    \<Rightarrow> ('p \<Rightarrow> bool) \<Rightarrow> ('p, 'c) avl_tree \<Rightarrow> (HandleResult \<times> ('p, 'c) avl_tree) option" where
  "tree_RemoveIf Compare RemoveNode key pred t =
     Option.bind (RemoveIf Compare key pred (Root t)) (\<lambda>(ok, find, root).
       if \<not> ok then Some (NotFound, t\<lparr>Root := root\<rparr>)
       else map_option (\<lambda>p. let (res, c) = RemoveNode p (Cookie t)
              in (res, t\<lparr>Root := root, NodeCount := NodeCount t - 1, Cookie := c\<rparr>)) find)"

fun Traverse :: "TreeTraversalOrder \<Rightarrow> ('p, 's) visitor \<Rightarrow> ('p, 'c) avl_tree \<Rightarrow> 's \<Rightarrow> bool \<times> 's" where
  "Traverse PreOrder lambda t s = IteratePreOrder lambda (Root t) s"
| "Traverse InOrder lambda t s = IterateInOrder lambda (Root t) s"
| "Traverse PostOrder lambda t s = IteratePostOrder lambda (Root t) s"
| "Traverse LevelOrder lambda t s = level_loop lambda (Root t) 0 s"

definition tree_Clear :: "('p \<Rightarrow> 'c \<Rightarrow> HandleResult \<times> 'c) \<Rightarrow> ('p, 'c) avl_tree
    \<Rightarrow> HandleResult \<times> ('p, 'c) avl_tree" where
  "tree_Clear RemoveNode t =
     (let (res, c) = Clear RemoveNode (Root t) (Cookie t)
      in (res, t\<lparr>Root := Nullptr, NodeCount := 0, Cookie := c\<rparr>))"

section \<open>Well-formed trees\<close>

fun inorder :: "'p avl_node \<Rightarrow> 'p list" where
  "inorder Nullptr = []"
| "inorder (AvlTreeNode l r h p) = inorder l @ p # inorder r"

text \<open>The AVL invariant: every stored height is the depth, sibling depths differ by at most one.\<close>

fun avl :: "'p avl_node \<Rightarrow> bool" where
  "avl Nullptr \<longleftrightarrow> True"
| "avl (AvlTreeNode l r h p) \<longleftrightarrow>
     h = int (max (depth l) (depth r)) + 1 \<and> depth l \<le> depth r + 1 \<and> depth r \<le> depth l + 1
     \<and> avl l \<and> avl r"

definition ordered :: "('p \<Rightarrow> 'p \<Rightarrow> int) \<Rightarrow> 'p avl_node \<Rightarrow> bool" where
  "ordered Compare t \<longleftrightarrow> sorted_wrt (\<lambda>a b. Compare a b < 0) (inorder t)"

lemma GetHeight_avl: "avl t \<Longrightarrow> GetHeight t = int (depth t)"
  by (cases t) auto

lemma inorder_Nil_iff: "inorder t = [] \<longleftrightarrow> t = Nullptr"
  by (cases t) auto

lemma depth_0_iff: "depth t = 0 \<longleftrightarrow> t = Nullptr"
  by (cases t) auto

lemma ordered_node:
  "ordered Compare (AvlTreeNode l r h p) \<longleftrightarrow>
     ordered Compare l \<and> ordered Compare r
     \<and> (\<forall>a \<in> set (inorder l). Compare a p < 0) \<and> (\<forall>b \<in> set (inorder r). Compare p b < 0)
     \<and> (\<forall>a \<in> set (inorder l). \<forall>b \<in> set (inorder r). Compare a b < 0)"
  by (auto simp: ordered_def sorted_wrt_append)

text \<open>
  Rebalancing: \<open>Balance\<close> on a node whose subtrees are AVL trees of depths at most two apart does
  not follow a null pointer and gives an AVL tree with the same in-order sequence, one level
  deeper than the deeper subtree at most.
\<close>

lemma Balance_right_heavy:
  assumes "avl l" "avl r" "depth r = depth l + 2"
  shows "\<exists>t. Balance (AvlTreeNode l r h p) = Some t \<and> avl t \<and> inorder t = inorder l @ p # inorder r
           \<and> depth r \<le> depth t \<and> depth t \<le> depth r + 1"
proof (cases r)
  case Nullptr
  with assms show ?thesis by simp
next
  case (AvlTreeNode rl rr rh rp)
  show ?thesis
  proof (cases "depth rr < depth rl")
    case True
    with AvlTreeNode assms obtain rll rlr rlh rlp where "rl = AvlTreeNode rll rlr rlh rlp"
      by (cases rl) auto
    with AvlTreeNode assms True show ?thesis
      by (auto simp: Let_def GetHeight_avl max_def split: if_splits)
  next
    case False
    with AvlTreeNode assms show ?thesis
      by (auto simp: Let_def GetHeight_avl max_def split: if_splits)
  qed
qed

lemma Balance_left_heavy:
  assumes "avl l" "avl r" "depth l = depth r + 2"
  shows "\<exists>t. Balance (AvlTreeNode l r h p) = Some t \<and> avl t \<and> inorder t = inorder l @ p # inorder r
           \<and> depth l \<le> depth t \<and> depth t \<le> depth l + 1"
proof (cases l)
  case Nullptr
  with assms show ?thesis by simp
next
  case (AvlTreeNode ll lr lh lp)
  show ?thesis
  proof (cases "depth ll < depth lr")
    case True
    with AvlTreeNode assms obtain lrl lrr lrh lrp where "lr = AvlTreeNode lrl lrr lrh lrp"
      by (cases lr) auto
    with AvlTreeNode assms True show ?thesis
      by (auto simp: Let_def GetHeight_avl max_def split: if_splits)
  next
    case False
    with AvlTreeNode assms show ?thesis
      by (auto simp: Let_def GetHeight_avl max_def split: if_splits)
  qed
qed

lemma Balance_even:
  assumes "avl l" "avl r" "depth l \<le> depth r + 1" "depth r \<le> depth l + 1"
  shows "Balance (AvlTreeNode l r h p) =
           Some (AvlTreeNode l r (int (max (depth l) (depth r)) + 1) p)"
  using assms by (simp add: Let_def GetHeight_avl of_nat_max)

lemma Balance_ok:
  assumes "avl l" "avl r" "depth l \<le> depth r + 2" "depth r \<le> depth l + 2"
  shows "\<exists>t. Balance (AvlTreeNode l r h p) = Some t \<and> avl t \<and> inorder t = inorder l @ p # inorder r
           \<and> max (depth l) (depth r) \<le> depth t \<and> depth t \<le> max (depth l) (depth r) + 1
           \<and> (depth l \<le> depth r + 1 \<longrightarrow> depth r \<le> depth l + 1 \<longrightarrow> depth t = max (depth l) (depth r) + 1)"
proof -
  consider "depth r = depth l + 2" | "depth l = depth r + 2"
    | "depth l \<le> depth r + 1 \<and> depth r \<le> depth l + 1"
    using assms(3,4) by linarith
  then show ?thesis
  proof cases
    case 1
    with Balance_right_heavy [OF assms(1,2), of h p] show ?thesis by (auto simp: max_def)
  next
    case 2
    with Balance_left_heavy [OF assms(1,2), of h p] show ?thesis by (auto simp: max_def)
  next
    case 3
    with Balance_even [OF assms(1,2), of h p] assms(1,2) show ?thesis
      by (auto simp: max_def simp del: Balance.simps)
  qed
qed

declare Balance.simps [simp del]

lemma Insert_no_memory:
  assumes "\<forall>x \<in> set (inorder t). Compare x p \<noteq> 0" "alloc c = (res, c')" "res \<noteq> Okay"
  shows "Insert Compare alloc p t c = Some (res, t, c')"
  using assms by (induction t) (auto simp: Create_def Let_def)

section \<open>The order contract of Compare\<close>

text \<open>
  What the tree relies on: \<open>Compare\<close> on valid payloads is antisymmetric in sign and transitive.
\<close>

locale avl_order =
  fixes Compare :: "'p \<Rightarrow> 'p \<Rightarrow> int" and valid :: "'p \<Rightarrow> bool"
  assumes Compare_flip: "valid a \<Longrightarrow> valid b \<Longrightarrow> 0 < Compare a b \<longleftrightarrow> Compare b a < 0"
    and Compare_trans: "valid a \<Longrightarrow> valid b \<Longrightarrow> valid c \<Longrightarrow>
      Compare a b < 0 \<Longrightarrow> Compare b c < 0 \<Longrightarrow> Compare a c < 0"

text \<open>
  What a lookup by key relies on: the comparison with the key is monotone along the order of the
  payloads. \<open>avl_unique_key\<close> adds that a key matches at most one of two ordered payloads.
\<close>

locale avl_key = avl_order Compare valid
  for Compare :: "'p \<Rightarrow> 'p \<Rightarrow> int" and valid :: "'p \<Rightarrow> bool" +
  fixes CompareKey :: "'p \<Rightarrow> 'k \<Rightarrow> int" and valid_key :: "'k \<Rightarrow> bool"
  assumes key_before: "valid a \<Longrightarrow> valid b \<Longrightarrow> valid_key k \<Longrightarrow>
      Compare a b < 0 \<Longrightarrow> CompareKey b k < 0 \<Longrightarrow> CompareKey a k < 0"
    and key_after: "valid a \<Longrightarrow> valid b \<Longrightarrow> valid_key k \<Longrightarrow>
      Compare a b < 0 \<Longrightarrow> 0 < CompareKey a k \<Longrightarrow> 0 < CompareKey b k"

locale avl_unique_key = avl_key Compare valid CompareKey valid_key
  for Compare :: "'p \<Rightarrow> 'p \<Rightarrow> int" and valid :: "'p \<Rightarrow> bool"
    and CompareKey :: "'p \<Rightarrow> 'k \<Rightarrow> int" and valid_key :: "'k \<Rightarrow> bool" +
  assumes key_once: "valid a \<Longrightarrow> valid b \<Longrightarrow> valid_key k \<Longrightarrow>
      Compare a b < 0 \<Longrightarrow> CompareKey a k = 0 \<Longrightarrow> 0 < CompareKey b k"

sublocale avl_order \<subseteq> self: avl_key Compare valid Compare valid
proof unfold_locales
  fix a b k
  assume v: "valid a" "valid b" "valid k"
  show "Compare a k < 0" if "Compare a b < 0" "Compare b k < 0"
    using v that by (rule Compare_trans)
  show "0 < Compare b k" if "Compare a b < 0" "0 < Compare a k"
    using v that Compare_trans [of k a b] Compare_flip by blast
qed

section \<open>Lookup\<close>

context avl_key
begin

lemma Find_in_tree: "Find CompareKey k t = Some p \<Longrightarrow> p \<in> set (inorder t) \<and> CompareKey p k = 0"
  by (induction t) (auto simp: Let_def split: if_splits)

lemma Find_none:
  assumes "ordered Compare t" "\<forall>q \<in> set (inorder t). valid q" "valid_key k"
    and "Find CompareKey k t = None"
  shows "\<forall>q \<in> set (inorder t). CompareKey q k \<noteq> 0"
  using assms
proof (induction t)
  case (AvlTreeNode l r h p)
  have lt: "CompareKey q k < 0" if "q \<in> set (inorder l)" "CompareKey p k < 0" for q
    using key_before [of q p k] that AvlTreeNode.prems by (auto simp: ordered_node)
  have gt: "0 < CompareKey q k" if "q \<in> set (inorder r)" "0 < CompareKey p k" for q
    using key_after [of p q k] that AvlTreeNode.prems by (auto simp: ordered_node)
  consider "0 < CompareKey p k" | "CompareKey p k < 0"
    using AvlTreeNode.prems(4) by (auto simp: Let_def split: if_splits)
  then show ?case
  proof cases
    case 1
    then show ?thesis using AvlTreeNode gt by (force simp: ordered_node Let_def)
  next
    case 2
    then show ?thesis using AvlTreeNode lt by (force simp: ordered_node Let_def)
  qed
qed simp

end

section \<open>Insertion\<close>

text \<open>The abstract insertion into an ordered sequence.\<close>

definition insert_sorted :: "('p \<Rightarrow> 'p \<Rightarrow> int) \<Rightarrow> 'p \<Rightarrow> 'p list \<Rightarrow> 'p list" where
  "insert_sorted Compare p xs =
     takeWhile (\<lambda>q. Compare q p < 0) xs @ p # dropWhile (\<lambda>q. Compare q p < 0) xs"

lemma set_insert_sorted: "set (insert_sorted Compare p xs) = insert p (set xs)"
proof -
  have "set (takeWhile P xs) \<union> set (dropWhile P xs) = set xs" for P
    by (metis set_append takeWhile_dropWhile_id)
  then show ?thesis by (auto simp: insert_sorted_def)
qed

lemma length_insert_sorted: "length (insert_sorted Compare p xs) = Suc (length xs)"
  by (simp add: insert_sorted_def)
     (metis length_append takeWhile_dropWhile_id)

lemma insert_sorted_left:
  "\<not> Compare q p < 0 \<Longrightarrow>
     insert_sorted Compare p (xs @ q # ys) = insert_sorted Compare p xs @ q # ys"
  by (induction xs) (auto simp: insert_sorted_def)

lemma insert_sorted_right:
  "\<forall>x \<in> set xs. Compare x p < 0 \<Longrightarrow> Compare q p < 0 \<Longrightarrow>
     insert_sorted Compare p (xs @ q # ys) = xs @ q # insert_sorted Compare p ys"
  by (induction xs) (auto simp: insert_sorted_def)

context avl_order
begin

lemma path_left:
  assumes "ordered Compare (AvlTreeNode l r h q)" "\<forall>x \<in> set (inorder (AvlTreeNode l r h q)). valid x"
    and "valid p" "0 < Compare q p"
  shows "\<forall>x \<in> set (inorder r). 0 < Compare x p"
  using assms self.key_after [of q _ p] by (auto simp: ordered_node)

lemma path_right:
  assumes "ordered Compare (AvlTreeNode l r h q)" "\<forall>x \<in> set (inorder (AvlTreeNode l r h q)). valid x"
    and "valid p" "Compare q p < 0"
  shows "\<forall>x \<in> set (inorder l). Compare x p < 0"
  using assms self.key_before [of _ q p] by (auto simp: ordered_node)

lemma insert_sorted_ordered:
  assumes "sorted_wrt (\<lambda>a b. Compare a b < 0) xs" "\<forall>x \<in> set xs. valid x" "valid p"
    and "\<forall>x \<in> set xs. Compare x p \<noteq> 0"
  shows "sorted_wrt (\<lambda>a b. Compare a b < 0) (insert_sorted Compare p xs)"
  using assms
proof (induction xs)
  case (Cons x xs)
  show ?case
  proof (cases "Compare x p < 0")
    case True
    then have "insert_sorted Compare p (x # xs) = x # insert_sorted Compare p xs"
      by (simp add: insert_sorted_def)
    then show ?thesis using True Cons by (auto simp: set_insert_sorted)
  next
    case False
    then have "0 < Compare x p" using Cons.prems(4) by auto
    then have "Compare p x < 0" using Compare_flip Cons.prems(2,3) by auto
    moreover from this have "Compare p y < 0" if "y \<in> set xs" for y
      using Compare_trans [of p x y] that Cons.prems by auto
    ultimately show ?thesis using False Cons.prems by (auto simp: insert_sorted_def)
  qed
qed (simp add: insert_sorted_def)

lemma Insert_duplicate:
  assumes "ordered Compare t" "\<forall>x \<in> set (inorder t). valid x" "valid p"
    and "\<exists>x \<in> set (inorder t). Compare x p = 0"
  shows "Insert Compare alloc p t c = Some (CardinalityViolation, t, c)"
  using assms
proof (induction t)
  case (AvlTreeNode l r h q)
  note left = path_left [OF AvlTreeNode.prems(1,2,3)] and right = path_right [OF AvlTreeNode.prems(1,2,3)]
  show ?case
  proof (cases "Compare q p = 0")
    case False
    then consider "0 < Compare q p" | "Compare q p < 0" by linarith
    then show ?thesis
    proof cases
      case 1
      then show ?thesis using AvlTreeNode left by (force simp: ordered_node Let_def)
    next
      case 2
      then show ?thesis using AvlTreeNode right by (force simp: ordered_node Let_def)
    qed
  qed (simp add: Let_def)
qed simp

lemma Insert_okay:
  assumes "avl t" "ordered Compare t" "\<forall>x \<in> set (inorder t). valid x" "valid p"
    and "\<forall>x \<in> set (inorder t). Compare x p \<noteq> 0" "alloc c = (Okay, c')"
  shows "\<exists>t'. Insert Compare alloc p t c = Some (Okay, t', c') \<and> avl t'
           \<and> inorder t' = insert_sorted Compare p (inorder t)
           \<and> depth t \<le> depth t' \<and> depth t' \<le> depth t + 1"
  using assms
proof (induction t)
  case Nullptr
  then show ?case by (simp add: Create_def insert_sorted_def)
next
  case (AvlTreeNode l r h q)
  note right = path_right [OF AvlTreeNode.prems(2-4)]
  from AvlTreeNode.prems(5) consider "0 < Compare q p" | "Compare q p < 0"
    by force
  then show ?case
  proof cases
    case 1
    with AvlTreeNode obtain l' where l': "Insert Compare alloc p l c = Some (Okay, l', c')"
      "avl l'" "inorder l' = insert_sorted Compare p (inorder l)" "depth l \<le> depth l'" "depth l' \<le> depth l + 1"
      by (auto simp: ordered_node)
    with Balance_ok [of l' r h q] AvlTreeNode.prems(1) 1 show ?thesis
      by (fastforce simp: Let_def insert_sorted_left)
  next
    case 2
    with AvlTreeNode obtain r' where r': "Insert Compare alloc p r c = Some (Okay, r', c')"
      "avl r'" "inorder r' = insert_sorted Compare p (inorder r)" "depth r \<le> depth r'" "depth r' \<le> depth r + 1"
      by (auto simp: ordered_node)
    with Balance_ok [of l r' h q] AvlTreeNode.prems(1) 2 right show ?thesis
      by (fastforce simp: Let_def insert_sorted_right)
  qed
qed

end

section \<open>Removal\<close>

lemma RemoveMinimum_ok:
  assumes "avl t" "t \<noteq> Nullptr"
  shows "\<exists>p t'. RemoveMinimum t = Some (Some p, t') \<and> avl t' \<and> inorder t = p # inorder t'
           \<and> depth t' \<le> depth t \<and> depth t \<le> depth t' + 1"
  using assms
proof (induction t)
  case (AvlTreeNode l r h q)
  show ?case
  proof (cases "l = Nullptr")
    case True
    with AvlTreeNode.prems show ?thesis by auto
  next
    case False
    with AvlTreeNode obtain p l' where l': "RemoveMinimum l = Some (Some p, l')" "avl l'"
      "inorder l = p # inorder l'" "depth l' \<le> depth l" "depth l \<le> depth l' + 1"
      by auto
    obtain t' where "Balance (AvlTreeNode l' r h q) = Some t'" "avl t'"
      "inorder t' = inorder l' @ q # inorder r"
      "max (depth l') (depth r) \<le> depth t'" "depth t' \<le> max (depth l') (depth r) + 1"
      "depth l' \<le> depth r + 1 \<longrightarrow> depth r \<le> depth l' + 1 \<longrightarrow> depth t' = max (depth l') (depth r) + 1"
      using Balance_ok [of l' r h q] l' AvlTreeNode.prems(1) by auto
    with l' False AvlTreeNode.prems(1) show ?thesis by (auto simp: max_def split: if_splits)
  qed
qed simp

lemma unlink_found_ok:
  assumes "avl (AvlTreeNode l r h q)"
  shows "\<exists>t'. unlink_found l r h = Some t' \<and> avl t' \<and> inorder t' = inorder l @ inorder r
           \<and> depth t' \<le> depth (AvlTreeNode l r h q) \<and> depth (AvlTreeNode l r h q) \<le> depth t' + 1"
proof (cases "l = Nullptr \<or> r = Nullptr")
  case True
  have self: "Balance t = Some t" if "avl t" "t \<noteq> Nullptr" for t :: "'a avl_node"
    using that by (cases t) (auto simp: Balance_even)
  from True assms show ?thesis using self [of l] self [of r] by (auto simp: depth_0_iff)
next
  case False
  with assms obtain p r' where r': "RemoveMinimum r = Some (Some p, r')" "avl r'"
    "inorder r = p # inorder r'" "depth r' \<le> depth r" "depth r \<le> depth r' + 1"
    using RemoveMinimum_ok [of r] by auto
  obtain t' where "Balance (AvlTreeNode l r' h p) = Some t'" "avl t'"
    "inorder t' = inorder l @ p # inorder r'"
    "max (depth l) (depth r') \<le> depth t'" "depth t' \<le> max (depth l) (depth r') + 1"
    "depth l \<le> depth r' + 1 \<longrightarrow> depth r' \<le> depth l + 1 \<longrightarrow> depth t' = max (depth l) (depth r') + 1"
    using Balance_ok [of l r' h p] r' assms by auto
  with r' False assms show ?thesis by (auto simp: max_def split: if_splits)
qed

declare unlink_found.simps [simp del]

text \<open>
  The shape of a successful removal: one payload \<open>p\<close> leaves the sequence, everything else keeps
  its place, and the tree shrinks by at most one level.
\<close>

definition removed_from :: "'p avl_node \<Rightarrow> 'p \<Rightarrow> 'p avl_node \<Rightarrow> bool" where
  "removed_from t p t' \<longleftrightarrow>
     avl t' \<and> (\<exists>xs ys. inorder t = xs @ p # ys \<and> inorder t' = xs @ ys)
     \<and> depth t' \<le> depth t \<and> depth t \<le> depth t' + 1"

lemma removed_left:
  assumes "avl (AvlTreeNode l r h q)" "removed_from l p l'"
  shows "\<exists>t'. Balance (AvlTreeNode l' r h q) = Some t' \<and> removed_from (AvlTreeNode l r h q) p t'"
proof -
  from assms obtain t' where "Balance (AvlTreeNode l' r h q) = Some t'" "avl t'"
    "inorder t' = inorder l' @ q # inorder r"
    "max (depth l') (depth r) \<le> depth t'" "depth t' \<le> max (depth l') (depth r) + 1"
    "depth l' \<le> depth r + 1 \<longrightarrow> depth r \<le> depth l' + 1 \<longrightarrow> depth t' = max (depth l') (depth r) + 1"
    using Balance_ok [of l' r h q] by (auto simp: removed_from_def)
  with assms show ?thesis by (force simp: removed_from_def max_def split: if_splits)
qed

lemma removed_right:
  assumes "avl (AvlTreeNode l r h q)" "removed_from r p r'"
  shows "\<exists>t'. Balance (AvlTreeNode l r' h q) = Some t' \<and> removed_from (AvlTreeNode l r h q) p t'"
proof -
  from assms obtain t' where t': "Balance (AvlTreeNode l r' h q) = Some t'" "avl t'"
    "inorder t' = inorder l @ q # inorder r'"
    "max (depth l) (depth r') \<le> depth t'" "depth t' \<le> max (depth l) (depth r') + 1"
    "depth l \<le> depth r' + 1 \<longrightarrow> depth r' \<le> depth l + 1 \<longrightarrow> depth t' = max (depth l) (depth r') + 1"
    using Balance_ok [of l r' h q] by (auto simp: removed_from_def)
  moreover from assms(2) obtain xs ys where xy: "inorder r = xs @ p # ys" "inorder r' = xs @ ys"
    by (auto simp: removed_from_def)
  have "inorder (AvlTreeNode l r h q) = (inorder l @ q # xs) @ p # ys"
    "inorder t' = (inorder l @ q # xs) @ ys"
    using xy t' by simp_all
  then have "\<exists>xs ys. inorder (AvlTreeNode l r h q) = xs @ p # ys \<and> inorder t' = xs @ ys" by blast
  ultimately show ?thesis
    using assms by (auto simp: removed_from_def max_def simp del: inorder.simps split: if_splits)
qed

lemma removed_here:
  assumes "avl (AvlTreeNode l r h q)"
  shows "\<exists>t'. unlink_found l r h = Some t' \<and> removed_from (AvlTreeNode l r h q) q t'"
  using unlink_found_ok [OF assms] by (force simp: removed_from_def simp del: depth.simps)

text \<open>\<open>Remove\<close> takes out exactly the payload \<open>Find\<close> would have found.\<close>

lemma Remove_found:
  assumes "avl t" "Find cmp k t = Some p"
  shows "\<exists>t'. Remove cmp k t = Some (Some p, t') \<and> removed_from t p t'"
  using assms
proof (induction t)
  case (AvlTreeNode l r h q)
  note node = AvlTreeNode.prems(1)
  consider "0 < cmp q k" | "cmp q k < 0" | "cmp q k = 0" by linarith
  then show ?case
  proof cases
    case 1
    with AvlTreeNode obtain l' where "Remove cmp k l = Some (Some p, l')" "removed_from l p l'"
      by auto
    with removed_left [OF node] 1 show ?thesis by fastforce
  next
    case 2
    with AvlTreeNode obtain r' where "Remove cmp k r = Some (Some p, r')" "removed_from r p r'"
      by auto
    with removed_right [OF node] 2 show ?thesis by fastforce
  next
    case 3
    with AvlTreeNode.prems removed_here [OF node] show ?thesis by fastforce
  qed
qed simp

lemma Remove_absent: "Find cmp k t = None \<Longrightarrow> Remove cmp k t = Some (None, t)"
  by (induction t) (auto simp: Let_def split: if_splits)

lemma RemoveIf_found:
  assumes "avl t" "Find cmp k t = Some p" "pred p"
  shows "\<exists>t'. RemoveIf cmp k pred t = Some (True, Some p, t') \<and> removed_from t p t'"
  using assms
proof (induction t)
  case (AvlTreeNode l r h q)
  note node = AvlTreeNode.prems(1)
  consider "0 < cmp q k" | "cmp q k < 0" | "cmp q k = 0" by linarith
  then show ?case
  proof cases
    case 1
    with AvlTreeNode obtain l' where "RemoveIf cmp k pred l = Some (True, Some p, l')" "removed_from l p l'"
      by auto
    with removed_left [OF node] 1 show ?thesis by fastforce
  next
    case 2
    with AvlTreeNode obtain r' where "RemoveIf cmp k pred r = Some (True, Some p, r')" "removed_from r p r'"
      by auto
    with removed_right [OF node] 2 show ?thesis by fastforce
  next
    case 3
    with AvlTreeNode.prems removed_here [OF node] show ?thesis by fastforce
  qed
qed simp

lemma RemoveIf_refused:
  assumes "\<forall>p. Find cmp k t = Some p \<longrightarrow> \<not> pred p"
  shows "RemoveIf cmp k pred t = Some (False, None, t)"
  using assms by (induction t) (auto simp: Let_def split: if_splits)

section \<open>Height bound\<close>

lemma avl_size_lower: "avl t \<Longrightarrow> 2 ^ (depth t div 2) \<le> length (inorder t) + 1"
proof (induction t)
  case (AvlTreeNode l r h p)
  define d where "d = depth (AvlTreeNode l r h p)"
  show ?case
  proof (cases "d < 2")
    case True
    then have "d div 2 = 0" by simp
    then show ?thesis by (simp add: d_def)
  next
    case False
    have "(d - 2) div 2 \<le> depth l div 2" "(d - 2) div 2 \<le> depth r div 2"
      using AvlTreeNode.prems by (auto simp: d_def div_le_mono)
    then have "(2::nat) ^ ((d - 2) div 2) \<le> 2 ^ (depth l div 2)" "(2::nat) ^ ((d - 2) div 2) \<le> 2 ^ (depth r div 2)"
      by simp_all
    moreover have "2 ^ (depth l div 2) \<le> length (inorder l) + 1" "2 ^ (depth r div 2) \<le> length (inorder r) + 1"
      using AvlTreeNode by simp_all
    ultimately have "2 * 2 ^ ((d - 2) div 2) \<le> length (inorder l) + 1 + (length (inorder r) + 1)"
      by linarith
    moreover have "(2::nat) ^ (d div 2) = 2 * 2 ^ ((d - 2) div 2)"
      using False by (metis One_nat_def Suc_1 add_2_eq_Suc' div2_Suc_Suc le_add_diff_inverse2 not_less power_Suc)
    ultimately show ?thesis by (simp add: d_def)
  qed
qed simp

lemma avl_depth_bound:
  assumes "avl t" "length (inorder t) < 2 ^ n"
  shows "depth t \<le> 2 * n + 1"
proof -
  have "(2::nat) ^ (depth t div 2) \<le> 2 ^ n"
    using avl_size_lower [OF assms(1)] assms(2) by linarith
  then have "depth t div 2 \<le> n"
    by (simp add: power_increasing_iff)
  then show ?thesis by linarith
qed

section \<open>Traversal orders\<close>

text \<open>Visiting a sequence until the visitor says stop.\<close>

fun visit_list :: "('p, 's) visitor \<Rightarrow> 'p list \<Rightarrow> 's \<Rightarrow> bool \<times> 's" where
  "visit_list lambda [] s = (True, s)"
| "visit_list lambda (x # xs) s =
     (let (ok, s1) = lambda x s in if ok then visit_list lambda xs s1 else (False, s1))"

lemma visit_list_append:
  "visit_list lambda (xs @ ys) s =
     (let (ok, s1) = visit_list lambda xs s in if ok then visit_list lambda ys s1 else (False, s1))"
  by (induction xs arbitrary: s) (auto simp: Let_def split: prod.splits)

fun preorder :: "'p avl_node \<Rightarrow> 'p list" where
  "preorder Nullptr = []"
| "preorder (AvlTreeNode l r h p) = p # preorder l @ preorder r"

fun postorder :: "'p avl_node \<Rightarrow> 'p list" where
  "postorder Nullptr = []"
| "postorder (AvlTreeNode l r h p) = postorder l @ postorder r @ [p]"

fun level_nodes :: "'p avl_node \<Rightarrow> nat \<Rightarrow> 'p list" where
  "level_nodes Nullptr n = []"
| "level_nodes (AvlTreeNode l r h p) 0 = [p]"
| "level_nodes (AvlTreeNode l r h p) (Suc n) = level_nodes l n @ level_nodes r n"

lemma IteratePreOrder_visits: "IteratePreOrder lambda t s = visit_list lambda (preorder t) s"
  by (induction t arbitrary: s) (auto simp: visit_list_append Let_def split: prod.splits)

lemma IterateInOrder_visits: "IterateInOrder lambda t s = visit_list lambda (inorder t) s"
  by (induction t arbitrary: s) (auto simp: visit_list_append Let_def split: prod.splits)

lemma IteratePostOrder_visits: "IteratePostOrder lambda t s = visit_list lambda (postorder t) s"
  by (induction t arbitrary: s) (auto simp: visit_list_append Let_def split: prod.splits)

lemma IterateLevelOrder_visits:
  "level \<le> target \<Longrightarrow>
     \<exists>n. IterateLevelOrder lambda t level target count s =
       (let (ok, s1) = visit_list lambda (level_nodes t (target - level)) s
        in (ok, if ok then count + length (level_nodes t (target - level)) else n, s1))"
proof (induction t arbitrary: level count s)
  case (AvlTreeNode l r h p)
  show ?case
  proof (cases "level = target")
    case True
    then show ?thesis by (auto simp: Let_def split: prod.splits)
  next
    case False
    with AvlTreeNode.prems obtain m where m: "target = Suc (level + m)"
      by (metis le_neq_implies_less less_imp_Suc_add)
    obtain ok s1 where l: "visit_list lambda (level_nodes l m) s = (ok, s1)" by fastforce
    from AvlTreeNode.IH(1) [of "level + 1" count s] AvlTreeNode.prems False m l obtain n where
      "IterateLevelOrder lambda l (level + 1) target count s =
         (ok, if ok then count + length (level_nodes l m) else n, s1)"
      by (cases ok) (auto simp: Let_def)
    moreover from AvlTreeNode.IH(2) [of "level + 1" "count + length (level_nodes l m)" s1]
        AvlTreeNode.prems False m obtain n' where
      "IterateLevelOrder lambda r (level + 1) target (count + length (level_nodes l m)) s1 =
         (let (ok, s2) = visit_list lambda (level_nodes r m) s1
          in (ok, if ok then count + length (level_nodes l m) + length (level_nodes r m) else n', s2))"
      by (auto cong: if_cong)
    ultimately show ?thesis
      using False m l by (cases ok) (auto simp: Let_def visit_list_append split: prod.splits)
  qed
qed simp

lemma level_nodes_Nil: "level_nodes t n = [] \<longleftrightarrow> depth t \<le> n"
  by (induction t n rule: level_nodes.induct) auto

lemma level_loop_visits:
  assumes "n \<le> depth t"
  shows "level_loop lambda t n s = visit_list lambda (concat (map (level_nodes t) [n..<depth t])) s"
  using assms
proof (induction "depth t - n" arbitrary: n s)
  case 0
  then have "level_nodes t n = []" "n = depth t" by (simp_all add: level_nodes_Nil)
  with IterateLevelOrder_visits [of 0 n lambda t 0 s] show ?case
    by (simp add: level_loop.simps)
next
  case (Suc d)
  then have n: "n < depth t" "level_nodes t n \<noteq> []" by (simp_all add: level_nodes_Nil)
  have IH: "level_loop lambda t (n + 1) s1 = visit_list lambda (concat (map (level_nodes t) [n + 1..<depth t])) s1" for s1
    using Suc by simp
  have "[n..<depth t] = n # [n + 1..<depth t]" using n(1) by (simp add: upt_rec)
  with n IH IterateLevelOrder_visits [of 0 n lambda t 0 s] show ?case
    by (auto simp: level_loop.simps [of lambda t n] visit_list_append Let_def split: prod.splits)
qed

section \<open>The tree object keeps its invariant\<close>

definition tree_ok :: "('p \<Rightarrow> 'p \<Rightarrow> int) \<Rightarrow> ('p \<Rightarrow> bool) \<Rightarrow> ('p, 'c) avl_tree \<Rightarrow> bool" where
  "tree_ok Compare valid t \<longleftrightarrow>
     avl (Root t) \<and> ordered Compare (Root t) \<and> (\<forall>q \<in> set (inorder (Root t)). valid q)
     \<and> NodeCount t = of_nat (length (inorder (Root t)))"

context avl_order
begin

lemma tree_Insert_spec:
  assumes "tree_ok Compare valid t" "valid p"
  shows "\<exists>res pl t'. tree_Insert Compare alloc p t = Some (res, pl, t') \<and> tree_ok Compare valid t'
     \<and> (if \<exists>q \<in> set (inorder (Root t)). Compare q p = 0 then res = CardinalityViolation \<and> pl = None \<and> t' = t
        else if fst (alloc (Cookie t)) = Okay
        then res = Okay \<and> pl = Some p \<and> inorder (Root t') = insert_sorted Compare p (inorder (Root t))
        else res = fst (alloc (Cookie t)) \<and> pl = None \<and> Root t' = Root t \<and> NodeCount t' = NodeCount t)"
proof -
  note inv = assms(1) [unfolded tree_ok_def]
  obtain res c where a: "alloc (Cookie t) = (res, c)" by fastforce
  consider (dup) "\<exists>q \<in> set (inorder (Root t)). Compare q p = 0"
    | (okay) "\<forall>q \<in> set (inorder (Root t)). Compare q p \<noteq> 0" "res = Okay"
    | (oom) "\<forall>q \<in> set (inorder (Root t)). Compare q p \<noteq> 0" "res \<noteq> Okay"
    by blast
  then show ?thesis
  proof cases
    case dup
    with inv assms have "Insert Compare alloc p (Root t) (Cookie t) = Some (CardinalityViolation, Root t, Cookie t)"
      by (intro Insert_duplicate) auto
    then show ?thesis using dup assms(1) by (simp add: tree_Insert_def)
  next
    case okay
    with inv assms a obtain t' where t': "Insert Compare alloc p (Root t) (Cookie t) = Some (Okay, t', c)"
      "avl t'" "inorder t' = insert_sorted Compare p (inorder (Root t))"
      using Insert_okay [of "Root t" p alloc "Cookie t" c] by auto
    have "sorted_wrt (\<lambda>a b. Compare a b < 0) (inorder t')"
      using insert_sorted_ordered [of "inorder (Root t)" p] t'(3) inv assms(2) okay(1) by (simp add: ordered_def)
    then show ?thesis using t' okay inv assms(2) a
      by (auto simp: tree_Insert_def tree_ok_def ordered_def set_insert_sorted length_insert_sorted)
  next
    case oom
    then have "Insert Compare alloc p (Root t) (Cookie t) = Some (res, Root t, c)"
      using a by (intro Insert_no_memory) auto
    then show ?thesis using oom a inv by (simp add: tree_Insert_def tree_ok_def)
  qed
qed

end

context avl_key
begin

lemma tree_Find_spec:
  assumes "tree_ok Compare valid t" "valid_key k"
  shows "tree_Find CompareKey k t \<noteq> None \<longleftrightarrow> (\<exists>q \<in> set (inorder (Root t)). CompareKey q k = 0)"
  using assms Find_in_tree [of k "Root t"] Find_none [of "Root t" k]
  by (fastforce simp: tree_ok_def tree_Find_def)

lemma tree_Remove_spec:
  assumes "tree_ok Compare valid t" "valid_key k"
  shows "\<exists>res pl t'. tree_Remove CompareKey dealloc k t = Some (res, pl, t') \<and> tree_ok Compare valid t'
     \<and> pl = tree_Find CompareKey k t
     \<and> (case pl of
          None \<Rightarrow> res = NotFound \<and> t' = t \<and> (\<forall>q \<in> set (inorder (Root t)). CompareKey q k \<noteq> 0)
        | Some p \<Rightarrow> res = fst (dealloc p (Cookie t)) \<and> CompareKey p k = 0
            \<and> (\<exists>xs ys. inorder (Root t) = xs @ p # ys \<and> inorder (Root t') = xs @ ys))"
proof (cases "Find CompareKey k (Root t)")
  case None
  with assms Find_none [of "Root t" k] show ?thesis
    by (auto simp: tree_Remove_def Remove_absent tree_Find_def tree_ok_def)
next
  case (Some p)
  with assms obtain t' where t': "Remove CompareKey k (Root t) = Some (Some p, t')" "removed_from (Root t) p t'"
    using Remove_found [of "Root t" CompareKey k p] by (auto simp: tree_ok_def)
  then obtain xs ys where xy: "inorder (Root t) = xs @ p # ys" "inorder t' = xs @ ys" "avl t'"
    by (auto simp: removed_from_def)
  obtain r c where rc: "dealloc p (Cookie t) = (r, c)" by fastforce
  have "ordered Compare t'" "\<forall>q \<in> set (inorder t'). valid q"
    using assms xy by (auto simp: tree_ok_def ordered_def sorted_wrt_append)
  moreover have "NodeCount t - 1 = of_nat (length (inorder t'))"
    using assms xy by (simp add: tree_ok_def)
  ultimately show ?thesis
    using t' xy rc Some Find_in_tree [OF Some]
    by (auto simp: tree_Remove_def tree_Find_def tree_ok_def)
qed

end

lemma Balance_inorder: "Balance t = Some t' \<Longrightarrow> inorder t' = inorder t"
proof (induction t)
  case (AvlTreeNode l r h p)
  then show ?case
    by (cases l; cases r)
       (auto simp: Balance.simps Let_def split: if_splits elim!: RotateLeft.elims RotateRight.elims
          bind_eq_Some_conv [THEN iffD1, elim_format])
qed (simp add: Balance.simps)

lemma Insert_length:
  "Insert cmp alloc p t c = Some (Okay, t', c') \<Longrightarrow> length (inorder t') = Suc (length (inorder t))"
proof (induction t arbitrary: t' c c')
  case Nullptr
  then show ?case by (auto simp: Create_def Let_def split: if_splits prod.splits)
next
  case (AvlTreeNode l r h q)
  from AvlTreeNode.prems show ?case
    by (auto simp: Let_def bind_eq_Some_conv dest!: AvlTreeNode.IH Balance_inorder split: if_splits)
qed

text \<open>
  \<open>InsertBlank\<close> by a key places its node exactly where \<open>Insert\<close> of any payload that compares like
  the key would go, and that payload is what the caller writes into it.
\<close>

lemma InsertBlank_Insert:
  assumes "\<And>q. q \<in> set (inorder t) \<Longrightarrow> cmpk q key = cmp q blank"
  shows "InsertBlank cmpk alloc blank key t c = Insert cmp alloc blank t c"
  using assms by (induction t arbitrary: c) (auto simp: Let_def)

text \<open>\<open>InsertOrFind\<close> inserts exactly as \<open>Insert\<close> does; only its third result differs.\<close>

lemma InsertOrFind_Insert:
  "Insert cmp alloc p t c = map_option (\<lambda>(res, _, t', c'). (res, t', c')) (InsertOrFind cmp alloc p t c)"
proof (induction t arbitrary: c)
  case Nullptr
  then show ?case by (simp add: Let_def split: prod.splits)
next
  case (AvlTreeNode l r h q)
  have bind: "Option.bind (map_option f x) g = Option.bind x (g \<circ> f)" for f g and x :: "'z option"
    by (cases x) simp_all
  have push: "map_option f (Option.bind x g) = Option.bind x (map_option f \<circ> g)" for f g and x :: "'z option"
    by (cases x) simp_all
  show ?case
    by (auto simp: Let_def AvlTreeNode.IH bind push option.map_comp comp_def split: prod.splits
        intro!: arg_cong2 [where f = Option.bind])
qed

end
