(* ===== verification/Comparisons.thy ===== *)
theory Comparisons
  imports Avl_Tree
begin

text \<open>
  \<^verbatim>\<open>libs/common/src/utils/comparisons.cpp\<close>: the two families of three-way comparisons of
  built-in integers. \<open>COMP_COVER\<close> decides by \<open>==\<close> and \<open><\<close>; \<open>COMP_INT\<close> subtracts in the
  32-bit signed \<open>comp_t\<close>, where a result out of range is undefined behaviour (\<open>None\<close>).
\<close>

definition comp_cover_unsigned :: "'a::len word \<Rightarrow> 'a word \<Rightarrow> int" where
  "comp_cover_unsigned a b = (if a = b then 0 else if a < b then -1 else 1)"

definition comp_cover_signed :: "'a::len word \<Rightarrow> 'a word \<Rightarrow> int" where
  "comp_cover_signed a b = (if sint a = sint b then 0 else if sint a < sint b then -1 else 1)"

definition in_comp_t :: "int \<Rightarrow> bool" where
  "in_comp_t i \<longleftrightarrow> - (2 ^ 31) \<le> i \<and> i < 2 ^ 31"

text \<open>The operands as the integers their types denote: \<open>sint\<close> for signed, \<open>uint\<close> for unsigned.\<close>

definition comp_int :: "int \<Rightarrow> int \<Rightarrow> int option" where
  "comp_int a b = (if in_comp_t (a - b) then Some (a - b) else None)"

section \<open>The comparisons as tree orders\<close>

interpretation unsigned_cmp: avl_unique_key
  "comp_cover_unsigned :: 'a::len word \<Rightarrow> 'a word \<Rightarrow> int" "\<lambda>_. True"
  "comp_cover_unsigned :: 'a::len word \<Rightarrow> 'a word \<Rightarrow> int" "\<lambda>_. True"
  by unfold_locales (auto simp: comp_cover_unsigned_def split: if_splits)

interpretation signed_cmp: avl_order
  "comp_cover_signed :: 'a::len word \<Rightarrow> 'a word \<Rightarrow> int" "\<lambda>_. True"
  by unfold_locales (auto simp: comp_cover_signed_def split: if_splits)

lemma comp_cover_zero: "comp_cover_unsigned a b = 0 \<longleftrightarrow> a = b"
  by (simp add: comp_cover_unsigned_def)

section \<open>Properties\<close>

text \<open>
  Comparison by subtraction is defined and has the right sign for every pair of integers of
  at most 16 bits, signed or not, the types it is meant for.
\<close>

theorem comp_int_narrow:
  assumes "- (2 ^ 15) \<le> a" "a < 2 ^ 16" "- (2 ^ 15) \<le> b" "b < 2 ^ 16"
  shows "\<exists>r. comp_int a b = Some r \<and> (r = 0 \<longleftrightarrow> a = b) \<and> (r < 0 \<longleftrightarrow> a < b)"
  using assms by (auto simp: comp_int_def in_comp_t_def)

theorem comp_int_narrow_witness:
  "\<exists>r. comp_int (- 32768) 65535 = Some r \<and> (r = 0 \<longleftrightarrow> (- 32768 :: int) = 65535)
     \<and> (r < 0 \<longleftrightarrow> (- 32768 :: int) < 65535)"
  by (rule comp_int_narrow) simp_all

text \<open>
  On \<open>int\<close> itself the subtraction is undefined exactly when the difference leaves the
  32-bit range, as for the least value against any positive one.
\<close>

theorem comp_int_wide_undefined:
  "(comp_int (sint (a :: u32)) (sint (b :: u32)) = None
      \<longleftrightarrow> sint a - sint b < - (2 ^ 31) \<or> 2 ^ 31 \<le> sint a - sint b)
   \<and> comp_int (sint (0x80000000 :: u32)) (sint (1 :: u32)) = None"
  by (auto simp: comp_int_def in_comp_t_def)

end
