(* ===== verification/Regions.thy ===== *)
theory Regions
  imports Avl_Tree
begin

text \<open>
  \<^verbatim>\<open>beelzebub/inc/memory/regions.hpp\<close> and \<^verbatim>\<open>beelzebub/src/memory/regions.cpp\<close>: ranges of
  virtual addresses, the region descriptors a virtual address space keeps, and the comparisons
  under which they are stored in its AVL tree.
\<close>

section \<open>Ranges\<close>

record MemoryRange =
  Start :: vaddr
  End :: vaddr

definition range_Invalid :: MemoryRange where
  "range_Invalid = \<lparr>Start = 1337, End = 42\<rparr>"

definition range_IsValid :: "MemoryRange \<Rightarrow> bool" where
  "range_IsValid r \<longleftrightarrow> Start r \<noteq> 1337 \<or> End r \<noteq> 42"

definition range_GetSize :: "MemoryRange \<Rightarrow> vsize" where
  "range_GetSize r = End r - Start r"

definition PageSize :: u64 where
  "PageSize = 4096"

definition range_GetPageCount :: "MemoryRange \<Rightarrow> u64" where
  "range_GetPageCount r = range_GetSize r div PageSize"

definition range_and :: "MemoryRange \<Rightarrow> MemoryRange \<Rightarrow> MemoryRange" where
  "range_and this other =
     (if End this \<le> Start other \<or> End other \<le> Start this then range_Invalid
      else \<lparr>Start = max (Start this) (Start other), End = min (End this) (End other)\<rparr>)"

definition range_or :: "MemoryRange \<Rightarrow> MemoryRange \<Rightarrow> MemoryRange" where
  "range_or this other =
     (if End this < Start other \<or> End other < Start this then range_Invalid
      else \<lparr>Start = min (Start this) (Start other), End = max (End this) (End other)\<rparr>)"

definition range_IsIn :: "MemoryRange \<Rightarrow> MemoryRange \<Rightarrow> bool" where
  "range_IsIn this other \<longleftrightarrow>
     Start this = Start (range_and this other) \<and> End this = End (range_and this other)"

definition range_Contains :: "MemoryRange \<Rightarrow> vaddr \<Rightarrow> bool" where
  "range_Contains r a \<longleftrightarrow> Start r \<le> a \<and> a < End r"

section \<open>Region descriptors\<close>

datatype MemoryContent =
    MC_Generic | MC_Share | MC_ThreadStack | MC_Runtime | MC_KernelModule | MC_CpuDatas
  | MC_VasDescriptors | MC_HandleTable | MC_HandleMap | MC_ProcessList | MC_ThreadList
  | MC_BootModule | MC_VbeFramebuffer | MC_AcpiTable | MC_VmmBootstrap | MC_Free

text \<open>The neighbours are pointers to other descriptors: numbers of nodes, \<open>None\<close> for null.\<close>

record MemoryRegion =
  Range :: MemoryRange
  Flags :: u8
  Type :: u32
  Content :: MemoryContent
  Next :: "nat option"
  Prev :: "nat option"

definition region_Contains :: "MemoryRegion \<Rightarrow> vaddr \<Rightarrow> bool" where
  "region_Contains r a = range_Contains (Range r) a"

section \<open>Comparisons\<close>

definition Compare_range :: "MemoryRange \<Rightarrow> MemoryRange \<Rightarrow> int" where
  "Compare_range a b = (if End a \<le> Start b then -1 else if End b \<le> Start a then 1 else 0)"

definition Compare_range_vaddr :: "MemoryRange \<Rightarrow> vaddr \<Rightarrow> int" where
  "Compare_range_vaddr a b = (if End a \<le> b then -1 else if b < Start a then 1 else 0)"

definition Compare_vaddr_range :: "vaddr \<Rightarrow> MemoryRange \<Rightarrow> int" where
  "Compare_vaddr_range a b = - Compare_range_vaddr b a"

definition Compare_region :: "MemoryRegion \<Rightarrow> MemoryRegion \<Rightarrow> int" where
  "Compare_region a b = Compare_range (Range a) (Range b)"

definition Compare_region_vaddr :: "MemoryRegion \<Rightarrow> vaddr \<Rightarrow> int" where
  "Compare_region_vaddr a b = Compare_range_vaddr (Range a) b"

text \<open>Against an \<open>AdjacentMemoryRegion\<close> cover: touching regions compare equal too.\<close>

definition Compare_region_adjacent :: "MemoryRegion \<Rightarrow> MemoryRegion \<Rightarrow> int" where
  "Compare_region_adjacent a b =
     (if End (Range a) < Start (Range b) then -1
      else if End (Range b) < Start (Range a) then 1 else 0)"

text \<open>The comparisons assume non-empty ranges; that is the validity of a descriptor.\<close>

definition region_ok :: "MemoryRegion \<Rightarrow> bool" where
  "region_ok r \<longleftrightarrow> Start (Range r) < End (Range r)"

interpretation region_tree: avl_unique_key
  Compare_region region_ok Compare_region_vaddr "\<lambda>_. True"
  by unfold_locales
     (auto simp: Compare_region_def Compare_range_def Compare_region_vaddr_def
        Compare_range_vaddr_def region_ok_def split: if_splits)

section \<open>The region tree\<close>

text \<open>
  C1. Inserting a region into the tree of an address space: an overlapping region is refused with
  \<open>CardinalityViolation\<close> and nothing changes; if no node can be allocated the allocator's error
  comes back and tree and count are unchanged; otherwise the region takes its place in address
  order. In every case no null pointer is followed and the result is again a balanced, ordered
  tree of non-empty regions whose stored heights and node count are right.
\<close>

theorem region_tree_Insert:
  assumes "tree_ok Compare_region region_ok t" "region_ok p"
  shows "\<exists>res pl t'. tree_Insert Compare_region alloc p t = Some (res, pl, t')
     \<and> tree_ok Compare_region region_ok t'
     \<and> (if \<exists>q \<in> set (inorder (Root t)). Compare_region q p = 0
        then res = CardinalityViolation \<and> pl = None \<and> t' = t
        else if fst (alloc (Cookie t)) = Okay
        then res = Okay \<and> pl = Some p
          \<and> inorder (Root t') = insert_sorted Compare_region p (inorder (Root t))
        else res = fst (alloc (Cookie t)) \<and> pl = None \<and> Root t' = Root t \<and> NodeCount t' = NodeCount t)"
  using assms by (rule region_tree.tree_Insert_spec)

definition example_region :: "vaddr \<Rightarrow> vaddr \<Rightarrow> MemoryRegion" where
  "example_region s e =
     \<lparr>Range = \<lparr>Start = s, End = e\<rparr>, Flags = 0, Type = 0, Content = MC_Free, Next = None, Prev = None\<rparr>"

definition example_tree :: "(MemoryRegion, unit) avl_tree" where
  "example_tree =
     \<lparr>Root = AvlTreeNode Nullptr (AvlTreeNode Nullptr Nullptr 1 (example_region 0x3000 0x5000)) 2
        (example_region 0x1000 0x2000), NodeCount = 2, Cookie = ()\<rparr>"

lemma example_tree_ok: "tree_ok Compare_region region_ok example_tree"
  by (simp add: tree_ok_def example_tree_def example_region_def ordered_def region_ok_def
      Compare_region_def Compare_range_def)

theorem region_tree_Insert_witness:
  "\<exists>res pl t'. tree_Insert Compare_region (\<lambda>c. (Okay, c)) (example_region 0x5000 0x6000) example_tree
       = Some (res, pl, t')
     \<and> tree_ok Compare_region region_ok t' \<and> res = Okay
     \<and> inorder (Root t') = [example_region 0x1000 0x2000, example_region 0x3000 0x5000, example_region 0x5000 0x6000]"
  using region_tree_Insert [OF example_tree_ok, of "example_region 0x5000 0x6000" "\<lambda>c. (Okay, c)"]
  by (simp add: example_tree_def example_region_def region_ok_def Compare_region_def
      Compare_range_def insert_sorted_def) blast

text \<open>
  C2. Removing by address takes out exactly the region that contains the address, leaves every
  other region in place, hands the removed one to \<open>RemoveNode\<close> and keeps the tree invariant,
  node count included; when no region contains the address it answers \<open>NotFound\<close> and changes
  nothing.
\<close>

theorem region_tree_Remove:
  assumes "tree_ok Compare_region region_ok t"
  shows "\<exists>res pl t'. tree_Remove Compare_region_vaddr dealloc a t = Some (res, pl, t')
     \<and> tree_ok Compare_region region_ok t' \<and> pl = tree_Find Compare_region_vaddr a t
     \<and> (case pl of
          None \<Rightarrow> res = NotFound \<and> t' = t \<and> (\<forall>q \<in> set (inorder (Root t)). \<not> region_Contains q a)
        | Some p \<Rightarrow> res = fst (dealloc p (Cookie t)) \<and> region_Contains p a
            \<and> (\<exists>xs ys. inorder (Root t) = xs @ p # ys \<and> inorder (Root t') = xs @ ys))"
proof -
  have c: "Compare_region_vaddr q a = 0 \<longleftrightarrow> region_Contains q a" for q
    by (auto simp: Compare_region_vaddr_def Compare_range_vaddr_def region_Contains_def range_Contains_def)
  show ?thesis
    using region_tree.tree_Remove_spec [OF assms, where k = a and dealloc = dealloc] unfolding c by simp
qed

theorem region_tree_Remove_witness:
  "\<exists>res pl t'. tree_Remove Compare_region_vaddr (\<lambda>p c. (Okay, c)) 0x4000 example_tree = Some (res, pl, t')
     \<and> tree_ok Compare_region region_ok t' \<and> pl = tree_Find Compare_region_vaddr 0x4000 example_tree"
  using region_tree_Remove [OF example_tree_ok, of "\<lambda>p c. (Okay, c)" "0x4000"] by blast

text \<open>
  C3. Lookup by address in an ordered region tree finds a region exactly when one contains the
  address, and then the only one that does.
\<close>

theorem region_tree_Find:
  assumes "tree_ok Compare_region region_ok t"
  shows "case tree_Find Compare_region_vaddr a t of
           None \<Rightarrow> \<forall>q \<in> set (inorder (Root t)). \<not> region_Contains q a
         | Some p \<Rightarrow> p \<in> set (inorder (Root t)) \<and> region_Contains p a
             \<and> (\<forall>q \<in> set (inorder (Root t)). region_Contains q a \<longrightarrow> q = p)"
proof -
  have c: "Compare_region_vaddr q a = 0 \<longleftrightarrow> region_Contains q a" for q
    by (auto simp: Compare_region_vaddr_def Compare_range_vaddr_def region_Contains_def range_Contains_def)
  have once: "q = p" if "p \<in> set (inorder (Root t))" "q \<in> set (inorder (Root t))"
    "region_Contains p a" "region_Contains q a" for p q
  proof (rule ccontr)
    assume "q \<noteq> p"
    with that(1,2) have "Compare_region p q < 0 \<or> Compare_region q p < 0"
      using assms by (auto simp: tree_ok_def ordered_def in_set_conv_nth) (metis linorder_neqE_nat sorted_wrt_nth_less)
    moreover have "Compare_region_vaddr p a = 0" "Compare_region_vaddr q a = 0"
      using that c by simp_all
    ultimately show False
      using that(1,2) assms region_tree.key_once [of p q a] region_tree.key_once [of q p a]
      by (auto simp: tree_ok_def)
  qed
  show ?thesis
    using once region_tree.Find_in_tree [of a "Root t"] region_tree.Find_none [of "Root t" a] assms
    by (auto simp: tree_Find_def tree_ok_def c split: option.split)
qed

theorem region_tree_Find_witness:
  "tree_Find Compare_region_vaddr 0x4fff example_tree = Some (example_region 0x3000 0x5000)
   \<and> example_region 0x3000 0x5000 \<in> set (inorder (Root example_tree))
   \<and> region_Contains (example_region 0x3000 0x5000) 0x4fff"
proof -
  have "tree_Find Compare_region_vaddr 0x4fff example_tree = Some (example_region 0x3000 0x5000)"
    by (simp add: tree_Find_def example_tree_def example_region_def Compare_region_vaddr_def
        Compare_range_vaddr_def Let_def)
  with region_tree_Find [OF example_tree_ok, of "0x4fff"] show ?thesis by simp
qed

section \<open>Range algebra\<close>

text \<open>
  The intersection of two ranges contains exactly the addresses both contain (the invalid
  range, answered for disjoint ones, contains none), and \<open>IsIn\<close> on non-empty ranges is inclusion.
\<close>

theorem range_and_correct:
  "(range_Contains (range_and a b) x \<longleftrightarrow> range_Contains a x \<and> range_Contains b x)
   \<and> (Start a < End a \<longrightarrow> (range_IsIn a b \<longleftrightarrow> (\<forall>y. range_Contains a y \<longrightarrow> range_Contains b y)))"
proof (intro conjI impI)
  show "range_Contains (range_and a b) x \<longleftrightarrow> range_Contains a x \<and> range_Contains b x"
  proof -
    have "\<not> (1337 \<le> x \<and> x < 42)" by (auto simp: word_le_nat_alt word_less_nat_alt)
    then show ?thesis by (auto simp: range_Contains_def range_and_def range_Invalid_def)
  qed
  assume ne: "Start a < End a"
  show "range_IsIn a b \<longleftrightarrow> (\<forall>y. range_Contains a y \<longrightarrow> range_Contains b y)"
  proof
    assume "range_IsIn a b"
    with ne show "\<forall>y. range_Contains a y \<longrightarrow> range_Contains b y"
      by (auto simp: range_IsIn_def range_and_def range_Invalid_def range_Contains_def max_def min_def
          split: if_splits)
  next
    assume sub: "\<forall>y. range_Contains a y \<longrightarrow> range_Contains b y"
    have "Start a \<le> End a - 1" "End a - 1 < End a"
      using ne by (auto simp: word_le_nat_alt word_less_nat_alt unat_sub_if_size word_size)
    with sub ne have "Start b \<le> Start a" "End a - 1 < End b" "Start a < End b"
      by (auto simp: range_Contains_def)
    moreover from this(2) have "End a \<le> End b"
      using ne by (auto simp: word_le_nat_alt word_less_nat_alt unat_sub_if_size word_size split: if_splits)
    ultimately show "range_IsIn a b"
      using ne by (auto simp: range_IsIn_def range_and_def max_def min_def)
  qed
qed

theorem range_and_correct_witness:
  "range_IsIn \<lparr>Start = 0x1000, End = 0x2000\<rparr> \<lparr>Start = 0, End = 0x3000\<rparr>"
proof -
  have "\<forall>y. range_Contains \<lparr>Start = 0x1000, End = 0x2000\<rparr> y \<longrightarrow>
      range_Contains \<lparr>Start = 0, End = 0x3000\<rparr> y"
    by (auto simp: range_Contains_def word_less_nat_alt)
  then show ?thesis
    using range_and_correct [of "\<lparr>Start = 0x1000, End = 0x2000\<rparr>" "\<lparr>Start = 0, End = 0x3000\<rparr>"] by simp
qed

text \<open>
  The union of two non-empty ranges that overlap or touch contains exactly the addresses one
  of them contains; ranges with a gap between them have no union.
\<close>

theorem range_or_correct:
  assumes "Start a < End a" "Start b < End b"
  shows "if End a < Start b \<or> End b < Start a then range_or a b = range_Invalid
         else range_Contains (range_or a b) x \<longleftrightarrow> range_Contains a x \<or> range_Contains b x"
  using assms by (auto simp: range_or_def range_Contains_def min_def max_def)

theorem range_or_correct_witness:
  "range_Contains (range_or \<lparr>Start = 0x1000, End = 0x2000\<rparr> \<lparr>Start = 0x2000, End = 0x3000\<rparr>) 0x1FFF \<longleftrightarrow>
     range_Contains \<lparr>Start = 0x1000, End = 0x2000\<rparr> 0x1FFF
     \<or> range_Contains \<lparr>Start = 0x2000, End = 0x3000\<rparr> 0x1FFF"
  using range_or_correct [of "\<lparr>Start = 0x1000, End = 0x2000\<rparr>" "\<lparr>Start = 0x2000, End = 0x3000\<rparr>" "0x1FFF"]
  by simp

section \<open>Bounds and counts\<close>

text \<open>The trees of regions that insertions and removals make from an empty one, whatever the node functions answer.\<close>

inductive region_tree_reachable :: "(MemoryRegion, 'c) avl_tree \<Rightarrow> bool" where
  empty: "region_tree_reachable \<lparr>Root = Nullptr, NodeCount = 0, Cookie = c\<rparr>"
| insert: "region_tree_reachable t \<Longrightarrow> region_ok p \<Longrightarrow> tree_Insert Compare_region alloc p t = Some (res, pl, t')
    \<Longrightarrow> region_tree_reachable t'"
| remove: "region_tree_reachable t \<Longrightarrow> tree_Remove Compare_region_vaddr dealloc a t = Some (res, pl, t')
    \<Longrightarrow> region_tree_reachable t'"

lemma region_tree_reachable_ok: "region_tree_reachable t \<Longrightarrow> tree_ok Compare_region region_ok t"
proof (induction rule: region_tree_reachable.induct)
  case (empty c)
  show ?case by (simp add: tree_ok_def ordered_def)
next
  case (insert t p alloc res pl t')
  then show ?case using region_tree.tree_Insert_spec [of t p alloc] by auto
next
  case (remove t dealloc a res pl t')
  then show ?case using region_tree.tree_Remove_spec [where t = t and dealloc = dealloc and k = a] by auto
qed

text \<open>
  C9. A tree of regions stays balanced: after any sequence of insertions and removals, with node functions that may
  fail, a further insertion or removal does not follow a null pointer, the height stored in the root is the length of the longest path, and that
  is logarithmic in the number of nodes: \<open>2 ^ (depth div 2)\<close> is at most their number plus one. The node count is
  that number, so with less than \<open>2 ^ 64\<close> nodes a path has at most 129 nodes and the \<open>int\<close> heights do not overflow.
\<close>

theorem region_tree_balanced:
  assumes "region_tree_reachable t"
  shows "(region_ok p \<longrightarrow> tree_Insert Compare_region alloc p t \<noteq> None) \<and> tree_Remove Compare_region_vaddr dealloc a t \<noteq> None
    \<and> GetHeight (Root t) = int (depth (Root t)) \<and> 2 ^ (depth (Root t) div 2) \<le> length (inorder (Root t)) + 1
    \<and> NodeCount t = of_nat (length (inorder (Root t)))
    \<and> (length (inorder (Root t)) < 2 ^ 64 \<longrightarrow> depth (Root t) \<le> 129)"
proof -
  note ok = region_tree_reachable_ok [OF assms]
  have avl: "avl (Root t)" "NodeCount t = of_nat (length (inorder (Root t)))" using ok by (simp_all add: tree_ok_def)
  have "region_ok p \<longrightarrow> tree_Insert Compare_region alloc p t \<noteq> None" "tree_Remove Compare_region_vaddr dealloc a t \<noteq> None"
    using region_tree.tree_Insert_spec [OF ok, of p alloc] region_tree.tree_Remove_spec [OF ok, where dealloc = dealloc and k = a] by auto
  with avl avl_size_lower [OF avl(1)] avl_depth_bound [OF avl(1), of 64] GetHeight_avl [OF avl(1)] show ?thesis by auto
qed

text \<open>Three ascending insertions: the root is rotated.\<close>

theorem region_tree_balanced_witness:
  "\<exists>t :: (MemoryRegion, unit) avl_tree. region_tree_reachable t \<and> inorder (Root t) = [example_region 0x1000 0x2000, example_region 0x3000 0x5000, example_region 0x5000 0x6000]
     \<and> GetHeight (Root t) = 2 \<and> depth (Root t) = 2"
proof -
  define add where "add = (\<lambda>p t. tree_Insert Compare_region (\<lambda>c :: unit. (Okay, c)) p t)"
  define t0 :: "(MemoryRegion, unit) avl_tree" where "t0 = \<lparr>Root = Nullptr, NodeCount = 0, Cookie = ()\<rparr>"
  obtain r1 p1 t1 r2 p2 t2 r3 p3 t3 where run: "add (example_region 0x1000 0x2000) t0 = Some (r1, p1, t1)"
    "add (example_region 0x3000 0x5000) t1 = Some (r2, p2, t2)" "add (example_region 0x5000 0x6000) t2 = Some (r3, p3, t3)"
    and t3: "depth (Root t3) = 2"
      "inorder (Root t3) = [example_region 0x1000 0x2000, example_region 0x3000 0x5000, example_region 0x5000 0x6000]"
    by (simp add: add_def t0_def tree_Insert_def Create_def example_region_def Compare_region_def Compare_range_def Balance.simps Let_def)
  have ok: "region_ok (example_region 0x1000 0x2000)" "region_ok (example_region 0x3000 0x5000)" "region_ok (example_region 0x5000 0x6000)"
    by (simp_all add: region_ok_def example_region_def)
  note run = run [unfolded add_def]
  have "region_tree_reachable t0" unfolding t0_def by (rule region_tree_reachable.empty)
  then have "region_tree_reachable t1" by (rule region_tree_reachable.insert [OF _ ok(1) run(1)])
  then have "region_tree_reachable t2" by (rule region_tree_reachable.insert [OF _ ok(2) run(2)])
  then have "region_tree_reachable t3" by (rule region_tree_reachable.insert [OF _ ok(3) run(3)])
  with region_tree_balanced [OF this, of "example_region 0 1" "\<lambda>c. (Okay, c)" "\<lambda>p c. (Okay, c)" 0] t3 show ?thesis by auto
qed

text \<open>
  \<open>InsertOrFind\<close> of the tree object does not count the node it inserts: after a successful call
  the node count no longer is the number of nodes, unlike after \<open>Insert\<close>.
\<close>

theorem tree_InsertOrFind_miscounts:
  assumes "tree_ok Compare_region region_ok t"
    and "tree_InsertOrFind Compare_region_adjacent alloc p t = Some (Okay, finding, t')"
  shows "length (inorder (Root t')) = Suc (length (inorder (Root t))) \<and> NodeCount t' = NodeCount t
         \<and> \<not> tree_ok Compare_region region_ok t'"
proof -
  from assms(2) have "Insert Compare_region_adjacent alloc p (Root t) (Cookie t) = Some (Okay, Root t', Cookie t')"
    by (auto simp: tree_InsertOrFind_def InsertOrFind_Insert)
  then have l: "length (inorder (Root t')) = Suc (length (inorder (Root t)))"
    by (rule Insert_length)
  moreover have n: "NodeCount t' = NodeCount t"
    using assms(2) by (auto simp: tree_InsertOrFind_def)
  moreover have "NodeCount t' \<noteq> of_nat (length (inorder (Root t')))"
    using assms(1) l n by (simp add: tree_ok_def)
  ultimately show ?thesis by (simp add: tree_ok_def)
qed

theorem tree_InsertOrFind_miscounts_witness:
  "\<exists>finding t'. tree_InsertOrFind Compare_region_adjacent (\<lambda>c. (Okay, c)) (example_region 0x7000 0x8000) example_tree
       = Some (Okay, finding, t')
     \<and> NodeCount t' = NodeCount example_tree \<and> \<not> tree_ok Compare_region region_ok t'"
proof -
  have "\<exists>finding t'. tree_InsertOrFind Compare_region_adjacent (\<lambda>c. (Okay, c)) (example_region 0x7000 0x8000) example_tree
      = Some (Okay, finding, t')"
    by (simp add: tree_InsertOrFind_def example_tree_def example_region_def Compare_region_adjacent_def
        Let_def Create_def Balance.simps)
  then show ?thesis
    using tree_InsertOrFind_miscounts [OF example_tree_ok] by blast
qed

text \<open>
  Each traversal of the tree visits every payload until the visitor stops it, in the order it
  names: a node before, between or after its subtrees, or level by level from the root.
\<close>

theorem Traverse_visits:
  "Traverse PreOrder lambda t s = visit_list lambda (preorder (Root t)) s
   \<and> Traverse InOrder lambda t s = visit_list lambda (inorder (Root t)) s
   \<and> Traverse PostOrder lambda t s = visit_list lambda (postorder (Root t)) s
   \<and> Traverse LevelOrder lambda t s =
       visit_list lambda (concat (map (level_nodes (Root t)) [0..<depth (Root t)])) s"
  by (simp add: IteratePreOrder_visits IterateInOrder_visits IteratePostOrder_visits level_loop_visits)

end
