(* ===== verification/Pmm.thy ===== *)
theory Pmm
  imports Handles
begin

text \<open>
  The physical memory manager of amd64: \<^verbatim>\<open>beelzebub/arc/amd64/src/memory/pmm.cpp\<close> and
  \<^verbatim>\<open>beelzebub/arc/amd64/inc/memory/pmm.arc.hpp\<close>. An allocation space describes a run of
  2-MiB frames by an array of descriptors; free large frames form a singly linked
  pseudo-stack threaded through the descriptors; a frame split into 4-KiB frames keeps in its
  first page a second array of descriptors with a pseudo-stack of its own, and the split frames
  that still have room form a doubly linked list.

  This theory holds the state and the operations, each as the composition of the sections the
  code runs under one lock. An array access is list indexing; that no operation leaves the array
  is part of the invariant proved in the next theory. \<open>FAIL\<close>, which halts the kernel, is
  \<open>None\<close>; \<open>assert_or\<close> is taken as in a release build, where its block runs.
\<close>

section \<open>Descriptors\<close>

datatype FrameStatus = Free | Used | Split | Full | Reserved | UnknownStatus u16

record FrameDescriptor =
  ReferenceCount :: u32
  Status :: FrameStatus

definition FrameDescriptor_Free :: "'a FrameDescriptor_scheme \<Rightarrow> 'a FrameDescriptor_scheme" where
  "FrameDescriptor_Free d = d\<lparr>Status := Free, ReferenceCount := 0\<rparr>"

definition FrameDescriptor_Use :: "u32 \<Rightarrow> 'a FrameDescriptor_scheme \<Rightarrow> 'a FrameDescriptor_scheme" where
  "FrameDescriptor_Use refCnt d = d\<lparr>Status := Used, ReferenceCount := refCnt\<rparr>"

record SmallFrameDescriptor = FrameDescriptor +
  S_NextIndex :: u16

definition S_NullIndex :: u16 where
  "S_NullIndex = 0"

definition SmallFrameDescriptor_new :: SmallFrameDescriptor where
  "SmallFrameDescriptor_new = \<lparr>ReferenceCount = 0, Status = Free, S_NextIndex = S_NullIndex\<rparr>"

record SplitFrameExtra =
  NextFree :: u16
  FreeCount :: u16
  PrevIndex :: u32

definition L_NullIndex :: u32 where
  "L_NullIndex = 0xFFFFFFFF"

definition SplitFrameExtra_new :: SplitFrameExtra where
  "SplitFrameExtra_new = \<lparr>NextFree = S_NullIndex, FreeCount = 0, PrevIndex = L_NullIndex\<rparr>"

text \<open>
  The 512 slots \<open>SubDescriptors\<close> points to lie in the first page of the frame itself; the extras
  overlay slot 0, which no small frame uses. They are meaningful only while the frame is split.
\<close>

record LargeFrameDescriptor = FrameDescriptor +
  L_NextIndex :: u32
  Extras :: SplitFrameExtra
  SubDescriptors :: "SmallFrameDescriptor list"

definition SubDescriptorsCount :: u16 where
  "SubDescriptorsCount = 511"

definition LargeFrameDescriptor_new :: "SmallFrameDescriptor list \<Rightarrow> LargeFrameDescriptor" where
  "LargeFrameDescriptor_new page =
     \<lparr>ReferenceCount = 0, Status = Free, L_NextIndex = L_NullIndex,
      Extras = SplitFrameExtra_new, SubDescriptors = page\<rparr>"

section \<open>Splitting a large frame\<close>

text \<open>\<open>lastNextIndex\<close> points either into the extras or into the slot written last.\<close>

datatype link_target = ToExtras | ToSlot nat

fun set_link :: "link_target \<Rightarrow> u16 \<Rightarrow> LargeFrameDescriptor \<Rightarrow> LargeFrameDescriptor" where
  "set_link ToExtras v d = d\<lparr>Extras := (Extras d)\<lparr>NextFree := v\<rparr>\<rparr>"
| "set_link (ToSlot j) v d =
     d\<lparr>SubDescriptors := (SubDescriptors d)[j := (SubDescriptors d ! j)\<lparr>S_NextIndex := v\<rparr>]\<rparr>"

text \<open>The first loop, for \<open>i\<close> up to \<open>cnt\<close>; \<open>n\<close> counts the iterations left.\<close>

fun split_free_loop :: "nat \<Rightarrow> nat \<Rightarrow> link_target \<Rightarrow> LargeFrameDescriptor
    \<Rightarrow> nat \<times> link_target \<times> LargeFrameDescriptor" where
  "split_free_loop 0 i lastNextIndex d = (i, lastNextIndex, d)"
| "split_free_loop (Suc n) i lastNextIndex d =
     (let d1 = set_link lastNextIndex (of_nat i) d;
          d2 = d1\<lparr>SubDescriptors := (SubDescriptors d1)[i := SmallFrameDescriptor_new]\<rparr>
      in split_free_loop n (i + 1) (ToSlot i) d2)"

text \<open>The second loop marks the slots that are left as reserved.\<close>

fun split_reserved_loop :: "nat \<Rightarrow> nat \<Rightarrow> LargeFrameDescriptor \<Rightarrow> LargeFrameDescriptor" where
  "split_reserved_loop 0 i d = d"
| "split_reserved_loop (Suc n) i d =
     split_reserved_loop n (i + 1)
       (d\<lparr>SubDescriptors := (SubDescriptors d)[i := SmallFrameDescriptor_new\<lparr>Status := Reserved\<rparr>]\<rparr>)"

definition SplitLargeFrame :: "u16 \<Rightarrow> LargeFrameDescriptor \<Rightarrow> LargeFrameDescriptor" where
  "SplitLargeFrame cnt desc =
     (let (i, lastNextIndex, d1) =
            split_free_loop (unat cnt) 1 ToExtras (desc\<lparr>Extras := SplitFrameExtra_new\<rparr>);
          d2 = set_link lastNextIndex S_NullIndex d1;
          d3 = split_reserved_loop (unat SubDescriptorsCount + 1 - i) i d2
      in d3\<lparr>Status := Split, Extras := (Extras d3)\<lparr>FreeCount := cnt\<rparr>\<rparr>)"

section \<open>Allocation spaces\<close>

record FrameAllocationSpace =
  MemoryStart :: paddr
  MemoryEnd :: paddr
  Size :: psize
  AllocationStart :: paddr
  AllocationEnd :: paddr
  AllocableSize :: psize
  ControlAreaSize :: psize
  FreeSize :: psize
  ReservedSize :: psize
  LargeFrameCount :: u64
  Map :: "LargeFrameDescriptor list"
  LargeFree :: u32
  SplitFree :: u32

definition desc :: "FrameAllocationSpace \<Rightarrow> u32 \<Rightarrow> LargeFrameDescriptor" where
  "desc sp i = Map sp ! unat i"

definition set_desc :: "u32 \<Rightarrow> LargeFrameDescriptor \<Rightarrow> FrameAllocationSpace \<Rightarrow> FrameAllocationSpace" where
  "set_desc i d sp = sp\<lparr>Map := (Map sp)[unat i := d]\<rparr>"

definition subdesc :: "LargeFrameDescriptor \<Rightarrow> u16 \<Rightarrow> SmallFrameDescriptor" where
  "subdesc d s = SubDescriptors d ! unat s"

definition set_subdesc :: "u16 \<Rightarrow> SmallFrameDescriptor \<Rightarrow> LargeFrameDescriptor \<Rightarrow> LargeFrameDescriptor" where
  "set_subdesc s x d = d\<lparr>SubDescriptors := (SubDescriptors d)[unat s := x]\<rparr>"

text \<open>\<open>this->Map[i].GetExtras()->PrevIndex = v\<close>, done only when \<open>i\<close> is not the null index.\<close>

definition set_prev :: "u32 \<Rightarrow> u32 \<Rightarrow> FrameAllocationSpace \<Rightarrow> FrameAllocationSpace" where
  "set_prev i v sp =
     (if i \<noteq> L_NullIndex
      then set_desc i ((desc sp i)\<lparr>Extras := (Extras (desc sp i))\<lparr>PrevIndex := v\<rparr>\<rparr>) sp else sp)"

text \<open>
  The address of a frame. \<open>lIndex << 21\<close> is computed on the 32-bit index and widened afterwards.
\<close>

definition frame_addr :: "FrameAllocationSpace \<Rightarrow> u32 \<Rightarrow> u16 \<Rightarrow> paddr" where
  "frame_addr sp lIndex sIndex =
     AllocationStart sp + ucast (push_bit 21 lIndex) + ucast (push_bit 12 (ucast sIndex :: u32))"

definition ContainsRange :: "FrameAllocationSpace \<Rightarrow> paddr \<Rightarrow> psize \<Rightarrow> bool" where
  "ContainsRange sp start sz \<longleftrightarrow> AllocationStart sp \<le> start \<and> start + sz \<le> AllocationEnd sp"

section \<open>Frame allocation\<close>

datatype FrameSize = KiB4 | KiB64 | MiB2 | MiB4 | GiB1

text \<open>Taking the top small frame of a split frame.\<close>

definition take_small :: "u32 \<Rightarrow> LargeFrameDescriptor \<Rightarrow> LargeFrameDescriptor" where
  "take_small refCnt lDesc =
     (let sIndex = NextFree (Extras lDesc);
          sDesc = FrameDescriptor_Use refCnt (subdesc lDesc sIndex);
          d = set_subdesc sIndex sDesc lDesc
      in d\<lparr>Extras := (Extras d)\<lparr>NextFree := S_NextIndex sDesc, FreeCount := FreeCount (Extras d) - 1\<rparr>\<rparr>)"

text \<open>The label \<open>split_frame_full\<close>: the head of the split list is depleted and unlinked.\<close>

definition split_frame_full :: "u32 \<Rightarrow> FrameAllocationSpace \<Rightarrow> FrameAllocationSpace" where
  "split_frame_full lIndex sp =
     (let sp1 = set_desc lIndex ((desc sp lIndex)\<lparr>Status := Full\<rparr>) sp;
          nxt = L_NextIndex (desc sp1 lIndex)
      in set_prev nxt L_NullIndex (sp1\<lparr>SplitFree := nxt\<rparr>))"

text \<open>
  The first section of a 4-KiB allocation, under \<open>SplitLocker\<close>; \<open>None\<close> goes on to
  \<open>grab_large_page\<close>.
\<close>

definition alloc_split :: "u32 \<Rightarrow> FrameAllocationSpace \<Rightarrow> paddr option \<times> FrameAllocationSpace" where
  "alloc_split refCnt sp =
     (let lIndex = SplitFree sp in
      if lIndex = L_NullIndex then (None, sp)
      else
        let sIndex = NextFree (Extras (desc sp lIndex)) in
        if sIndex = S_NullIndex then (None, split_frame_full lIndex sp)
        else
          let nextFree = S_NextIndex (subdesc (desc sp lIndex) sIndex);
              sp1 = set_desc lIndex (take_small refCnt (desc sp lIndex)) sp;
              sp2 = (if nextFree = S_NullIndex then split_frame_full lIndex sp1 else sp1)
          in (Some (frame_addr sp lIndex sIndex), sp2))"

text \<open>Popping the stack of free large frames, under \<open>LargeLocker\<close>.\<close>

definition pop_large :: "FrameAllocationSpace \<Rightarrow> FrameAllocationSpace" where
  "pop_large sp = sp\<lparr>LargeFree := L_NextIndex (desc sp (LargeFree sp))\<rparr>"

definition push_large :: "u32 \<Rightarrow> FrameAllocationSpace \<Rightarrow> FrameAllocationSpace" where
  "push_large lIndex sp =
     (set_desc lIndex ((desc sp lIndex)\<lparr>L_NextIndex := LargeFree sp\<rparr>) sp)\<lparr>LargeFree := lIndex\<rparr>"

text \<open>Putting a split frame on top of the split list, under \<open>SplitLocker\<close>.\<close>

definition push_split :: "u32 \<Rightarrow> FrameAllocationSpace \<Rightarrow> FrameAllocationSpace" where
  "push_split lIndex sp =
     (let nxt = SplitFree sp;
          sp1 = (set_desc lIndex ((desc sp lIndex)\<lparr>L_NextIndex := nxt\<rparr>) sp)\<lparr>SplitFree := lIndex\<rparr>
      in set_prev nxt lIndex sp1)"

text \<open>From the label \<open>grab_large_page\<close> on.\<close>

definition alloc_large :: "FrameSize \<Rightarrow> u32 \<Rightarrow> FrameAllocationSpace \<Rightarrow> paddr \<times> FrameAllocationSpace" where
  "alloc_large sz refCnt sp =
     (let lIndex = LargeFree sp in
      if lIndex = L_NullIndex then (0, sp)
      else
        let sp1 = pop_large sp in
        if sz = MiB2
        then (AllocationStart sp + ucast (push_bit 21 lIndex),
              set_desc lIndex (FrameDescriptor_Use refCnt (desc sp1 lIndex)) sp1)
        else
          let lDesc = SplitLargeFrame SubDescriptorsCount (desc sp1 lIndex);
              sIndex = NextFree (Extras lDesc);
              sp2 = set_desc lIndex (take_small refCnt lDesc) sp1
          in (frame_addr sp lIndex sIndex, push_split lIndex sp2))"

definition AllocateFrame :: "FrameSize \<Rightarrow> u32 \<Rightarrow> FrameAllocationSpace
    \<Rightarrow> (paddr \<times> FrameAllocationSpace) option" where
  "AllocateFrame sz refCnt sp =
     (case sz of
        KiB4 \<Rightarrow>
          (case alloc_split refCnt sp of
             (Some paddr, sp') \<Rightarrow> Some (paddr, sp')
           | (None, sp') \<Rightarrow> Some (alloc_large sz refCnt sp'))
      | MiB2 \<Rightarrow> Some (alloc_large sz refCnt sp)
      | _ \<Rightarrow> None)"

section \<open>Freeing and reference counts\<close>

text \<open>
  The lambda \<open>test\<close> of \<open>Mingle\<close>: whether the frame is to be freed, the value written to
  \<open>newCnt\<close> (if any), and the descriptor with its adjusted count. \<open>diff\<close> is two's complement.
\<close>

definition mingle_test :: "u32 \<Rightarrow> bool \<Rightarrow> 'a FrameDescriptor_scheme
    \<Rightarrow> bool \<times> u32 option \<times> 'a FrameDescriptor_scheme" where
  "mingle_test diff ignoreRefCnt d =
     (if diff = 0 then (ignoreRefCnt \<or> ReferenceCount d \<le> 1, None, d)
      else (let n = ReferenceCount d + diff in (n = 0, Some n, d\<lparr>ReferenceCount := n\<rparr>)))"

type_synonym mingle_result = "HandleResult \<times> u32 option \<times> FrameAllocationSpace"

text \<open>A used large frame, under \<open>LargeLocker\<close>.\<close>

definition mingle_used :: "u32 \<Rightarrow> bool \<Rightarrow> u32 \<Rightarrow> FrameAllocationSpace \<Rightarrow> mingle_result" where
  "mingle_used diff ignoreRefCnt lIndex sp =
     (let (free, newCnt, d) = mingle_test diff ignoreRefCnt (desc sp lIndex) in
      if free then (Okay, newCnt, push_large lIndex (set_desc lIndex (FrameDescriptor_Free d) sp))
      else (if diff = 0 then PageInUse else Okay, newCnt, set_desc lIndex d sp))"

text \<open>Giving a small frame back to its split frame.\<close>

definition give_small :: "u16 \<Rightarrow> SmallFrameDescriptor \<Rightarrow> LargeFrameDescriptor \<Rightarrow> LargeFrameDescriptor" where
  "give_small sIndex sDesc lDesc =
     (let x = (FrameDescriptor_Free sDesc)\<lparr>S_NextIndex := NextFree (Extras lDesc)\<rparr>;
          d = set_subdesc sIndex x lDesc
      in d\<lparr>Extras := (Extras d)\<lparr>NextFree := sIndex, FreeCount := FreeCount (Extras d) + 1\<rparr>\<rparr>)"

text \<open>A split frame that was full goes back on the split list.\<close>

definition relink_split :: "u32 \<Rightarrow> FrameAllocationSpace \<Rightarrow> FrameAllocationSpace" where
  "relink_split lIndex sp =
     (let sp1 = push_split lIndex (set_desc lIndex ((desc sp lIndex)\<lparr>Status := Split\<rparr>) sp)
      in set_desc lIndex
           ((desc sp1 lIndex)\<lparr>Extras := (Extras (desc sp1 lIndex))\<lparr>PrevIndex := L_NullIndex\<rparr>\<rparr>) sp1)"

text \<open>
  A split frame with all its small frames free is unlinked from the split list and reclaimed
  (label \<open>reclaim_large_frame\<close>).
\<close>

definition unlink_split :: "u32 \<Rightarrow> FrameAllocationSpace \<Rightarrow> FrameAllocationSpace" where
  "unlink_split lIndex sp =
     (let nxt = L_NextIndex (desc sp lIndex); prev = PrevIndex (Extras (desc sp lIndex));
          sp1 = set_prev nxt prev sp;
          sp2 = (if prev \<noteq> L_NullIndex
                 then set_desc prev ((desc sp1 prev)\<lparr>L_NextIndex := nxt\<rparr>) sp1 else sp1)
      in if SplitFree sp2 = lIndex then sp2\<lparr>SplitFree := nxt\<rparr> else sp2)"

definition reclaim_large_frame :: "u32 \<Rightarrow> FrameAllocationSpace \<Rightarrow> FrameAllocationSpace" where
  "reclaim_large_frame lIndex sp =
     push_large lIndex (set_desc lIndex (FrameDescriptor_Free (desc sp lIndex)) sp)"

text \<open>The status dispatch on a small frame, under \<open>SplitLocker\<close>.\<close>

definition mingle_small :: "u32 \<Rightarrow> bool \<Rightarrow> u32 \<Rightarrow> u16 \<Rightarrow> FrameAllocationSpace \<Rightarrow> mingle_result" where
  "mingle_small diff ignoreRefCnt lIndex sIndex sp =
     (if sIndex = 0 then (PageReserved, None, sp)
      else
        let lDesc = desc sp lIndex; sDesc = subdesc lDesc sIndex in
        case Status sDesc of
          Free \<Rightarrow> (PageFree, None, sp)
        | Used \<Rightarrow>
            (let (free, newCnt, x) = mingle_test diff ignoreRefCnt sDesc in
             if \<not> free
             then (if diff = 0 then PageInUse else Okay, newCnt, set_desc lIndex (set_subdesc sIndex x lDesc) sp)
             else
               let lDesc' = give_small sIndex x lDesc; sp1 = set_desc lIndex lDesc' sp in
               if Status lDesc' = Full then (Okay, newCnt, relink_split lIndex sp1)
               else if FreeCount (Extras lDesc') = SubDescriptorsCount
               then (Okay, newCnt, reclaim_large_frame lIndex (unlink_split lIndex sp1))
               else (Okay, newCnt, sp1))
        | Split \<Rightarrow> (IntegrityFailure, None, sp)
        | Full \<Rightarrow> (IntegrityFailure, None, sp)
        | Reserved \<Rightarrow> (PageReserved, None, sp)
        | UnknownStatus _ \<Rightarrow> (IntegrityFailure, None, sp))"

text \<open>
  The jumps between the labels \<open>do_large_frame\<close> and \<open>do_small_frame\<close>: each section re-reads the
  status under its lock and may hand over to the other one. Without interference a section is
  entered at most twice, so fuel 2 is enough; \<open>None\<close> is running out of it.
\<close>

datatype mingle_label = do_large_frame | do_small_frame

fun mingle_goto :: "nat \<Rightarrow> mingle_label \<Rightarrow> u32 \<Rightarrow> bool \<Rightarrow> u32 \<Rightarrow> u16 \<Rightarrow> FrameAllocationSpace
    \<Rightarrow> mingle_result option" where
  "mingle_goto 0 label diff ignoreRefCnt lIndex sIndex sp = None"
| "mingle_goto (Suc fuel) label diff ignoreRefCnt lIndex sIndex sp =
     (case Status (desc sp lIndex) of
        Free \<Rightarrow> Some (PageFree, None, sp)
      | Used \<Rightarrow>
          (case label of
             do_large_frame \<Rightarrow> Some (mingle_used diff ignoreRefCnt lIndex sp)
           | do_small_frame \<Rightarrow> mingle_goto fuel do_large_frame diff ignoreRefCnt lIndex sIndex sp)
      | Reserved \<Rightarrow> Some (PageReserved, None, sp)
      | UnknownStatus _ \<Rightarrow> Some (IntegrityFailure, None, sp)
      | _ \<Rightarrow>
          (case label of
             do_large_frame \<Rightarrow> mingle_goto fuel do_small_frame diff ignoreRefCnt lIndex sIndex sp
           | do_small_frame \<Rightarrow> Some (mingle_small diff ignoreRefCnt lIndex sIndex sp)))"

definition large_index :: "FrameAllocationSpace \<Rightarrow> paddr \<Rightarrow> u32" where
  "large_index sp addr = ucast (drop_bit 21 (addr - AllocationStart sp))"

definition small_index :: "paddr \<Rightarrow> u16" where
  "small_index addr = ucast (drop_bit 12 (addr AND 0x1FF000))"

definition Mingle :: "paddr \<Rightarrow> u32 \<Rightarrow> bool \<Rightarrow> FrameAllocationSpace \<Rightarrow> mingle_result option" where
  "Mingle addr diff ignoreRefCnt sp =
     (if addr < AllocationStart sp \<or> AllocationEnd sp \<le> addr
      then Some (PagesOutOfAllocatorRange, None, sp)
      else
        let lIndex = large_index sp addr; sIndex = small_index addr in
        case Status (desc sp lIndex) of
          Free \<Rightarrow> Some (PageFree, None, sp)
        | Used \<Rightarrow> mingle_goto 2 do_large_frame diff ignoreRefCnt lIndex sIndex sp
        | Reserved \<Rightarrow> Some (PageReserved, None, sp)
        | UnknownStatus _ \<Rightarrow> Some (IntegrityFailure, None, sp)
        | _ \<Rightarrow> mingle_goto 2 do_small_frame diff ignoreRefCnt lIndex sIndex sp)"

section \<open>Reserving a range and querying a frame\<close>

text \<open>
  \<open>FrameAllocationSpace::ReserveRange\<close> has no statement after its range test: inside the range the
  function flows off its end, which is undefined behaviour and \<open>None\<close> here.
\<close>

definition ReserveRange :: "paddr \<Rightarrow> psize \<Rightarrow> bool \<Rightarrow> FrameAllocationSpace \<Rightarrow> HandleResult option" where
  "ReserveRange start sz includeBusy sp =
     (if start < AllocationStart sp \<or> AllocationEnd sp \<le> start + sz
      then Some PagesOutOfAllocatorRange else None)"

text \<open>The result with the values written to \<open>size\<close> and \<open>refCnt\<close>, if any.\<close>

type_synonym info_result = "HandleResult \<times> FrameSize option \<times> u32 option"

definition info_small :: "LargeFrameDescriptor \<Rightarrow> u16 \<Rightarrow> info_result" where
  "info_small lDesc sIndex =
     (if sIndex = 0 then (PageReserved, Some KiB4, Some (- 1))
      else
        let sDesc = subdesc lDesc sIndex in
        case Status sDesc of
          Free \<Rightarrow> (PageFree, Some KiB4, Some 0)
        | Used \<Rightarrow> (PageInUse, Some KiB4, Some (ReferenceCount sDesc))
        | Reserved \<Rightarrow> (PageReserved, Some KiB4, Some (ReferenceCount sDesc))
        | _ \<Rightarrow> (IntegrityFailure, Some KiB4, None))"

fun info_goto :: "nat \<Rightarrow> mingle_label \<Rightarrow> LargeFrameDescriptor \<Rightarrow> u16 \<Rightarrow> info_result option" where
  "info_goto 0 label lDesc sIndex = None"
| "info_goto (Suc fuel) label lDesc sIndex =
     (case Status lDesc of
        Free \<Rightarrow> Some (PageFree, Some MiB2, Some 0)
      | Used \<Rightarrow>
          (case label of
             do_large_frame \<Rightarrow> Some (PageInUse, Some MiB2, Some (ReferenceCount lDesc))
           | do_small_frame \<Rightarrow> info_goto fuel do_large_frame lDesc sIndex)
      | Reserved \<Rightarrow> Some (PageReserved, Some MiB2, Some (ReferenceCount lDesc))
      | UnknownStatus _ \<Rightarrow> Some (IntegrityFailure, None, None)
      | _ \<Rightarrow>
          (case label of
             do_large_frame \<Rightarrow> info_goto fuel do_small_frame lDesc sIndex
           | do_small_frame \<Rightarrow> Some (info_small lDesc sIndex)))"

definition GetFrameInfo :: "paddr \<Rightarrow> FrameAllocationSpace \<Rightarrow> info_result option" where
  "GetFrameInfo addr sp =
     (if addr < AllocationStart sp \<or> AllocationEnd sp \<le> addr
      then Some (PagesOutOfAllocatorRange, None, None)
      else
        let lDesc = desc sp (large_index sp addr); sIndex = small_index addr in
        case Status lDesc of
          Free \<Rightarrow> Some (PageFree, Some MiB2, Some 0)
        | Used \<Rightarrow> info_goto 2 do_large_frame lDesc sIndex
        | Reserved \<Rightarrow> Some (PageReserved, Some MiB2, Some (ReferenceCount lDesc))
        | UnknownStatus _ \<Rightarrow> Some (IntegrityFailure, None, None)
        | _ \<Rightarrow> info_goto 2 do_small_frame lDesc sIndex)"

section \<open>Construction of an allocation space\<close>

definition sizeof_LargeFrameDescriptor :: u64 where
  "sizeof_LargeFrameDescriptor = 24"

definition PageSize :: u64 where
  "PageSize = 4096"

text \<open>
  The search loop for \<open>frameCount\<close>, \<open>ctrl_end\<close> and \<open>alloc_start\<close> with \<open>i\<close> running through the
  powers of two below \<open>2 ^ k\<close>; it stops early on a precise fit.
\<close>

fun fit_loop :: "nat \<Rightarrow> u64 \<Rightarrow> paddr \<Rightarrow> paddr \<Rightarrow> u64 \<times> paddr \<times> paddr" where
  "fit_loop 0 frameCount ctrl_end alloc_start = (frameCount, ctrl_end, alloc_start)"
| "fit_loop (Suc k) frameCount ctrl_end alloc_start =
     (let i = push_bit k 1;
          new_ctrl_end = ctrl_end + i * sizeof_LargeFrameDescriptor;
          new_alloc_start = alloc_start - push_bit 21 i
      in if alloc_start < new_alloc_start then fit_loop k frameCount ctrl_end alloc_start
         else if new_ctrl_end \<le> new_alloc_start
         then (if new_ctrl_end = new_alloc_start
               then (frameCount + i, new_ctrl_end, new_alloc_start)
               else fit_loop k (frameCount + i) new_ctrl_end new_alloc_start)
         else fit_loop k frameCount ctrl_end alloc_start)"

text \<open>
  The loop that threads the descriptors on the stack of free large frames: descriptor \<open>i\<close> is
  constructed over what the control area held, and the link of its predecessor (or
  \<open>LargeFree\<close>) set to \<open>i\<close>. \<open>page i\<close> is whatever the first page of frame \<open>i\<close> holds.
\<close>

fun map_loop :: "(nat \<Rightarrow> SmallFrameDescriptor list) \<Rightarrow> nat \<Rightarrow> nat \<Rightarrow> LargeFrameDescriptor list" where
  "map_loop page 0 i = []"
| "map_loop page (Suc n) i =
     (LargeFrameDescriptor_new (page i))\<lparr>L_NextIndex := if n = 0 then L_NullIndex else of_nat (i + 1)\<rparr>
       # map_loop page n (i + 1)"

definition FrameAllocationSpace_new :: "(nat \<Rightarrow> SmallFrameDescriptor list) \<Rightarrow> paddr \<Rightarrow> paddr
    \<Rightarrow> FrameAllocationSpace" where
  "FrameAllocationSpace_new page phys_start phys_end =
     (let algn_end = RoundDown phys_end (push_bit 20 2);
          (frameCount, ctrl_end, alloc_start) = fit_loop 32 0 phys_start algn_end;
          sp = \<lparr>MemoryStart = phys_start, MemoryEnd = phys_end, Size = phys_end - phys_start,
                AllocationStart = alloc_start, AllocationEnd = algn_end,
                AllocableSize = algn_end - alloc_start,
                ControlAreaSize = frameCount * sizeof_LargeFrameDescriptor,
                FreeSize = algn_end - alloc_start, ReservedSize = 0,
                LargeFrameCount = frameCount, Map = map_loop page (unat frameCount) 0,
                LargeFree = (if frameCount = 0 then L_NullIndex else 0),
                SplitFree = L_NullIndex\<rparr>
      in if sizeof_LargeFrameDescriptor \<le> alloc_start - ctrl_end \<and> 3 * PageSize \<le> phys_end - algn_end
         then sp\<lparr>AllocationEnd := phys_end, AllocableSize := phys_end - alloc_start,
                 ControlAreaSize := ControlAreaSize sp + sizeof_LargeFrameDescriptor,
                 FreeSize := FreeSize sp + (phys_end - algn_end - PageSize),
                 Map := Map sp @ [SplitLargeFrame (ucast ((phys_end - algn_end) div PageSize - 2))
                                    (LargeFrameDescriptor_new (page (unat frameCount)))],
                 SplitFree := ucast frameCount,
                 LargeFrameCount := frameCount + 1\<rparr>
         else sp)"

end
