(* ===== verification/Pmm_Split.thy ===== *)
theory Pmm_Split
  imports Pmm
begin

text \<open>
  Small frames: what \<open>SplitLargeFrame\<close> builds, as a closed form, and the pseudo-stack of free
  small frames inside one split frame, with the well-formedness of such a frame and its
  preservation by taking and giving back a small frame.
\<close>

section \<open>Slots of a descriptor\<close>

lemma subdesc_set_subdesc [simp]:
  "unat s < length (SubDescriptors d) \<Longrightarrow>
   subdesc (set_subdesc s x d) t = (if t = s then x else subdesc d t)"
  by (auto simp: subdesc_def set_subdesc_def nth_list_update unat_inject)

lemma set_subdesc_select [simp]:
  "Status (set_subdesc s x d) = Status d"
  "ReferenceCount (set_subdesc s x d) = ReferenceCount d"
  "L_NextIndex (set_subdesc s x d) = L_NextIndex d"
  "Extras (set_subdesc s x d) = Extras d"
  "length (SubDescriptors (set_subdesc s x d)) = length (SubDescriptors d)"
  by (simp_all add: set_subdesc_def)

lemma subdesc_update [simp]:
  "subdesc (d\<lparr>Extras := e\<rparr>) = subdesc d"
  "subdesc (d\<lparr>Status := st\<rparr>) = subdesc d"
  "subdesc (d\<lparr>ReferenceCount := n\<rparr>) = subdesc d"
  "subdesc (d\<lparr>L_NextIndex := l\<rparr>) = subdesc d"
  by (simp_all add: subdesc_def fun_eq_iff)

lemma FrameDescriptor_Use_next [simp]: "S_NextIndex (FrameDescriptor_Use n x) = S_NextIndex x"
  by (simp add: FrameDescriptor_Use_def)

lemma FrameDescriptor_ops [simp]:
  "Status (FrameDescriptor_Use n x) = Used"
  "ReferenceCount (FrameDescriptor_Use n x) = n"
  "Status (FrameDescriptor_Free x) = Free"
  "ReferenceCount (FrameDescriptor_Free x) = 0"
  by (simp_all add: FrameDescriptor_Use_def FrameDescriptor_Free_def)

lemma give_small_any: "give_small s x d = give_small s y d"
  by (cases x; cases y) (simp add: give_small_def FrameDescriptor_Free_def)

lemma take_small_select [simp]:
  "Status (take_small n d) = Status d"
  "L_NextIndex (take_small n d) = L_NextIndex d"
  "PrevIndex (Extras (take_small n d)) = PrevIndex (Extras d)"
  "FreeCount (Extras (take_small n d)) = FreeCount (Extras d) - 1"
  "length (SubDescriptors (take_small n d)) = length (SubDescriptors d)"
  by (simp_all add: take_small_def Let_def)

lemma give_small_select [simp]:
  "Status (give_small s x d) = Status d"
  "L_NextIndex (give_small s x d) = L_NextIndex d"
  "PrevIndex (Extras (give_small s x d)) = PrevIndex (Extras d)"
  "NextFree (Extras (give_small s x d)) = s"
  "FreeCount (Extras (give_small s x d)) = FreeCount (Extras d) + 1"
  "length (SubDescriptors (give_small s x d)) = length (SubDescriptors d)"
  by (simp_all add: give_small_def Let_def)

lemma subdesc_take_small:
  "unat (NextFree (Extras d)) < length (SubDescriptors d) \<Longrightarrow>
   subdesc (take_small n d) t =
     (if t = NextFree (Extras d) then FrameDescriptor_Use n (subdesc d t) else subdesc d t)"
  by (simp add: take_small_def Let_def)

lemma subdesc_give_small:
  "unat s < length (SubDescriptors d) \<Longrightarrow>
   subdesc (give_small s x d) t =
     (if t = s then \<lparr>ReferenceCount = 0, Status = Free, S_NextIndex = NextFree (Extras d)\<rparr> else subdesc d t)"
  by (auto simp: give_small_def Let_def FrameDescriptor_Free_def)

section \<open>The stack of free small frames\<close>

interpretation small: index_stack
  "\<lambda>d. NextFree (Extras d)" "\<lambda>d s. S_NextIndex (subdesc d s)" S_NullIndex
  "\<lambda>d s. unat s < length (SubDescriptors d)"
  "\<lambda>s d. give_small s (subdesc d s) d" "take_small n"
  for n
proof
  fix s :: u16 and d :: LargeFrameDescriptor and t :: u16
  show "NextFree (Extras (give_small s (subdesc d s) d)) = s" by simp
  show "unat s < length (SubDescriptors d) \<Longrightarrow>
    S_NextIndex (subdesc (give_small s (subdesc d s) d) t) =
      (if t = s then NextFree (Extras d) else S_NextIndex (subdesc d t))"
    by (simp add: subdesc_give_small)
  show "NextFree (Extras (take_small n d)) = S_NextIndex (subdesc d (NextFree (Extras d)))"
    by (simp add: take_small_def Let_def)
  show "unat (NextFree (Extras d)) < length (SubDescriptors d) \<Longrightarrow>
    S_NextIndex (subdesc (take_small n d) t) = S_NextIndex (subdesc d t)"
    by (simp add: subdesc_take_small)
qed

text \<open>A well-formed split frame: slot 0 holds the extras, the others are free, used or reserved.\<close>

definition small_index_ok :: "u16 \<Rightarrow> bool" where
  "small_index_ok s \<longleftrightarrow> s \<noteq> S_NullIndex \<and> unat s < 512"

definition free_slots :: "LargeFrameDescriptor \<Rightarrow> u16 set" where
  "free_slots d = {s. small_index_ok s \<and> Status (subdesc d s) = Free}"

definition split_ok :: "LargeFrameDescriptor \<Rightarrow> bool" where
  "split_ok d \<longleftrightarrow>
     length (SubDescriptors d) = 512 \<and>
     (\<forall>s. small_index_ok s \<longrightarrow> Status (subdesc d s) \<in> {Free, Used, Reserved}) \<and>
     (\<exists>fs. small.stack d fs \<and> set fs = free_slots d \<and> unat (FreeCount (Extras d)) = length fs)"

lemma split_ok_count:
  assumes "split_ok d"
  shows "unat (FreeCount (Extras d)) = card (free_slots d)"
    and "NextFree (Extras d) = S_NullIndex \<longleftrightarrow> free_slots d = {}"
    and "NextFree (Extras d) \<noteq> S_NullIndex \<Longrightarrow> NextFree (Extras d) \<in> free_slots d"
proof -
  from assms obtain fs where fs: "small.stack d fs" "set fs = free_slots d"
    "unat (FreeCount (Extras d)) = length fs"
    unfolding split_ok_def by blast
  show "unat (FreeCount (Extras d)) = card (free_slots d)"
    using fs small.stack_distinct distinct_card by metis
  show empty: "NextFree (Extras d) = S_NullIndex \<longleftrightarrow> free_slots d = {}"
    using small.stack_empty [OF fs(1)] fs(2) by auto
  show "NextFree (Extras d) \<in> free_slots d" if "NextFree (Extras d) \<noteq> S_NullIndex"
    using fs that unfolding small.stack_def by (cases fs) auto
qed

lemma free_slots_index: "s \<in> free_slots d \<Longrightarrow> small_index_ok s"
  by (simp add: free_slots_def)

lemma small_index_okD [dest]: "small_index_ok s \<Longrightarrow> s \<noteq> S_NullIndex \<and> unat s < 512"
  by (simp add: small_index_ok_def)

lemma split_ok_take_small:
  assumes "split_ok d" "NextFree (Extras d) \<noteq> S_NullIndex"
  shows "split_ok (take_small n d)"
    and "free_slots (take_small n d) = free_slots d - {NextFree (Extras d)}"
proof -
  let ?s = "NextFree (Extras d)"
  from assms(1) obtain fs where len: "length (SubDescriptors d) = 512"
    and st: "\<forall>s. small_index_ok s \<longrightarrow> Status (subdesc d s) \<in> {Free, Used, Reserved}"
    and fs: "small.stack d fs" "set fs = free_slots d" "unat (FreeCount (Extras d)) = length fs"
    unfolding split_ok_def by blast
  have s: "?s \<in> free_slots d" using split_ok_count assms by blast
  then have idx: "unat ?s < length (SubDescriptors d)"
    using len by (auto simp: free_slots_def)
  obtain gs where gs: "fs = ?s # gs"
    using fs(1) assms(2) unfolding small.stack_def by (cases fs) auto
  have dist: "distinct fs" by (rule small.stack_distinct) (rule fs(1))
  show slots: "free_slots (take_small n d) = free_slots d - {?s}"
    by (auto simp: free_slots_def subdesc_take_small [OF idx])
  have "small.stack (take_small n d) gs"
    using small.stack_pop(1) [of d ?s gs] fs(1) gs idx by simp
  moreover have "set gs = free_slots (take_small n d)"
    using slots fs(2) gs dist by auto
  moreover have "unat (FreeCount (Extras (take_small n d))) = length gs"
  proof -
    have "(1::u16) \<le> FreeCount (Extras d)"
      using fs(3) gs by (simp add: word_le_nat_alt)
    then show ?thesis
      using fs(3) gs by (simp add: unat_minus_le)
  qed
  moreover have "\<forall>s. small_index_ok s \<longrightarrow> Status (subdesc (take_small n d) s) \<in> {Free, Used, Reserved}"
    using st by (simp add: subdesc_take_small [OF idx])
  ultimately show "split_ok (take_small n d)"
    unfolding split_ok_def using len by auto
qed

lemma card_small_index: "card {s. small_index_ok s} \<le> 511"
proof -
  have "{s. small_index_ok s} \<subseteq> (of_nat :: nat \<Rightarrow> u16) ` {1..<512}"
  proof
    fix s assume "s \<in> {s. small_index_ok s}"
    then have "unat s \<in> {1..<512}"
      by (auto simp: small_index_ok_def S_NullIndex_def Suc_le_eq unat_gt_0)
    then show "s \<in> of_nat ` {1..<512}"
      using image_eqI [of s of_nat "unat s"] by simp
  qed
  then have "card {s. small_index_ok s} \<le> card {1..<512::nat}"
    by (rule surj_card_le [rotated]) simp
  then show ?thesis by simp
qed

lemma card_free_slots: "card (free_slots d) \<le> 511"
proof -
  have "card (free_slots d) \<le> card {s. small_index_ok s}"
    by (rule card_mono) (auto simp: free_slots_def)
  with card_small_index show ?thesis by linarith
qed

lemma all_slots_free:
  assumes "split_ok d" "FreeCount (Extras d) = SubDescriptorsCount" "small_index_ok s"
  shows "Status (subdesc d s) = Free"
proof -
  have "card (free_slots d) = 511"
    using split_ok_count(1) [OF assms(1)] assms(2) by (simp add: SubDescriptorsCount_def)
  then have "free_slots d = {s. small_index_ok s}"
    by (intro card_seteq) (use card_small_index in \<open>auto simp: free_slots_def\<close>)
  with assms(3) show ?thesis by (auto simp: free_slots_def)
qed

lemma split_ok_give_small:
  assumes "split_ok d" "small_index_ok s" "Status (subdesc d s) \<noteq> Free"
  shows "split_ok (give_small s x d)"
    and "free_slots (give_small s x d) = insert s (free_slots d)"
proof -
  let ?d = "give_small s (subdesc d s) d"
  from assms(1) obtain fs where len: "length (SubDescriptors d) = 512"
    and st: "\<forall>s. small_index_ok s \<longrightarrow> Status (subdesc d s) \<in> {Free, Used, Reserved}"
    and fs: "small.stack d fs" "set fs = free_slots d" "unat (FreeCount (Extras d)) = length fs"
    unfolding split_ok_def by blast
  have idx: "unat s < length (SubDescriptors d)" "s \<noteq> S_NullIndex"
    using assms(2) len by auto
  have new: "s \<notin> set fs" using fs(2) assms(3) by (simp add: free_slots_def)
  have slots: "free_slots ?d = insert s (free_slots d)"
    using assms(2) by (auto simp: free_slots_def subdesc_give_small [OF idx(1)])
  have "small.stack ?d (s # fs)"
    by (rule small.stack_push) (use fs idx new in auto)
  moreover have "set (s # fs) = free_slots ?d"
    using slots fs(2) by simp
  moreover have "unat (FreeCount (Extras ?d)) = length (s # fs)"
  proof -
    have "length fs \<le> 511"
      using card_free_slots [of d] fs(2) distinct_card [OF small.stack_distinct [OF fs(1)]] by simp
    then show ?thesis
      using fs(3) by (simp add: unat_plus_small)
  qed
  moreover have "\<forall>s. small_index_ok s \<longrightarrow> Status (subdesc ?d s) \<in> {Free, Used, Reserved}"
    using st by (simp add: subdesc_give_small [OF idx(1)])
  ultimately have "split_ok ?d"
    unfolding split_ok_def using len by auto
  then show "split_ok (give_small s x d)" "free_slots (give_small s x d) = insert s (free_slots d)"
    using slots give_small_any [of s x d "subdesc d s"] by simp_all
qed

lemma split_ok_adjust:
  assumes "split_ok d" "small_index_ok s" "Status (subdesc d s) = Used"
  shows "split_ok (set_subdesc s ((subdesc d s)\<lparr>ReferenceCount := n\<rparr>) d)"
proof -
  let ?d = "set_subdesc s ((subdesc d s)\<lparr>ReferenceCount := n\<rparr>) d"
  from assms have len: "length (SubDescriptors d) = 512" by (simp add: split_ok_def)
  with assms(2) have idx: "unat s < length (SubDescriptors d)" by auto
  have "small.stack ?d fs = small.stack d fs" for fs
    unfolding small.stack_def set_subdesc_select by (rule seg_cong) (simp add: idx)
  moreover have "free_slots ?d = free_slots d"
    using assms(3) by (auto simp: free_slots_def idx)
  moreover have "\<forall>t. small_index_ok t \<longrightarrow> Status (subdesc ?d t) = Status (subdesc d t)"
    by (simp add: idx)
  ultimately show ?thesis
    using assms(1) by (simp add: split_ok_def)
qed

section \<open>What splitting a frame builds\<close>

text \<open>The slots \<open>i\<close> to \<open>i + n - 1\<close> chained in order, the last one linked to \<open>v\<close>.\<close>

definition fill_slot :: "nat \<Rightarrow> u16 \<Rightarrow> nat \<Rightarrow> SmallFrameDescriptor" where
  "fill_slot last_slot v j =
     \<lparr>ReferenceCount = 0, Status = Free, S_NextIndex = (if j = last_slot then v else of_nat (j + 1))\<rparr>"

definition fill_slots :: "nat \<Rightarrow> nat \<Rightarrow> u16 \<Rightarrow> SmallFrameDescriptor list \<Rightarrow> SmallFrameDescriptor list" where
  "fill_slots n i v xs =
     map (\<lambda>j. if i \<le> j \<and> j < i + n then fill_slot (i + n - 1) v j else xs ! j) [0..<length xs]"

lemma fill_slots_0 [simp]: "fill_slots 0 i v xs = xs"
  by (rule nth_equalityI) (auto simp: fill_slots_def)

lemma fill_slots_step:
  "(fill_slots n (i + 1) v (xs[i := SmallFrameDescriptor_new]))
     [i := SmallFrameDescriptor_new\<lparr>S_NextIndex := if n = 0 then v else of_nat (i + 1)\<rparr>]
   = fill_slots (Suc n) i v xs"
  by (rule nth_equalityI)
     (auto simp: fill_slots_def fill_slot_def nth_list_update SmallFrameDescriptor_new_def)

text \<open>The loop followed by a write through \<open>lastNextIndex\<close>; the link written first lies below \<open>i\<close>.\<close>

lemma fill_slots_link_below:
  assumes "j < i"
  shows "fill_slots n i v (xs[j := x]) = (fill_slots n i v xs)[j := x]"
  by (cases "j < length xs"; rule nth_equalityI)
     (use assms in \<open>auto simp: fill_slots_def nth_list_update\<close>)

fun target_below :: "nat \<Rightarrow> link_target \<Rightarrow> bool" where
  "target_below i ToExtras \<longleftrightarrow> True"
| "target_below i (ToSlot j) \<longleftrightarrow> j < i"

lemma fill_slots_nth_below: "j < i \<Longrightarrow> j < length xs \<Longrightarrow> fill_slots n i v xs ! j = xs ! j"
  by (simp add: fill_slots_def)

lemma length_fill_slots [simp]: "length (fill_slots n i v xs) = length xs"
  by (simp add: fill_slots_def)

lemma set_link_fill:
  assumes "target_below i t" "i < length (SubDescriptors d)"
  shows "set_link t w (d\<lparr>SubDescriptors := fill_slots (Suc n) i v (SubDescriptors d)\<rparr>) =
    (set_link t w d)\<lparr>SubDescriptors := fill_slots (Suc n) i v (SubDescriptors (set_link t w d))\<rparr>"
  using assms by (cases t) (simp_all add: fill_slots_link_below fill_slots_nth_below)

lemma split_free_loop_fill:
  assumes "split_free_loop n i t d = (i', t', d')" "target_below i t"
    "i + n \<le> length (SubDescriptors d)"
  shows "i' = i + n \<and> set_link t' v d' =
    set_link t (if n = 0 then v else of_nat i) (d\<lparr>SubDescriptors := fill_slots n i v (SubDescriptors d)\<rparr>)"
  using assms
proof (induction n arbitrary: i t d)
  case 0
  then show ?case by simp
next
  case (Suc n)
  let ?d1 = "set_link t (of_nat i) d"
  let ?d2 = "?d1\<lparr>SubDescriptors := (SubDescriptors ?d1)[i := SmallFrameDescriptor_new]\<rparr>"
  have len: "length (SubDescriptors ?d1) = length (SubDescriptors d)" by (cases t) simp_all
  have run: "split_free_loop n (i + 1) (ToSlot i) ?d2 = (i', t', d')"
    using Suc.prems(1) by (simp add: Let_def)
  have ih: "i' = (i + 1) + n \<and> set_link t' v d' =
      set_link (ToSlot i) (if n = 0 then v else of_nat (i + 1))
        (?d2\<lparr>SubDescriptors := fill_slots n (i + 1) v (SubDescriptors ?d2)\<rparr>)"
    using Suc.prems(3) len by (intro Suc.IH [OF run]) simp_all
  have "i < length (SubDescriptors d)" using Suc.prems(3) by simp
  then have goal: "set_link t (of_nat i) (d\<lparr>SubDescriptors := fill_slots (Suc n) i v (SubDescriptors d)\<rparr>) =
      ?d1\<lparr>SubDescriptors := fill_slots (Suc n) i v (SubDescriptors ?d1)\<rparr>"
    using Suc.prems(2) by (rule set_link_fill [rotated])
  have "set_link t' v d' = ?d1\<lparr>SubDescriptors := fill_slots (Suc n) i v (SubDescriptors ?d1)\<rparr>"
    using ih len \<open>i < length (SubDescriptors d)\<close>
    by (subst fill_slots_step [symmetric]) (simp add: fill_slots_nth_below)
  with ih goal show ?case by simp
qed

lemma split_reserved_loop_fill:
  "i + n \<le> length (SubDescriptors d) \<Longrightarrow>
   split_reserved_loop n i d = d\<lparr>SubDescriptors :=
     map (\<lambda>j. if i \<le> j \<and> j < i + n then SmallFrameDescriptor_new\<lparr>Status := Reserved\<rparr>
              else SubDescriptors d ! j) [0..<length (SubDescriptors d)]\<rparr>"
proof (induction n arbitrary: i d)
  case 0
  have "map (\<lambda>j. if i \<le> j \<and> j < i then SmallFrameDescriptor_new\<lparr>Status := Reserved\<rparr>
      else SubDescriptors d ! j) [0..<length (SubDescriptors d)] = SubDescriptors d"
    by (rule nth_equalityI) auto
  then show ?case by simp
next
  case (Suc n)
  show ?case
    using Suc.prems
    by (subst split_reserved_loop.simps, subst Suc.IH)
       (auto intro!: arg_cong [where f = "\<lambda>x. SubDescriptors_update (\<lambda>_. x) d"] simp: nth_list_update)
qed

text \<open>The closed form of a frame split with \<open>cnt\<close> usable small frames.\<close>

definition split_slot :: "nat \<Rightarrow> SmallFrameDescriptor \<Rightarrow> nat \<Rightarrow> SmallFrameDescriptor" where
  "split_slot cnt old j =
     (if j = 0 then old
      else if j \<le> cnt then fill_slot cnt S_NullIndex j
      else \<lparr>ReferenceCount = 0, Status = Reserved, S_NextIndex = S_NullIndex\<rparr>)"

lemma SplitLargeFrame_closed_form:
  assumes "length (SubDescriptors d) = 512" "unat cnt \<le> 511"
  shows "SplitLargeFrame cnt d = d\<lparr>Status := Split,
    Extras := \<lparr>NextFree = (if cnt = 0 then S_NullIndex else 1), FreeCount = cnt, PrevIndex = L_NullIndex\<rparr>,
    SubDescriptors := map (split_slot (unat cnt) (SubDescriptors d ! 0)) [0..<512]\<rparr>"
proof -
  let ?d0 = "d\<lparr>Extras := SplitFrameExtra_new\<rparr>"
  obtain i t d1 where run: "split_free_loop (unat cnt) 1 ToExtras ?d0 = (i, t, d1)"
    by (metis prod_cases3)
  have fill: "i = 1 + unat cnt \<and> set_link t S_NullIndex d1 =
      set_link ToExtras (if unat cnt = 0 then S_NullIndex else of_nat 1)
        (?d0\<lparr>SubDescriptors := fill_slots (unat cnt) 1 S_NullIndex (SubDescriptors ?d0)\<rparr>)"
    by (rule split_free_loop_fill [OF run]) (use assms in simp_all)
  have slots: "map (\<lambda>j. if 1 + unat cnt \<le> j \<and> j < 1 + unat cnt + (511 - unat cnt)
        then SmallFrameDescriptor_new\<lparr>Status := Reserved\<rparr>
        else fill_slots (unat cnt) 1 S_NullIndex (SubDescriptors d) ! j) [0..<512]
      = map (split_slot (unat cnt) (SubDescriptors d ! 0)) [0..<512]"
    using assms
    by (auto simp: fill_slots_def split_slot_def fill_slot_def SmallFrameDescriptor_new_def)
  let ?d2 = "set_link t S_NullIndex d1"
  have d2: "?d2 = d\<lparr>Extras := SplitFrameExtra_new\<lparr>NextFree := if cnt = 0 then S_NullIndex else 1\<rparr>,
      SubDescriptors := fill_slots (unat cnt) 1 S_NullIndex (SubDescriptors d)\<rparr>"
    using fill by (simp add: unat_eq_0)
  have "split_reserved_loop (511 - unat cnt) (1 + unat cnt) ?d2 =
      ?d2\<lparr>SubDescriptors := map (split_slot (unat cnt) (SubDescriptors d ! 0)) [0..<512]\<rparr>"
    unfolding slots [symmetric] using assms
    by (subst split_reserved_loop_fill) (simp_all add: d2)
  moreover have "SplitLargeFrame cnt d =
      (let d3 = split_reserved_loop (511 - unat cnt) (1 + unat cnt) ?d2
       in d3\<lparr>Status := Split, Extras := (Extras d3)\<lparr>FreeCount := cnt\<rparr>\<rparr>)"
    unfolding SplitLargeFrame_def run Let_def using fill by (simp add: SubDescriptorsCount_def)
  ultimately show ?thesis
    by (simp add: Let_def d2 SplitFrameExtra_new_def)
qed

lemma split_slot_select [simp]:
  "j \<noteq> 0 \<Longrightarrow> Status (split_slot cnt x j) = (if j \<le> cnt then Free else Reserved)"
  "j \<noteq> 0 \<Longrightarrow> ReferenceCount (split_slot cnt x j) = 0"
  by (simp_all add: split_slot_def fill_slot_def)

lemma subdesc_SplitLargeFrame:
  assumes "length (SubDescriptors d) = 512" "unat cnt \<le> 511" "unat s < 512"
  shows "subdesc (SplitLargeFrame cnt d) s = split_slot (unat cnt) (SubDescriptors d ! 0) (unat s)"
  using assms by (simp add: SplitLargeFrame_closed_form subdesc_def)

lemma SplitLargeFrame_select [simp]:
  assumes "length (SubDescriptors d) = 512" "unat cnt \<le> 511"
  shows "Status (SplitLargeFrame cnt d) = Split"
    "FreeCount (Extras (SplitLargeFrame cnt d)) = cnt"
    "PrevIndex (Extras (SplitLargeFrame cnt d)) = L_NullIndex"
    "NextFree (Extras (SplitLargeFrame cnt d)) = (if cnt = 0 then S_NullIndex else 1)"
    "L_NextIndex (SplitLargeFrame cnt d) = L_NextIndex d"
    "length (SubDescriptors (SplitLargeFrame cnt d)) = 512"
  using assms by (simp_all add: SplitLargeFrame_closed_form)

lemma split_ok_SplitLargeFrame:
  assumes "length (SubDescriptors d) = 512" "unat cnt \<le> 511"
  shows "split_ok (SplitLargeFrame cnt d)"
    and "free_slots (SplitLargeFrame cnt d) = {s. s \<noteq> S_NullIndex \<and> s \<le> cnt}"
proof -
  let ?d = "SplitLargeFrame cnt d"
  let ?fs = "map of_nat [1..<unat cnt + 1] :: u16 list"
  have pos: "0 < unat s" if "small_index_ok s" for s
    using that by (simp add: small_index_ok_def S_NullIndex_def unat_gt_0)
  show slots: "free_slots ?d = {s. s \<noteq> S_NullIndex \<and> s \<le> cnt}"
    using assms pos
    by (auto simp: free_slots_def subdesc_SplitLargeFrame small_index_ok_def word_le_nat_alt
        split: if_splits)
  have "set ?fs = {s. s \<noteq> S_NullIndex \<and> s \<le> cnt}"
  proof (intro set_eqI iffI)
    fix s :: u16
    assume "s \<in> {s. s \<noteq> S_NullIndex \<and> s \<le> cnt}"
    then have "unat s \<in> {1..<unat cnt + 1}"
      by (auto simp: word_le_nat_alt S_NullIndex_def Suc_le_eq unat_gt_0)
    then have "s \<in> of_nat ` {1..<unat cnt + 1}"
      by (rule image_eqI [rotated]) simp
    then show "s \<in> set ?fs"
      by (simp only: set_map set_upt)
  next
    fix s :: u16
    assume "s \<in> set ?fs"
    then obtain j where j: "s = of_nat j" "1 \<le> j" "j \<le> unat cnt" by auto
    then have "unat s = j"
      using assms(2) by (simp add: unat_of_nat take_bit_eq_mod)
    with j show "s \<in> {s. s \<noteq> S_NullIndex \<and> s \<le> cnt}"
      by (auto simp: word_le_nat_alt S_NullIndex_def)
  qed
  moreover have "small.stack ?d ?fs"
  proof (cases "cnt = 0")
    case True
    then show ?thesis using assms unfolding small.stack_def by (simp add: S_NullIndex_def)
  next
    case False
    have "S_NextIndex (subdesc ?d (of_nat j)) = (if j + 1 = unat cnt + 1 then 0 else of_nat (j + 1))"
      if "1 \<le> j" "j < unat cnt + 1" for j
    proof -
      have "unat (of_nat j :: u16) = j" using that assms(2) by (simp add: unat_of_nat take_bit_eq_mod)
      then show ?thesis
        using that assms
        by (subst subdesc_SplitLargeFrame) (simp_all add: split_slot_def fill_slot_def S_NullIndex_def)
    qed
    then have "seg (\<lambda>s. S_NextIndex (subdesc ?d s)) 0 (of_nat 1) ?fs 0"
      using False assms(2)
      by (intro seg_upt) (simp_all add: unat_gt_0 word_of_nat_eq_0_iff nat_dvd_not_less)
    then show ?thesis
      using False assms unfolding small.stack_def by (simp add: S_NullIndex_def)
  qed
  moreover have "\<forall>s. small_index_ok s \<longrightarrow> Status (subdesc ?d s) \<in> {Free, Used, Reserved}"
    using assms
    by (auto simp: subdesc_SplitLargeFrame small_index_ok_def S_NullIndex_def unat_eq_0)
  ultimately show "split_ok ?d"
    using slots assms by (auto simp: split_ok_def)
qed

end
