(* ===== verification/Pmm_Inv.thy ===== *)
theory Pmm_Inv
  imports Pmm_Split
begin

text \<open>
  The invariant of an allocation space. Between two critical sections an operation may own a
  frame that is on neither list; \<open>space_inv X\<close> is the invariant with the frames of \<open>X\<close> in the
  hands of running operations, so that each critical section is a lemma that takes \<open>space_inv\<close>
  to \<open>space_inv\<close> and the operations compose them. The abstraction \<open>allocated\<close> reads off which frames
  are allocated and their reference counts.
\<close>

section \<open>Descriptors of a space\<close>

definition frame_index :: "FrameAllocationSpace \<Rightarrow> u32 \<Rightarrow> bool" where
  "frame_index sp l \<longleftrightarrow> unat l < length (Map sp)"

lemma desc_set_desc [simp]:
  "frame_index sp l \<Longrightarrow> desc (set_desc l d sp) j = (if j = l then d else desc sp j)"
  by (auto simp: desc_def set_desc_def frame_index_def nth_list_update unat_inject)

lemma frame_index_select [simp]:
  "frame_index (set_desc i d sp) l = frame_index sp l"
  "frame_index (sp\<lparr>LargeFree := x\<rparr>) l = frame_index sp l"
  "frame_index (sp\<lparr>SplitFree := x\<rparr>) l = frame_index sp l"
  "frame_index (pop_large sp) l = frame_index sp l"
  "frame_index (push_large k sp) l = frame_index sp l"
  "frame_index (set_prev i v sp) l = frame_index sp l"
  by (simp_all add: frame_index_def set_desc_def pop_large_def push_large_def set_prev_def)

lemma desc_update [simp]:
  "desc (sp\<lparr>LargeFree := x\<rparr>) = desc sp"
  "desc (sp\<lparr>SplitFree := x\<rparr>) = desc sp"
  by (simp_all add: desc_def fun_eq_iff)

lemma set_desc_select [simp]:
  "LargeFree (set_desc l d sp) = LargeFree sp"
  "SplitFree (set_desc l d sp) = SplitFree sp"
  "AllocationStart (set_desc l d sp) = AllocationStart sp"
  "length (Map (set_desc l d sp)) = length (Map sp)"
  by (simp_all add: set_desc_def)

lemma desc_set_prev [simp]:
  "i = L_NullIndex \<or> frame_index sp i \<Longrightarrow>
   desc (set_prev i v sp) j = (if j = i \<and> i \<noteq> L_NullIndex
     then (desc sp j)\<lparr>Extras := (Extras (desc sp j))\<lparr>PrevIndex := v\<rparr>\<rparr> else desc sp j)"
  by (auto simp: set_prev_def)

lemma set_prev_select [simp]:
  "LargeFree (set_prev i v sp) = LargeFree sp"
  "SplitFree (set_prev i v sp) = SplitFree sp"
  "AllocationStart (set_prev i v sp) = AllocationStart sp"
  "length (Map (set_prev i v sp)) = length (Map sp)"
  by (simp_all add: set_prev_def)

lemma FrameDescriptor_ops_large [simp]:
  "L_NextIndex (FrameDescriptor_Use n d) = L_NextIndex d"
  "Extras (FrameDescriptor_Use n d) = Extras d"
  "SubDescriptors (FrameDescriptor_Use n d) = SubDescriptors d"
  "L_NextIndex (FrameDescriptor_Free d) = L_NextIndex d"
  "Extras (FrameDescriptor_Free d) = Extras d"
  "SubDescriptors (FrameDescriptor_Free d) = SubDescriptors d"
  by (simp_all add: FrameDescriptor_Use_def FrameDescriptor_Free_def)

lemma push_large_select [simp]:
  "length (Map (push_large l sp)) = length (Map sp)"
  "SplitFree (push_large l sp) = SplitFree sp"
  "AllocationStart (push_large l sp) = AllocationStart sp"
  by (simp_all add: push_large_def)

interpretation large: index_stack
  LargeFree "\<lambda>sp l. L_NextIndex (desc sp l)" L_NullIndex frame_index push_large pop_large
proof
  fix l j :: u32 and sp :: FrameAllocationSpace
  show "LargeFree (push_large l sp) = l" by (simp add: push_large_def)
  show "frame_index sp l \<Longrightarrow> L_NextIndex (desc (push_large l sp) j) =
      (if j = l then LargeFree sp else L_NextIndex (desc sp j))"
    by (simp add: push_large_def)
  show "LargeFree (pop_large sp) = L_NextIndex (desc sp (LargeFree sp))"
    by (simp add: pop_large_def)
  show "L_NextIndex (desc (pop_large sp) j) = L_NextIndex (desc sp j)"
    by (simp add: pop_large_def)
qed

section \<open>The invariant\<close>

definition frame_ok :: "LargeFrameDescriptor \<Rightarrow> bool" where
  "frame_ok d \<longleftrightarrow>
     length (SubDescriptors d) = 512 \<and>
     (\<forall>x. Status d \<noteq> UnknownStatus x) \<and>
     (Status d = Split \<longrightarrow> split_ok d \<and> 0 < FreeCount (Extras d) \<and> FreeCount (Extras d) < SubDescriptorsCount) \<and>
     (Status d = Full \<longrightarrow> split_ok d \<and> FreeCount (Extras d) = 0)"

definition frames_with :: "FrameStatus \<Rightarrow> FrameAllocationSpace \<Rightarrow> u32 set" where
  "frames_with st sp = {l. frame_index sp l \<and> Status (desc sp l) = st}"

definition split_list :: "FrameAllocationSpace \<Rightarrow> u32 list \<Rightarrow> bool" where
  "split_list sp ss \<longleftrightarrow>
     seg (\<lambda>l. L_NextIndex (desc sp l)) L_NullIndex (SplitFree sp) ss L_NullIndex \<and>
     backlinks (\<lambda>l. PrevIndex (Extras (desc sp l))) L_NullIndex ss"

definition space_inv :: "u32 set \<Rightarrow> FrameAllocationSpace \<Rightarrow> bool" where
  "space_inv X sp \<longleftrightarrow>
     length (Map sp) < 2 ^ 32 \<and>
     (\<forall>l. frame_index sp l \<longrightarrow> length (SubDescriptors (desc sp l)) = 512) \<and>
     (\<forall>l. frame_index sp l \<and> l \<notin> X \<longrightarrow> frame_ok (desc sp l)) \<and>
     (\<exists>ls. large.stack sp ls \<and> set ls = frames_with Free sp - X) \<and>
     (\<exists>ss. split_list sp ss \<and> set ss = frames_with Split sp - X)"

lemma space_invI:
  assumes "length (Map sp) < 2 ^ 32"
    "\<And>l. frame_index sp l \<Longrightarrow> length (SubDescriptors (desc sp l)) = 512"
    "\<And>l. frame_index sp l \<Longrightarrow> l \<notin> X \<Longrightarrow> frame_ok (desc sp l)"
    "large.stack sp ls" "set ls = frames_with Free sp - X"
    "split_list sp ss" "set ss = frames_with Split sp - X"
  shows "space_inv X sp"
  using assms unfolding space_inv_def by blast

lemma space_invE:
  assumes "space_inv X sp"
  obtains ls ss where "large.stack sp ls" "set ls = frames_with Free sp - X"
    "split_list sp ss" "set ss = frames_with Split sp - X"
  using assms unfolding space_inv_def by blast

lemma space_invD:
  assumes "space_inv X sp"
  shows "length (Map sp) < 2 ^ 32"
    and "frame_index sp l \<Longrightarrow> length (SubDescriptors (desc sp l)) = 512"
    and "frame_index sp l \<Longrightarrow> l \<notin> X \<Longrightarrow> frame_ok (desc sp l)"
  using assms unfolding space_inv_def by blast+

lemma frame_index_not_null: "space_inv X sp \<Longrightarrow> frame_index sp l \<Longrightarrow> l \<noteq> L_NullIndex"
  by (auto simp: frame_index_def L_NullIndex_def dest: space_invD(1))

lemma space_inv_LargeFree:
  assumes "space_inv X sp" "LargeFree sp \<noteq> L_NullIndex"
  shows "LargeFree sp \<in> frames_with Free sp - X"
proof -
  obtain ls where ls: "large.stack sp ls" "set ls = frames_with Free sp - X"
    using assms(1) by (rule space_invE)
  have "LargeFree sp \<in> set ls"
    using ls(1) assms(2) unfolding large.stack_def by (cases ls) simp_all
  with ls(2) show ?thesis by simp
qed

lemma space_inv_LargeFree_null:
  assumes "space_inv X sp"
  shows "LargeFree sp = L_NullIndex \<longleftrightarrow> frames_with Free sp - X = {}"
proof -
  obtain ls where ls: "large.stack sp ls" "set ls = frames_with Free sp - X"
    using assms by (rule space_invE)
  then show ?thesis using large.stack_empty [OF ls(1)] by (simp add: ls(2) [symmetric])
qed

lemma space_inv_SplitFree:
  assumes "space_inv X sp" "SplitFree sp \<noteq> L_NullIndex"
  shows "SplitFree sp \<in> frames_with Split sp - X"
proof -
  obtain ss where ss: "split_list sp ss" "set ss = frames_with Split sp - X"
    using assms(1) by (rule space_invE)
  have "SplitFree sp \<in> set ss"
    using ss(1) assms(2) unfolding split_list_def by (cases ss) simp_all
  with ss(2) show ?thesis by simp
qed

lemma space_inv_SplitFree_null:
  assumes "space_inv X sp"
  shows "SplitFree sp = L_NullIndex \<longleftrightarrow> frames_with Split sp - X = {}"
proof -
  obtain ss where ss: "split_list sp ss" "set ss = frames_with Split sp - X"
    using assms by (rule space_invE)
  then show ?thesis
    unfolding split_list_def ss(2) [symmetric] by (cases ss) auto
qed

lemma frames_withD: "l \<in> frames_with st sp \<Longrightarrow> frame_index sp l \<and> Status (desc sp l) = st"
  by (simp add: frames_with_def)

section \<open>Critical sections\<close>

text \<open>A frame that is on neither list can be taken in hand and let go of.\<close>

lemma space_inv_hold:
  assumes "space_inv X sp" "Status (desc sp l) \<notin> {Free, Split}"
  shows "space_inv (insert l X) sp"
proof -
  have "frames_with Free sp - insert l X = frames_with Free sp - X"
    "frames_with Split sp - insert l X = frames_with Split sp - X"
    using assms(2) by (auto simp: frames_with_def)
  with assms(1) show ?thesis by (auto simp: space_inv_def)
qed

lemma space_inv_release:
  assumes "space_inv (insert l X) sp" "frame_ok (desc sp l)" "Status (desc sp l) \<notin> {Free, Split}"
  shows "space_inv X sp"
proof -
  have "frames_with Free sp - insert l X = frames_with Free sp - X"
    "frames_with Split sp - insert l X = frames_with Split sp - X"
    using assms(3) by (auto simp: frames_with_def)
  with assms show ?thesis unfolding space_inv_def by (metis insertE)
qed

lemma split_list_cong:
  assumes "SplitFree sp' = SplitFree sp"
    "\<And>l. l \<in> set ss \<Longrightarrow> L_NextIndex (desc sp' l) = L_NextIndex (desc sp l)
       \<and> PrevIndex (Extras (desc sp' l)) = PrevIndex (Extras (desc sp l))"
  shows "split_list sp' ss \<longleftrightarrow> split_list sp ss"
  unfolding split_list_def assms(1)
  using assms(2)
  by (simp add: seg_cong [of ss "\<lambda>l. L_NextIndex (desc sp' l)" "\<lambda>l. L_NextIndex (desc sp l)"]
      backlinks_cong [of ss "\<lambda>l. PrevIndex (Extras (desc sp' l))" "\<lambda>l. PrevIndex (Extras (desc sp l))"])

lemma large_stack_cong:
  assumes "LargeFree sp' = LargeFree sp"
    "\<And>l. l \<in> set ls \<Longrightarrow> L_NextIndex (desc sp' l) = L_NextIndex (desc sp l)"
  shows "large.stack sp' ls \<longleftrightarrow> large.stack sp ls"
  unfolding large.stack_def assms(1) using assms(2) by (rule seg_cong)

text \<open>
  The frame rule of the invariant: a new space whose frames in hand are the same and whose other
  frames keep status and links, keeps both lists.
\<close>

lemma space_inv_frame:
  assumes "space_inv X sp"
    and heads: "LargeFree sp' = LargeFree sp" "SplitFree sp' = SplitFree sp"
      "length (Map sp') = length (Map sp)"
    and len: "\<And>l. frame_index sp l \<Longrightarrow> length (SubDescriptors (desc sp' l)) = 512"
    and same: "\<And>l. frame_index sp l \<Longrightarrow> l \<notin> X \<Longrightarrow>
       frame_ok (desc sp' l) \<and> Status (desc sp' l) = Status (desc sp l)
       \<and> L_NextIndex (desc sp' l) = L_NextIndex (desc sp l)
       \<and> PrevIndex (Extras (desc sp' l)) = PrevIndex (Extras (desc sp l))"
  shows "space_inv X sp'"
proof -
  have idx: "frame_index sp' l = frame_index sp l" for l
    by (simp add: frame_index_def heads(3))
  have sets: "frames_with st sp' - X = frames_with st sp - X" for st
    using same by (auto simp: frames_with_def idx)
  obtain ls ss where lists: "large.stack sp ls" "set ls = frames_with Free sp - X"
    "split_list sp ss" "set ss = frames_with Split sp - X"
    using assms(1) by (rule space_invE)
  have "large.stack sp' ls = large.stack sp ls"
    using lists same by (intro large_stack_cong heads) (auto dest!: frames_withD)
  moreover have "split_list sp' ss = split_list sp ss"
    using lists same by (intro split_list_cong heads) (auto dest!: frames_withD)
  ultimately have "large.stack sp' ls" "split_list sp' ss"
    using lists by simp_all
  with lists same len assms(1) show ?thesis
    unfolding space_inv_def sets idx heads(3) by blast
qed

lemma space_inv_set_held:
  assumes "space_inv X sp" "l \<in> X" "length (SubDescriptors d) = 512" "frame_index sp l"
  shows "space_inv X (set_desc l d sp)"
  by (rule space_inv_frame [OF assms(1)]) (use assms in \<open>auto dest: space_invD\<close>)

lemma space_inv_set_same:
  assumes "space_inv X sp" "frame_index sp l" "frame_ok d"
    "Status d = Status (desc sp l)" "L_NextIndex d = L_NextIndex (desc sp l)"
    "PrevIndex (Extras d) = PrevIndex (Extras (desc sp l))"
  shows "space_inv X (set_desc l d sp)"
  by (rule space_inv_frame [OF assms(1)])
     (use assms in \<open>auto dest: space_invD simp: frame_ok_def\<close>)

lemma split_ok_cong:
  assumes "SubDescriptors d' = SubDescriptors d"
    "NextFree (Extras d') = NextFree (Extras d)" "FreeCount (Extras d') = FreeCount (Extras d)"
  shows "split_ok d' \<longleftrightarrow> split_ok d"
proof -
  have "subdesc d' = subdesc d" using assms by (simp add: subdesc_def fun_eq_iff)
  then show ?thesis
    unfolding split_ok_def small.stack_def free_slots_def by (simp add: assms)
qed

lemma frame_ok_cong:
  assumes "SubDescriptors d' = SubDescriptors d" "Status d' = Status d"
    "NextFree (Extras d') = NextFree (Extras d)" "FreeCount (Extras d') = FreeCount (Extras d)"
  shows "frame_ok d' \<longleftrightarrow> frame_ok d"
  using split_ok_cong [of d' d] assms by (simp add: frame_ok_def)

text \<open>The stack of free large frames.\<close>

lemma space_inv_pop_large:
  assumes "space_inv X sp" "LargeFree sp = l" "l \<noteq> L_NullIndex"
  shows "space_inv (insert l X) (pop_large sp)"
proof -
  obtain ls ss where lists: "large.stack sp ls" "set ls = frames_with Free sp - X"
    "split_list sp ss" "set ss = frames_with Split sp - X"
    using assms(1) by (rule space_invE)
  obtain ks where ks: "ls = l # ks"
    using lists(1) assms(2,3) unfolding large.stack_def by (cases ls) auto
  have l: "l \<in> frames_with Free sp - X"
    using space_inv_LargeFree assms by blast
  then have valid: "frame_index sp l" by (simp add: frames_with_def)
  have desc: "desc (pop_large sp) = desc sp" by (simp add: pop_large_def)
  have sets: "frames_with st (pop_large sp) = frames_with st sp" for st
    by (simp add: frames_with_def desc)
  have "large.stack (pop_large sp) ks"
    using large.stack_pop(1) lists(1) valid unfolding ks by blast
  moreover have "set ks = frames_with Free sp - insert l X"
    using lists(2) large.stack_distinct [OF lists(1)] unfolding ks by auto
  moreover have "split_list (pop_large sp) ss"
    using lists(3) by (subst split_list_cong [of _ sp]) (simp_all add: desc pop_large_def)
  moreover have "frames_with Split sp - insert l X = frames_with Split sp - X"
    using l by (auto simp: frames_with_def)
  ultimately show ?thesis
    using lists(4) assms(1) unfolding space_inv_def sets desc
    by (auto simp: pop_large_def frame_index_def)
qed

lemma space_inv_push_large:
  assumes "space_inv (insert l X) sp" "frame_index sp l" "frame_ok (desc sp l)"
    "Status (desc sp l) = Free" "l \<notin> X"
  shows "space_inv X (push_large l sp)"
proof -
  let ?sp = "push_large l sp"
  obtain ls ss where lists: "large.stack sp ls" "set ls = frames_with Free sp - insert l X"
    "split_list sp ss" "set ss = frames_with Split sp - insert l X"
    using assms(1) by (rule space_invE)
  have desc: "desc ?sp j = (if j = l then (desc sp l)\<lparr>L_NextIndex := LargeFree sp\<rparr> else desc sp j)" for j
    using assms(2) by (simp add: push_large_def)
  have sets: "frames_with st ?sp = frames_with st sp" for st
    by (auto simp: frames_with_def desc)
  have ok: "frame_ok (desc ?sp j) \<longleftrightarrow> frame_ok (desc sp j)"
    "SubDescriptors (desc ?sp j) = SubDescriptors (desc sp j)" for j
    by (rule frame_ok_cong) (simp_all add: desc)
  have "large.stack ?sp (l # ls)"
    by (rule large.stack_push)
       (use lists assms frame_index_not_null [OF assms(1)] in auto)
  moreover have "set (l # ls) = frames_with Free sp - X"
    using lists(2) assms(2,4,5) by (auto simp: frames_with_def)
  moreover have "split_list ?sp ss"
  proof -
    have "split_list ?sp ss \<longleftrightarrow> split_list sp ss"
      by (intro split_list_cong) (use lists(4) in \<open>auto simp: desc\<close>)
    with lists(3) show ?thesis by simp
  qed
  moreover have "set ss = frames_with Split sp - X"
    using lists(4) assms(4) by (auto simp: frames_with_def)
  ultimately show ?thesis
    using assms(3) space_invD [OF assms(1)]
    by (intro space_invI [where ls = "l # ls" and ss = ss]) (auto simp: sets ok)
qed

text \<open>The doubly linked list of split frames.\<close>

definition push_split_desc :: "u32 \<Rightarrow> FrameAllocationSpace \<Rightarrow> u32 \<Rightarrow> LargeFrameDescriptor" where
  "push_split_desc l sp j =
     (if j = l then (desc sp l)\<lparr>L_NextIndex := SplitFree sp\<rparr>
      else if j = SplitFree sp \<and> j \<noteq> L_NullIndex
      then (desc sp j)\<lparr>Extras := (Extras (desc sp j))\<lparr>PrevIndex := l\<rparr>\<rparr> else desc sp j)"

lemma push_split_select [simp]:
  "SplitFree (push_split l sp) = l"
  "LargeFree (push_split l sp) = LargeFree sp"
  "length (Map (push_split l sp)) = length (Map sp)"
  "frame_index (push_split l sp) j = frame_index sp j"
  "AllocationStart (push_split l sp) = AllocationStart sp"
  by (simp_all add: push_split_def Let_def frame_index_def)

lemma desc_push_split:
  assumes "frame_index sp l" "SplitFree sp = L_NullIndex \<or> frame_index sp (SplitFree sp)"
    "SplitFree sp \<noteq> l"
  shows "desc (push_split l sp) j = push_split_desc l sp j"
  using assms by (auto simp: push_split_def Let_def push_split_desc_def)

lemma space_inv_push_split:
  assumes "space_inv (insert l X) sp" "frame_index sp l" "frame_ok (desc sp l)"
    "Status (desc sp l) = Split" "PrevIndex (Extras (desc sp l)) = L_NullIndex" "l \<notin> X"
  shows "space_inv X (push_split l sp)"
proof -
  let ?sp = "push_split l sp"
  obtain ls ss where lists: "large.stack sp ls" "set ls = frames_with Free sp - insert l X"
    "split_list sp ss" "set ss = frames_with Split sp - insert l X"
    using assms(1) by (rule space_invE)
  have head: "SplitFree sp \<noteq> L_NullIndex \<Longrightarrow> SplitFree sp \<in> frames_with Split sp - insert l X"
    by (rule space_inv_SplitFree [OF assms(1)])
  have notnull: "l \<noteq> L_NullIndex" by (rule frame_index_not_null [OF assms(1,2)])
  have desc: "desc ?sp j = push_split_desc l sp j" for j
    by (rule desc_push_split) (use assms(2) head notnull in \<open>auto dest!: frames_withD\<close>)
  have status: "Status (desc ?sp j) = Status (desc sp j)"
    "SubDescriptors (desc ?sp j) = SubDescriptors (desc sp j)" for j
    by (simp_all add: desc push_split_desc_def)
  have ok: "frame_ok (desc ?sp j) \<longleftrightarrow> frame_ok (desc sp j)" for j
    by (rule frame_ok_cong) (simp_all add: desc push_split_desc_def)
  have sets: "frames_with st ?sp = frames_with st sp" for st
    by (simp add: frames_with_def status)
  have "large.stack ?sp ls"
    using lists(1,2) head
    by (subst large_stack_cong [of _ sp]) (auto simp: desc push_split_desc_def dest!: frames_withD)
  moreover have "split_list ?sp (l # ss)"
  proof -
    have fwd: "seg (\<lambda>j. L_NextIndex (desc ?sp j)) L_NullIndex (SplitFree sp) ss L_NullIndex"
      using lists(3,4) unfolding split_list_def
      by (subst seg_cong [of _ _ "\<lambda>j. L_NextIndex (desc sp j)"]) (auto simp: desc push_split_desc_def)
    have bwd: "backlinks (\<lambda>j. PrevIndex (Extras (desc ?sp j))) l ss"
    proof (cases ss)
      case (Cons s ss')
      have "distinct ss"
        using lists(3) unfolding split_list_def by (blast dest: seg_distinct)
      then have s: "SplitFree sp = s" "s \<noteq> L_NullIndex" "s \<notin> set ss'"
        using lists(3) unfolding split_list_def Cons by auto
      have "l \<notin> set ss" using lists(4) by simp
      then have "backlinks (\<lambda>j. PrevIndex (Extras (desc ?sp j))) s ss' \<longleftrightarrow>
          backlinks (\<lambda>j. PrevIndex (Extras (desc sp j))) s ss'"
        by (intro backlinks_cong) (use s Cons in \<open>auto simp: desc push_split_desc_def\<close>)
      with \<open>l \<notin> set ss\<close> show ?thesis
        using lists(3) s unfolding split_list_def Cons
        by (auto simp: desc push_split_desc_def)
    qed simp
    show ?thesis
      using fwd bwd notnull assms(5) by (simp add: split_list_def desc push_split_desc_def)
  qed
  moreover have "set ls = frames_with Free sp - X" "set (l # ss) = frames_with Split sp - X"
    using lists(2,4) assms(2,4,6) by (auto simp: frames_with_def)
  ultimately show ?thesis
    using assms(3) space_invD [OF assms(1)]
    by (intro space_invI [where ls = ls and ss = "l # ss"]) (auto simp: sets ok status)
qed

lemma last_link: "last (x # xs) \<in> insert x (set xs)"
  by (induction xs) auto

lemma hd_link: "hd (xs @ [x]) \<in> insert x (set xs)"
  by (cases xs) auto

lemma split_list_neighbours:
  assumes "split_list sp (ps @ l # ns)"
  shows "PrevIndex (Extras (desc sp l)) = last (L_NullIndex # ps)"
    and "L_NextIndex (desc sp l) = hd (ns @ [L_NullIndex])"
    and "SplitFree sp = hd (ps @ [l])"
    and "distinct (ps @ l # ns)" and "L_NullIndex \<notin> set (ps @ l # ns)"
proof -
  from assms have seg: "seg (\<lambda>l. L_NextIndex (desc sp l)) L_NullIndex (SplitFree sp) (ps @ l # ns) L_NullIndex"
    and bwds: "backlinks (\<lambda>l. PrevIndex (Extras (desc sp l))) L_NullIndex (ps @ l # ns)"
    by (simp_all add: split_list_def)
  show "PrevIndex (Extras (desc sp l)) = last (L_NullIndex # ps)"
    using bwds by (simp add: backlinks_append)
  show "L_NextIndex (desc sp l) = hd (ns @ [L_NullIndex])"
    using seg by (cases ns) (auto simp: seg_append)
  show "SplitFree sp = hd (ps @ [l])"
    using seg by (cases ps) auto
  show "distinct (ps @ l # ns)" by (rule seg_distinct [OF seg])
  show "L_NullIndex \<notin> set (ps @ l # ns)" by (rule seg_not_null [OF seg])
qed

definition unlink_desc :: "u32 \<Rightarrow> u32 \<Rightarrow> FrameAllocationSpace \<Rightarrow> u32 \<Rightarrow> LargeFrameDescriptor" where
  "unlink_desc prev nxt sp j =
     (if j = nxt \<and> j \<noteq> L_NullIndex
      then (desc sp j)\<lparr>Extras := (Extras (desc sp j))\<lparr>PrevIndex := prev\<rparr>\<rparr>
      else if j = prev \<and> j \<noteq> L_NullIndex then (desc sp j)\<lparr>L_NextIndex := nxt\<rparr>
      else desc sp j)"

lemma unlink_desc_select [simp]:
  "Status (unlink_desc p n sp j) = Status (desc sp j)"
  "SubDescriptors (unlink_desc p n sp j) = SubDescriptors (desc sp j)"
  "ReferenceCount (unlink_desc p n sp j) = ReferenceCount (desc sp j)"
  "NextFree (Extras (unlink_desc p n sp j)) = NextFree (Extras (desc sp j))"
  "FreeCount (Extras (unlink_desc p n sp j)) = FreeCount (Extras (desc sp j))"
  by (simp_all add: unlink_desc_def)

lemma unlink_desc_cong: "desc sp' j = desc sp j \<Longrightarrow> unlink_desc p n sp' j = unlink_desc p n sp j"
  unfolding unlink_desc_def by (simp only:)

lemma unlink_desc_links:
  "j \<noteq> p \<or> p = L_NullIndex \<Longrightarrow> L_NextIndex (unlink_desc p n sp j) = L_NextIndex (desc sp j)"
  "j \<noteq> n \<Longrightarrow> PrevIndex (Extras (unlink_desc p n sp j)) = PrevIndex (Extras (desc sp j))"
  by (auto simp: unlink_desc_def)

text \<open>Removing an element of a doubly linked list by the rewriting of its neighbours.\<close>

lemma split_list_unlink:
  assumes old: "split_list sp (ps @ l # ns)"
    and desc: "\<And>j. j \<noteq> l \<Longrightarrow> desc sp' j = unlink_desc (last (L_NullIndex # ps)) (hd (ns @ [L_NullIndex])) sp j"
    and head: "SplitFree sp' = (if SplitFree sp = l then hd (ns @ [L_NullIndex]) else SplitFree sp)"
  shows "split_list sp' (ps @ ns)"
proof -
  note nb = split_list_neighbours [OF old]
  let ?prev = "last (L_NullIndex # ps)" and ?nxt = "hd (ns @ [L_NullIndex])"
  let ?fwd = "\<lambda>sp l. L_NextIndex (desc sp l)" and ?bwd = "\<lambda>sp l. PrevIndex (Extras (desc sp l))"
  have seg: "seg (?fwd sp) L_NullIndex (SplitFree sp) (ps @ l # ns) L_NullIndex"
    and bwds: "backlinks (?bwd sp) L_NullIndex (ps @ l # ns)"
    using old by (simp_all add: split_list_def)
  have ns: "seg (?fwd sp') L_NullIndex ?nxt ns L_NullIndex"
  proof -
    have "seg (?fwd sp') L_NullIndex ?nxt ns L_NullIndex \<longleftrightarrow> seg (?fwd sp) L_NullIndex ?nxt ns L_NullIndex"
    proof (rule seg_cong)
      fix y assume "y \<in> set ns"
      then have "y \<noteq> l" "y \<noteq> ?prev"
        using nb(4,5) last_link [of L_NullIndex ps] unfolding distinct_append by auto
      then show "?fwd sp' y = ?fwd sp y" by (simp add: desc unlink_desc_def)
    qed
    with seg show ?thesis by (auto simp: seg_append nb(2))
  qed
  have fwd: "seg (?fwd sp') L_NullIndex (SplitFree sp') (ps @ ns) L_NullIndex"
  proof (cases ps rule: rev_cases)
    case Nil
    then show ?thesis using ns nb(3) head by simp
  next
    case (snoc qs p)
    have p: "p \<noteq> l" "p \<noteq> ?nxt" "p \<noteq> L_NullIndex" "p \<notin> set qs"
      using nb(4,5) snoc by (cases ns; auto)+
    have "seg (?fwd sp') L_NullIndex (SplitFree sp) qs p \<longleftrightarrow> seg (?fwd sp) L_NullIndex (SplitFree sp) qs p"
    proof (rule seg_cong)
      fix y assume "y \<in> set qs"
      then have "y \<noteq> l" "y \<noteq> p" using nb(4) snoc by auto
      then show "?fwd sp' y = ?fwd sp y" by (simp add: desc unlink_desc_def snoc)
    qed
    moreover have "SplitFree sp \<noteq> l" using nb(3,4) snoc by (cases qs) auto
    moreover have "?fwd sp' p = ?nxt" using p snoc by (simp add: desc unlink_desc_def)
    ultimately show ?thesis
      using seg ns head p by (auto simp: seg_append snoc)
  qed
  have "backlinks (?bwd sp') L_NullIndex ps \<longleftrightarrow> backlinks (?bwd sp) L_NullIndex ps"
  proof (rule backlinks_cong)
    fix y assume "y \<in> set ps"
    then have "y \<noteq> l" "y \<noteq> ?nxt" using nb(4,5) by (cases ns; auto)+
    then show "?bwd sp' y = ?bwd sp y" by (simp add: desc unlink_desc_def)
  qed
  moreover have "backlinks (?bwd sp') ?prev ns"
  proof (cases ns)
    case (Cons n ms)
    have n: "n \<noteq> l" "n \<notin> set ms" "n \<noteq> L_NullIndex" "l \<notin> set ms" using nb(4,5) Cons by auto
    have "backlinks (?bwd sp') n ms \<longleftrightarrow> backlinks (?bwd sp) n ms"
    proof (rule backlinks_cong)
      fix y assume "y \<in> set ms"
      then have "y \<noteq> l" "y \<noteq> ?nxt" using n Cons by auto
      then show "?bwd sp' y = ?bwd sp y" by (simp add: desc unlink_desc_links(2))
    qed
    with bwds n Cons show ?thesis by (auto simp: backlinks_append desc unlink_desc_def)
  qed simp
  ultimately show ?thesis
    using fwd bwds by (simp add: split_list_def backlinks_append)
qed

lemma unlink_split_select [simp]:
  "LargeFree (unlink_split l sp) = LargeFree sp"
  "length (Map (unlink_split l sp)) = length (Map sp)"
  "frame_index (unlink_split l sp) j = frame_index sp j"
  by (simp_all add: unlink_split_def Let_def frame_index_def)

lemma space_inv_take_split:
  assumes "space_inv X sp" "split_list sp (ps @ l # ns)" "set (ps @ l # ns) = frames_with Split sp - X"
    and desc: "\<And>j. desc sp' j = unlink_desc (last (L_NullIndex # ps)) (hd (ns @ [L_NullIndex])) sp j"
    and sel: "SplitFree sp' = (if SplitFree sp = l then hd (ns @ [L_NullIndex]) else SplitFree sp)"
      "LargeFree sp' = LargeFree sp" "length (Map sp') = length (Map sp)"
  shows "space_inv (insert l X) sp'"
proof -
  let ?prev = "last (L_NullIndex # ps)" and ?nxt = "hd (ns @ [L_NullIndex])"
  note nb = split_list_neighbours [OF assms(2)]
  have idx: "frame_index sp' j = frame_index sp j" for j
    by (simp add: frame_index_def sel)
  have sets: "frames_with st sp' = frames_with st sp" for st
    by (simp add: frames_with_def idx desc)
  have ok: "frame_ok (desc sp' j) \<longleftrightarrow> frame_ok (desc sp j)"
    "SubDescriptors (desc sp' j) = SubDescriptors (desc sp j)" for j
    by (rule frame_ok_cong) (simp_all add: desc)
  obtain ls where ls: "large.stack sp ls" "set ls = frames_with Free sp - X"
    using assms(1) by (rule space_invE)
  have l: "l \<in> frames_with Split sp" using assms(3) by auto
  have "set ps \<subseteq> frames_with Split sp" using assms(3) by auto
  then have prev: "?prev = L_NullIndex \<or> ?prev \<in> frames_with Split sp"
    using last_link [of L_NullIndex ps] by blast
  have "large.stack sp' ls \<longleftrightarrow> large.stack sp ls"
  proof (rule large_stack_cong [OF sel(2)])
    fix j assume "j \<in> set ls"
    then have "j \<noteq> ?prev \<or> ?prev = L_NullIndex" using ls(2) prev by (auto dest!: frames_withD)
    then show "L_NextIndex (desc sp' j) = L_NextIndex (desc sp j)"
      unfolding desc by (rule unlink_desc_links(1))
  qed
  moreover have "set ls = frames_with Free sp' - insert l X"
    unfolding sets ls(2) using l by (auto simp: frames_with_def)
  moreover have "split_list sp' (ps @ ns)"
    by (rule split_list_unlink [OF assms(2)]) (simp_all add: desc sel)
  moreover have "set (ps @ ns) = frames_with Split sp' - insert l X"
  proof -
    have "set (ps @ ns) = set (ps @ l # ns) - {l}" using nb(4) by auto
    then show ?thesis unfolding assms(3) sets by blast
  qed
  ultimately show ?thesis
    using ls(1) space_invD [OF assms(1)]
    by (intro space_invI [where ls = ls and ss = "ps @ ns"]) (simp_all add: idx ok sel)
qed

lemma desc_unlink_split:
  assumes "split_list sp (ps @ l # ns)" "set (ps @ l # ns) = frames_with Split sp - X"
  shows "desc (unlink_split l sp) j = unlink_desc (last (L_NullIndex # ps)) (hd (ns @ [L_NullIndex])) sp j"
    and "SplitFree (unlink_split l sp) =
      (if SplitFree sp = l then hd (ns @ [L_NullIndex]) else SplitFree sp)"
proof -
  let ?prev = "last (L_NullIndex # ps)" and ?nxt = "hd (ns @ [L_NullIndex])"
  note nb = split_list_neighbours [OF assms(1)]
  have sub: "set ps \<subseteq> frames_with Split sp" "set ns \<subseteq> frames_with Split sp" using assms(2) by auto
  then have prev: "?prev = L_NullIndex \<or> frame_index sp ?prev"
    using last_link [of L_NullIndex ps] frames_withD by blast
  have nxt: "?nxt = L_NullIndex \<or> frame_index sp ?nxt"
    using sub hd_link [of ns L_NullIndex] frames_withD by blast
  have "set ps \<inter> set ns = {}" "L_NullIndex \<notin> set ns" using nb(4,5) by auto
  then have ne: "?prev \<noteq> ?nxt \<or> ?prev = L_NullIndex"
    using last_link [of L_NullIndex ps] hd_link [of ns L_NullIndex] by (metis disjoint_iff insert_iff)
  show "desc (unlink_split l sp) j = unlink_desc ?prev ?nxt sp j"
    using prev nxt ne unfolding unlink_split_def Let_def nb(1,2)
    by (auto simp: unlink_desc_def)
  show "SplitFree (unlink_split l sp) = (if SplitFree sp = l then ?nxt else SplitFree sp)"
    unfolding unlink_split_def Let_def nb(1,2) by simp
qed

lemma split_list_at:
  assumes "space_inv X sp" "l \<in> frames_with Split sp - X"
  obtains ps ns where "split_list sp (ps @ l # ns)" "set (ps @ l # ns) = frames_with Split sp - X"
proof -
  obtain ss where ss: "split_list sp ss" "set ss = frames_with Split sp - X"
    using assms(1) by (rule space_invE)
  then have "l \<in> set ss" using assms(2) by simp
  then obtain ps ns where "ss = ps @ l # ns" by (meson split_list)
  with ss that show ?thesis by blast
qed

lemma space_inv_unlink_split:
  assumes "space_inv X sp" "l \<in> frames_with Split sp - X"
  shows "space_inv (insert l X) (unlink_split l sp)"
proof -
  obtain ps ns where ss: "split_list sp (ps @ l # ns)" "set (ps @ l # ns) = frames_with Split sp - X"
    using assms by (rule split_list_at)
  show ?thesis
    by (rule space_inv_take_split [OF assms(1) ss])
       (simp_all add: desc_unlink_split [OF ss] del: last.simps)
qed

end
