(* ===== verification/Pmm_Ops.thy ===== *)
theory Pmm_Ops
  imports Pmm_Inv
begin

text \<open>
  What an allocation space promises. The abstraction \<open>allocated\<close> maps a frame, named by its large
  index and its small index (0 for the whole large frame), to its reference count; the lemmas of
  this theory say what \<open>AllocateFrame\<close> and \<open>Mingle\<close> do to it, on every branch, and that both keep
  the invariant.
\<close>

section \<open>The abstraction\<close>

definition frame_alloc :: "LargeFrameDescriptor \<Rightarrow> u16 \<Rightarrow> u32 option" where
  "frame_alloc d s =
     (if s = S_NullIndex then (if Status d = Used then Some (ReferenceCount d) else None)
      else if Status d \<in> {Split, Full} \<and> unat s < 512 \<and> Status (subdesc d s) = Used
      then Some (ReferenceCount (subdesc d s)) else None)"

definition allocated :: "FrameAllocationSpace \<Rightarrow> u32 \<times> u16 \<Rightarrow> u32 option" where
  "allocated sp = (\<lambda>(l, s). if frame_index sp l then frame_alloc (desc sp l) s else None)"

lemma allocated_apply: "frame_index sp l \<Longrightarrow> allocated sp (l, s) = frame_alloc (desc sp l) s"
  by (simp add: allocated_def)

lemma allocated_cong:
  assumes "length (Map sp') = length (Map sp)"
    "\<And>j. frame_index sp j \<Longrightarrow> frame_alloc (desc sp' j) = frame_alloc (desc sp j)"
  shows "allocated sp' = allocated sp"
  using assms by (auto simp: allocated_def frame_index_def fun_eq_iff)

lemma allocated_update:
  assumes "length (Map sp') = length (Map sp)" "frame_index sp l"
    "\<And>j. frame_index sp j \<Longrightarrow> j \<noteq> l \<Longrightarrow> frame_alloc (desc sp' j) = frame_alloc (desc sp j)"
    "frame_alloc (desc sp' l) = (frame_alloc (desc sp l))(s := v)"
  shows "allocated sp' = (allocated sp)((l, s) := v)"
proof
  fix x :: "u32 \<times> u16"
  obtain j t where x: "x = (j, t)" by (cases x)
  have idx: "frame_index sp' k = frame_index sp k" for k by (simp add: frame_index_def assms(1))
  show "allocated sp' x = ((allocated sp)((l, s) := v)) x"
    using assms(2,3,4) by (cases "j = l") (auto simp: x allocated_def idx)
qed

lemma frame_alloc_cong:
  assumes "Status d' = Status d" "SubDescriptors d' = SubDescriptors d"
    "ReferenceCount d' = ReferenceCount d"
  shows "frame_alloc d' = frame_alloc d"
  using assms by (auto simp: frame_alloc_def subdesc_def fun_eq_iff)

lemma frame_alloc_take_small:
  assumes "Status d \<in> {Split, Full}" "length (SubDescriptors d) = 512" "small_index_ok (NextFree (Extras d))"
  shows "frame_alloc (take_small n d) = (frame_alloc d)(NextFree (Extras d) \<mapsto> n)"
  using assms by (auto simp: frame_alloc_def subdesc_take_small fun_eq_iff dest!: small_index_okD)

lemma frame_alloc_give_small:
  assumes "Status d \<in> {Split, Full}" "length (SubDescriptors d) = 512" "small_index_ok s"
  shows "frame_alloc (give_small s x d) = (frame_alloc d)(s := None)"
  using assms by (auto simp: frame_alloc_def subdesc_give_small fun_eq_iff dest!: small_index_okD)

lemma frame_alloc_set_status:
  assumes "Status d \<in> {Split, Full}" "st \<in> {Split, Full}"
  shows "frame_alloc (d\<lparr>Status := st\<rparr>) = frame_alloc d"
  using assms by (auto simp: frame_alloc_def fun_eq_iff)

lemma frame_alloc_unused: "Status d \<in> {Free, Reserved} \<Longrightarrow> frame_alloc d = Map.empty"
  by (auto simp: frame_alloc_def fun_eq_iff)

lemma frame_alloc_all_free:
  assumes "split_ok d" "FreeCount (Extras d) = SubDescriptorsCount" "Status d = Split"
  shows "frame_alloc d = Map.empty"
proof
  fix s
  have "Status (subdesc d s) = Free" if "s \<noteq> S_NullIndex" "unat s < 512"
    by (rule all_slots_free [OF assms(1,2)]) (use that in \<open>simp add: small_index_ok_def\<close>)
  with assms(3) show "frame_alloc d s = None"
    by (cases "s = S_NullIndex"; cases "unat s < 512") (simp_all add: frame_alloc_def)
qed

text \<open>A large frame and a small frame inside it are never allocated together.\<close>

lemma allocated_exclusive:
  "allocated sp (l, S_NullIndex) \<noteq> None \<Longrightarrow> s \<noteq> S_NullIndex \<Longrightarrow> allocated sp (l, s) = None"
  by (auto simp: allocated_def frame_alloc_def split: if_splits)

text \<open>
  The capacity of a frame: the small frames it can ever provide. The slots marked reserved when a
  partial frame was split are not among them, whatever happens later.
\<close>

definition frame_cap :: "LargeFrameDescriptor \<Rightarrow> u16 set" where
  "frame_cap d =
     {s. small_index_ok s \<and> (Status d \<in> {Free, Used} \<or>
         Status d \<in> {Split, Full} \<and> Status (subdesc d s) \<in> {Free, Used})}"

definition capacity :: "FrameAllocationSpace \<Rightarrow> u32 \<Rightarrow> u16 set" where
  "capacity sp l = (if frame_index sp l then frame_cap (desc sp l) else {})"

lemma capacity_cong:
  assumes "length (Map sp') = length (Map sp)"
    "\<And>j. frame_index sp j \<Longrightarrow> frame_cap (desc sp' j) = frame_cap (desc sp j)"
  shows "capacity sp' = capacity sp"
  using assms by (auto simp: capacity_def frame_index_def fun_eq_iff)

lemma frame_cap_cong:
  assumes "Status d' = Status d" "SubDescriptors d' = SubDescriptors d"
  shows "frame_cap d' = frame_cap d"
  using assms by (simp add: frame_cap_def subdesc_def)

lemma frame_cap_slots:
  assumes "\<And>s. small_index_ok s \<Longrightarrow> Status (subdesc d s) \<in> {Free, Used} \<longleftrightarrow> Status (subdesc d' s) \<in> {Free, Used}"
    "Status d \<in> {Split, Full}" "Status d' \<in> {Split, Full}"
  shows "frame_cap d' = frame_cap d"
  using assms by (auto simp: frame_cap_def)

lemma frame_cap_take_small:
  assumes "Status d \<in> {Split, Full}" "unat (NextFree (Extras d)) < length (SubDescriptors d)"
    "Status (subdesc d (NextFree (Extras d))) = Free"
  shows "frame_cap (take_small n d) = frame_cap d"
  by (rule frame_cap_slots) (use assms in \<open>auto simp: subdesc_take_small\<close>)

lemma frame_cap_give_small:
  assumes "Status d \<in> {Split, Full}" "unat s < length (SubDescriptors d)"
    "Status (subdesc d s) = Used"
  shows "frame_cap (give_small s x d) = frame_cap d"
  by (rule frame_cap_slots) (use assms in \<open>auto simp: subdesc_give_small\<close>)

lemma frame_cap_set_status:
  assumes "Status d \<in> {Split, Full}" "st \<in> {Split, Full}"
  shows "frame_cap (d\<lparr>Status := st\<rparr>) = frame_cap d"
  by (rule frame_cap_slots) (use assms in auto)

lemma frame_cap_whole: "Status d \<in> {Free, Used} \<Longrightarrow> frame_cap d = {s. small_index_ok s}"
  by (auto simp: frame_cap_def)

lemma frame_cap_all_free:
  assumes "split_ok d" "FreeCount (Extras d) = SubDescriptorsCount" "Status d = Split"
  shows "frame_cap d = {s. small_index_ok s}"
  using all_slots_free [OF assms(1,2)] assms(3) by (auto simp: frame_cap_def)

lemma frame_cap_SplitLargeFrame:
  assumes "length (SubDescriptors d) = 512" "unat cnt \<le> 511"
  shows "frame_cap (SplitLargeFrame cnt d) = {s. s \<noteq> S_NullIndex \<and> s \<le> cnt}"
  using assms
  by (auto simp: frame_cap_def subdesc_SplitLargeFrame small_index_ok_def word_le_nat_alt S_NullIndex_def
      unat_eq_0 split: if_splits)

section \<open>The fields no operation changes\<close>

definition same_layout :: "FrameAllocationSpace \<Rightarrow> FrameAllocationSpace \<Rightarrow> bool" where
  "same_layout sp sp' \<longleftrightarrow>
     MemoryStart sp' = MemoryStart sp \<and> MemoryEnd sp' = MemoryEnd sp \<and> Size sp' = Size sp \<and>
     AllocationStart sp' = AllocationStart sp \<and> AllocationEnd sp' = AllocationEnd sp \<and>
     AllocableSize sp' = AllocableSize sp \<and> ControlAreaSize sp' = ControlAreaSize sp \<and>
     FreeSize sp' = FreeSize sp \<and> ReservedSize sp' = ReservedSize sp \<and>
     LargeFrameCount sp' = LargeFrameCount sp \<and> length (Map sp') = length (Map sp)"

lemma same_layout_refl [simp]: "same_layout sp sp"
  by (simp add: same_layout_def)

lemma same_layout_trans: "same_layout a b \<Longrightarrow> same_layout b c \<Longrightarrow> same_layout a c"
  by (simp add: same_layout_def)

lemma same_layout_set_desc [simp]: "same_layout sp (set_desc l d sp')= same_layout sp sp'"
  by (simp add: same_layout_def set_desc_def)

lemma same_layout_heads [simp]:
  "same_layout sp (sp'\<lparr>LargeFree := x\<rparr>) = same_layout sp sp'"
  "same_layout sp (sp'\<lparr>SplitFree := x\<rparr>) = same_layout sp sp'"
  "same_layout sp (set_prev i v sp') = same_layout sp sp'"
  "same_layout sp (pop_large sp') = same_layout sp sp'"
  "same_layout sp (push_large i sp') = same_layout sp sp'"
  "same_layout sp (push_split i sp') = same_layout sp sp'"
  "same_layout sp (unlink_split i sp') = same_layout sp sp'"
  by (simp_all add: same_layout_def set_prev_def pop_large_def push_large_def push_split_def
      unlink_split_def set_desc_def Let_def)

lemma same_layoutD:
  assumes "same_layout sp sp'"
  shows "AllocationStart sp' = AllocationStart sp" "AllocationEnd sp' = AllocationEnd sp"
    "length (Map sp') = length (Map sp)" "frame_index sp' l = frame_index sp l"
    "MemoryStart sp' = MemoryStart sp" "MemoryEnd sp' = MemoryEnd sp" "FreeSize sp' = FreeSize sp"
    "LargeFrameCount sp' = LargeFrameCount sp"
  using assms by (simp_all add: same_layout_def frame_index_def)

section \<open>Allocation from a split frame\<close>

lemma split_frame_ready:
  assumes "frame_ok d" "Status d = Split"
  shows "small_index_ok (NextFree (Extras d))" "Status (subdesc d (NextFree (Extras d))) = Free"
    "length (SubDescriptors d) = 512" "split_ok d"
proof -
  from assms have d: "split_ok d" "0 < FreeCount (Extras d)" "length (SubDescriptors d) = 512"
    by (auto simp: frame_ok_def)
  then have "free_slots d \<noteq> {}"
    using split_ok_count(1) [OF d(1)] by (auto simp: word_less_nat_alt)
  then have "NextFree (Extras d) \<in> free_slots d"
    using split_ok_count(2,3) [OF d(1)] by blast
  with d show "small_index_ok (NextFree (Extras d))" "Status (subdesc d (NextFree (Extras d))) = Free"
    "length (SubDescriptors d) = 512" "split_ok d"
    by (auto simp: free_slots_def)
qed

lemma NextFree_take_small: "NextFree (Extras (take_small n d)) = S_NextIndex (subdesc d (NextFree (Extras d)))"
  by (simp add: take_small_def Let_def)

lemma frame_ok_take_small:
  assumes "frame_ok d" "Status d = Split"
  shows "S_NextIndex (subdesc d (NextFree (Extras d))) \<noteq> S_NullIndex \<Longrightarrow> frame_ok (take_small n d)"
    and "S_NextIndex (subdesc d (NextFree (Extras d))) = S_NullIndex \<Longrightarrow>
      frame_ok ((take_small n d)\<lparr>Status := Full\<rparr>)"
proof -
  note ready = split_frame_ready [OF assms]
  have split: "split_ok (take_small n d)"
    using split_ok_take_small(1) ready by blast
  have count: "FreeCount (Extras (take_small n d)) = 0 \<longleftrightarrow> NextFree (Extras (take_small n d)) = S_NullIndex"
  proof -
    have "finite (free_slots (take_small n d))" by simp
    then show ?thesis
      using split_ok_count(1,2) [OF split] by (metis card_eq_0_iff unat_eq_0)
  qed
  have le: "FreeCount (Extras (take_small n d)) < SubDescriptorsCount"
    using assms by (auto simp: frame_ok_def SubDescriptorsCount_def word_less_nat_alt unat_minus_le word_le_nat_alt)
  show "frame_ok (take_small n d)" if "S_NextIndex (subdesc d (NextFree (Extras d))) \<noteq> S_NullIndex"
    using that split count le ready assms unfolding NextFree_take_small
    by (simp add: frame_ok_def word_gt_0)
  show "frame_ok ((take_small n d)\<lparr>Status := Full\<rparr>)"
    if "S_NextIndex (subdesc d (NextFree (Extras d))) = S_NullIndex"
  proof -
    have "split_ok ((take_small n d)\<lparr>Status := Full\<rparr>)"
      using split by (subst split_ok_cong [of _ "take_small n d"]) simp_all
    then show ?thesis
      using that count ready unfolding NextFree_take_small by (simp add: frame_ok_def)
  qed
qed

text \<open>Unlinking a depleted frame is unlinking the head of the split list.\<close>

lemma split_frame_full_select [simp]:
  "LargeFree (split_frame_full l sp) = LargeFree sp"
  "same_layout sp0 (split_frame_full l sp) = same_layout sp0 sp"
  "length (Map (split_frame_full l sp)) = length (Map sp)"
  by (simp_all add: split_frame_full_def Let_def)

lemma space_inv_deplete:
  assumes "space_inv X sp" "SplitFree sp = l" "l \<noteq> L_NullIndex"
    "length (SubDescriptors d) = 512" "L_NextIndex d = L_NextIndex (desc sp l)"
    "frame_ok (d\<lparr>Status := Full\<rparr>)"
  shows "space_inv X (split_frame_full l (set_desc l d sp))"
    and "\<And>j. frame_alloc (desc (split_frame_full l (set_desc l d sp)) j) =
      frame_alloc (if j = l then d\<lparr>Status := Full\<rparr> else desc sp j)"
    and "\<And>j. frame_cap (desc (split_frame_full l (set_desc l d sp)) j) =
      frame_cap (if j = l then d\<lparr>Status := Full\<rparr> else desc sp j)"
proof -
  let ?sp = "split_frame_full l (set_desc l d sp)" and ?nxt = "L_NextIndex (desc sp l)"
  have l: "l \<in> frames_with Split sp - X" using space_inv_SplitFree assms by blast
  then have idx: "frame_index sp l" by (simp add: frames_with_def)
  obtain ps ns where ss: "split_list sp (ps @ l # ns)" "set (ps @ l # ns) = frames_with Split sp - X"
    using assms(1) l by (rule split_list_at)
  note nb = split_list_neighbours [OF ss(1)]
  have ps: "ps = []" using nb(3,4) assms(2) by (cases ps) auto
  have nxt: "?nxt = L_NullIndex \<or> frame_index sp ?nxt" "?nxt \<noteq> l"
    using nb(2,4) hd_link [of ns L_NullIndex] ss(2) assms(3)
    by (auto dest!: frames_withD)
  have desc: "desc ?sp j = (if j = l then d\<lparr>Status := Full\<rparr> else desc (unlink_split l sp) j)" for j
    using nxt idx ps assms(5) nb(2)
    by (auto simp: split_frame_full_def Let_def desc_unlink_split [OF ss] unlink_desc_def)
  have heads: "SplitFree ?sp = SplitFree (unlink_split l sp)"
    using assms(2,5) idx nb(2) by (simp add: split_frame_full_def Let_def desc_unlink_split [OF ss])
  have "space_inv (insert l X) (unlink_split l sp)"
    by (rule space_inv_unlink_split [OF assms(1) l])
  then have "space_inv (insert l X) ?sp"
    by (rule space_inv_frame)
       (use heads assms(4) desc space_invD [OF \<open>space_inv (insert l X) (unlink_split l sp)\<close>] in auto)
  then show "space_inv X ?sp"
    by (rule space_inv_release) (simp_all add: desc assms(6))
  show "frame_alloc (desc ?sp j) = frame_alloc (if j = l then d\<lparr>Status := Full\<rparr> else desc sp j)" for j
    by (auto simp: desc desc_unlink_split [OF ss] intro!: frame_alloc_cong)
  show "frame_cap (desc ?sp j) = frame_cap (if j = l then d\<lparr>Status := Full\<rparr> else desc sp j)" for j
    by (auto simp only: desc desc_unlink_split [OF ss] unlink_desc_select split: if_split intro!: frame_cap_cong)
qed

lemma alloc_split_spec:
  assumes "space_inv {} sp" "SplitFree sp = l" "l \<noteq> L_NullIndex"
  shows "\<exists>s sp'. alloc_split n sp = (Some (frame_addr sp l s), sp') \<and> frame_index sp l \<and>
    small_index_ok s \<and> Status (desc sp l) = Split \<and> allocated sp (l, s) = None \<and>
    space_inv {} sp' \<and> allocated sp' = (allocated sp)((l, s) \<mapsto> n) \<and>
    capacity sp' = capacity sp \<and> same_layout sp sp'"
proof -
  let ?d = "desc sp l"
  let ?s = "NextFree (Extras ?d)" and ?t = "take_small n ?d"
  have "l \<in> frames_with Split sp" using space_inv_SplitFree assms by blast
  then have l: "frame_index sp l" "Status ?d = Split" by (simp_all add: frames_with_def)
  then have ok: "frame_ok ?d" using space_invD(3) [OF assms(1)] by simp
  note ready = split_frame_ready [OF ok l(2)]
  have nonnull: "?s \<noteq> S_NullIndex" using ready(1) by auto
  have free: "allocated sp (l, ?s) = None"
    using l ready nonnull by (simp add: allocated_apply frame_alloc_def)
  have alloc: "frame_alloc ?t = (frame_alloc ?d)(?s \<mapsto> n)"
    using frame_alloc_take_small ready l(2) by simp
  have cap: "frame_cap ?t = frame_cap ?d"
    by (rule frame_cap_take_small) (use ready l(2) in auto)
  show ?thesis
  proof (cases "S_NextIndex (subdesc ?d ?s) = S_NullIndex")
    case False
    have "space_inv {} (set_desc l ?t sp)"
      by (rule space_inv_set_same [OF assms(1) l(1)])
         (use False frame_ok_take_small(1) [OF ok l(2)] in simp_all)
    moreover have "allocated (set_desc l ?t sp) = (allocated sp)((l, ?s) \<mapsto> n)"
      by (rule allocated_update) (simp_all add: l alloc)
    moreover have "capacity (set_desc l ?t sp) = capacity sp"
      by (rule capacity_cong) (simp_all add: l cap)
    moreover have "alloc_split n sp = (Some (frame_addr sp l ?s), set_desc l ?t sp)"
      using False assms nonnull by (simp add: alloc_split_def Let_def)
    ultimately show ?thesis
      using l ready free by fastforce
  next
    case True
    let ?sp = "split_frame_full l (set_desc l ?t sp)"
    note full = space_inv_deplete [OF assms, of ?t]
    have "frame_ok (?t\<lparr>Status := Full\<rparr>)" by (rule frame_ok_take_small(2) [OF ok l(2) True])
    then have inv: "space_inv {} ?sp"
      and allocs: "\<And>j. frame_alloc (desc ?sp j) = frame_alloc (if j = l then ?t\<lparr>Status := Full\<rparr> else desc sp j)"
      and caps: "\<And>j. frame_cap (desc ?sp j) = frame_cap (if j = l then ?t\<lparr>Status := Full\<rparr> else desc sp j)"
      using full ready by simp_all
    have "capacity ?sp = capacity sp"
      by (rule capacity_cong) (simp_all add: l cap caps frame_cap_set_status)
    moreover have "allocated ?sp = (allocated sp)((l, ?s) \<mapsto> n)"
      by (rule allocated_update) (simp_all add: l alloc allocs frame_alloc_set_status)
    moreover have "alloc_split n sp = (Some (frame_addr sp l ?s), ?sp)"
      using True assms nonnull by (simp add: alloc_split_def Let_def)
    ultimately show ?thesis
      using l ready free inv by fastforce
  qed
qed

section \<open>Allocation of a large frame\<close>

lemma LargeFree_popped:
  assumes "space_inv {} sp" "LargeFree sp = l" "l \<noteq> L_NullIndex"
  shows "frame_index sp l" "Status (desc sp l) = Free" "length (SubDescriptors (desc sp l)) = 512"
    "space_inv {l} (pop_large sp)" "desc (pop_large sp) = desc sp"
proof -
  have "l \<in> frames_with Free sp" using space_inv_LargeFree assms by blast
  then show "frame_index sp l" "Status (desc sp l) = Free" by (simp_all add: frames_with_def)
  then show "length (SubDescriptors (desc sp l)) = 512" using space_invD(2) [OF assms(1)] by simp
  show "space_inv {l} (pop_large sp)" using space_inv_pop_large assms by simp
  show "desc (pop_large sp) = desc sp" by (simp add: pop_large_def)
qed

lemma alloc_large_2MiB_spec:
  assumes "space_inv {} sp" "LargeFree sp = l" "l \<noteq> L_NullIndex"
  shows "\<exists>sp'. alloc_large MiB2 n sp = (frame_addr sp l S_NullIndex, sp') \<and> frame_index sp l \<and>
    Status (desc sp l) = Free \<and> space_inv {} sp' \<and>
    allocated sp' = (allocated sp)((l, S_NullIndex) \<mapsto> n) \<and>
    capacity sp' = capacity sp \<and> same_layout sp sp'"
proof -
  note pop = LargeFree_popped [OF assms]
  let ?d = "FrameDescriptor_Use n (desc sp l)"
  let ?sp = "set_desc l ?d (pop_large sp)"
  have "space_inv {l} ?sp"
    by (rule space_inv_set_held) (use pop in simp_all)
  then have inv: "space_inv {} ?sp"
    by (rule space_inv_release) (use pop in \<open>simp_all add: frame_ok_def\<close>)
  have "frame_alloc ?d = (frame_alloc (desc sp l))(S_NullIndex \<mapsto> n)"
    using pop(2) by (auto simp: frame_alloc_def fun_eq_iff)
  then have "allocated ?sp = (allocated sp)((l, S_NullIndex) \<mapsto> n)"
    by (intro allocated_update) (use pop in \<open>simp_all add: pop_large_def\<close>)
  moreover have "capacity ?sp = capacity sp"
    by (rule capacity_cong) (use pop in \<open>simp_all add: frame_cap_whole, simp add: pop_large_def\<close>)
  ultimately have "allocated ?sp = (allocated sp)((l, S_NullIndex) \<mapsto> n) \<and> capacity ?sp = capacity sp"
    by simp
  with inv show ?thesis
    using assms pop by (simp add: alloc_large_def Let_def frame_addr_def S_NullIndex_def)
qed

lemma split_frame_slot_1:
  assumes "length (SubDescriptors d) = 512"
  shows "Status (subdesc (SplitLargeFrame SubDescriptorsCount d) 1) = Free"
  using assms by (simp add: subdesc_SplitLargeFrame SubDescriptorsCount_def)

lemma alloc_large_4KiB_spec:
  assumes "space_inv {} sp" "LargeFree sp = l" "l \<noteq> L_NullIndex"
  shows "\<exists>sp'. alloc_large KiB4 n sp = (frame_addr sp l 1, sp') \<and> frame_index sp l \<and>
    Status (desc sp l) = Free \<and> space_inv {} sp' \<and>
    allocated sp' = (allocated sp)((l, 1) \<mapsto> n) \<and>
    capacity sp' = capacity sp \<and> same_layout sp sp'"
proof -
  note pop = LargeFree_popped [OF assms]
  let ?raw = "SplitLargeFrame SubDescriptorsCount (desc sp l)"
  let ?d = "take_small n ?raw"
  let ?held = "set_desc l ?d (pop_large sp)"
  have cnt: "unat SubDescriptorsCount = 511" "SubDescriptorsCount \<noteq> 0"
    by (simp_all add: SubDescriptorsCount_def)
  have d0: "split_ok ?raw" "NextFree (Extras ?raw) = 1" "Status ?raw = Split"
      "length (SubDescriptors ?raw) = 512" "PrevIndex (Extras ?raw) = L_NullIndex"
    using pop(3) cnt split_ok_SplitLargeFrame(1) by simp_all
  have d: "frame_ok ?d"
    using d0 split_ok_take_small(1) [OF d0(1)] pop(3) cnt(1)
    by (simp add: frame_ok_def S_NullIndex_def) (simp add: SubDescriptorsCount_def word_less_nat_alt)
  have held: "space_inv {l} ?held"
    by (rule space_inv_set_held) (use pop d0 in simp_all)
  have descs: "desc ?held l = ?d" using pop by simp
  have inv: "space_inv {} (push_split l ?held)"
    by (rule space_inv_push_split [OF held]) (use pop d d0 descs in simp_all)
  have head: "SplitFree ?held = L_NullIndex \<or> frame_index ?held (SplitFree ?held) \<and> SplitFree ?held \<noteq> l"
    using space_inv_SplitFree [OF held] by (auto dest!: frames_withD)
  have nonnull: "l \<noteq> L_NullIndex" by fact
  have desc': "desc (push_split l ?held) j = push_split_desc l ?held j" for j
    by (rule desc_push_split) (use pop head nonnull in auto)
  have "frame_alloc ?raw = frame_alloc (desc sp l)"
    using pop(2,3) cnt
    by (auto simp: frame_alloc_def fun_eq_iff subdesc_SplitLargeFrame split_slot_def S_NullIndex_def unat_eq_0
        fill_slot_def split: if_splits)
  moreover have "frame_alloc ?d = (frame_alloc ?raw)(1 \<mapsto> n)"
    using frame_alloc_take_small [of ?raw n] d0 by (simp add: small_index_ok_def S_NullIndex_def)
  ultimately have alloc: "frame_alloc (push_split_desc l ?held l) = (frame_alloc (desc sp l))(1 \<mapsto> n)"
    using frame_alloc_cong [of "push_split_desc l ?held l" ?d] descs by (simp add: push_split_desc_def)
  have "allocated (push_split l ?held) = (allocated sp)((l, 1) \<mapsto> n)"
    by (rule allocated_update)
       (use pop alloc in \<open>auto simp: desc' push_split_desc_def intro!: frame_alloc_cong, simp add: pop_large_def\<close>)
  moreover have "frame_cap (push_split_desc l ?held j) = frame_cap (desc sp j)" for j
  proof (cases "j = l")
    case True
    have "frame_cap (push_split_desc l ?held l) = frame_cap ?d"
      by (rule frame_cap_cong) (use descs in \<open>simp_all add: push_split_desc_def\<close>)
    also have "\<dots> = frame_cap ?raw"
      by (rule frame_cap_take_small) (use d0 pop(3) cnt split_frame_slot_1 in simp_all)
    also have "\<dots> = {s. s \<noteq> S_NullIndex \<and> s \<le> SubDescriptorsCount}"
      by (rule frame_cap_SplitLargeFrame) (use pop(3) cnt in simp_all)
    also have "\<dots> = {s. small_index_ok s}"
      by (rule Collect_cong) (simp add: small_index_ok_def word_le_nat_alt cnt less_Suc_eq_le [of _ 511, simplified])
    finally show ?thesis using True pop(2) by (simp add: frame_cap_whole)
  next
    case False
    then show ?thesis
      using pop by (auto simp: push_split_desc_def intro!: frame_cap_cong)
  qed
  then have "capacity (push_split l ?held) = capacity sp"
    by (intro capacity_cong) (simp_all add: desc', simp add: pop_large_def)
  ultimately have "allocated (push_split l ?held) = (allocated sp)((l, 1) \<mapsto> n) \<and>
      capacity (push_split l ?held) = capacity sp" by simp
  with inv show ?thesis
    using assms pop d0 by (simp add: alloc_large_def Let_def frame_addr_def)
qed

section \<open>Giving a small frame back\<close>

lemma frame_ok_give_small:
  assumes "frame_ok d" "small_index_ok s" "Status (subdesc d s) = Used"
  shows "Status d = Full \<Longrightarrow> frame_ok ((give_small s x d)\<lparr>Status := Split\<rparr>)"
    and "Status d = Split \<Longrightarrow> FreeCount (Extras (give_small s x d)) \<noteq> SubDescriptorsCount
      \<Longrightarrow> frame_ok (give_small s x d)"
    and "Status d \<in> {Split, Full} \<Longrightarrow> split_ok (give_small s x d)"
proof -
  let ?g = "give_small s x d"
  have len: "length (SubDescriptors d) = 512" using assms(1) by (simp add: frame_ok_def)
  show give: "split_ok ?g" if "Status d \<in> {Split, Full}"
    using that assms by (intro split_ok_give_small) (auto simp: frame_ok_def)
  have ok: "split_ok (?g\<lparr>Status := Split\<rparr>) = split_ok ?g" by (rule split_ok_cong) simp_all
  show "frame_ok (?g\<lparr>Status := Split\<rparr>)" if "Status d = Full"
    using that assms(1) give ok len
    by (simp add: frame_ok_def SubDescriptorsCount_def word_less_nat_alt)
  show "frame_ok ?g" if "Status d = Split" "FreeCount (Extras ?g) \<noteq> SubDescriptorsCount"
  proof -
    have small: "0 < FreeCount (Extras d)" "FreeCount (Extras d) < SubDescriptorsCount"
      using that assms(1) by (auto simp: frame_ok_def)
    then have "unat (FreeCount (Extras d) + 1) = unat (FreeCount (Extras d)) + 1"
      by (intro plus_one_small) (auto simp: word_less_nat_alt SubDescriptorsCount_def)
    then have "0 < FreeCount (Extras d) + 1 \<and> FreeCount (Extras d) + 1 < SubDescriptorsCount"
      using small that(2) unat_inject [of "FreeCount (Extras d) + 1" SubDescriptorsCount]
      by (auto simp: word_less_nat_alt SubDescriptorsCount_def)
    with give len that(1) show ?thesis by (simp add: frame_ok_def)
  qed
qed

lemma same_layout_relink [simp]:
  "same_layout sp (relink_split l sp') = same_layout sp sp'"
  "length (Map (relink_split l sp)) = length (Map sp)"
  by (simp_all add: relink_split_def Let_def)

lemma space_inv_relink:
  assumes "space_inv X sp" "frame_index sp l" "l \<notin> X" "Status (desc sp l) = Full"
    "frame_ok (d\<lparr>Status := Split\<rparr>)"
  shows "space_inv X (relink_split l (set_desc l d sp))"
    and "\<And>j. frame_alloc (desc (relink_split l (set_desc l d sp)) j) =
      frame_alloc (if j = l then d\<lparr>Status := Split\<rparr> else desc sp j)"
    and "\<And>j. frame_cap (desc (relink_split l (set_desc l d sp)) j) =
      frame_cap (if j = l then d\<lparr>Status := Split\<rparr> else desc sp j)"
proof -
  let ?S = "set_desc l d sp"
  let ?d = "d\<lparr>Status := Split, Extras := (Extras d)\<lparr>PrevIndex := L_NullIndex\<rparr>\<rparr>"
  let ?A = "set_desc l ?d sp"
  have len: "length (SubDescriptors d) = 512" using assms(5) by (simp add: frame_ok_def)
  have ok: "frame_ok ?d" using assms(5) by (subst frame_ok_cong [of _ "d\<lparr>Status := Split\<rparr>"]) simp_all
  have held: "space_inv (insert l X) ?A"
    by (rule space_inv_set_held [OF space_inv_hold [OF assms(1)]]) (use assms len in simp_all)
  have inv: "space_inv X (push_split l ?A)"
    by (rule space_inv_push_split [OF held]) (use assms ok in simp_all)
  have head: "SplitFree sp = L_NullIndex \<or> frame_index sp (SplitFree sp)" "SplitFree sp \<noteq> l"
    using space_inv_SplitFree [OF assms(1)] frame_index_not_null [OF assms(1,2)] assms(4)
    by (auto dest!: frames_withD)
  have desc: "desc (relink_split l ?S) j = desc (push_split l ?A) j" for j
  proof -
    let ?B = "set_desc l ((desc ?S l)\<lparr>Status := Split\<rparr>) ?S"
    have "desc (push_split l ?B) j = push_split_desc l ?B j" "desc (push_split l ?A) j = push_split_desc l ?A j"
      "desc (push_split l ?B) l = push_split_desc l ?B l"
      using head assms(2) by (auto intro: desc_push_split)
    then show ?thesis
      using assms(2) by (auto simp: relink_split_def Let_def push_split_desc_def)
  qed
  have sel: "LargeFree (relink_split l ?S) = LargeFree (push_split l ?A)"
    "SplitFree (relink_split l ?S) = SplitFree (push_split l ?A)"
    "length (Map (relink_split l ?S)) = length (Map (push_split l ?A))"
    by (simp_all add: relink_split_def Let_def)
  show "space_inv X (relink_split l ?S)"
    by (rule space_inv_frame [OF inv sel]) (use space_invD [OF inv] desc in simp_all)
  have A: "desc (push_split l ?A) j = push_split_desc l ?A j" for j
    by (rule desc_push_split) (use head assms(2) in auto)
  then show "frame_cap (desc (relink_split l ?S) j) = frame_cap (if j = l then d\<lparr>Status := Split\<rparr> else desc sp j)" for j
    unfolding desc using assms(2) by (auto simp: push_split_desc_def intro!: frame_cap_cong)
  from A show "frame_alloc (desc (relink_split l ?S) j) = frame_alloc (if j = l then d\<lparr>Status := Split\<rparr> else desc sp j)" for j
    unfolding desc using assms(2) by (auto simp: push_split_desc_def intro!: frame_alloc_cong)
qed

lemma same_layout_reclaim [simp]:
  "same_layout sp (reclaim_large_frame l sp') = same_layout sp sp'"
  "length (Map (reclaim_large_frame l sp)) = length (Map sp)"
  by (simp_all add: reclaim_large_frame_def)

lemma space_inv_reclaim:
  assumes "space_inv X sp" "l \<in> frames_with Split sp - X"
    "length (SubDescriptors d) = 512" "Status d = Split" "L_NextIndex d = L_NextIndex (desc sp l)"
    "PrevIndex (Extras d) = PrevIndex (Extras (desc sp l))"
  shows "space_inv X (reclaim_large_frame l (unlink_split l (set_desc l d sp)))"
    and "\<And>j. frame_alloc (desc (reclaim_large_frame l (unlink_split l (set_desc l d sp))) j) =
      (if j = l then Map.empty else frame_alloc (desc sp j))"
    and "\<And>j. frame_cap (desc (reclaim_large_frame l (unlink_split l (set_desc l d sp))) j) =
      (if j = l then {s. small_index_ok s} else frame_cap (desc sp j))"
proof -
  let ?S = "set_desc l d sp"
  let ?U = "unlink_split l ?S"
  obtain ps ns where ss: "split_list sp (ps @ l # ns)" "set (ps @ l # ns) = frames_with Split sp - X"
    using assms(1,2) by (rule split_list_at)
  have idx: "frame_index sp l" and st: "Status (desc sp l) = Split" and notin: "l \<notin> X"
    using assms(2) by (auto dest: frames_withD)
  have "split_list ?S (ps @ l # ns) \<longleftrightarrow> split_list sp (ps @ l # ns)"
    by (rule split_list_cong) (use idx assms(5,6) in simp_all)
  moreover have "frames_with Split ?S = frames_with Split sp"
    using idx st assms(4) by (auto simp: frames_with_def)
  ultimately have ss': "split_list ?S (ps @ l # ns)" "set (ps @ l # ns) = frames_with Split ?S - X"
    using ss by simp_all
  note unl = desc_unlink_split [OF ss] and unl' = desc_unlink_split [OF ss']
  have held: "space_inv (insert l X) (unlink_split l sp)"
    by (rule space_inv_unlink_split [OF assms(1,2)])
  have "space_inv (insert l X) ?U"
  proof (rule space_inv_frame [OF held])
    show "LargeFree ?U = LargeFree (unlink_split l sp)" "SplitFree ?U = SplitFree (unlink_split l sp)"
      "length (Map ?U) = length (Map (unlink_split l sp))"
      by (simp_all add: unl(2) unl'(2))
    fix j
    have same: "j \<noteq> l \<Longrightarrow> desc ?U j = desc (unlink_split l sp) j"
      unfolding unl(1) unl'(1) by (rule unlink_desc_cong) (simp add: idx)
    show "length (SubDescriptors (desc ?U j)) = 512" if "frame_index (unlink_split l sp) j"
      using that space_invD(2) [OF assms(1)] idx assms(3) by (simp add: unl'(1))
    assume "frame_index (unlink_split l sp) j" "j \<notin> insert l X"
    then show "frame_ok (desc ?U j) \<and> Status (desc ?U j) = Status (desc (unlink_split l sp) j)
        \<and> L_NextIndex (desc ?U j) = L_NextIndex (desc (unlink_split l sp) j)
        \<and> PrevIndex (Extras (desc ?U j)) = PrevIndex (Extras (desc (unlink_split l sp) j))"
      using same space_invD(3) [OF held] by simp
  qed
  then have "space_inv (insert l X) (set_desc l (FrameDescriptor_Free (desc ?U l)) ?U)"
    by (rule space_inv_set_held) (use assms(3) idx in \<open>simp_all add: unl'(1)\<close>)
  then show "space_inv X (reclaim_large_frame l ?U)"
    unfolding reclaim_large_frame_def
    by (rule space_inv_push_large)
       (use idx notin assms(3) in \<open>simp_all add: unl'(1) frame_ok_def\<close>)
  show "frame_alloc (desc (reclaim_large_frame l ?U) j) = (if j = l then Map.empty else frame_alloc (desc sp j))" for j
    using idx
    by (auto simp: reclaim_large_frame_def push_large_def unl'(1) frame_alloc_unused intro!: frame_alloc_cong)
  show "frame_cap (desc (reclaim_large_frame l ?U) j) =
      (if j = l then {s. small_index_ok s} else frame_cap (desc sp j))" for j
    using idx
    by (auto simp: reclaim_large_frame_def push_large_def unl'(1) frame_cap_whole intro!: frame_cap_cong)
qed

section \<open>Freeing and reference counts\<close>

text \<open>
  The contract of \<open>Mingle\<close>: a plain free (\<open>diff = 0\<close>) releases a frame with at most one reference,
  or any frame when the count is ignored; an adjustment releases it when the count becomes 0.
\<close>

definition mingle_frees :: "u32 \<Rightarrow> bool \<Rightarrow> u32 \<Rightarrow> bool" where
  "mingle_frees diff ignoreRefCnt n \<longleftrightarrow> (if diff = 0 then ignoreRefCnt \<or> n \<le> 1 else n + diff = 0)"

definition mingle_effect :: "u32 \<Rightarrow> bool \<Rightarrow> u32 \<Rightarrow> u32 option" where
  "mingle_effect diff ignoreRefCnt n = (if mingle_frees diff ignoreRefCnt n then None else Some (n + diff))"

definition mingle_answer :: "u32 \<Rightarrow> bool \<Rightarrow> u32 \<Rightarrow> HandleResult" where
  "mingle_answer diff ignoreRefCnt n =
     (if diff = 0 \<and> \<not> mingle_frees diff ignoreRefCnt n then PageInUse else Okay)"

definition mingle_count :: "u32 \<Rightarrow> u32 \<Rightarrow> u32 option" where
  "mingle_count diff n = (if diff = 0 then None else Some (n + diff))"

lemmas mingle_spec_defs = mingle_frees_def mingle_effect_def mingle_answer_def mingle_count_def

lemma mingle_test_spec:
  "mingle_test diff ign d =
     (mingle_frees diff ign (ReferenceCount d), mingle_count diff (ReferenceCount d),
      d\<lparr>ReferenceCount := ReferenceCount d + diff\<rparr>)"
  by (simp add: mingle_test_def mingle_spec_defs Let_def)

lemma mingle_used_spec:
  assumes "space_inv {} sp" "frame_index sp l" "Status (desc sp l) = Used" "ReferenceCount (desc sp l) = n"
  shows "\<exists>sp'. mingle_used diff ign l sp = (mingle_answer diff ign n, mingle_count diff n, sp') \<and>
    space_inv {} sp' \<and> same_layout sp sp' \<and> capacity sp' = capacity sp \<and>
    allocated sp' = (allocated sp)((l, S_NullIndex) := mingle_effect diff ign n)"
proof (cases "mingle_frees diff ign n")
  case True
  let ?d = "FrameDescriptor_Free ((desc sp l)\<lparr>ReferenceCount := n + diff\<rparr>)"
  let ?S = "set_desc l ?d sp"
  have len: "length (SubDescriptors ?d) = 512" using space_invD(2) [OF assms(1,2)] by simp
  have "space_inv {l} sp" using space_inv_hold [OF assms(1)] assms(3) by simp
  then have "space_inv {l} ?S"
    by (rule space_inv_set_held) (use assms len in simp_all)
  then have inv: "space_inv {} (push_large l ?S)"
    by (rule space_inv_push_large) (use assms len in \<open>simp_all add: frame_ok_def\<close>)
  have "frame_alloc ?d = (frame_alloc (desc sp l))(S_NullIndex := None)"
    using assms(3) by (auto simp: frame_alloc_def fun_eq_iff)
  moreover have "frame_alloc (?d\<lparr>L_NextIndex := x\<rparr>) = frame_alloc ?d" for x
    by (rule frame_alloc_cong) simp_all
  ultimately have "allocated (push_large l ?S) = (allocated sp)((l, S_NullIndex) := None)"
    by (intro allocated_update) (use assms in \<open>simp_all add: push_large_def\<close>)
  moreover have "capacity (push_large l ?S) = capacity sp"
    by (rule capacity_cong) (use assms in \<open>simp_all add: push_large_def frame_cap_whole\<close>)
  ultimately show ?thesis
    using inv True assms(4)
    by (auto simp: mingle_used_def mingle_test_spec mingle_effect_def mingle_answer_def)
next
  case False
  let ?d = "(desc sp l)\<lparr>ReferenceCount := n + diff\<rparr>"
  have ok: "frame_ok (desc sp l)" using space_invD(3) [OF assms(1,2)] by simp
  have "space_inv {} (set_desc l ?d sp)"
    by (rule space_inv_set_same [OF assms(1,2)])
       (use ok assms(3) in \<open>simp_all add: frame_ok_def\<close>)
  moreover have "frame_alloc ?d = (frame_alloc (desc sp l))(S_NullIndex \<mapsto> n + diff)"
    using assms(3) by (auto simp: frame_alloc_def fun_eq_iff)
  then have "allocated (set_desc l ?d sp) = (allocated sp)((l, S_NullIndex) \<mapsto> n + diff)"
    by (intro allocated_update) (use assms in simp_all)
  moreover have "capacity (set_desc l ?d sp) = capacity sp"
    by (rule capacity_cong) (use assms in \<open>simp_all add: frame_cap_whole\<close>)
  ultimately show ?thesis
    using False assms(4)
    by (auto simp: mingle_used_def mingle_test_spec mingle_effect_def mingle_answer_def)
qed

lemma mingle_small_used_spec:
  assumes "space_inv {} sp" "frame_index sp l" "Status (desc sp l) \<in> {Split, Full}" "small_index_ok s"
    "Status (subdesc (desc sp l) s) = Used" "ReferenceCount (subdesc (desc sp l) s) = n"
  shows "\<exists>sp'. mingle_small diff ign l s sp = (mingle_answer diff ign n, mingle_count diff n, sp') \<and>
    space_inv {} sp' \<and> same_layout sp sp' \<and> capacity sp' = capacity sp \<and>
    allocated sp' = (allocated sp)((l, s) := mingle_effect diff ign n)"
proof (cases "mingle_frees diff ign n")
  case False
  let ?d = "desc sp l"
  let ?x = "(subdesc ?d s)\<lparr>ReferenceCount := n + diff\<rparr>"
  let ?e = "set_subdesc s ?x ?d"
  have ok: "frame_ok ?d" using space_invD(3) [OF assms(1,2)] by simp
  then have len: "length (SubDescriptors ?d) = 512" and sok: "split_ok ?d"
    using assms(3) by (auto simp: frame_ok_def)
  have idx: "unat s < length (SubDescriptors ?d)" "s \<noteq> S_NullIndex" using assms(4) len by auto
  have "frame_ok ?e"
    using ok split_ok_adjust [OF sok assms(4,5)] assms(3) by (auto simp: frame_ok_def)
  then have "space_inv {} (set_desc l ?e sp)"
    by (intro space_inv_set_same [OF assms(1,2)]) simp_all
  moreover have "frame_alloc ?e = (frame_alloc ?d)(s \<mapsto> n + diff)"
    using assms idx len by (auto simp: frame_alloc_def fun_eq_iff)
  then have "allocated (set_desc l ?e sp) = (allocated sp)((l, s) \<mapsto> n + diff)"
    by (intro allocated_update) (use assms in simp_all)
  moreover have "frame_cap ?e = frame_cap ?d"
    by (rule frame_cap_slots) (use assms idx in auto)
  then have "capacity (set_desc l ?e sp) = capacity sp"
    by (intro capacity_cong) (use assms in simp_all)
  moreover have "mingle_small diff ign l s sp =
      (if diff = 0 then PageInUse else Okay, mingle_count diff n, set_desc l ?e sp)"
    using False assms(5,6) idx(2)
    by (simp add: mingle_small_def Let_def mingle_test_spec S_NullIndex_def)
  ultimately show ?thesis
    using False by (simp add: mingle_effect_def mingle_answer_def)
next
  case True
  let ?d = "desc sp l"
  let ?g = "give_small s (subdesc ?d s) ?d"
  let ?S = "set_desc l ?g sp"
  have ok: "frame_ok ?d" using space_invD(3) [OF assms(1,2)] by simp
  then have len: "length (SubDescriptors ?d) = 512" by (simp add: frame_ok_def)
  have idx: "s \<noteq> 0" using assms(4) by (auto simp: S_NullIndex_def)
  note give = frame_ok_give_small [OF ok assms(4,5), of "subdesc ?d s"]
  have alloc: "frame_alloc ?g = (frame_alloc ?d)(s := None)"
    by (rule frame_alloc_give_small [OF assms(3) len assms(4)])
  have cap: "frame_cap ?g = frame_cap ?d"
    by (rule frame_cap_give_small) (use assms len in auto)
  have run: "mingle_small diff ign l s sp =
      (Okay, mingle_count diff n,
       if Status ?d = Full then relink_split l ?S
       else if FreeCount (Extras ?g) = SubDescriptorsCount then reclaim_large_frame l (unlink_split l ?S)
       else ?S)"
    using True assms(5,6) idx give_small_any [of s "(subdesc ?d s)\<lparr>ReferenceCount := n + diff\<rparr>" ?d "subdesc ?d s"]
    by (simp add: mingle_small_def Let_def mingle_test_spec)
  have "\<exists>sp'. mingle_small diff ign l s sp = (Okay, mingle_count diff n, sp') \<and>
    space_inv {} sp' \<and> same_layout sp sp' \<and> capacity sp' = capacity sp \<and>
    allocated sp' = (allocated sp)((l, s) := None)"
  proof -
    consider (full) "Status ?d = Full"
      | (all) "Status ?d = Split" "FreeCount (Extras ?g) = SubDescriptorsCount"
      | (some) "Status ?d = Split" "FreeCount (Extras ?g) \<noteq> SubDescriptorsCount"
      using assms(3) by auto
    then show ?thesis
    proof cases
      case full
      note relink = space_inv_relink [OF assms(1,2) _ full give(1) [OF full]]
      have "allocated (relink_split l ?S) = (allocated sp)((l, s) := None)"
        by (rule allocated_update)
           (use assms(2,3) alloc relink full in \<open>simp_all add: frame_alloc_set_status\<close>)
      moreover have "capacity (relink_split l ?S) = capacity sp"
        by (rule capacity_cong) (use relink cap full in \<open>simp_all add: frame_cap_set_status\<close>)
      ultimately show ?thesis using run full relink by simp
    next
      case all
      have l: "l \<in> frames_with Split sp - {}" using all assms(2) by (simp add: frames_with_def)
      have "split_ok ?g" using give(3) all(1) by simp
      then have none: "frame_alloc ?g = Map.empty"
        by (rule frame_alloc_all_free) (use all in simp_all)
      note reclaim = space_inv_reclaim [OF assms(1) l, of ?g]
      have "allocated (reclaim_large_frame l (unlink_split l ?S)) = (allocated sp)((l, s) := None)"
        by (rule allocated_update)
           (use assms(2) len all none alloc reclaim in simp_all)
      moreover have "capacity (reclaim_large_frame l (unlink_split l ?S)) = capacity sp"
        by (rule capacity_cong)
           (use reclaim cap len all frame_cap_all_free [OF \<open>split_ok ?g\<close>] in simp_all)
      ultimately show ?thesis using run all reclaim len by simp
    next
      case some
      have "space_inv {} ?S"
        by (rule space_inv_set_same [OF assms(1,2)]) (use give(2) some in simp_all)
      moreover have "allocated ?S = (allocated sp)((l, s) := None)"
        by (rule allocated_update) (use assms(2) alloc in simp_all)
      moreover have "capacity ?S = capacity sp"
        by (rule capacity_cong) (use assms(2) cap in simp_all)
      ultimately show ?thesis using run some by simp
    qed
  qed
  with True show ?thesis by (simp add: mingle_effect_def mingle_answer_def)
qed

end
