(* ===== verification/Pmm_New.thy ===== *)
theory Pmm_New
  imports Pmm_Ops
begin

text \<open>
  The constructor of an allocation space: the binary search for the number of frames computes a
  division, the control area stays below the allocation area, and the space it builds satisfies
  the invariant with nothing allocated.
\<close>

section \<open>The search loop\<close>

text \<open>Every frame costs 2 MiB and one descriptor of 24 bytes.\<close>

abbreviation frame_cost :: nat where
  "frame_cost \<equiv> 2097176"

lemma unat_push_bit_1:
  assumes "k < 64"
  shows "unat (push_bit k 1 :: u64) = 2 ^ k"
proof -
  have "(2::nat) ^ k < 2 ^ 64" using assms by (rule power_strict_increasing) simp
  then show ?thesis by (subst unat_push_bit_small) simp_all
qed

lemma word_minus_underflow:
  fixes a b :: "'a::len word"
  assumes "a < b"
  shows "a < a - b"
proof -
  have "unat a < unat b" using assms by (simp add: word_less_nat_alt)
  then have "unat (a - b) = 2 ^ LENGTH('a) + unat a - unat b"
    by (simp add: unat_sub_if' word_le_nat_alt)
  then show ?thesis
    using \<open>unat a < unat b\<close> unat_lt_exp [of b] unfolding word_less_nat_alt by linarith
qed

text \<open>One round of the loop, on natural numbers.\<close>

definition fits :: "nat \<Rightarrow> nat \<Rightarrow> nat \<Rightarrow> bool" where
  "fits P A n \<longleftrightarrow> P + n * frame_cost \<le> A"

definition fit_state :: "nat \<Rightarrow> nat \<Rightarrow> nat \<Rightarrow> u64 \<Rightarrow> paddr \<Rightarrow> paddr \<Rightarrow> bool" where
  "fit_state P A n f c a \<longleftrightarrow> unat f = n \<and> unat c = P + n * 24 \<and> unat a = A - n * 2097152 \<and> fits P A n"

lemma fit_round:
  assumes st: "fit_state P A n f c a" and "A < 2 ^ 63" "k < 32" "n < 2 ^ 33"
  defines "i \<equiv> push_bit k 1 :: u64"
  defines "c' \<equiv> c + i * sizeof_LargeFrameDescriptor" and "a' \<equiv> a - push_bit 21 i"
  shows "fits P A (n + 2 ^ k) \<Longrightarrow> fit_state P A (n + 2 ^ k) (f + i) c' a' \<and> \<not> a < a' \<and> c' \<le> a'"
    and "fits P A (n + 2 ^ k) \<Longrightarrow> c' = a' \<longleftrightarrow> P + (n + 2 ^ k) * frame_cost = A"
    and "\<not> fits P A (n + 2 ^ k) \<Longrightarrow> a < a' \<or> \<not> c' \<le> a'"
proof -
  define I :: nat where "I = 2 ^ k"
  have I: "unat i = I" "I \<le> 2147483648"
    using assms(3) power_increasing [of k 31 "2::nat"] unat_push_bit_1 [of k]
    unfolding i_def I_def by simp_all
  have st': "unat f = n" "unat c = P + n * 24" "unat a = A - n * 2097152" "P + n * frame_cost \<le> A"
    using st by (simp_all add: fit_state_def fits_def)
  have sh: "unat (push_bit 21 i) = I * 2097152"
    using I by (subst unat_push_bit_small) simp_all
  have "unat (i * sizeof_LargeFrameDescriptor) = I * 24"
    using I by (subst unat_mult_small) (simp_all add: sizeof_LargeFrameDescriptor_def)
  then have c': "unat c' = P + (n + I) * 24"
    unfolding c'_def using st' I(2) assms(2) by (subst unat_plus_small) simp_all
  have f': "unat (f + i) = n + I"
    using st' I assms(4) by (subst unat_plus_small) simp_all
  have a': "unat a' = A - (n + I) * 2097152" if "push_bit 21 i \<le> a"
    unfolding a'_def using that st'(3) sh by (simp add: unat_minus_le)
  have le: "push_bit 21 i \<le> a \<longleftrightarrow> I * 2097152 \<le> A - n * 2097152"
    by (simp add: word_le_nat_alt sh st'(3))
  have fit: "fits P A (n + I) \<longleftrightarrow> P + (n + I) * frame_cost \<le> A" by (simp add: fits_def)
  show "fit_state P A (n + 2 ^ k) (f + i) c' a' \<and> \<not> a < a' \<and> c' \<le> a'" if "fits P A (n + 2 ^ k)"
  proof -
    have F: "P + (n + I) * frame_cost \<le> A" and le': "push_bit 21 i \<le> a"
      using that le fit by (simp_all add: I_def)
    show ?thesis
      unfolding I_def [symmetric] fit_state_def word_less_nat_alt word_le_nat_alt a' [OF le'] c' f' st'(3) fit
      using F by auto
  qed
  show "c' = a' \<longleftrightarrow> P + (n + 2 ^ k) * frame_cost = A" if "fits P A (n + 2 ^ k)"
  proof -
    have le': "push_bit 21 i \<le> a" using that le fit by (simp add: I_def)
    show ?thesis
      unfolding unat_inject [symmetric] I_def [symmetric] a' [OF le'] c'
      using that fit by (simp add: I_def) arith
  qed
  show "a < a' \<or> \<not> c' \<le> a'" if "\<not> fits P A (n + 2 ^ k)"
  proof (cases "push_bit 21 i \<le> a")
    case True
    have "\<not> P + (n + I) * frame_cost \<le> A" "I * 2097152 \<le> A - n * 2097152"
      using that fit True le by (simp_all add: I_def)
    then have "\<not> unat c' \<le> unat a'"
      unfolding a' [OF True] c' by linarith
    then show ?thesis by (simp add: word_le_nat_alt)
  next
    case False
    then have "a < a'" unfolding a'_def by (intro word_minus_underflow) simp
    then show ?thesis ..
  qed
qed

lemma fit_loop_spec:
  assumes "fit_state P A n f c a" "A < 2 ^ 63" "\<not> fits P A (n + 2 ^ k)" "k \<le> 32" "n + 2 ^ k \<le> 2 ^ 33"
  shows "\<exists>m f' c' a'. fit_loop k f c a = (f', c', a') \<and> fit_state P A m f' c' a' \<and> \<not> fits P A (m + 1)"
  using assms
proof (induction k arbitrary: n f c a)
  case 0
  then show ?case by (auto simp del: One_nat_def)
next
  case (Suc k)
  let ?i = "push_bit k 1 :: u64"
  let ?c = "c + ?i * sizeof_LargeFrameDescriptor" and ?a = "a - push_bit 21 ?i"
  have "(0::nat) < 2 ^ k" by simp
  then have k: "k < 32" and n: "n < 2 ^ 33" "n + 2 ^ k \<le> 2 ^ 33"
    using Suc.prems(4,5) unfolding power_Suc by linarith+
  note round = fit_round [OF Suc.prems(1,2) k n(1)]
  show ?case
  proof (cases "fits P A (n + 2 ^ k)")
    case True
    note fit = round(1) [OF True] and exact = round(2) [OF True]
    show ?thesis
    proof (cases "?c = ?a")
      case eq: True
      then have "\<not> fits P A (n + 2 ^ k + 1)" using exact by (simp add: fits_def)
      with fit eq show ?thesis by (auto simp: Let_def)
    next
      case False
      have "\<exists>m f' c' a'. fit_loop k (f + ?i) ?c ?a = (f', c', a') \<and> fit_state P A m f' c' a' \<and> \<not> fits P A (m + 1)"
        by (rule Suc.IH [of "n + 2 ^ k"])
           (use fit Suc.prems k in \<open>simp_all add: add.assoc flip: mult_2\<close>)
      with False fit show ?thesis by (simp add: Let_def)
    qed
  next
    case False
    have "\<exists>m f' c' a'. fit_loop k f c a = (f', c', a') \<and> fit_state P A m f' c' a' \<and> \<not> fits P A (m + 1)"
      by (rule Suc.IH [of n]) (use False Suc.prems k n in simp_all)
    with round(3) [OF False] show ?thesis by (auto simp: Let_def)
  qed
qed

section \<open>The descriptors\<close>

lemma map_loop_eq:
  "map_loop page n i = map (\<lambda>j. (LargeFrameDescriptor_new (page j))
     \<lparr>L_NextIndex := if j + 1 = i + n then L_NullIndex else of_nat (j + 1)\<rparr>) [i..<i + n]"
proof (induction n arbitrary: i)
  case (Suc n)
  show ?case
    by (simp add: Suc.IH upt_conv_Cons del: upt_Suc)
qed simp

text \<open>What the constructor leaves behind, with \<open>n\<close> whole frames and possibly a partial one.\<close>

definition built_space :: "(nat \<Rightarrow> SmallFrameDescriptor list) \<Rightarrow> nat \<Rightarrow> u16 option \<Rightarrow> FrameAllocationSpace \<Rightarrow> bool" where
  "built_space page n stray sp \<longleftrightarrow>
     Map sp = map_loop page n 0 @
       (case stray of None \<Rightarrow> [] | Some cnt \<Rightarrow> [SplitLargeFrame cnt (LargeFrameDescriptor_new (page n))]) \<and>
     LargeFree sp = (if n = 0 then L_NullIndex else 0) \<and>
     SplitFree sp = (case stray of None \<Rightarrow> L_NullIndex | Some _ \<Rightarrow> of_nat n)"

lemma length_map_loop [simp]: "length (map_loop page n i) = n"
  by (simp add: map_loop_eq)

lemma built_space_desc:
  assumes "built_space page n stray sp"
  shows "unat l < n \<Longrightarrow> desc sp l = (LargeFrameDescriptor_new (page (unat l)))
      \<lparr>L_NextIndex := if unat l + 1 = n then L_NullIndex else of_nat (unat l + 1)\<rparr>"
    and "stray = Some c \<Longrightarrow> unat l = n \<Longrightarrow> desc sp l = SplitLargeFrame c (LargeFrameDescriptor_new (page n))"
    and "frame_index sp l \<longleftrightarrow> unat l < n \<or> unat l = n \<and> stray \<noteq> None"
  using assms
  by (auto simp: built_space_def desc_def map_loop_eq nth_append frame_index_def split: option.splits)

lemma LargeFrameDescriptor_new_select [simp]:
  "Status (LargeFrameDescriptor_new p) = Free"
  "SubDescriptors (LargeFrameDescriptor_new p) = p"
  by (simp_all add: LargeFrameDescriptor_new_def)

lemma built_space_frame_ok:
  assumes "built_space page n stray sp" "\<forall>i. length (page i) = 512"
    "pred_option (\<lambda>c. 0 < c \<and> c < SubDescriptorsCount) stray" "frame_index sp l"
  shows "frame_ok (desc sp l)"
proof (cases "unat l < n")
  case True
  then show ?thesis using assms(2) by (simp add: built_space_desc(1) [OF assms(1)] frame_ok_def)
next
  case False
  then obtain c where c: "stray = Some c" "unat l = n"
    using assms(4) built_space_desc(3) [OF assms(1)] by auto
  have cnt: "0 < c" "c < SubDescriptorsCount" "unat c \<le> 511"
    using assms(3) c(1) by (auto simp: SubDescriptorsCount_def word_less_nat_alt)
  show ?thesis
    using cnt assms(2) split_ok_SplitLargeFrame(1) [of "LargeFrameDescriptor_new (page n)" c]
    by (simp add: built_space_desc(2) [OF assms(1) c] frame_ok_def)
qed

lemma built_space_status:
  assumes "built_space page n stray sp" "\<forall>i. length (page i) = 512"
    "pred_option (\<lambda>c. 0 < c \<and> c < SubDescriptorsCount) stray" "frame_index sp l"
  shows "Status (desc sp l) = (if unat l < n then Free else Split)"
proof (cases "unat l < n")
  case True
  then show ?thesis by (simp add: built_space_desc(1) [OF assms(1)])
next
  case False
  then obtain c where c: "stray = Some c" "unat l = n"
    using assms(4) built_space_desc(3) [OF assms(1)] by auto
  have "unat c \<le> 511" using assms(3) c(1) by (simp add: SubDescriptorsCount_def word_less_nat_alt)
  with False show ?thesis using assms(2) by (simp add: built_space_desc(2) [OF assms(1) c])
qed

lemma built_space_inv:
  assumes "built_space page n stray sp" "\<forall>i. length (page i) = 512" "n + 1 < 2 ^ 32"
    "pred_option (\<lambda>c. 0 < c \<and> c < SubDescriptorsCount) stray"
  shows "space_inv {} sp"
proof -
  note desc = built_space_desc [OF assms(1)]
  note ok = built_space_frame_ok [OF assms(1,2,4)] and status = built_space_status [OF assms(1,2,4)]
  let ?ls = "map of_nat [0..<n] :: u32 list"
  let ?ss = "case stray of None \<Rightarrow> [] | Some _ \<Rightarrow> [of_nat n :: u32]"
  have un: "unat (of_nat j :: u32) = j" if "j \<le> n" for j
    using that assms(3) by (simp add: unat_of_nat take_bit_eq_mod)
  have nonnull: "(of_nat j :: u32) \<noteq> L_NullIndex" if "j \<le> n" for j
    using un [OF that] that assms(3) by (auto simp: L_NullIndex_def)
  have "large.stack sp ?ls"
  proof (cases "n = 0")
    case True
    then show ?thesis using assms(1) by (simp add: large.stack_def built_space_def)
  next
    case False
    have "seg (\<lambda>l. L_NextIndex (desc sp l)) L_NullIndex (of_nat 0) ?ls L_NullIndex"
      by (rule seg_upt) (use False nonnull un desc(1) in simp_all)
    then show ?thesis using False assms(1) by (simp add: large.stack_def built_space_def)
  qed
  moreover have "set ?ls = frames_with Free sp - {}"
  proof (intro set_eqI iffI)
    fix l assume "l \<in> set ?ls"
    then have "unat l < n" using un by auto
    then show "l \<in> frames_with Free sp - {}" using status desc(3) by (simp add: frames_with_def)
  next
    fix l assume "l \<in> frames_with Free sp - {}"
    then have "unat l < n" using status by (auto simp: frames_with_def split: if_splits)
    then show "l \<in> set ?ls" using image_eqI [of l of_nat "unat l" "{0..<n}"] by simp
  qed
  moreover have "split_list sp ?ss"
  proof (cases stray)
    case None
    then show ?thesis using assms(1) by (simp add: split_list_def built_space_def)
  next
    case (Some c)
    then have "unat c \<le> 511" using assms(4) by (simp add: SubDescriptorsCount_def word_less_nat_alt)
    then show ?thesis
      using assms(1,2) Some nonnull [of n] desc(2) [OF Some un [of n]]
      by (simp add: split_list_def built_space_def) (simp add: LargeFrameDescriptor_new_def)
  qed
  moreover have "set ?ss = frames_with Split sp - {}"
  proof -
    have "l \<in> frames_with Split sp \<longleftrightarrow> unat l = n \<and> stray \<noteq> None" for l
      using status [of l] desc(3) [of l] by (auto simp: frames_with_def split: if_splits)
    moreover have "unat l = n \<longleftrightarrow> l = of_nat n" for l :: u32
      using un [of n] by auto
    ultimately show ?thesis by (cases stray) auto
  qed
  moreover have "length (Map sp) < 2 ^ 32"
    using assms(1,3) by (simp add: built_space_def split: option.splits)
  moreover have "length (SubDescriptors (desc sp l)) = 512" if "frame_index sp l" for l
    using ok [OF that] by (simp add: frame_ok_def)
  ultimately show ?thesis
    using ok by (intro space_invI) blast+
qed

lemma built_space_unallocated:
  assumes "built_space page n stray sp" "\<forall>i. length (page i) = 512"
    "pred_option (\<lambda>c. 0 < c \<and> c < SubDescriptorsCount) stray"
  shows "allocated sp = Map.empty"
proof -
  have "frame_alloc (desc sp l) = Map.empty" if idx: "frame_index sp l" for l
  proof (cases "unat l < n")
    case True
    then show ?thesis
      using built_space_status [OF assms idx] by (simp add: frame_alloc_unused)
  next
    case False
    then obtain c where c: "stray = Some c" "unat l = n"
      using idx built_space_desc(3) [OF assms(1)] by auto
    have "unat c \<le> 511" using assms(3) c(1) by (simp add: SubDescriptorsCount_def word_less_nat_alt)
    then show ?thesis
      using assms(2)
      by (auto simp: built_space_desc(2) [OF assms(1) c] frame_alloc_def subdesc_SplitLargeFrame
          split_slot_def fill_slot_def S_NullIndex_def unat_eq_0 fun_eq_iff split: if_splits)
  qed
  then show ?thesis by (auto simp: allocated_def fun_eq_iff)
qed

section \<open>The constructed space\<close>

text \<open>
  The hypothesis under which a space is constructed: at least 2 MiB, below the 52 bits of an amd64
  physical address, over pages of 512 slots.
\<close>

definition constructible :: "(nat \<Rightarrow> SmallFrameDescriptor list) \<Rightarrow> paddr \<Rightarrow> paddr \<Rightarrow> bool" where
  "constructible page phys_start phys_end \<longleftrightarrow>
     unat phys_start + 2 ^ 21 \<le> unat phys_end \<and> unat phys_end \<le> 2 ^ 52 \<and> (\<forall>i. length (page i) = 512)"

definition whole_frames :: "paddr \<Rightarrow> paddr \<Rightarrow> nat" where
  "whole_frames phys_start phys_end =
     (unat phys_end - unat phys_end mod 2 ^ 21 - unat phys_start) div (2 ^ 21 + 24)"

lemma fits_unique:
  assumes "fits P A n" "\<not> fits P A (n + 1)"
  shows "n = (A - P) div frame_cost"
  using assms by (intro div_nat_eqI [symmetric]) (simp_all add: fits_def)

lemma fit_loop_32:
  assumes "unat phys_start \<le> unat algn_end" "unat algn_end \<le> 2 ^ 52"
  shows "\<exists>f c a. fit_loop 32 0 phys_start algn_end = (f, c, a) \<and>
    fit_state (unat phys_start) (unat algn_end) ((unat algn_end - unat phys_start) div frame_cost) f c a"
proof -
  have "\<exists>m f c a. fit_loop 32 0 phys_start algn_end = (f, c, a) \<and>
      fit_state (unat phys_start) (unat algn_end) m f c a \<and> \<not> fits (unat phys_start) (unat algn_end) (m + 1)"
    by (rule fit_loop_spec [of _ _ 0]) (use assms in \<open>simp_all add: fit_state_def fits_def\<close>)
  then obtain m f c a where run: "fit_loop 32 0 phys_start algn_end = (f, c, a)"
    and st: "fit_state (unat phys_start) (unat algn_end) m f c a"
    and max: "\<not> fits (unat phys_start) (unat algn_end) (m + 1)"
    by blast
  have "fits (unat phys_start) (unat algn_end) m" using st by (simp add: fit_state_def)
  then have "m = (unat algn_end - unat phys_start) div frame_cost"
    using max by (rule fits_unique)
  with run st show ?thesis by blast
qed

text \<open>The layout of the constructed space, in natural numbers.\<close>

lemma FrameAllocationSpace_new_spec:
  assumes "constructible page phys_start phys_end"
  defines "sp \<equiv> FrameAllocationSpace_new page phys_start phys_end"
    and "n \<equiv> whole_frames phys_start phys_end"
    and "A \<equiv> unat phys_end - unat phys_end mod 2 ^ 21"
  shows "\<exists>stray. built_space page n stray sp \<and>
    pred_option (\<lambda>c. 0 < c \<and> c < SubDescriptorsCount \<and> A + (unat c + 1) * 4096 \<le> unat phys_end) stray \<and>
    n + 1 < 2 ^ 31 \<and>
    unat (AllocationStart sp) = A - n * 2 ^ 21 \<and> n * 2 ^ 21 \<le> A \<and>
    unat (AllocationEnd sp) = (if stray = None then A else unat phys_end) \<and>
    MemoryStart sp = phys_start \<and> MemoryEnd sp = phys_end \<and>
    unat (LargeFrameCount sp) = length (Map sp) \<and>
    unat (ControlAreaSize sp) = length (Map sp) * 24 \<and>
    unat phys_start + unat (ControlAreaSize sp) \<le> unat (AllocationStart sp)"
proof -
  let ?P = "unat phys_start" and ?E = "unat phys_end"
  define algn where "algn = RoundDown phys_end (push_bit 20 2)"
  have A: "unat algn = A" by (simp add: algn_def A_def unat_RoundDown)
  have bounds: "?P + 2 ^ 21 \<le> ?E" "?E \<le> 2 ^ 52" and pages: "\<forall>i. length (page i) = 512"
    using assms(1) by (simp_all add: constructible_def)
  have mod: "?E mod 2 ^ 21 < 2 ^ 21" by simp
  then have PA: "?P \<le> A" "A \<le> 2 ^ 52" "A \<le> ?E" "?E - A < 2 ^ 21"
    using bounds unfolding A_def by linarith+
  obtain f c a where run: "fit_loop 32 0 phys_start algn = (f, c, a)"
    and st: "fit_state ?P A n f c a"
    using fit_loop_32 [of phys_start algn] PA by (auto simp: A n_def whole_frames_def A_def)
  then have fca: "unat f = n" "unat c = ?P + n * 24" "unat a = A - n * 2097152" "?P + n * frame_cost \<le> A"
    by (simp_all add: fit_state_def fits_def)
  have n: "n + 1 < 2 ^ 31" "n * 2 ^ 21 \<le> A" using fca(4) PA by simp_all
  have gap: "unat (a - c) = A - n * 2097152 - (?P + n * 24)"
    using fca by (subst unat_minus_le) (simp_all add: word_le_nat_alt)
  have room: "unat (phys_end - algn) = ?E - A"
    using PA(3) A by (subst unat_minus_le) (simp_all add: word_le_nat_alt)
  let ?stray = "sizeof_LargeFrameDescriptor \<le> a - c \<and> 3 * PageSize \<le> phys_end - algn"
  have f0: "f = 0 \<longleftrightarrow> n = 0" using fca(1) by (auto simp: unat_eq_0)
  have ctrl: "unat (f * sizeof_LargeFrameDescriptor) = n * 24"
    using fca(1) n(1) by (subst unat_mult_small) (simp_all add: sizeof_LargeFrameDescriptor_def)
  show ?thesis
  proof (cases ?stray)
    case False
    have "sp = FrameAllocationSpace_new page phys_start phys_end" by (simp add: sp_def)
    then have "built_space page n None sp" "AllocationStart sp = a" "AllocationEnd sp = algn"
      "LargeFrameCount sp = f" "ControlAreaSize sp = f * sizeof_LargeFrameDescriptor"
      "MemoryStart sp = phys_start" "MemoryEnd sp = phys_end" "length (Map sp) = n"
      using False fca(1) f0
      unfolding FrameAllocationSpace_new_def Let_def algn_def [symmetric] run built_space_def
      by simp_all
    then show ?thesis
      using fca ctrl A n by (intro exI [of _ None]) simp
  next
    case True
    define cnt :: u16 where "cnt = ucast ((phys_end - algn) div PageSize - 2)"
    have three: "3 * 4096 \<le> ?E - A" using True room by (simp add: word_le_nat_alt PageSize_def)
    have q: "unat ((phys_end - algn) div PageSize) = (?E - A) div 4096"
      by (simp add: unat_div room PageSize_def)
    have "3 \<le> (?E - A) div 4096" "(?E - A) div 4096 < 512"
      using three PA(4) by (simp_all add: div_le_mono [of "3 * 4096" _ 4096, simplified] less_mult_imp_div_less)
    then have "unat ((phys_end - algn) div PageSize - 2) = (?E - A) div 4096 - 2"
      using q by (subst unat_minus_le) (simp_all add: word_le_nat_alt)
    then have cnt: "unat cnt = (?E - A) div 4096 - 2"
      using \<open>(?E - A) div 4096 < 512\<close> by (simp add: cnt_def unat_ucast_mod)
    define k where "k = (?E - A) div 4096"
    have k: "3 \<le> k" "k < 512" "k * 4096 \<le> ?E - A" "unat cnt = k - 2"
      using cnt \<open>3 \<le> (?E - A) div 4096\<close> \<open>(?E - A) div 4096 < 512\<close> by (simp_all add: k_def)
    then have cnt_ok: "0 < cnt \<and> cnt < SubDescriptorsCount \<and> A + (unat cnt + 1) * 4096 \<le> ?E"
      using PA(3) unfolding word_less_nat_alt SubDescriptorsCount_def by simp linarith
    have head: "ucast f = (of_nat n :: u32)"
      by (subst unat_inject [symmetric]) (simp add: unat_ucast_mod fca(1) unat_of_nat take_bit_eq_mod)
    have "sp = FrameAllocationSpace_new page phys_start phys_end" by (simp add: sp_def)
    then have sp: "built_space page n (Some cnt) sp" "AllocationStart sp = a" "AllocationEnd sp = phys_end"
      "LargeFrameCount sp = f + 1"
      "ControlAreaSize sp = f * sizeof_LargeFrameDescriptor + sizeof_LargeFrameDescriptor"
      "MemoryStart sp = phys_start" "MemoryEnd sp = phys_end" "length (Map sp) = n + 1"
      using True fca(1) f0
      unfolding FrameAllocationSpace_new_def Let_def algn_def [symmetric] run built_space_def
      by (simp_all add: cnt_def head)
    have "unat (f + 1) = n + 1" "unat (f * sizeof_LargeFrameDescriptor + sizeof_LargeFrameDescriptor) = (n + 1) * 24"
      using fca(1) n(1) ctrl
      by (subst unat_plus_small; simp add: sizeof_LargeFrameDescriptor_def)+
    moreover have "?P + (n + 1) * 24 \<le> A - n * 2 ^ 21"
      using True gap fca(4) by (simp add: word_le_nat_alt sizeof_LargeFrameDescriptor_def) linarith
    ultimately show ?thesis
      using sp fca A n cnt_ok by (intro exI [of _ "Some cnt"]) simp
  qed
qed

section \<open>The layout of a space\<close>

text \<open>
  The facts about addresses that no operation changes: the allocation area starts at a 2-MiB
  boundary above 0, the descriptors cover it, and the capacity of every frame lies inside it.
\<close>

definition space_layout :: "FrameAllocationSpace \<Rightarrow> bool" where
  "space_layout sp \<longleftrightarrow>
     2 ^ 21 dvd unat (AllocationStart sp) \<and> 0 < unat (AllocationStart sp) \<and>
     unat (AllocationEnd sp) \<le> unat (AllocationStart sp) + length (Map sp) * 2 ^ 21 \<and>
     unat (AllocationStart sp) + length (Map sp) * 2 ^ 21 < 2 ^ 63 \<and>
     (\<forall>l s. s \<in> capacity sp l \<longrightarrow>
        unat (AllocationStart sp) + unat l * 2 ^ 21 + (unat s + 1) * 2 ^ 12 \<le> unat (AllocationEnd sp))"

lemma space_layout_cong:
  assumes "same_layout sp sp'" "capacity sp' = capacity sp"
  shows "space_layout sp' \<longleftrightarrow> space_layout sp"
  using assms by (simp add: space_layout_def same_layoutD)

lemma built_space_capacity:
  assumes "built_space page n stray sp" "\<forall>i. length (page i) = 512"
    "pred_option (\<lambda>c. 0 < c \<and> c < SubDescriptorsCount) stray" "s \<in> capacity sp l"
  shows "small_index_ok s \<and> (unat l < n \<or> unat l = n \<and> (\<exists>c. stray = Some c \<and> s \<le> c))"
proof -
  have idx: "frame_index sp l" and s: "s \<in> frame_cap (desc sp l)"
    using assms(4) by (auto simp: capacity_def split: if_splits)
  have ok: "small_index_ok s" using s by (simp add: frame_cap_def)
  show ?thesis
  proof (cases "unat l < n")
    case False
    then obtain c where c: "stray = Some c" "unat l = n"
      using idx built_space_desc(3) [OF assms(1)] by auto
    have "unat c \<le> 511" using assms(3) c(1) by (simp add: SubDescriptorsCount_def word_less_nat_alt)
    then show ?thesis
      using s ok c assms(2) by (simp add: built_space_desc(2) [OF assms(1) c] frame_cap_SplitLargeFrame)
  qed (simp add: ok)
qed

lemma FrameAllocationSpace_new_ok:
  assumes "constructible page phys_start phys_end"
  defines "sp \<equiv> FrameAllocationSpace_new page phys_start phys_end"
  shows "space_inv {} sp" "space_layout sp" "allocated sp = Map.empty"
    "unat phys_start + length (Map sp) * 24 \<le> unat (AllocationStart sp)"
    "unat (AllocationEnd sp) \<le> unat phys_end"
    "length (Map sp) \<in> {whole_frames phys_start phys_end, whole_frames phys_start phys_end + 1}"
proof -
  let ?n = "whole_frames phys_start phys_end"
  define A where "A = unat phys_end - unat phys_end mod 2 ^ 21"
  obtain stray where built: "built_space page ?n stray sp"
    and stray: "pred_option (\<lambda>c. 0 < c \<and> c < SubDescriptorsCount \<and> A + (unat c + 1) * 4096 \<le> unat phys_end) stray"
    and n: "?n + 1 < 2 ^ 31" and start: "unat (AllocationStart sp) = A - ?n * 2 ^ 21" "?n * 2 ^ 21 \<le> A"
    and fin: "unat (AllocationEnd sp) = (if stray = None then A else unat phys_end)"
    and ctrl: "unat (ControlAreaSize sp) = length (Map sp) * 24"
      "unat phys_start + unat (ControlAreaSize sp) \<le> unat (AllocationStart sp)"
    using FrameAllocationSpace_new_spec [OF assms(1)] unfolding sp_def A_def by blast
  have pages: "\<forall>i. length (page i) = 512" and E: "unat phys_end \<le> 2 ^ 52" "unat phys_start + 2 ^ 21 \<le> unat phys_end"
    using assms(1) by (simp_all add: constructible_def)
  have cnt: "pred_option (\<lambda>c. 0 < c \<and> c < SubDescriptorsCount) stray"
    using stray by (cases stray) auto
  have len: "length (Map sp) = ?n + (if stray = None then 0 else 1)"
    using built by (simp add: built_space_def split: option.splits)
  show "space_inv {} sp"
    using built_space_inv [OF built pages _ cnt] n by simp
  show "allocated sp = Map.empty" by (rule built_space_unallocated [OF built pages cnt])
  show "unat phys_start + length (Map sp) * 24 \<le> unat (AllocationStart sp)" using ctrl by simp
  show "unat (AllocationEnd sp) \<le> unat phys_end" using fin by (simp add: A_def)
  show "length (Map sp) \<in> {?n, ?n + 1}" using len by simp
  have "unat phys_end mod 2 ^ 21 < 2 ^ 21" by simp
  then have A: "A \<le> unat phys_end" "unat phys_end < A + 2 ^ 21" unfolding A_def by linarith+
  have "2 ^ 21 dvd A" unfolding A_def by (rule dvd_minus_mod)
  then have dvd: "2 ^ 21 dvd unat (AllocationStart sp)" unfolding start by (rule dvd_diff_nat) simp
  have pos: "0 < unat (AllocationStart sp)"
  proof (cases "?n = 0")
    case True
    then show ?thesis using start E(2) A by (simp; linarith)
  next
    case False
    then show ?thesis using ctrl len by simp
  qed
  have "unat (AllocationStart sp) + unat l * 2 ^ 21 + (unat s + 1) * 2 ^ 12 \<le> unat (AllocationEnd sp)"
    if cap: "s \<in> capacity sp l" for l s
  proof -
    note cap' = built_space_capacity [OF built pages cnt cap]
    have s: "unat s + 1 \<le> 512" using cap' by auto
    show ?thesis
    proof (cases "unat l < ?n")
      case True
      then have "(unat l + 1) * 2 ^ 21 \<le> ?n * 2 ^ 21" by (intro mult_le_mono1) simp
      moreover have "A \<le> unat (AllocationEnd sp)" using fin A(1) by simp
      moreover have "(unat s + 1) * 2 ^ 12 \<le> 2 ^ 21" using s by simp
      ultimately show ?thesis using start by simp
    next
      case False
      then obtain c where c: "stray = Some c" "s \<le> c" "unat l = ?n" using cap' by auto
      then have "unat s \<le> unat c" by (simp add: word_le_nat_alt)
      then show ?thesis using c stray start fin by simp
    qed
  qed
  moreover have "unat (AllocationEnd sp) \<le> unat (AllocationStart sp) + length (Map sp) * 2 ^ 21"
    using fin start len A by (auto split: if_splits)
  moreover have "unat (AllocationStart sp) + length (Map sp) * 2 ^ 21 < 2 ^ 63"
    using start len E A by simp
  ultimately show "space_layout sp"
    unfolding space_layout_def using dvd pos by blast
qed

end
