(* ===== verification/Pmm_Props.thy ===== *)
theory Pmm_Props
  imports Pmm_New
begin

text \<open>
  The properties of an allocation space: what allocation, freeing and queries promise to their
  callers in terms of the allocated frames and of physical addresses.
\<close>

section \<open>Addresses\<close>

text \<open>
  The byte offset of a frame is computed on 32 bits, so addresses are right for a space of at most
  2048 large frames (4 GiB).
\<close>

definition addressable :: "FrameAllocationSpace \<Rightarrow> bool" where
  "addressable sp \<longleftrightarrow> space_layout sp \<and> length (Map sp) \<le> 2048"

definition in_frame_index :: "FrameAllocationSpace \<Rightarrow> u32 \<Rightarrow> u16 \<Rightarrow> bool" where
  "in_frame_index sp l s \<longleftrightarrow> frame_index sp l \<and> unat s < 512"

lemma unat_frame_addr:
  assumes "addressable sp" "in_frame_index sp l s"
  shows "unat (frame_addr sp l s) = unat (AllocationStart sp) + unat l * 2 ^ 21 + unat s * 2 ^ 12"
proof -
  have l: "unat l < 2048" "unat l < length (Map sp)" and s: "unat s < 512"
    using assms by (auto simp: addressable_def in_frame_index_def frame_index_def)
  have top: "unat (AllocationStart sp) + length (Map sp) * 2 ^ 21 < 2 ^ 63"
    using assms(1) by (simp add: addressable_def space_layout_def)
  have lo: "unat (ucast (push_bit 21 l) :: u64) = unat l * 2 ^ 21"
    using l(1) by (simp add: unat_ucast_mod unat_push_bit_small)
  have so: "unat (ucast (push_bit 12 (ucast s :: u32)) :: u64) = unat s * 2 ^ 12"
    using s by (simp add: unat_ucast_mod unat_push_bit_small)
  have "(unat l + 1) * 2 ^ 21 \<le> length (Map sp) * 2 ^ 21" using l(2) by (intro mult_le_mono1) simp
  then have sum: "unat (AllocationStart sp) + unat l * 2 ^ 21 + unat s * 2 ^ 12 < 2 ^ 63"
    using top s by simp
  then have "unat (AllocationStart sp + ucast (push_bit 21 l)) = unat (AllocationStart sp) + unat l * 2 ^ 21"
    using lo by (subst unat_plus_small) simp_all
  then show ?thesis
    unfolding frame_addr_def using so sum by (subst unat_plus_small) simp_all
qed

text \<open>\<open>Mingle\<close> and \<open>GetFrameInfo\<close> recover the indices from an address inside the frame.\<close>

lemma frame_addr_decode:
  assumes "addressable sp" "in_frame_index sp l s"
    "unat addr = unat (frame_addr sp l s) + k" "k < 2 ^ 12"
  shows "large_index sp addr = l" "small_index addr = s"
proof -
  have l: "unat l < 2048" and s: "unat s < 512"
    using assms(1,2) by (auto simp: addressable_def in_frame_index_def frame_index_def)
  let ?S = "unat (AllocationStart sp)"
  have addr: "unat addr = ?S + unat l * 2 ^ 21 + unat s * 2 ^ 12 + k"
    using assms unat_frame_addr by simp
  have "unat (addr - AllocationStart sp) = unat l * 2 ^ 21 + (unat s * 2 ^ 12 + k)"
    using addr by (subst unat_minus_le) (simp_all add: word_le_nat_alt)
  then have "unat (drop_bit 21 (addr - AllocationStart sp)) = unat l"
    using s assms(4) by (simp add: unat_drop_bit)
  then show "large_index sp addr = l"
    unfolding large_index_def unat_inject [symmetric] using l by (simp add: unat_ucast_mod)
  obtain q where q: "?S = 2 ^ 21 * q"
    using assms(1) unfolding addressable_def space_layout_def by blast
  have "unat addr = 2 ^ 12 * (2 ^ 9 * (q + unat l) + unat s) + k"
    unfolding addr q by (simp add: algebra_simps)
  then have "unat addr div 2 ^ 12 = 2 ^ 9 * (q + unat l) + unat s"
    using assms(4) by simp
  moreover have "(2 ^ 9 * (q + unat l) + unat s) mod 2 ^ 9 = unat s"
    by (subst mod_mult_self4) (use s in simp)
  ultimately have "unat addr div 2 ^ 12 mod 2 ^ 9 = unat s"
    by (simp only:)
  moreover have "drop_bit 12 (addr AND 0x1FF000) = drop_bit 12 addr AND mask 9"
  proof -
    have "(0x1FF000 :: u64) = push_bit 12 (mask 9)" by (simp add: mask_eq_exp_minus_1)
    then show ?thesis by (simp only: drop_bit_and drop_bit_push_bit) (simp add: mask_eq_exp_minus_1)
  qed
  ultimately have "unat (drop_bit 12 (addr AND 0x1FF000)) = unat s"
    by (simp only: unat_and_mask unat_drop_bit)
  then show "small_index addr = s"
    unfolding small_index_def unat_inject [symmetric] using s by (simp add: unat_ucast_mod)
qed

lemma large_index_in_range:
  assumes "space_inv X sp" "space_layout sp" "AllocationStart sp \<le> addr" "addr < AllocationEnd sp"
  shows "frame_index sp (large_index sp addr)"
proof -
  let ?d = "unat addr - unat (AllocationStart sp)"
  have "?d < length (Map sp) * 2 ^ 21"
    using assms(2-4) by (auto simp: space_layout_def word_less_nat_alt word_le_nat_alt)
  then have lt: "?d div 2 ^ 21 < length (Map sp)" by (rule less_mult_imp_div_less)
  moreover have "length (Map sp) < 2 ^ 32" by (rule space_invD(1) [OF assms(1)])
  moreover have "unat (addr - AllocationStart sp) = ?d" using assms(3) by (rule unat_minus_le)
  ultimately show ?thesis
    by (simp add: frame_index_def large_index_def unat_ucast_mod unat_drop_bit)
qed

lemma small_index_less: "unat (small_index addr) < 512"
proof -
  have "(0x1FF000 :: u64) = push_bit 12 (mask 9)" by (simp add: mask_eq_exp_minus_1)
  then have "drop_bit 12 (addr AND 0x1FF000) = drop_bit 12 addr AND mask 9"
    by (simp only: drop_bit_and drop_bit_push_bit) (simp add: mask_eq_exp_minus_1)
  then have "unat (drop_bit 12 (addr AND 0x1FF000)) < 2 ^ 9"
    by (simp only: unat_and_mask) simp
  then show ?thesis by (simp add: small_index_def unat_ucast_mod)
qed

section \<open>Contracts of the operations\<close>

lemma allocated_capacity:
  "allocated sp (l, s) = Some n \<Longrightarrow> s \<noteq> S_NullIndex \<Longrightarrow> s \<in> capacity sp l"
  "allocated sp (l, S_NullIndex) = Some n \<Longrightarrow> small_index_ok t \<Longrightarrow> t \<in> capacity sp l"
  by (auto simp: allocated_def frame_alloc_def capacity_def frame_cap_def small_index_ok_def
      split: if_splits)

text \<open>The condition under which a new frame is handed out, and the effect on the allocated frames.\<close>

definition grants :: "FrameAllocationSpace \<Rightarrow> u32 \<Rightarrow> u16 \<Rightarrow> u32 \<Rightarrow> FrameAllocationSpace \<Rightarrow> bool" where
  "grants sp l s n sp' \<longleftrightarrow>
     frame_index sp l \<and> unat s < 512 \<and>
     allocated sp (l, s) = None \<and> allocated sp (l, S_NullIndex) = None \<and>
     (s = S_NullIndex \<longrightarrow> (\<forall>t. allocated sp (l, t) = None)) \<and>
     allocated sp' = (allocated sp)((l, s) \<mapsto> n)"

definition keeps_space :: "FrameAllocationSpace \<Rightarrow> FrameAllocationSpace \<Rightarrow> bool" where
  "keeps_space sp sp' \<longleftrightarrow> space_inv {} sp' \<and> same_layout sp sp' \<and> capacity sp' = capacity sp"

lemma keeps_space_refl: "space_inv {} sp \<Longrightarrow> keeps_space sp sp"
  by (simp add: keeps_space_def)

lemma keeps_spaceD:
  assumes "keeps_space sp sp'"
  shows "space_inv {} sp'" "space_layout sp' = space_layout sp" "addressable sp' = addressable sp"
  using assms space_layout_cong [of sp sp'] same_layoutD(3) [of sp sp']
  by (auto simp: keeps_space_def addressable_def)

lemma AllocateFrame_4KiB_spec:
  assumes "space_inv {} sp"
  shows "\<exists>a sp'. AllocateFrame KiB4 n sp = Some (a, sp') \<and> keeps_space sp sp' \<and>
    (if frames_with Split sp = {} \<and> frames_with Free sp = {} then a = 0 \<and> sp' = sp
     else \<exists>l s. s \<noteq> S_NullIndex \<and> a = frame_addr sp l s \<and> grants sp l s n sp')"
proof -
  note split0 = space_inv_SplitFree_null [OF assms] and large0 = space_inv_LargeFree_null [OF assms]
  show ?thesis
  proof (cases "SplitFree sp = L_NullIndex")
    case False
    then obtain s sp' where "alloc_split n sp = (Some (frame_addr sp (SplitFree sp) s), sp')"
      "frame_index sp (SplitFree sp)" "small_index_ok s" "Status (desc sp (SplitFree sp)) = Split"
      "allocated sp (SplitFree sp, s) = None" "keeps_space sp sp'"
      "allocated sp' = (allocated sp)((SplitFree sp, s) \<mapsto> n)"
      using alloc_split_spec [OF assms refl False] unfolding keeps_space_def by blast
    moreover have "allocated sp (SplitFree sp, S_NullIndex) = None"
      using calculation by (simp add: allocated_apply frame_alloc_def)
    ultimately show ?thesis
      using False split0
      by (auto simp: AllocateFrame_def grants_def dest!: small_index_okD)
  next
    case True
    then have none: "alloc_split n sp = (None, sp)" by (simp add: alloc_split_def)
    show ?thesis
    proof (cases "LargeFree sp = L_NullIndex")
      case large: True
      with True none show ?thesis
        using split0 large0 keeps_space_refl [OF assms]
        by (simp add: AllocateFrame_def alloc_large_def Let_def)
    next
      case False
      then obtain sp' where "alloc_large KiB4 n sp = (frame_addr sp (LargeFree sp) 1, sp')"
        "frame_index sp (LargeFree sp)" "Status (desc sp (LargeFree sp)) = Free" "keeps_space sp sp'"
        "allocated sp' = (allocated sp)((LargeFree sp, 1) \<mapsto> n)"
        using alloc_large_4KiB_spec [OF assms refl False] unfolding keeps_space_def by blast
      moreover have "allocated sp (LargeFree sp, s) = None" for s
        using calculation by (simp add: allocated_apply frame_alloc_unused)
      ultimately show ?thesis
        using False large0 none by (force simp: AllocateFrame_def grants_def S_NullIndex_def)
    qed
  qed
qed

lemma AllocateFrame_2MiB_spec:
  assumes "space_inv {} sp"
  shows "\<exists>a sp'. AllocateFrame MiB2 n sp = Some (a, sp') \<and> keeps_space sp sp' \<and>
    (if frames_with Free sp = {} then a = 0 \<and> sp' = sp
     else \<exists>l. a = frame_addr sp l S_NullIndex \<and> grants sp l S_NullIndex n sp')"
proof (cases "LargeFree sp = L_NullIndex")
  case True
  then show ?thesis
    using space_inv_LargeFree_null [OF assms] keeps_space_refl [OF assms]
    by (simp add: AllocateFrame_def alloc_large_def Let_def)
next
  case False
  then obtain sp' where "alloc_large MiB2 n sp = (frame_addr sp (LargeFree sp) S_NullIndex, sp')"
    "frame_index sp (LargeFree sp)" "Status (desc sp (LargeFree sp)) = Free" "keeps_space sp sp'"
    "allocated sp' = (allocated sp)((LargeFree sp, S_NullIndex) \<mapsto> n)"
    using alloc_large_2MiB_spec [OF assms refl False] unfolding keeps_space_def by blast
  moreover have "allocated sp (LargeFree sp, s) = None" for s
    using calculation by (simp add: allocated_apply frame_alloc_unused)
  ultimately show ?thesis
    using False space_inv_LargeFree_null [OF assms]
    by (auto simp: AllocateFrame_def grants_def S_NullIndex_def)
qed

text \<open>The frame an address belongs to, as the code takes it.\<close>

definition frame_of :: "FrameAllocationSpace \<Rightarrow> paddr \<Rightarrow> u32 \<times> u16" where
  "frame_of sp addr =
     (let l = large_index sp addr
      in if Status (desc sp l) = Used then (l, S_NullIndex) else (l, small_index addr))"

text \<open>The answer for a frame that is not allocated.\<close>

definition idle_answer :: "FrameAllocationSpace \<Rightarrow> paddr \<Rightarrow> HandleResult" where
  "idle_answer sp addr =
     (let d = desc sp (large_index sp addr); s = small_index addr
      in if Status d = Free \<or> Status d \<in> {Split, Full} \<and> s \<noteq> S_NullIndex \<and> Status (subdesc d s) = Free
         then PageFree else PageReserved)"

lemma Mingle_split_spec:
  assumes "space_inv {} sp" "frame_index sp l" "Status (desc sp l) \<in> {Split, Full}" "unat s < 512"
  shows "\<exists>res cnt sp'. mingle_small diff ign l s sp = (res, cnt, sp') \<and> keeps_space sp sp' \<and>
    (case allocated sp (l, s) of
       None \<Rightarrow> res = (if s \<noteq> S_NullIndex \<and> Status (subdesc (desc sp l) s) = Free then PageFree else PageReserved) \<and>
         cnt = None \<and> sp' = sp
     | Some n \<Rightarrow> res = mingle_answer diff ign n \<and> cnt = mingle_count diff n \<and>
         allocated sp' = (allocated sp)((l, s) := mingle_effect diff ign n))"
proof (cases "s = S_NullIndex")
  case True
  then show ?thesis
    using assms(2,3) keeps_space_refl [OF assms(1)]
    by (auto simp: mingle_small_def S_NullIndex_def allocated_apply frame_alloc_def)
next
  case False
  then have s: "small_index_ok s" "s \<noteq> 0" using assms(4) by (simp_all add: small_index_ok_def S_NullIndex_def)
  have "split_ok (desc sp l)" using space_invD(3) [OF assms(1,2)] assms(3) by (auto simp: frame_ok_def)
  then consider "Status (subdesc (desc sp l) s) = Free" | "Status (subdesc (desc sp l) s) = Reserved"
    | "Status (subdesc (desc sp l) s) = Used"
    using s(1) by (auto simp: split_ok_def)
  then show ?thesis
  proof cases
    case 3
    have "allocated sp (l, s) = Some (ReferenceCount (subdesc (desc sp l) s))"
      using 3 assms False by (simp add: allocated_apply frame_alloc_def)
    then show ?thesis
      using mingle_small_used_spec [OF assms(1-3) s(1) 3 refl, of diff ign] by (auto simp: keeps_space_def)
  qed (use False s(2) assms keeps_space_refl [OF assms(1)] in
        \<open>simp_all add: mingle_small_def Let_def allocated_apply frame_alloc_def\<close>)
qed

lemma Mingle_spec:
  assumes "space_inv {} sp" "space_layout sp" "AllocationStart sp \<le> addr" "addr < AllocationEnd sp"
  shows "\<exists>res cnt sp'. Mingle addr diff ign sp = Some (res, cnt, sp') \<and> keeps_space sp sp' \<and>
    (case allocated sp (frame_of sp addr) of
       None \<Rightarrow> res = idle_answer sp addr \<and> cnt = None \<and> sp' = sp
     | Some n \<Rightarrow> res = mingle_answer diff ign n \<and> cnt = mingle_count diff n \<and>
         allocated sp' = (allocated sp)(frame_of sp addr := mingle_effect diff ign n))"
proof -
  let ?l = "large_index sp addr" and ?s = "small_index addr"
  have l: "frame_index sp ?l" by (rule large_index_in_range [OF assms])
  have ok: "frame_ok (desc sp ?l)" using space_invD(3) [OF assms(1) l] by simp
  have range: "\<not> addr < AllocationStart sp" "\<not> AllocationEnd sp \<le> addr" using assms(3,4) by auto
  have two: "(2::nat) = Suc (Suc 0)" by simp
  have split_case: ?thesis if st: "Status (desc sp ?l) \<in> {Split, Full}"
  proof -
    have fr: "frame_of sp addr = (?l, ?s)" using st by (auto simp: frame_of_def Let_def)
    have idle: "idle_answer sp addr =
        (if ?s \<noteq> S_NullIndex \<and> Status (subdesc (desc sp ?l) ?s) = Free then PageFree else PageReserved)"
      using st by (auto simp: idle_answer_def Let_def)
    have "Mingle addr diff ign sp = Some (mingle_small diff ign ?l ?s sp)"
      using st range by (auto simp: Mingle_def Let_def two)
    then show ?thesis
      unfolding fr idle using Mingle_split_spec [OF assms(1) l st small_index_less, of diff ign addr] by simp
  qed
  show ?thesis
  proof (cases "Status (desc sp ?l)")
    case Free
    then show ?thesis
      using range l keeps_space_refl [OF assms(1)]
      by (simp add: Mingle_def Let_def frame_of_def allocated_apply frame_alloc_unused idle_answer_def)
  next
    case Used
    have run: "Mingle addr diff ign sp = Some (mingle_used diff ign ?l sp)"
      using Used range by (simp add: Mingle_def Let_def two)
    have "allocated sp (frame_of sp addr) = Some (ReferenceCount (desc sp ?l))" "frame_of sp addr = (?l, S_NullIndex)"
      using Used l by (simp_all add: frame_of_def allocated_apply frame_alloc_def Let_def)
    then show ?thesis
      using run mingle_used_spec [OF assms(1) l Used refl, of diff ign] by (auto simp: keeps_space_def)
  next
    case Reserved
    then show ?thesis
      using range l keeps_space_refl [OF assms(1)]
      by (simp add: Mingle_def Let_def frame_of_def allocated_apply frame_alloc_unused idle_answer_def)
  next
    case (UnknownStatus x)
    then show ?thesis using ok by (simp add: frame_ok_def)
  next
    case Split
    then show ?thesis by (intro split_case) simp
  next
    case Full
    then show ?thesis by (intro split_case) simp
  qed
qed

section \<open>The bytes of a frame\<close>

definition frame_bytes :: "FrameAllocationSpace \<Rightarrow> u32 \<times> u16 \<Rightarrow> nat set" where
  "frame_bytes sp x =
     (let a = unat (frame_addr sp (fst x) (snd x))
      in {a ..< a + (if snd x = S_NullIndex then 2 ^ 21 else 2 ^ 12)})"

lemma allocated_index:
  assumes "space_inv {} sp" "allocated sp (l, s) = Some n"
  shows "in_frame_index sp l s"
  using assms by (auto simp: allocated_def frame_alloc_def in_frame_index_def S_NullIndex_def split: if_splits)

lemma allocated_inside:
  assumes "space_inv {} sp" "addressable sp" "allocated sp x = Some n"
  shows "frame_bytes sp x \<subseteq> {unat (AllocationStart sp) ..< unat (AllocationEnd sp)}"
proof -
  obtain l s where x: "x = (l, s)" by (cases x)
  have addr: "unat (frame_addr sp l s) = unat (AllocationStart sp) + unat l * 2 ^ 21 + unat s * 2 ^ 12"
    using unat_frame_addr allocated_index assms unfolding x by blast
  have cap: "t \<in> capacity sp l \<Longrightarrow>
      unat (AllocationStart sp) + unat l * 2 ^ 21 + (unat t + 1) * 2 ^ 12 \<le> unat (AllocationEnd sp)" for t
    using assms(2) unfolding addressable_def space_layout_def by blast
  show ?thesis
  proof (cases "s = S_NullIndex")
    case True
    have "(511::u16) \<in> capacity sp l"
      using allocated_capacity(2) [of sp l n 511] assms(3) True x
      by (simp add: small_index_ok_def S_NullIndex_def)
    then show ?thesis
      using cap [of 511] True addr by (auto simp: frame_bytes_def Let_def x S_NullIndex_def)
  next
    case False
    then have "s \<in> capacity sp l" using allocated_capacity(1) assms(3) x by blast
    then show ?thesis
      using cap [of s] False addr by (auto simp: frame_bytes_def Let_def x)
  qed
qed

text \<open>Two blocks of a 2-MiB grid, each split into 4-KiB blocks, overlap only if they nest.\<close>

lemma frame_bytes_disjoint:
  assumes "space_inv {} sp" "addressable sp" "allocated sp x = Some n" "allocated sp y = Some m" "x \<noteq> y"
  shows "frame_bytes sp x \<inter> frame_bytes sp y = {}"
proof -
  obtain l s k t where x: "x = (l, s)" and y: "y = (k, t)" by (cases x, cases y)
  let ?S = "unat (AllocationStart sp)"
  have idx: "in_frame_index sp l s" "in_frame_index sp k t"
    using allocated_index [OF assms(1)] assms(3,4) x y by auto
  note addr = unat_frame_addr [OF assms(2) idx(1)] unat_frame_addr [OF assms(2) idx(2)]
  have small: "unat s < 512" "unat t < 512" using idx by (simp_all add: in_frame_index_def)
  have bound: "frame_bytes sp x \<subseteq> {?S + unat l * 2 ^ 21 ..< ?S + (unat l + 1) * 2 ^ 21}"
    "frame_bytes sp y \<subseteq> {?S + unat k * 2 ^ 21 ..< ?S + (unat k + 1) * 2 ^ 21}"
    using addr small by (auto simp: frame_bytes_def Let_def x y S_NullIndex_def)
  show ?thesis
  proof (cases "l = k")
    case False
    then have "unat l + 1 \<le> unat k \<or> unat k + 1 \<le> unat l"
      using unat_inject [of l k] by linarith
    then show ?thesis using bound by fastforce
  next
    case True
    then have "s \<noteq> t" using assms(5) x y by simp
    moreover have "s \<noteq> S_NullIndex \<and> t \<noteq> S_NullIndex"
      using allocated_exclusive [of sp l] assms(3,4) x y True \<open>s \<noteq> t\<close> by (metis option.distinct(1))
    moreover have "unat s + 1 \<le> unat t \<or> unat t + 1 \<le> unat s"
      using \<open>s \<noteq> t\<close> unat_inject [of s t] by linarith
    ultimately show ?thesis
      using addr True by (auto simp: frame_bytes_def Let_def x y)
  qed
qed

section \<open>Reachable spaces\<close>

text \<open>The states of a space constructed over a range and used through its operations, in any order.\<close>

inductive space_reachable :: "paddr \<Rightarrow> paddr \<Rightarrow> FrameAllocationSpace \<Rightarrow> bool" for phys_start phys_end where
  reach_new: "constructible page phys_start phys_end \<Longrightarrow>
    space_reachable phys_start phys_end (FrameAllocationSpace_new page phys_start phys_end)"
| reach_alloc: "space_reachable phys_start phys_end sp \<Longrightarrow> AllocateFrame sz n sp = Some (a, sp') \<Longrightarrow>
    space_reachable phys_start phys_end sp'"
| reach_mingle: "space_reachable phys_start phys_end sp \<Longrightarrow> Mingle addr diff ign sp = Some (res, cnt, sp') \<Longrightarrow>
    space_reachable phys_start phys_end sp'"

lemma AllocateFrame_keeps:
  assumes "space_inv {} sp" "AllocateFrame sz n sp = Some (a, sp')"
  shows "keeps_space sp sp'"
proof (cases sz)
  case KiB4
  then show ?thesis using AllocateFrame_4KiB_spec [OF assms(1), of n] assms(2) by auto
next
  case MiB2
  then show ?thesis using AllocateFrame_2MiB_spec [OF assms(1), of n] assms(2) by auto
qed (use assms(2) in \<open>simp_all add: AllocateFrame_def\<close>)

lemma Mingle_out_of_range:
  "addr < AllocationStart sp \<or> AllocationEnd sp \<le> addr \<Longrightarrow>
   Mingle addr diff ign sp = Some (PagesOutOfAllocatorRange, None, sp)"
  by (auto simp: Mingle_def)

lemma Mingle_keeps:
  assumes "space_inv {} sp" "space_layout sp" "Mingle addr diff ign sp = Some (res, cnt, sp')"
  shows "keeps_space sp sp'"
proof (cases "AllocationStart sp \<le> addr \<and> addr < AllocationEnd sp")
  case True
  then show ?thesis using Mingle_spec [OF assms(1,2), of addr diff ign] assms(3) by auto
next
  case False
  then have "Mingle addr diff ign sp = Some (PagesOutOfAllocatorRange, None, sp)"
    by (intro Mingle_out_of_range) auto
  with assms(3) show ?thesis using keeps_space_refl [OF assms(1)] by simp
qed

lemma space_reachable_inv:
  assumes "space_reachable phys_start phys_end sp"
  shows "space_inv {} sp \<and> space_layout sp \<and>
    unat phys_start + length (Map sp) * 24 \<le> unat (AllocationStart sp) \<and>
    unat (AllocationEnd sp) \<le> unat phys_end"
  using assms
proof (induction rule: space_reachable.induct)
  case (reach_new page)
  then show ?case using FrameAllocationSpace_new_ok [OF reach_new] by simp
next
  case (reach_alloc sp sz n a sp')
  then have "keeps_space sp sp'" using AllocateFrame_keeps by blast
  with reach_alloc.IH show ?case
    using keeps_spaceD [of sp sp'] same_layoutD [of sp sp'] by (simp add: keeps_space_def)
next
  case (reach_mingle sp addr diff ign res cnt sp')
  then have "keeps_space sp sp'" using Mingle_keeps by blast
  with reach_mingle.IH show ?case
    using keeps_spaceD [of sp sp'] same_layoutD [of sp sp'] by (simp add: keeps_space_def)
qed

end
