(* ===== verification/Pmm_Alloc.thy ===== *)
theory Pmm_Alloc
  imports Pmm_Props
begin

text \<open>
  The chain of allocation spaces and the front end of the physical memory manager:
  \<open>FrameAllocator\<close>, \<open>Pmm\<close> and \<open>PmmArc\<close> of \<^verbatim>\<open>beelzebub/arc/amd64/src/memory/pmm.cpp\<close>. The
  doubly linked chain of spaces from \<open>FirstSpace\<close> to \<open>LastSpace\<close> is a list; dereferencing a null
  \<open>MainAllocator\<close>, \<open>FirstSpace\<close> or \<open>LastSpace\<close> is \<open>None\<close>, like \<open>FAIL\<close>.
\<close>

section \<open>The allocator\<close>

datatype AddressMagnitude = Bits16 | Bits24 | Bits32 | Bits48 | Any

record FrameAllocator =
  Spaces :: "FrameAllocationSpace list"

text \<open>The loop of \<open>AllocateFrame\<close> over the spaces that pass the test on their end, last space first.\<close>

fun alloc_spaces :: "(FrameAllocationSpace \<Rightarrow> bool) \<Rightarrow> FrameSize \<Rightarrow> u32 \<Rightarrow> FrameAllocationSpace list
    \<Rightarrow> (paddr \<times> FrameAllocationSpace list) option" where
  "alloc_spaces fit sz refCnt [] = Some (0, [])"
| "alloc_spaces fit sz refCnt (space # prevs) =
     (let continue = (\<lambda>space'. map_option (\<lambda>(ret, prevs'). (ret, space' # prevs'))
                                 (alloc_spaces fit sz refCnt prevs))
      in if fit space
         then (case AllocateFrame sz refCnt space of
                 None \<Rightarrow> None
               | Some (ret, space') \<Rightarrow> if ret \<noteq> 0 then Some (ret, space' # prevs) else continue space')
         else continue space)"

definition FrameAllocator_AllocateFrame :: "FrameSize \<Rightarrow> AddressMagnitude \<Rightarrow> u32 \<Rightarrow> FrameAllocator
    \<Rightarrow> (paddr \<times> FrameAllocator) option" where
  "FrameAllocator_AllocateFrame sz magn refCnt al =
     (let run = (\<lambda>fit. map_option (\<lambda>(ret, sps). (ret, al\<lparr>Spaces := rev sps\<rparr>))
                        (alloc_spaces fit sz refCnt (rev (Spaces al))))
      in if magn = Any \<or> magn = Bits48 then run (\<lambda>space. True)
         else if magn = Bits32 then run (\<lambda>space. AllocationEnd space \<le> push_bit 32 1)
         else None)"

fun mingle_spaces :: "paddr \<Rightarrow> u32 \<Rightarrow> bool \<Rightarrow> FrameAllocationSpace list
    \<Rightarrow> (HandleResult \<times> u32 option \<times> FrameAllocationSpace list) option" where
  "mingle_spaces addr diff ignoreRefCnt [] = Some (PagesOutOfAllocatorRange, None, [])"
| "mingle_spaces addr diff ignoreRefCnt (space # nexts) =
     (case Mingle addr diff ignoreRefCnt space of
        None \<Rightarrow> None
      | Some (res, newCnt, space') \<Rightarrow>
          if res \<noteq> PagesOutOfAllocatorRange then Some (res, newCnt, space' # nexts)
          else map_option (\<lambda>(res', newCnt', nexts').
                 (res', if newCnt' = None then newCnt else newCnt', space' # nexts'))
                 (mingle_spaces addr diff ignoreRefCnt nexts))"

definition FrameAllocator_Mingle :: "paddr \<Rightarrow> u32 \<Rightarrow> bool \<Rightarrow> FrameAllocator
    \<Rightarrow> (HandleResult \<times> u32 option \<times> FrameAllocator) option" where
  "FrameAllocator_Mingle addr diff ignoreRefCnt al =
     map_option (\<lambda>(res, newCnt, sps). (res, newCnt, al\<lparr>Spaces := sps\<rparr>))
       (mingle_spaces addr diff ignoreRefCnt (Spaces al))"

fun reserve_spaces :: "paddr \<Rightarrow> psize \<Rightarrow> bool \<Rightarrow> FrameAllocationSpace list \<Rightarrow> HandleResult option" where
  "reserve_spaces start sz includeBusy [] = Some PagesOutOfAllocatorRange"
| "reserve_spaces start sz includeBusy (space # nexts) =
     (case ReserveRange start sz includeBusy space of
        None \<Rightarrow> None
      | Some res \<Rightarrow> if res \<noteq> PagesOutOfAllocatorRange then Some res
                    else reserve_spaces start sz includeBusy nexts)"

definition FrameAllocator_ReserveRange :: "paddr \<Rightarrow> psize \<Rightarrow> bool \<Rightarrow> FrameAllocator \<Rightarrow> HandleResult option" where
  "FrameAllocator_ReserveRange start sz includeBusy al = reserve_spaces start sz includeBusy (Spaces al)"

text \<open>A value written to an out parameter by one space stays unless a later space overwrites it.\<close>

fun info_spaces :: "paddr \<Rightarrow> FrameAllocationSpace list \<Rightarrow> info_result option" where
  "info_spaces addr [] = Some (PagesOutOfAllocatorRange, None, None)"
| "info_spaces addr (space # nexts) =
     (case GetFrameInfo addr space of
        None \<Rightarrow> None
      | Some (res, sz, refCnt) \<Rightarrow>
          if res \<noteq> PagesOutOfAllocatorRange then Some (res, sz, refCnt)
          else map_option (\<lambda>(res', sz', refCnt').
                 (res', if sz' = None then sz else sz', if refCnt' = None then refCnt else refCnt'))
                 (info_spaces addr nexts))"

definition FrameAllocator_GetFrameInfo :: "paddr \<Rightarrow> FrameAllocator \<Rightarrow> info_result option" where
  "FrameAllocator_GetFrameInfo addr al = info_spaces addr (Spaces al)"

definition FrameAllocator_ContainsRange :: "paddr \<Rightarrow> psize \<Rightarrow> FrameAllocator \<Rightarrow> bool" where
  "FrameAllocator_ContainsRange start sz al \<longleftrightarrow> list_ex (\<lambda>space. ContainsRange space start sz) (Spaces al)"

definition FrameAllocator_GetSpace :: "paddr \<Rightarrow> FrameAllocator \<Rightarrow> FrameAllocationSpace option" where
  "FrameAllocator_GetSpace paddr al = find (\<lambda>space. ContainsRange space paddr 1) (Spaces al)"

definition PreppendAllocationSpace :: "FrameAllocationSpace \<Rightarrow> FrameAllocator \<Rightarrow> FrameAllocator option" where
  "PreppendAllocationSpace space al =
     (if Spaces al = [] then None else Some (al\<lparr>Spaces := space # Spaces al\<rparr>))"

definition AppendAllocationSpace :: "FrameAllocationSpace \<Rightarrow> FrameAllocator \<Rightarrow> FrameAllocator option" where
  "AppendAllocationSpace space al =
     (if Spaces al = [] then None else Some (al\<lparr>Spaces := Spaces al @ [space]\<rparr>))"

section \<open>The front end\<close>

text \<open>
  The statics of \<open>PmmArc\<close>. \<open>AllocationSpace\<close> is the address at which the structure of the space
  created last was placed; the structures fill a page taken from the spaces themselves. Their sizes
  are those of a release build, with 4-byte ticket locks.
\<close>

record PmmArc =
  TempSpaceLimit :: paddr
  AllocationSpace :: u64
  MainAllocator :: "FrameAllocator option"

definition sizeof_FrameAllocationSpace :: u64 where
  "sizeof_FrameAllocationSpace = 120"

definition sizeof_FrameAllocator :: u64 where
  "sizeof_FrameAllocator = 24"

definition CreateAllocationSpace :: "(nat \<Rightarrow> SmallFrameDescriptor list) \<Rightarrow> paddr \<Rightarrow> paddr \<Rightarrow> PmmArc
    \<Rightarrow> (HandleResult \<times> PmmArc) option" where
  "CreateAllocationSpace page start fin pmm =
     (if fin - start < push_bit 21 2 then Some (Failed, pmm)
      else
        case MainAllocator pmm of
          Some al \<Rightarrow>
            (let (start', pmm') =
                   (if TempSpaceLimit pmm < AllocationSpace pmm + 2 * sizeof_FrameAllocationSpace
                    then (start + PageSize,
                          pmm\<lparr>AllocationSpace := start, TempSpaceLimit := start + PageSize\<rparr>)
                    else (start, pmm\<lparr>AllocationSpace := AllocationSpace pmm + sizeof_FrameAllocationSpace\<rparr>))
             in map_option (\<lambda>al'. (Okay, pmm'\<lparr>MainAllocator := Some al'\<rparr>))
                  (AppendAllocationSpace (FrameAllocationSpace_new page start' fin) al))
        | None \<Rightarrow>
            Some (Okay, pmm\<lparr>AllocationSpace := start + sizeof_FrameAllocator,
                             TempSpaceLimit := start + PageSize,
                             MainAllocator := Some \<lparr>Spaces = [FrameAllocationSpace_new page (start + PageSize) fin]\<rparr>\<rparr>))"

definition Pmm_AllocateFrame :: "FrameSize \<Rightarrow> AddressMagnitude \<Rightarrow> u32 \<Rightarrow> PmmArc \<Rightarrow> (paddr \<times> PmmArc) option" where
  "Pmm_AllocateFrame sz magn refCnt pmm =
     (case MainAllocator pmm of
        None \<Rightarrow> None
      | Some al \<Rightarrow> map_option (\<lambda>(ret, al'). (ret, pmm\<lparr>MainAllocator := Some al'\<rparr>))
                     (FrameAllocator_AllocateFrame sz magn refCnt al))"

definition Pmm_Mingle :: "paddr \<Rightarrow> u32 \<Rightarrow> bool \<Rightarrow> PmmArc \<Rightarrow> (HandleResult \<times> u32 option \<times> PmmArc) option" where
  "Pmm_Mingle addr diff ignoreRefCnt pmm =
     (case MainAllocator pmm of
        None \<Rightarrow> None
      | Some al \<Rightarrow> map_option (\<lambda>(res, newCnt, al'). (res, newCnt, pmm\<lparr>MainAllocator := Some al'\<rparr>))
                     (FrameAllocator_Mingle addr diff ignoreRefCnt al))"

definition Pmm_FreeFrame :: "paddr \<Rightarrow> bool \<Rightarrow> PmmArc \<Rightarrow> (HandleResult \<times> PmmArc) option" where
  "Pmm_FreeFrame addr ignoreRefCnt pmm =
     map_option (\<lambda>(res, dummy, pmm'). (res, pmm')) (Pmm_Mingle addr 0 ignoreRefCnt pmm)"

definition Pmm_AdjustReferenceCount :: "paddr \<Rightarrow> u32 \<Rightarrow> PmmArc
    \<Rightarrow> (HandleResult \<times> u32 option \<times> PmmArc) option" where
  "Pmm_AdjustReferenceCount addr diff pmm =
     (if addr = 0 \<or> diff = 0 then Some (ArgumentOutOfRange, None, pmm) else Pmm_Mingle addr diff False pmm)"

definition Pmm_GetFrameInfo :: "paddr \<Rightarrow> PmmArc \<Rightarrow> info_result option" where
  "Pmm_GetFrameInfo addr pmm =
     (if addr = 0 then Some (ArgumentOutOfRange, None, None)
      else Option.bind (MainAllocator pmm) (FrameAllocator_GetFrameInfo addr))"

definition Pmm_ReserveRange :: "paddr \<Rightarrow> psize \<Rightarrow> bool \<Rightarrow> PmmArc \<Rightarrow> HandleResult option" where
  "Pmm_ReserveRange start sz includeBusy pmm =
     Option.bind (MainAllocator pmm) (FrameAllocator_ReserveRange start sz includeBusy)"

section \<open>Contracts\<close>

text \<open>An allocator whose spaces are in order and do not overlap.\<close>

definition space_ok :: "FrameAllocationSpace \<Rightarrow> bool" where
  "space_ok sp \<longleftrightarrow> space_inv {} sp \<and> addressable sp"

definition spaces_apart :: "FrameAllocationSpace list \<Rightarrow> bool" where
  "spaces_apart sps \<longleftrightarrow>
     (\<forall>i < length sps. \<forall>j < length sps. i \<noteq> j \<longrightarrow>
        AllocationEnd (sps ! i) \<le> AllocationStart (sps ! j) \<or> AllocationEnd (sps ! j) \<le> AllocationStart (sps ! i))"

definition allocator_ok :: "FrameAllocator \<Rightarrow> bool" where
  "allocator_ok al \<longleftrightarrow> (\<forall>sp \<in> set (Spaces al). space_ok sp) \<and> spaces_apart (Spaces al)"

lemma space_ok_keeps: "space_ok sp \<Longrightarrow> keeps_space sp sp' \<Longrightarrow> space_ok sp'"
  using keeps_spaceD [of sp sp'] by (simp add: space_ok_def)

lemma spaces_apart_update:
  assumes "spaces_apart sps" "i < length sps" "keeps_space (sps ! i) sp'"
  shows "spaces_apart (sps[i := sp'])"
proof -
  have "AllocationStart ((sps[i := sp']) ! j) = AllocationStart (sps ! j)"
    "AllocationEnd ((sps[i := sp']) ! j) = AllocationEnd (sps ! j)" if "j < length sps" for j
    using assms(2,3) that same_layoutD(1,2) [of "sps ! i" sp']
    by (cases "j = i"; simp add: keeps_space_def)+
  with assms(1) show ?thesis by (simp add: spaces_apart_def)
qed

lemma allocator_ok_update:
  assumes "allocator_ok al" "i < length (Spaces al)" "keeps_space (Spaces al ! i) sp'"
  shows "allocator_ok (al\<lparr>Spaces := (Spaces al)[i := sp']\<rparr>)"
  using assms space_ok_keeps [of "Spaces al ! i" sp'] spaces_apart_update [of "Spaces al" i sp']
    set_update_subset_insert [of "Spaces al" i sp'] nth_mem [of i "Spaces al"]
  by (auto simp: allocator_ok_def)

text \<open>The room a space has for a request.\<close>

definition has_room :: "FrameSize \<Rightarrow> FrameAllocationSpace \<Rightarrow> bool" where
  "has_room sz sp \<longleftrightarrow> frames_with Free sp \<noteq> {} \<or> sz = KiB4 \<and> frames_with Split sp \<noteq> {}"

lemma frame_addr_granted:
  assumes "space_ok sp" "keeps_space sp sp'" "grants sp l s n sp'"
  shows "frame_addr sp l s \<noteq> 0"
    "frame_bytes sp (l, s) \<subseteq> {unat (AllocationStart sp) ..< unat (AllocationEnd sp)}"
proof -
  have adr: "addressable sp" "addressable sp'" "space_inv {} sp'"
    using assms(1) keeps_spaceD [OF assms(2)] by (simp_all add: space_ok_def)
  have "in_frame_index sp l s" using assms(3) by (simp add: grants_def in_frame_index_def)
  then have "unat (frame_addr sp l s) = unat (AllocationStart sp) + unat l * 2 ^ 21 + unat s * 2 ^ 12"
    by (rule unat_frame_addr [OF adr(1)])
  moreover have "0 < unat (AllocationStart sp)" using adr(1) by (simp add: addressable_def space_layout_def)
  ultimately show "frame_addr sp l s \<noteq> 0" by auto
  have lay: "AllocationStart sp' = AllocationStart sp" "AllocationEnd sp' = AllocationEnd sp"
    using assms(2) same_layoutD by (auto simp: keeps_space_def)
  have "frame_bytes sp' (l, s) \<subseteq> {unat (AllocationStart sp') ..< unat (AllocationEnd sp')}"
    using allocated_inside [OF adr(3,2)] assms(3) by (simp add: grants_def)
  then show "frame_bytes sp (l, s) \<subseteq> {unat (AllocationStart sp) ..< unat (AllocationEnd sp)}"
    by (simp add: frame_bytes_def frame_addr_def lay)
qed

lemma AllocateFrame_space:
  assumes "space_ok sp" "sz \<in> {KiB4, MiB2}"
  shows "\<exists>a sp'. AllocateFrame sz n sp = Some (a, sp') \<and> keeps_space sp sp' \<and>
    (if has_room sz sp then a \<noteq> 0 \<and> (\<exists>l s. a = frame_addr sp l s \<and> (s = S_NullIndex \<longleftrightarrow> sz = MiB2) \<and> grants sp l s n sp')
     else a = 0 \<and> sp' = sp)"
proof -
  have inv: "space_inv {} sp" using assms(1) by (simp add: space_ok_def)
  obtain a sp' where run: "AllocateFrame sz n sp = Some (a, sp')" "keeps_space sp sp'"
    and room: "has_room sz sp \<Longrightarrow> \<exists>l s. a = frame_addr sp l s \<and> (s = S_NullIndex \<longleftrightarrow> sz = MiB2) \<and> grants sp l s n sp'"
    and full: "\<not> has_room sz sp \<Longrightarrow> a = 0 \<and> sp' = sp"
  proof (cases "sz = KiB4")
    case True
    obtain a sp' where "AllocateFrame KiB4 n sp = Some (a, sp')" "keeps_space sp sp'"
      "if frames_with Split sp = {} \<and> frames_with Free sp = {} then a = 0 \<and> sp' = sp
       else \<exists>l s. s \<noteq> S_NullIndex \<and> a = frame_addr sp l s \<and> grants sp l s n sp'"
      using AllocateFrame_4KiB_spec [OF inv, of n] by blast
    with True show ?thesis
      by (intro that [of a sp']) (auto simp: has_room_def split: if_splits)
  next
    case False
    then have sz: "sz = MiB2" using assms(2) by simp
    obtain a sp' where "AllocateFrame MiB2 n sp = Some (a, sp')" "keeps_space sp sp'"
      "if frames_with Free sp = {} then a = 0 \<and> sp' = sp
       else \<exists>l. a = frame_addr sp l S_NullIndex \<and> grants sp l S_NullIndex n sp'"
      using AllocateFrame_2MiB_spec [OF inv, of n] by blast
    with sz show ?thesis
      by (intro that [of a sp']) (auto simp: has_room_def split: if_splits)
  qed
  show ?thesis
  proof (cases "has_room sz sp")
    case True
    then obtain l s where ls: "a = frame_addr sp l s" "s = S_NullIndex \<longleftrightarrow> sz = MiB2" "grants sp l s n sp'"
      using room by blast
    then have "a \<noteq> 0" using frame_addr_granted(1) [OF assms(1) run(2)] by simp
    with True run ls show ?thesis by auto
  qed (use run full in auto)
qed

lemma alloc_spaces_spec:
  assumes "\<forall>sp \<in> set sps. space_ok sp" "sz \<in> {KiB4, MiB2}"
  shows "\<exists>a sps'. alloc_spaces fit sz n sps = Some (a, sps') \<and>
    (if \<exists>sp \<in> set sps. fit sp \<and> has_room sz sp
     then \<exists>i l s sp'. i < length sps \<and> fit (sps ! i) \<and> sps' = sps[i := sp'] \<and> keeps_space (sps ! i) sp' \<and>
       a = frame_addr (sps ! i) l s \<and> (s = S_NullIndex \<longleftrightarrow> sz = MiB2) \<and> grants (sps ! i) l s n sp'
     else a = 0 \<and> sps' = sps)"
  using assms
proof (induction sps)
  case (Cons sp sps)
  obtain b sps' where ih: "alloc_spaces fit sz n sps = Some (b, sps')"
    and ih': "if \<exists>sp \<in> set sps. fit sp \<and> has_room sz sp
     then \<exists>i l s sp'. i < length sps \<and> fit (sps ! i) \<and> sps' = sps[i := sp'] \<and> keeps_space (sps ! i) sp' \<and>
       b = frame_addr (sps ! i) l s \<and> (s = S_NullIndex \<longleftrightarrow> sz = MiB2) \<and> grants (sps ! i) l s n sp'
     else b = 0 \<and> sps' = sps"
    using Cons.IH Cons.prems by auto
  obtain a sp' where run: "AllocateFrame sz n sp = Some (a, sp')" "keeps_space sp sp'"
    and run': "if has_room sz sp then a \<noteq> 0 \<and> (\<exists>l s. a = frame_addr sp l s \<and> (s = S_NullIndex \<longleftrightarrow> sz = MiB2) \<and> grants sp l s n sp')
     else a = 0 \<and> sp' = sp"
    using AllocateFrame_space [of sp sz n] Cons.prems by auto
  show ?case
  proof (cases "fit sp \<and> has_room sz sp")
    case True
    then obtain l s where ls: "a = frame_addr sp l s" "s = S_NullIndex \<longleftrightarrow> sz = MiB2" "grants sp l s n sp'" "a \<noteq> 0"
      using run' by auto
    have go: "alloc_spaces fit sz n (sp # sps) = Some (a, sp' # sps)" using True run ls(4) by simp
    show ?thesis
      unfolding go using True ls run(2)
      by (simp add: exI [of _ 0]) (rule exI [of _ 0], auto)
  next
    case False
    then have go: "alloc_spaces fit sz n (sp # sps) = Some (b, sp # sps')"
      using run run' ih by (auto simp: Let_def)
    show ?thesis
    proof (cases "\<exists>sp \<in> set sps. fit sp \<and> has_room sz sp")
      case True
      then obtain i l s sp' where "i < length sps" "fit (sps ! i)" "sps' = sps[i := sp']"
        "keeps_space (sps ! i) sp'" "b = frame_addr (sps ! i) l s" "s = S_NullIndex \<longleftrightarrow> sz = MiB2"
        "grants (sps ! i) l s n sp'" using ih' by auto
      then show ?thesis
        unfolding go using True by (simp, intro exI [of _ "Suc i"]) auto
    next
      case none: False
      then show ?thesis unfolding go using False ih' by auto
    qed
  qed
qed simp

end
