(* ===== verification/Pmm_Theorems.thy ===== *)
theory Pmm_Theorems
  imports Pmm_Props
begin

text \<open>
  The theorems on the physical memory manager, each with a witness on a space of 6 MiB whose end
  is not aligned, so that it has two whole frames and a partial one.
\<close>

section \<open>A concrete space\<close>

definition demo_page :: "nat \<Rightarrow> SmallFrameDescriptor list" where
  "demo_page i = replicate 512 SmallFrameDescriptor_new"

definition demo_space :: FrameAllocationSpace where
  "demo_space = FrameAllocationSpace_new demo_page 0x100000 0x703000"

lemma demo_constructible: "constructible demo_page 0x100000 0x703000"
  by (simp add: constructible_def demo_page_def)

lemmas demo_ok = FrameAllocationSpace_new_ok [OF demo_constructible, folded demo_space_def]

lemma demo_whole: "whole_frames 0x100000 0x703000 = 2"
  by (simp add: whole_frames_def)

lemma demo_addressable: "addressable demo_space"
  using demo_ok(2,6) unfolding demo_whole by (auto simp: addressable_def)

lemma demo_reachable: "space_reachable 0x100000 0x703000 demo_space"
  unfolding demo_space_def by (rule reach_new) (rule demo_constructible)

lemma demo_range:
  "unat (AllocationStart demo_space) = 0x200000" "0x600000 \<le> unat (AllocationEnd demo_space)"
  using FrameAllocationSpace_new_spec [OF demo_constructible]
  unfolding demo_space_def [symmetric] demo_whole by (auto split: if_splits)

lemma demo_links:
  "LargeFree demo_space \<noteq> L_NullIndex" "L_NextIndex (desc demo_space (LargeFree demo_space)) \<noteq> L_NullIndex"
proof -
  obtain stray where built: "built_space demo_page 2 stray demo_space"
    using FrameAllocationSpace_new_spec [OF demo_constructible]
    unfolding demo_space_def [symmetric] demo_whole by blast
  then show "LargeFree demo_space \<noteq> L_NullIndex" by (simp add: built_space_def L_NullIndex_def)
  have "LargeFree demo_space = 0" using built by (simp add: built_space_def)
  then show "L_NextIndex (desc demo_space (LargeFree demo_space)) \<noteq> L_NullIndex"
    by (simp add: built_space_desc(1) [OF built] L_NullIndex_def)
qed

lemma demo_free: "frames_with Free demo_space \<noteq> {}"
  using demo_links(1) space_inv_LargeFree [OF demo_ok(1)] by blast

section \<open>Construction\<close>



text \<open>
  The search loop of the constructor, which tries decreasing powers of two, computes a
  division: it finds the largest number of frames whose 2 MiB and 24-byte descriptors fit between
  the start of the space and its aligned end, and places the two areas accordingly.
\<close>

theorem fit_loop_division:
  assumes "unat phys_start \<le> unat algn_end" "unat algn_end \<le> 2 ^ 52"
  shows "fit_loop 32 0 phys_start algn_end =
    (let n = (unat algn_end - unat phys_start) div (2 ^ 21 + 24)
     in (of_nat n, phys_start + of_nat (n * 24), algn_end - of_nat (n * 2 ^ 21)))"
proof -
  obtain f c a where run: "fit_loop 32 0 phys_start algn_end = (f, c, a)"
    and st: "fit_state (unat phys_start) (unat algn_end) ((unat algn_end - unat phys_start) div frame_cost) f c a"
    using fit_loop_32 [OF assms] by blast
  define n where "n = (unat algn_end - unat phys_start) div frame_cost"
  have "unat f = n" "unat c = unat phys_start + n * 24" "unat a = unat algn_end - n * 2097152"
    and le: "n * 2097152 \<le> unat algn_end"
    using st by (simp_all add: fit_state_def fits_def n_def)
  then have "f = of_nat n" "c = of_nat (unat phys_start + n * 24)" "a = of_nat (unat algn_end - n * 2097152)"
    by (metis of_nat_unat)+
  with run le show ?thesis
    by (simp add: Let_def n_def [symmetric] of_nat_diff)
qed

theorem fit_loop_division_witness:
  "fit_loop 32 0 0x100000 0x600000 = (2, 0x100030, 0x200000)"
  using fit_loop_division [of "0x100000" "0x600000"] by (simp add: Let_def)

section \<open>Allocation\<close>

text \<open>The address of a frame that was granted, as a number: the index of the large and of the small frame count whole frames.\<close>

lemma granted_addr:
  assumes "addressable sp" "keeps_space sp sp'" "grants sp l s n sp'"
  shows "unat (frame_addr sp l s) = unat (AllocationStart sp) + unat l * 2 ^ 21 + unat s * 2 ^ 12"
    "unat (frame_addr sp l s) + (if s = S_NullIndex then 2 ^ 21 else 2 ^ 12) \<le> unat (AllocationEnd sp)"
proof -
  have "in_frame_index sp l s" using assms(3) by (simp add: grants_def in_frame_index_def)
  then show "unat (frame_addr sp l s) = unat (AllocationStart sp) + unat l * 2 ^ 21 + unat s * 2 ^ 12"
    by (rule unat_frame_addr [OF assms(1)])
  have lay: "same_layout sp sp'" and inv: "space_inv {} sp'" and adr: "addressable sp'"
    using assms(1,2) keeps_spaceD(3) [OF assms(2)] by (simp_all add: keeps_space_def)
  have "allocated sp' (l, s) = Some n" using assms(3) by (simp add: grants_def)
  from allocated_inside [OF inv adr this] same_layoutD [OF lay]
  show "unat (frame_addr sp l s) + (if s = S_NullIndex then 2 ^ 21 else 2 ^ 12) \<le> unat (AllocationEnd sp)"
    by (auto simp: frame_bytes_def Let_def frame_addr_def split: if_splits)
qed

text \<open>
  C11. In a space of at most 2048 large frames (beyond that the code computes wrong addresses) a
  request for a 4-KiB frame always returns, keeps the invariant and the layout, and when any
  split frame has room or any large frame is free it hands out a small frame that was not allocated,
  in a large frame that is not itself allocated, with the requested reference count, all other
  frames unchanged; otherwise it answers the null address and changes nothing. The address is that of the frame:
  its large and its small frame times their sizes from the start of the space, and it ends within the space.
\<close>

theorem AllocateFrame_4KiB:
  assumes "space_inv {} sp" "addressable sp"
  shows "\<exists>a sp'. AllocateFrame KiB4 n sp = Some (a, sp') \<and> keeps_space sp sp' \<and>
    (if frames_with Split sp = {} \<and> frames_with Free sp = {} then a = 0 \<and> sp' = sp
     else \<exists>l s. s \<noteq> S_NullIndex \<and> grants sp l s n sp'
       \<and> unat a = unat (AllocationStart sp) + unat l * 2 ^ 21 + unat s * 2 ^ 12
       \<and> unat a + 2 ^ 12 \<le> unat (AllocationEnd sp))"
proof -
  obtain a sp' where run: "AllocateFrame KiB4 n sp = Some (a, sp')" "keeps_space sp sp'"
    "if frames_with Split sp = {} \<and> frames_with Free sp = {} then a = 0 \<and> sp' = sp
     else \<exists>l s. s \<noteq> S_NullIndex \<and> a = frame_addr sp l s \<and> grants sp l s n sp'"
    using AllocateFrame_4KiB_spec [OF assms(1), of n] by blast
  with granted_addr [OF assms(2) run(2)] show ?thesis by (fastforce split: if_splits)
qed

theorem AllocateFrame_4KiB_witness:
  "\<exists>a sp' l s. AllocateFrame KiB4 1 demo_space = Some (a, sp') \<and> grants demo_space l s 1 sp'
     \<and> unat a = unat (AllocationStart demo_space) + unat l * 2 ^ 21 + unat s * 2 ^ 12"
  using AllocateFrame_4KiB [OF demo_ok(1) demo_addressable, of 1] demo_free by auto

text \<open>
  C12. In a space of at most 2048 large frames a request for a 2-MiB frame always returns, keeps the invariant and the layout, and when a
  large frame is free it hands out one no part of which was allocated, with the requested reference
  count, at the address its index times 2 MiB after the start, all of it within the space; otherwise it answers the null address and
  changes nothing.
\<close>

theorem AllocateFrame_2MiB:
  assumes "space_inv {} sp" "addressable sp"
  shows "\<exists>a sp'. AllocateFrame MiB2 n sp = Some (a, sp') \<and> keeps_space sp sp' \<and>
    (if frames_with Free sp = {} then a = 0 \<and> sp' = sp
     else \<exists>l. grants sp l S_NullIndex n sp'
       \<and> unat a = unat (AllocationStart sp) + unat l * 2 ^ 21 \<and> unat a + 2 ^ 21 \<le> unat (AllocationEnd sp))"
proof -
  obtain a sp' where run: "AllocateFrame MiB2 n sp = Some (a, sp')" "keeps_space sp sp'"
    "if frames_with Free sp = {} then a = 0 \<and> sp' = sp
     else \<exists>l. a = frame_addr sp l S_NullIndex \<and> grants sp l S_NullIndex n sp'"
    using AllocateFrame_2MiB_spec [OF assms(1), of n] by blast
  with granted_addr [OF assms(2) run(2), of _ S_NullIndex] show ?thesis by (fastforce simp: S_NullIndex_def split: if_splits)
qed

theorem AllocateFrame_2MiB_witness:
  "\<exists>a sp' l. AllocateFrame MiB2 1 demo_space = Some (a, sp') \<and> grants demo_space l S_NullIndex 1 sp'
     \<and> unat a = unat (AllocationStart demo_space) + unat l * 2 ^ 21"
  using AllocateFrame_2MiB [OF demo_ok(1) demo_addressable, of 1] demo_free by auto

section \<open>Freeing and adjusting reference counts\<close>

text \<open>
  C10. \<open>Mingle\<close> inside the allocation range refines an update of one entry of the allocated frames:
  it returns (the jumps between its sections end), keeps the invariant and the layout, answers
  \<open>PageFree\<close> or \<open>PageReserved\<close> and changes nothing for a frame that is not allocated, and otherwise
  releases the frame or stores its new count exactly as the contract on \<open>diff\<close> and
  \<open>ignoreRefCnt\<close> says, whatever happens to the lists it keeps.
\<close>

theorem Mingle_refines:
  assumes "space_inv {} sp" "space_layout sp" "AllocationStart sp \<le> addr" "addr < AllocationEnd sp"
  shows "\<exists>res cnt sp'. Mingle addr diff ign sp = Some (res, cnt, sp') \<and> keeps_space sp sp' \<and>
    (case allocated sp (frame_of sp addr) of
       None \<Rightarrow> res = idle_answer sp addr \<and> cnt = None \<and> sp' = sp
     | Some n \<Rightarrow> res = mingle_answer diff ign n \<and> cnt = mingle_count diff n \<and>
         allocated sp' = (allocated sp)(frame_of sp addr := mingle_effect diff ign n))"
  by (rule Mingle_spec [OF assms])

theorem Mingle_refines_witness:
  "\<exists>res sp'. Mingle 0x300000 0 False demo_space = Some (res, None, sp') \<and> sp' = demo_space"
  using Mingle_refines [OF demo_ok(1,2), of "0x300000" 0 False] demo_range demo_ok(3)
  by (auto simp: word_le_nat_alt word_less_nat_alt)

lemma frame_of_granted:
  assumes "space_inv {} sp'" "addressable sp" "keeps_space sp sp'" "grants sp l s n sp'"
  shows "frame_of sp' (frame_addr sp l s) = (l, s)"
    "AllocationStart sp' \<le> frame_addr sp l s" "frame_addr sp l s < AllocationEnd sp'"
proof -
  have lay: "same_layout sp sp'" using assms(3) by (simp add: keeps_space_def)
  have adr: "addressable sp'" using assms(2) keeps_spaceD(3) [OF assms(3)] by simp
  have al: "allocated sp' (l, s) = Some n" using assms(4) by (simp add: grants_def)
  have idx: "in_frame_index sp' l s" by (rule allocated_index [OF assms(1) al])
  have same: "frame_addr sp' l s = frame_addr sp l s"
    using same_layoutD(1) [OF lay] by (simp add: frame_addr_def)
  note dec = frame_addr_decode [OF adr idx, of "frame_addr sp l s" 0]
  show "frame_of sp' (frame_addr sp l s) = (l, s)"
    using dec al same by (auto simp: frame_of_def Let_def allocated_def frame_alloc_def split: if_splits)
  have sub: "frame_bytes sp' (l, s) \<subseteq> {unat (AllocationStart sp') ..< unat (AllocationEnd sp')}"
    by (rule allocated_inside [OF assms(1) adr al])
  have "unat (frame_addr sp l s) \<in> frame_bytes sp' (l, s)" by (simp add: frame_bytes_def Let_def same)
  then show "AllocationStart sp' \<le> frame_addr sp l s" "frame_addr sp l s < AllocationEnd sp'"
    using sub by (auto simp: word_le_nat_alt word_less_nat_alt)
qed

lemma free_granted:
  assumes "addressable sp" "keeps_space sp sp'" "grants sp l s n sp'" "n \<le> 1"
  shows "\<exists>sp2. Mingle (frame_addr sp l s) 0 False sp' = Some (Okay, None, sp2) \<and>
    keeps_space sp' sp2 \<and> allocated sp2 = allocated sp"
proof -
  have inv: "space_inv {} sp'" "space_layout sp'"
    using assms(1) keeps_spaceD [OF assms(2)] by (simp_all add: addressable_def)
  note fr = frame_of_granted [OF inv(1) assms(1-3)]
  have al: "allocated sp' (l, s) = Some n" "(allocated sp')((l, s) := None) = allocated sp"
    using assms(3) by (auto simp: grants_def fun_eq_iff)
  show ?thesis
    using Mingle_spec [OF inv fr(2,3), of 0 False] fr(1) al assms(4)
    by (auto simp: mingle_spec_defs)
qed

text \<open>
  Allocation followed by \<open>FreeFrame\<close> of the returned address (with at most one reference) is
  answered \<open>Okay\<close> and restores the set of allocated frames and their counts, in a space of at most
  2048 large frames.
\<close>

theorem allocate_free_roundtrip:
  assumes "space_inv {} sp" "addressable sp" "n \<le> 1"
    and "AllocateFrame sz n sp = Some (a, sp')" "a \<noteq> 0"
  shows "\<exists>sp2. Mingle a 0 False sp' = Some (Okay, None, sp2) \<and>
    keeps_space sp' sp2 \<and> allocated sp2 = allocated sp"
proof (cases sz)
  case KiB4
  then obtain l s where "a = frame_addr sp l s" "keeps_space sp sp'" "grants sp l s n sp'"
    using AllocateFrame_4KiB_spec [OF assms(1), of n] assms(4,5) by (auto split: if_splits)
  then show ?thesis using free_granted assms(2,3) by blast
next
  case MiB2
  then obtain l where "a = frame_addr sp l S_NullIndex" "keeps_space sp sp'" "grants sp l S_NullIndex n sp'"
    using AllocateFrame_2MiB_spec [OF assms(1), of n] assms(4,5) by (auto split: if_splits)
  then show ?thesis using free_granted assms(2,3) by blast
qed (use assms(4) in \<open>simp_all add: AllocateFrame_def\<close>)

theorem allocate_free_roundtrip_witness:
  "\<exists>a sp' sp2. AllocateFrame KiB4 1 demo_space = Some (a, sp') \<and>
     Mingle a 0 False sp' = Some (Okay, None, sp2) \<and> allocated sp2 = allocated demo_space"
proof -
  obtain a sp' l s where run: "AllocateFrame KiB4 1 demo_space = Some (a, sp')" "keeps_space demo_space sp'"
    "a = frame_addr demo_space l s" "grants demo_space l s 1 sp'"
    using AllocateFrame_4KiB_spec [OF demo_ok(1), of 1] demo_free by auto
  have "AllocationStart sp' \<le> a" "AllocationStart sp' = AllocationStart demo_space"
    using frame_of_granted(2) [OF _ demo_addressable run(2,4)] run(2,3) same_layoutD(1)
    by (simp_all add: keeps_space_def)
  then have "a \<noteq> 0" using demo_range(1) by auto
  then obtain sp2 where "Mingle a 0 False sp' = Some (Okay, None, sp2)" "allocated sp2 = allocated demo_space"
    using allocate_free_roundtrip [OF demo_ok(1) demo_addressable _ run(1)] by auto
  with run(1) show ?thesis by blast
qed

section \<open>Safety of every reachable state\<close>

text \<open>
  C13. In every state reachable from construction by allocations, frees and reference count
  adjustments in any order, the invariant and the layout hold, and (with at most 2048 large
  frames) every allocated frame lies in the allocation area, clear of the control area and of
  every other allocated frame.
\<close>

theorem reachable_frames_safe:
  assumes "space_reachable phys_start phys_end sp" "length (Map sp) \<le> 2048"
    and "allocated sp x \<noteq> None" "allocated sp y \<noteq> None" "x \<noteq> y"
  shows "space_inv {} sp \<and> space_layout sp \<and>
    frame_bytes sp x \<subseteq> {unat phys_start + length (Map sp) * 24 ..< unat phys_end} \<and>
    frame_bytes sp x \<inter> frame_bytes sp y = {}"
proof -
  note inv = space_reachable_inv [OF assms(1)]
  have adr: "addressable sp" using inv assms(2) by (simp add: addressable_def)
  obtain n m where nm: "allocated sp x = Some n" "allocated sp y = Some m" using assms(3,4) by blast
  have "frame_bytes sp x \<subseteq> {unat (AllocationStart sp) ..< unat (AllocationEnd sp)}"
    using allocated_inside [OF _ adr nm(1)] inv by blast
  then have "frame_bytes sp x \<subseteq> {unat phys_start + length (Map sp) * 24 ..< unat phys_end}"
    using inv by fastforce
  moreover have "frame_bytes sp x \<inter> frame_bytes sp y = {}"
    using frame_bytes_disjoint [OF _ adr nm assms(5)] inv by blast
  ultimately show ?thesis using inv by blast
qed

theorem reachable_frames_safe_witness:
  "\<exists>sp x y. space_reachable 0x100000 0x703000 sp \<and> x \<noteq> y \<and> allocated sp x \<noteq> None \<and>
     allocated sp y \<noteq> None \<and> frame_bytes sp x \<inter> frame_bytes sp y = {}"
proof -
  obtain a sp1 l where one: "AllocateFrame MiB2 1 demo_space = Some (a, sp1)" "keeps_space demo_space sp1"
    "grants demo_space l S_NullIndex 1 sp1"
    using AllocateFrame_2MiB_spec [OF demo_ok(1), of 1] demo_free by auto
  let ?s = S_NullIndex
  have inv1: "space_inv {} sp1" using one(2) by (simp add: keeps_space_def)
  have al1: "allocated sp1 (l, ?s) = Some 1" using one(3) by (simp add: grants_def)
  have "LargeFree sp1 = L_NextIndex (desc demo_space (LargeFree demo_space))"
    using one(1) demo_links by (auto simp: AllocateFrame_def alloc_large_def Let_def pop_large_def)
  then have "frames_with Free sp1 \<noteq> {}"
    using demo_links space_inv_LargeFree [OF inv1] by auto
  then obtain b sp2 k t where two: "AllocateFrame MiB2 1 sp1 = Some (b, sp2)" "keeps_space sp1 sp2"
    and g2: "grants sp1 k t 1 sp2"
    using AllocateFrame_2MiB_spec [OF inv1, of 1] by auto
  have ne: "(l, ?s) \<noteq> (k, t)" using g2 al1 by (auto simp: grants_def)
  have al2: "allocated sp2 (l, ?s) \<noteq> None" "allocated sp2 (k, t) \<noteq> None"
    using g2 al1 ne by (auto simp: grants_def)
  have reach: "space_reachable 0x100000 0x703000 sp2"
    by (rule reach_alloc [OF reach_alloc [OF demo_reachable one(1)] two(1)])
  have "length (Map sp2) \<le> 2048"
    using demo_addressable one(2) two(2) same_layoutD(3) [of demo_space sp1] same_layoutD(3) [of sp1 sp2]
    by (simp add: keeps_space_def addressable_def)
  then have "frame_bytes sp2 (l, ?s) \<inter> frame_bytes sp2 (k, t) = {}"
    using reachable_frames_safe [OF reach _ al2 ne] by blast
  with reach ne al2 show ?thesis by blast
qed

section \<open>Queries\<close>

text \<open>
  \<open>GetFrameInfo\<close> inside the allocation range always returns, changes nothing, and reports what
  the allocation state says: an allocated frame is in use with its reference count and size, any
  other is free or reserved.
\<close>

theorem GetFrameInfo_correct:
  assumes "space_inv {} sp" "space_layout sp" "AllocationStart sp \<le> addr" "addr < AllocationEnd sp"
  shows "\<exists>cnt. GetFrameInfo addr sp =
      Some (case allocated sp (frame_of sp addr) of None \<Rightarrow> idle_answer sp addr | Some _ \<Rightarrow> PageInUse,
            Some (if Status (desc sp (large_index sp addr)) \<in> {Split, Full} then KiB4 else MiB2), Some cnt) \<and>
    (allocated sp (frame_of sp addr) \<noteq> None \<longrightarrow> allocated sp (frame_of sp addr) = Some cnt)"
proof -
  let ?l = "large_index sp addr" and ?s = "small_index addr"
  have l: "frame_index sp ?l" by (rule large_index_in_range [OF assms])
  have ok: "frame_ok (desc sp ?l)" using space_invD(3) [OF assms(1) l] by simp
  have range: "\<not> addr < AllocationStart sp" "\<not> AllocationEnd sp \<le> addr" using assms(3,4) by auto
  have two: "(2::nat) = Suc (Suc 0)" by simp
  have split_case: ?thesis if st: "Status (desc sp ?l) \<in> {Split, Full}"
  proof -
    have run: "GetFrameInfo addr sp = Some (info_small (desc sp ?l) ?s)"
      using st range by (auto simp: GetFrameInfo_def Let_def two)
    have slot: "?s \<noteq> S_NullIndex \<Longrightarrow> Status (subdesc (desc sp ?l) ?s) \<in> {Free, Used, Reserved}"
      using ok st small_index_less [of addr] by (auto simp: frame_ok_def split_ok_def small_index_ok_def)
    show ?thesis
      using st slot l run small_index_less [of addr]
      by (cases "?s = S_NullIndex")
         (auto simp: info_small_def frame_of_def idle_answer_def allocated_apply frame_alloc_def
           S_NullIndex_def Let_def)
  qed
  show ?thesis
  proof (cases "Status (desc sp ?l)")
    case (UnknownStatus x)
    then show ?thesis using ok by (simp add: frame_ok_def)
  qed (use range l split_case in \<open>auto simp: GetFrameInfo_def Let_def two frame_of_def idle_answer_def
        allocated_apply frame_alloc_def\<close>)
qed

theorem GetFrameInfo_correct_witness:
  "\<exists>cnt. GetFrameInfo 0x300000 demo_space = Some (idle_answer demo_space 0x300000,
     Some (if Status (desc demo_space (large_index demo_space 0x300000)) \<in> {Split, Full} then KiB4 else MiB2), Some cnt)"
  using GetFrameInfo_correct [OF demo_ok(1,2), of "0x300000"] demo_range demo_ok(3)
  by (auto simp: word_le_nat_alt word_less_nat_alt)

section \<open>Limits of the implementation\<close>

text \<open>
  Addresses alias beyond 4 GiB: the offset of a large frame is shifted on 32 bits, so the frames
  \<open>l\<close> and \<open>l + 2048\<close> of a space are given the same physical address.
\<close>

theorem frame_addr_wraps:
  "frame_addr sp (l + 2048) s = frame_addr sp l s"
proof -
  have "push_bit 21 (l + 2048) = push_bit 21 l" for l :: u32
    by (simp add: push_bit_add)
  then show ?thesis by (simp add: frame_addr_def)
qed

text \<open>
  \<open>FreeSize\<close>, documented as the number of bytes in unallocated pages, is set by the
  constructor and changed by no operation: every state a space reaches reports the size it had when
  nothing was allocated.
\<close>

theorem FreeSize_never_updated:
  assumes "space_reachable phys_start phys_end sp" "AllocateFrame sz n sp = Some (a, sp')"
    and "Mingle addr diff ign sp = Some (res, cnt, sp2)"
  shows "FreeSize sp' = FreeSize sp \<and> FreeSize sp2 = FreeSize sp"
proof -
  have inv: "space_inv {} sp" "space_layout sp" using space_reachable_inv [OF assms(1)] by auto
  have "keeps_space sp sp'" "keeps_space sp sp2"
    using AllocateFrame_keeps [OF inv(1) assms(2)] Mingle_keeps [OF inv assms(3)] by auto
  then show ?thesis using same_layoutD(7) by (auto simp: keeps_space_def)
qed

theorem FreeSize_never_updated_witness:
  "\<exists>a sp'. AllocateFrame MiB2 1 demo_space = Some (a, sp') \<and> allocated sp' \<noteq> allocated demo_space \<and>
     FreeSize sp' = FreeSize demo_space"
proof -
  obtain a sp' l where run: "AllocateFrame MiB2 1 demo_space = Some (a, sp')"
    "grants demo_space l S_NullIndex 1 sp'"
    using AllocateFrame_2MiB_spec [OF demo_ok(1), of 1] demo_free by auto
  have "Mingle 0 0 False demo_space = Some (PagesOutOfAllocatorRange, None, demo_space)"
    using demo_range by (intro Mingle_out_of_range) (simp add: word_less_nat_alt)
  then have "FreeSize sp' = FreeSize demo_space"
    using FreeSize_never_updated [OF demo_reachable run(1)] by blast
  moreover have "allocated sp' (l, S_NullIndex) \<noteq> allocated demo_space (l, S_NullIndex)"
    using run(2) by (simp add: grants_def)
  ultimately show ?thesis using run(1) by force
qed

end
