(* ===== verification/Pmm_Alloc_Theorems.thy ===== *)
theory Pmm_Alloc_Theorems
  imports Pmm_Alloc Pmm_Theorems
begin

text \<open>
  The theorems on the chain of allocation spaces and on the front end of the physical memory
  manager, which compose the contracts of the single spaces.
\<close>

section \<open>Allocation over the chain\<close>

definition fits_magnitude :: "AddressMagnitude \<Rightarrow> FrameAllocationSpace \<Rightarrow> bool" where
  "fits_magnitude magn sp \<longleftrightarrow> (magn = Bits32 \<longrightarrow> unat (AllocationEnd sp) \<le> 2 ^ 32)"

lemma chain_alloc_spec:
  assumes "allocator_ok al" "sz \<in> {KiB4, MiB2}" "magn \<in> {Any, Bits48, Bits32}"
  shows "\<exists>a al'. FrameAllocator_AllocateFrame sz magn n al = Some (a, al') \<and>
    (if \<exists>sp \<in> set (Spaces al). fits_magnitude magn sp \<and> has_room sz sp
     then \<exists>i l s sp'. i < length (Spaces al) \<and> fits_magnitude magn (Spaces al ! i) \<and>
       al' = al\<lparr>Spaces := (Spaces al)[i := sp']\<rparr> \<and> keeps_space (Spaces al ! i) sp' \<and>
       a = frame_addr (Spaces al ! i) l s \<and> (s = S_NullIndex \<longleftrightarrow> sz = MiB2) \<and>
       grants (Spaces al ! i) l s n sp'
     else a = 0 \<and> al' = al)"
proof -
  define fit :: "FrameAllocationSpace \<Rightarrow> bool" where "fit = (if magn = Bits32 then (\<lambda>space. AllocationEnd space \<le> push_bit 32 1) else (\<lambda>space. True))"
  have fit: "fit sp = fits_magnitude magn sp" for sp
    by (simp add: fit_def fits_magnitude_def word_le_nat_alt)
  let ?rs = "rev (Spaces al)"
  have ok: "\<forall>sp \<in> set ?rs. space_ok sp" using assms(1) by (simp add: allocator_ok_def)
  obtain a sps' where run: "alloc_spaces fit sz n ?rs = Some (a, sps')"
    and res: "if \<exists>sp \<in> set ?rs. fit sp \<and> has_room sz sp
     then \<exists>i l s sp'. i < length ?rs \<and> fit (?rs ! i) \<and> sps' = ?rs[i := sp'] \<and> keeps_space (?rs ! i) sp' \<and>
       a = frame_addr (?rs ! i) l s \<and> (s = S_NullIndex \<longleftrightarrow> sz = MiB2) \<and> grants (?rs ! i) l s n sp'
     else a = 0 \<and> sps' = ?rs"
    using alloc_spaces_spec [OF ok assms(2), of fit n] by blast
  have go: "FrameAllocator_AllocateFrame sz magn n al = Some (a, al\<lparr>Spaces := rev sps'\<rparr>)"
    using run assms(3) by (auto simp: FrameAllocator_AllocateFrame_def Let_def fit_def)
  show ?thesis
  proof (cases "\<exists>sp \<in> set (Spaces al). fits_magnitude magn sp \<and> has_room sz sp")
    case True
    then obtain i l s sp' where i: "i < length ?rs" "fit (?rs ! i)" "sps' = ?rs[i := sp']" "keeps_space (?rs ! i) sp'"
      "a = frame_addr (?rs ! i) l s" "s = S_NullIndex \<longleftrightarrow> sz = MiB2" "grants (?rs ! i) l s n sp'"
      using res fit by auto
    let ?j = "length (Spaces al) - Suc i"
    have j: "?j < length (Spaces al)" "?rs ! i = Spaces al ! ?j" "rev sps' = (Spaces al)[?j := sp']"
      using i(1,3) by (simp_all add: rev_nth rev_update)
    have "\<exists>i l s sp'. i < length (Spaces al) \<and> fits_magnitude magn (Spaces al ! i) \<and>
       al\<lparr>Spaces := rev sps'\<rparr> = al\<lparr>Spaces := (Spaces al)[i := sp']\<rparr> \<and> keeps_space (Spaces al ! i) sp' \<and>
       a = frame_addr (Spaces al ! i) l s \<and> (s = S_NullIndex \<longleftrightarrow> sz = MiB2) \<and> grants (Spaces al ! i) l s n sp'"
      using i(2,4-7) j fit by metis
    with True go show ?thesis by simp
  next
    case False
    then have "a = 0 \<and> sps' = ?rs" using res fit by (auto split: if_splits)
    with False go show ?thesis by auto
  qed
qed

text \<open>
  C15. Allocation over a chain of spaces that do not overlap always returns and keeps the chain in
  order; it hands out a fresh frame of one space, of those within the requested address magnitude,
  whenever one of them has room, and only then; a frame granted for 32-bit addresses lies below
  4 GiB.
\<close>

theorem FrameAllocator_AllocateFrame_correct:
  assumes "allocator_ok al" "sz \<in> {KiB4, MiB2}" "magn \<in> {Any, Bits48, Bits32}"
  shows "\<exists>a al'. FrameAllocator_AllocateFrame sz magn n al = Some (a, al') \<and> allocator_ok al' \<and>
    (if \<exists>sp \<in> set (Spaces al). fits_magnitude magn sp \<and> has_room sz sp
     then \<exists>i l s. i < length (Spaces al) \<and> a = frame_addr (Spaces al ! i) l s \<and> a \<noteq> 0 \<and>
       grants (Spaces al ! i) l s n (Spaces al' ! i) \<and>
       (\<forall>j. j \<noteq> i \<longrightarrow> Spaces al' ! j = Spaces al ! j) \<and>
       (magn = Bits32 \<longrightarrow> frame_bytes (Spaces al ! i) (l, s) \<subseteq> {..<2 ^ 32})
     else a = 0 \<and> al' = al)"
proof -
  obtain a al' where run: "FrameAllocator_AllocateFrame sz magn n al = Some (a, al')"
    and res: "if \<exists>sp \<in> set (Spaces al). fits_magnitude magn sp \<and> has_room sz sp
     then \<exists>i l s sp'. i < length (Spaces al) \<and> fits_magnitude magn (Spaces al ! i) \<and>
       al' = al\<lparr>Spaces := (Spaces al)[i := sp']\<rparr> \<and> keeps_space (Spaces al ! i) sp' \<and>
       a = frame_addr (Spaces al ! i) l s \<and> (s = S_NullIndex \<longleftrightarrow> sz = MiB2) \<and>
       grants (Spaces al ! i) l s n sp'
     else a = 0 \<and> al' = al"
    using chain_alloc_spec [OF assms, of n] by blast
  show ?thesis
  proof (cases "\<exists>sp \<in> set (Spaces al). fits_magnitude magn sp \<and> has_room sz sp")
    case True
    then obtain i l s sp' where i: "i < length (Spaces al)" "fits_magnitude magn (Spaces al ! i)"
      "al' = al\<lparr>Spaces := (Spaces al)[i := sp']\<rparr>" "keeps_space (Spaces al ! i) sp'"
      "a = frame_addr (Spaces al ! i) l s" "grants (Spaces al ! i) l s n sp'"
      using res by auto
    have ok: "space_ok (Spaces al ! i)" using assms(1) i(1) by (simp add: allocator_ok_def)
    note gr = frame_addr_granted [OF ok i(4,6)]
    have "allocator_ok al'" unfolding i(3) by (rule allocator_ok_update [OF assms(1) i(1,4)])
    moreover have "magn = Bits32 \<longrightarrow> frame_bytes (Spaces al ! i) (l, s) \<subseteq> {..<2 ^ 32}"
      using gr(2) i(2) unfolding fits_magnitude_def by fastforce
    moreover have "Spaces al' ! i = sp'" "\<And>j. j \<noteq> i \<Longrightarrow> Spaces al' ! j = Spaces al ! j"
      using i(1,3) by simp_all
    ultimately have "\<exists>i l s. i < length (Spaces al) \<and> a = frame_addr (Spaces al ! i) l s \<and> a \<noteq> 0 \<and>
       grants (Spaces al ! i) l s n (Spaces al' ! i) \<and> (\<forall>j. j \<noteq> i \<longrightarrow> Spaces al' ! j = Spaces al ! j) \<and>
       (magn = Bits32 \<longrightarrow> frame_bytes (Spaces al ! i) (l, s) \<subseteq> {..<2 ^ 32})"
      using i(1,5,6) gr(1) by metis
    with True run \<open>allocator_ok al'\<close> show ?thesis by simp
  next
    case False
    then show ?thesis using run res assms(1) by auto
  qed
qed

definition demo_allocator :: FrameAllocator where
  "demo_allocator = \<lparr>Spaces = [demo_space]\<rparr>"

lemma demo_allocator_ok: "allocator_ok demo_allocator"
  using demo_ok(1) demo_addressable by (simp add: demo_allocator_def allocator_ok_def space_ok_def spaces_apart_def)

theorem FrameAllocator_AllocateFrame_correct_witness:
  "\<exists>a al'. FrameAllocator_AllocateFrame KiB4 Bits32 1 demo_allocator = Some (a, al') \<and> allocator_ok al'"
  using FrameAllocator_AllocateFrame_correct [OF demo_allocator_ok, of KiB4 Bits32 1] by blast

section \<open>Freeing over the chain\<close>

lemma Mingle_in_range_answer:
  assumes "space_ok sp" "AllocationStart sp \<le> addr" "addr < AllocationEnd sp"
  shows "\<exists>res cnt sp'. Mingle addr diff ign sp = Some (res, cnt, sp') \<and> keeps_space sp sp' \<and>
    res \<noteq> PagesOutOfAllocatorRange"
proof -
  have "space_inv {} sp" "space_layout sp" using assms(1) by (simp_all add: space_ok_def addressable_def)
  from Mingle_spec [OF this assms(2,3), of diff ign] show ?thesis
    by (auto simp: idle_answer_def mingle_answer_def Let_def split: option.splits if_splits)
qed

lemma mingle_spaces_at:
  assumes "\<forall>sp \<in> set sps. space_ok sp" "i < length sps"
    "AllocationStart (sps ! i) \<le> addr" "addr < AllocationEnd (sps ! i)"
    "\<And>j. j < i \<Longrightarrow> addr < AllocationStart (sps ! j) \<or> AllocationEnd (sps ! j) \<le> addr"
    "Mingle addr diff ign (sps ! i) = Some (res, cnt, sp')"
  shows "mingle_spaces addr diff ign sps = Some (res, cnt, sps[i := sp'])"
  using assms
proof (induction sps arbitrary: i)
  case (Cons sp sps)
  show ?case
  proof (cases i)
    case 0
    then show ?thesis
      using Cons.prems Mingle_in_range_answer [of sp addr diff ign] by auto
  next
    case (Suc k)
    have "addr < AllocationStart sp \<or> AllocationEnd sp \<le> addr" using Cons.prems(5) [of 0] Suc by simp
    then have "Mingle addr diff ign sp = Some (PagesOutOfAllocatorRange, None, sp)"
      by (rule Mingle_out_of_range)
    moreover have "addr < AllocationStart (sps ! j) \<or> AllocationEnd (sps ! j) \<le> addr" if "j < k" for j
      using Cons.prems(5) [of "Suc j"] that Suc by simp
    then have "mingle_spaces addr diff ign sps = Some (res, cnt, sps[k := sp'])"
      using Cons.prems Suc by (intro Cons.IH) simp_all
    ultimately show ?thesis using Suc by simp
  qed
qed simp

lemma mingle_spaces_nowhere:
  assumes "\<forall>sp \<in> set sps. addr < AllocationStart sp \<or> AllocationEnd sp \<le> addr"
  shows "mingle_spaces addr diff ign sps = Some (PagesOutOfAllocatorRange, None, sps)"
  using assms by (induction sps) (auto simp: Mingle_out_of_range)

lemma chain_mingle_at:
  assumes "allocator_ok al" "i < length (Spaces al)"
    "AllocationStart (Spaces al ! i) \<le> addr" "addr < AllocationEnd (Spaces al ! i)"
    "Mingle addr diff ign (Spaces al ! i) = Some (res, cnt, sp')"
  shows "FrameAllocator_Mingle addr diff ign al = Some (res, cnt, al\<lparr>Spaces := (Spaces al)[i := sp']\<rparr>)"
proof -
  have "addr < AllocationStart (Spaces al ! j) \<or> AllocationEnd (Spaces al ! j) \<le> addr" if "j < i" for j
  proof -
    have "AllocationEnd (Spaces al ! i) \<le> AllocationStart (Spaces al ! j) \<or>
        AllocationEnd (Spaces al ! j) \<le> AllocationStart (Spaces al ! i)"
      using assms(1,2) that unfolding allocator_ok_def spaces_apart_def by simp
    with assms(3,4) show ?thesis by auto
  qed
  then have "mingle_spaces addr diff ign (Spaces al) = Some (res, cnt, (Spaces al)[i := sp'])"
    using assms by (intro mingle_spaces_at) (simp_all add: allocator_ok_def)
  then show ?thesis by (simp add: FrameAllocator_Mingle_def)
qed

text \<open>
  Freeing or adjusting over the chain is freeing or adjusting in the one space whose
  allocation range holds the address, with every other space untouched and the chain kept in
  order; an address of no space is answered \<open>PagesOutOfAllocatorRange\<close>.
\<close>

theorem FrameAllocator_Mingle_correct:
  assumes "allocator_ok al"
  shows "\<exists>res cnt al'. FrameAllocator_Mingle addr diff ign al = Some (res, cnt, al') \<and> allocator_ok al' \<and>
    (if \<exists>sp \<in> set (Spaces al). AllocationStart sp \<le> addr \<and> addr < AllocationEnd sp
     then \<exists>i sp'. i < length (Spaces al) \<and> AllocationStart (Spaces al ! i) \<le> addr \<and>
       addr < AllocationEnd (Spaces al ! i) \<and>
       Mingle addr diff ign (Spaces al ! i) = Some (res, cnt, sp') \<and>
       al' = al\<lparr>Spaces := (Spaces al)[i := sp']\<rparr>
     else res = PagesOutOfAllocatorRange \<and> cnt = None \<and> al' = al)"
proof (cases "\<exists>sp \<in> set (Spaces al). AllocationStart sp \<le> addr \<and> addr < AllocationEnd sp")
  case True
  then obtain i where i: "i < length (Spaces al)" "AllocationStart (Spaces al ! i) \<le> addr"
    "addr < AllocationEnd (Spaces al ! i)" by (metis in_set_conv_nth)
  have "space_ok (Spaces al ! i)" using assms i(1) by (simp add: allocator_ok_def)
  then obtain res cnt sp' where m: "Mingle addr diff ign (Spaces al ! i) = Some (res, cnt, sp')"
    "keeps_space (Spaces al ! i) sp'"
    using Mingle_in_range_answer i by blast
  note run = chain_mingle_at [OF assms i m(1)]
  have "allocator_ok (al\<lparr>Spaces := (Spaces al)[i := sp']\<rparr>)" by (rule allocator_ok_update [OF assms i(1) m(2)])
  then show ?thesis using True run i m(1) by (simp only: if_True) blast
next
  case False
  then have "mingle_spaces addr diff ign (Spaces al) = Some (PagesOutOfAllocatorRange, None, Spaces al)"
    by (intro mingle_spaces_nowhere) auto
  then show ?thesis using False assms by (auto simp: FrameAllocator_Mingle_def)
qed

theorem FrameAllocator_Mingle_correct_witness:
  "\<exists>res cnt al'. FrameAllocator_Mingle 0x300000 0 False demo_allocator = Some (res, cnt, al') \<and> allocator_ok al'"
  using FrameAllocator_Mingle_correct [OF demo_allocator_ok, of "0x300000" 0 False] by blast

section \<open>The front end\<close>

text \<open>The state of the manager: a chain in order, and the structure placed last inside its page.\<close>

definition pmm_ok :: "PmmArc \<Rightarrow> bool" where
  "pmm_ok pmm \<longleftrightarrow>
     (case MainAllocator pmm of
        None \<Rightarrow> True
      | Some al \<Rightarrow> allocator_ok al \<and> Spaces al \<noteq> [] \<and>
          unat (AllocationSpace pmm) + 120 \<le> unat (TempSpaceLimit pmm) \<and> unat (TempSpaceLimit pmm) \<le> 2 ^ 53)"

definition pmm_spaces :: "PmmArc \<Rightarrow> FrameAllocationSpace list" where
  "pmm_spaces pmm = (case MainAllocator pmm of None \<Rightarrow> [] | Some al \<Rightarrow> Spaces al)"









lemma new_memory [simp]:
  "MemoryStart (FrameAllocationSpace_new page start fin) = start" "MemoryEnd (FrameAllocationSpace_new page start fin) = fin"
  by (simp_all add: FrameAllocationSpace_new_def Let_def split: prod.split)










definition demo_pmm :: PmmArc where
  "demo_pmm = \<lparr>TempSpaceLimit = 0x101000, AllocationSpace = 0x100018, MainAllocator = Some demo_allocator\<rparr>"

lemma demo_pmm_ok: "pmm_ok demo_pmm"
  using demo_allocator_ok by (simp add: pmm_ok_def demo_pmm_def) (simp add: demo_allocator_def)



text \<open>
  C17. At the front end of the manager, allocating a frame and freeing the returned address is
  answered \<open>Okay\<close> and leaves every space with the frames it had allocated before.
\<close>

theorem Pmm_allocate_free:
  assumes "pmm_ok pmm" "sz \<in> {KiB4, MiB2}" "magn \<in> {Any, Bits48, Bits32}" "n \<le> 1"
    and "Pmm_AllocateFrame sz magn n pmm = Some (a, pmm1)" "a \<noteq> 0"
  shows "\<exists>pmm2. Pmm_FreeFrame a False pmm1 = Some (Okay, pmm2) \<and> pmm_ok pmm2 \<and>
    map allocated (pmm_spaces pmm2) = map allocated (pmm_spaces pmm)"
proof -
  obtain al where al: "MainAllocator pmm = Some al" "allocator_ok al"
    using assms(1,5) by (auto simp: Pmm_AllocateFrame_def pmm_ok_def split: option.splits)
  obtain al1 where run: "FrameAllocator_AllocateFrame sz magn n al = Some (a, al1)"
    and pmm1: "pmm1 = pmm\<lparr>MainAllocator := Some al1\<rparr>"
    using assms(5) al(1) by (auto simp: Pmm_AllocateFrame_def)
  obtain i l s sp' where i: "i < length (Spaces al)" "al1 = al\<lparr>Spaces := (Spaces al)[i := sp']\<rparr>"
    "keeps_space (Spaces al ! i) sp'" "a = frame_addr (Spaces al ! i) l s" "grants (Spaces al ! i) l s n sp'"
    using chain_alloc_spec [OF al(2) assms(2,3), of n] run assms(6) by (auto split: if_splits)
  let ?sp = "Spaces al ! i"
  have ok: "space_ok ?sp" using al(2) i(1) by (simp add: allocator_ok_def)
  then have adr: "addressable ?sp" by (simp add: space_ok_def)
  obtain sp2 where free: "Mingle a 0 False sp' = Some (Okay, None, sp2)" "keeps_space sp' sp2"
    "allocated sp2 = allocated ?sp"
    using free_granted [OF adr i(3,5) assms(4)] i(4) by auto
  have ok1: "allocator_ok al1" unfolding i(2) by (rule allocator_ok_update [OF al(2) i(1,3)])
  have at: "i < length (Spaces al1)" "Spaces al1 ! i = sp'" using i(1,2) by simp_all
  have range: "AllocationStart sp' \<le> a" "a < AllocationEnd sp'"
    using frame_of_granted(2,3) [OF keeps_spaceD(1) [OF i(3)] adr i(3,5)] i(4) by simp_all
  have m: "FrameAllocator_Mingle a 0 False al1 = Some (Okay, None, al1\<lparr>Spaces := (Spaces al1)[i := sp2]\<rparr>)"
    by (rule chain_mingle_at [OF ok1 at(1)]) (use at range free in simp_all)
  let ?al2 = "al1\<lparr>Spaces := (Spaces al1)[i := sp2]\<rparr>"
  have ok2: "allocator_ok ?al2" by (rule allocator_ok_update [OF ok1 at(1)]) (use at free in simp)
  have "map allocated (Spaces ?al2) = map allocated (Spaces al)"
    using i(1,2) free(3) by (simp add: map_update) (metis list_update_id map_update nth_map)
  moreover have "Pmm_FreeFrame a False pmm1 = Some (Okay, pmm\<lparr>MainAllocator := Some ?al2\<rparr>)"
    using m pmm1 by (simp add: Pmm_FreeFrame_def Pmm_Mingle_def)
  moreover have "pmm_ok (pmm\<lparr>MainAllocator := Some ?al2\<rparr>)"
    using ok2 assms(1) al(1) i(1,2) by (auto simp: pmm_ok_def)
  ultimately show ?thesis using al(1) by (simp add: pmm_spaces_def)
qed

theorem Pmm_allocate_free_witness:
  "\<exists>a pmm1 pmm2. Pmm_AllocateFrame KiB4 Any 1 demo_pmm = Some (a, pmm1) \<and>
     Pmm_FreeFrame a False pmm1 = Some (Okay, pmm2) \<and> pmm_ok pmm2"
proof -
  have room: "\<exists>sp \<in> set (Spaces demo_allocator). fits_magnitude Any sp \<and> has_room KiB4 sp"
    using demo_free by (auto simp: demo_allocator_def fits_magnitude_def has_room_def)
  obtain a al' i l s sp' where run: "FrameAllocator_AllocateFrame KiB4 Any 1 demo_allocator = Some (a, al')"
    and i: "i < length (Spaces demo_allocator)" "keeps_space (Spaces demo_allocator ! i) sp'"
      "a = frame_addr (Spaces demo_allocator ! i) l s" "grants (Spaces demo_allocator ! i) l s 1 sp'"
    using chain_alloc_spec [OF demo_allocator_ok, of KiB4 Any 1] room by auto
  have "space_ok (Spaces demo_allocator ! i)" using demo_allocator_ok i(1) by (simp add: allocator_ok_def)
  then have "a \<noteq> 0" using frame_addr_granted(1) i(2-4) by simp
  moreover have "Pmm_AllocateFrame KiB4 Any 1 demo_pmm = Some (a, demo_pmm\<lparr>MainAllocator := Some al'\<rparr>)"
    using run by (simp add: Pmm_AllocateFrame_def demo_pmm_def)
  ultimately show ?thesis
    using Pmm_allocate_free [OF demo_pmm_ok, of KiB4 Any 1] by fastforce
qed

end
