(* ===== verification/Conversions.thy ===== *)
theory Conversions
  imports Handles
begin

text \<open>
  \<^verbatim>\<open>libs/common/src/utils/conversions.cpp\<close>: the parsing of integers and booleans. A C string is
  the list of its characters before the terminating NUL; reading the position after the last one
  yields NUL. \<open>char\<close> is signed on this target. An out parameter is passed in and returned; a local
  variable that is not initialised enters as an argument \<open>junk\<close>.
\<close>

section \<open>Characters\<close>

definition char_val :: "char \<Rightarrow> int" where
  "char_val c = (let n = of_char c :: int in if n < 128 then n else n - 256)"

definition char_at :: "string \<Rightarrow> nat \<Rightarrow> char" where
  "char_at str i = (if i < length str then str ! i else CHR 0x00)"

section \<open>Workers\<close>

type_synonym 'a parsed = "HandleResult \<times> 'a"

text \<open>The digit tests of \<open>StrToUIntBase16\<close>, in the order of the code.\<close>

definition hex_digit :: "int \<Rightarrow> int option" where
  "hex_digit c =
     (if 0x30 \<le> c
      then if 0x40 < c
           then if 0x60 < c then (if c \<le> 0x66 then Some (c - 0x60) else None)
                else if c \<le> 0x46 then Some (c - 0x40) else None
           else if c < 0x3A then Some (c - 0x30) else None
      else None)"

text \<open>The loop; \<open>None\<close> is the return on an invalid digit.\<close>

fun base16_loop :: "nat \<Rightarrow> string \<Rightarrow> nat \<Rightarrow> 'a::len word \<Rightarrow> (nat \<times> 'a word) option" where
  "base16_loop limit [] i res = Some (i, res)"
| "base16_loop limit (c # str) i res =
     (if i < limit
      then case hex_digit (char_val c) of
             None \<Rightarrow> None
           | Some d \<Rightarrow> base16_loop limit str (i + 1) (push_bit 4 res OR of_int d)
      else Some (i, res))"

definition StrToUIntBase16 :: "nat \<Rightarrow> string \<Rightarrow> 'a::len word \<Rightarrow> 'a word parsed" where
  "StrToUIntBase16 limit str val =
     (case base16_loop limit str 0 0 of
        None \<Rightarrow> (ArgumentOutOfRange, val)
      | Some (i, res) \<Rightarrow> if limit \<le> i \<or> i = 0 then (ArgumentOutOfRange, val) else (Okay, res))"

fun base10_loop :: "string \<Rightarrow> 'a::len word \<Rightarrow> 'a word \<Rightarrow> 'a word parsed" where
  "base10_loop [] res val = (Okay, res)"
| "base10_loop (c # str) res val =
     (let res1 = res * 10 in
      if res1 < val then (ArgumentOutOfRange, val)
      else if char_val c < 0x30 \<or> 0x3A \<le> char_val c then (ArgumentOutOfRange, res1)
      else base10_loop str (res1 + of_int (char_val c - 0x30)) res1)"

definition StrToUIntBase10 :: "string \<Rightarrow> 'a::len word \<Rightarrow> 'a word parsed" where
  "StrToUIntBase10 str val = base10_loop str 0 0"

fun base8_loop :: "nat \<Rightarrow> string \<Rightarrow> nat \<Rightarrow> 'a::len word \<Rightarrow> (nat \<times> 'a word) option" where
  "base8_loop limit [] i res = Some (i, res)"
| "base8_loop limit (c # str) i res =
     (if i < limit
      then if char_val c < 0x30 \<or> 0x38 \<le> char_val c then None
           else base8_loop limit str (i + 1) (push_bit 3 res OR of_int (char_val c - 0x30))
      else Some (i, res))"

definition StrToUIntBase8 :: "nat \<Rightarrow> string \<Rightarrow> 'a::len word \<Rightarrow> 'a word parsed" where
  "StrToUIntBase8 limit str val =
     (case base8_loop limit str 0 0 of
        None \<Rightarrow> (ArgumentOutOfRange, val)
      | Some (i, res) \<Rightarrow> if limit \<le> i then (ArgumentOutOfRange, val) else (Okay, res))"

fun base2_loop :: "string \<Rightarrow> nat \<Rightarrow> 'a::len word \<Rightarrow> (nat \<times> 'a word) option" where
  "base2_loop [] i res = Some (i, res)"
| "base2_loop (c # str) i res =
     (if i < LENGTH('a)
      then if c = CHR ''1'' then base2_loop str (i + 1) (push_bit 1 res OR 1)
           else if c = CHR ''0'' then base2_loop str (i + 1) (push_bit 1 res)
           else None
      else Some (i, res))"

definition StrToUIntBase2 :: "string \<Rightarrow> 'a::len word \<Rightarrow> 'a word parsed" where
  "StrToUIntBase2 str val =
     (case base2_loop str 0 (0 :: 'a word) of
        None \<Rightarrow> (ArgumentOutOfRange, val)
      | Some (i, res) \<Rightarrow> if LENGTH('a) \<le> i \<or> i = 0 then (ArgumentOutOfRange, val) else (Okay, res))"

section \<open>FromString on integers\<close>

definition is_x :: "char \<Rightarrow> bool" where
  "is_x c \<longleftrightarrow> c = CHR ''x'' \<or> c = CHR ''X''"

definition is_b :: "char \<Rightarrow> bool" where
  "is_b c \<longleftrightarrow> c = CHR ''b'' \<or> c = CHR ''B''"

definition FromString_u64 :: "string \<Rightarrow> u64 \<Rightarrow> u64 parsed" where
  "FromString_u64 str val =
     (if char_at str 0 = CHR ''0''
      then if is_x (char_at str 1) then StrToUIntBase16 16 (drop 2 str) val
           else if is_b (char_at str 1) then StrToUIntBase2 (drop 2 str) val
           else StrToUIntBase8 21 (drop 1 str) val
      else StrToUIntBase10 str val)"

text \<open>The signed versions parse the magnitude into \<open>temp\<close> and test its top bit.\<close>

definition skip_sign :: "string \<Rightarrow> bool \<times> string" where
  "skip_sign str = (if char_at str 0 = CHR ''-'' then (True, drop 1 str) else (False, str))"

definition signed_result :: "bool \<Rightarrow> 'a::len word parsed \<Rightarrow> 'a word \<Rightarrow> 'a word parsed" where
  "signed_result negative r val =
     (case r of (res, temp) \<Rightarrow>
        if res \<noteq> Okay then (res, val)
        else if drop_bit (LENGTH('a) - 1) temp \<noteq> 0 then (ArgumentOutOfRange, val)
        else (res, if negative then - temp else temp))"

definition FromString_i64 :: "u64 \<Rightarrow> string \<Rightarrow> u64 \<Rightarrow> u64 parsed" where
  "FromString_i64 junk str val =
     (let (negative, str') = skip_sign str in
      signed_result negative
        (if char_at str' 0 = CHR ''0''
         then if is_x (char_at str' 1) then StrToUIntBase16 16 (drop 2 str') junk
              else if is_b (char_at str' 1) then StrToUIntBase2 (drop 2 str') junk
              else StrToUIntBase8 21 (drop 1 str') junk
         else StrToUIntBase10 str' junk) val)"

text \<open>The 32-bit versions parse octal digits into 64 bits and truncate, unsigned ones after a test.\<close>

definition FromString_i32 :: "u32 \<Rightarrow> u64 \<Rightarrow> string \<Rightarrow> u32 \<Rightarrow> u32 parsed" where
  "FromString_i32 junk junk2 str val =
     (let (negative, str') = skip_sign str in
      signed_result negative
        (if char_at str' 0 = CHR ''0''
         then if is_x (char_at str' 1) then StrToUIntBase16 8 (drop 2 str') junk
              else if is_b (char_at str' 1) then StrToUIntBase2 (drop 2 str') junk
              else (case StrToUIntBase8 11 (drop 1 str') junk2 of (res, temp2) \<Rightarrow> (res, ucast temp2))
         else StrToUIntBase10 str' junk) val)"

definition FromString_u32 :: "u64 \<Rightarrow> string \<Rightarrow> u32 \<Rightarrow> u32 parsed" where
  "FromString_u32 junk str val =
     (if char_at str 0 = CHR ''0''
      then if is_x (char_at str 1) then StrToUIntBase16 8 (drop 2 str) val
           else if is_b (char_at str 1) then StrToUIntBase2 (drop 2 str) val
           else (case StrToUIntBase8 11 (drop 1 str) junk of (res, temp) \<Rightarrow>
                   if res = Okay \<and> drop_bit 32 temp \<noteq> 0 then (ArgumentOutOfRange, val)
                   else (res, ucast temp))
      else StrToUIntBase10 str val)"

definition FromString_i16 :: "u16 \<Rightarrow> u32 \<Rightarrow> string \<Rightarrow> u16 \<Rightarrow> u16 parsed" where
  "FromString_i16 junk junk2 str val =
     (let (negative, str') = skip_sign str in
      signed_result negative
        (if char_at str' 0 = CHR ''0''
         then if is_x (char_at str' 1) then StrToUIntBase16 4 (drop 2 str') junk
              else if is_b (char_at str' 1) then StrToUIntBase2 (drop 2 str') junk
              else (case StrToUIntBase8 6 (drop 1 str') junk2 of (res, temp2) \<Rightarrow> (res, ucast temp2))
         else StrToUIntBase10 str' junk) val)"

definition FromString_u16 :: "u32 \<Rightarrow> string \<Rightarrow> u16 \<Rightarrow> u16 parsed" where
  "FromString_u16 junk str val =
     (if char_at str 0 = CHR ''0''
      then if is_x (char_at str 1) then StrToUIntBase16 4 (drop 2 str) val
           else if is_b (char_at str 1) then StrToUIntBase2 (drop 2 str) val
           else (case StrToUIntBase8 6 (drop 1 str) junk of (res, temp) \<Rightarrow>
                   if res = Okay \<and> drop_bit 16 temp \<noteq> 0 then (ArgumentOutOfRange, val)
                   else (res, ucast temp))
      else StrToUIntBase10 str val)"

section \<open>FromString on booleans\<close>

definition to_lower :: "char \<Rightarrow> char" where
  "to_lower c =
     (if char_val CHR ''A'' \<le> char_val c \<and> char_val c \<le> char_val CHR ''Z''
      then char_of (of_char c + 32 :: nat) else c)"

text \<open>
  At most six characters are copied, in lower case. \<open>memeq(buf, strval, i)\<close> compares the first
  \<open>i\<close> bytes with the literal, whose terminating NUL differs from every copied character.
\<close>

definition FromString_bool :: "string \<Rightarrow> bool \<Rightarrow> bool parsed" where
  "FromString_bool str val =
     (let buf = map to_lower (take 6 str); i = length buf;
          check = (\<lambda>strval. buf = take i strval \<and> i = length strval)
      in if i = 6 then (ArgumentOutOfRange, val)
         else if check ''true'' then (Okay, True)
         else if check ''false'' then (Okay, False)
         else if check ''yes'' then (Okay, True)
         else if check ''no'' then (Okay, False)
         else if check ''on'' then (Okay, True)
         else if check ''off'' then (Okay, False)
         else (ArgumentOutOfRange, val))"

end
