(* ===== verification/Conversions_Props.thy ===== *)
theory Conversions_Props
  imports Conversions
begin

text \<open>
  What the parsers compute. A locale holds the scheme the three power-of-two bases share; decimal
  digits are read back from a printer of decimal numbers.
\<close>

section \<open>Parsing digits of a power-of-two base\<close>

definition digits_value :: "nat \<Rightarrow> (char \<Rightarrow> int option) \<Rightarrow> string \<Rightarrow> nat" where
  "digits_value base digit = foldl (\<lambda>n c. n * base + nat (the (digit c))) 0"

lemma push_bit_or_eq_plus:
  fixes res :: "'a::len word"
  assumes "0 \<le> d" "d < 2 ^ n"
  shows "push_bit n res OR of_int d = res * 2 ^ n + of_int d"
proof -
  have "push_bit n res AND of_int d = 0"
  proof (rule bit_word_eqI)
    fix k
    have "\<not> bit d k" if "n \<le> k"
    proof -
      have "d = take_bit n d" using assms by (simp add: take_bit_int_eq_self)
      then show ?thesis using that by (metis bit_take_bit_iff linorder_not_less)
    qed
    then show "bit (push_bit n res AND of_int d) k \<longleftrightarrow> bit (0 :: 'a word) k"
      by (auto simp: bit_simps)
  qed
  then have "push_bit n res OR of_int d = push_bit n res + of_int d"
    by (simp add: disjunctive_add_eq_or)
  then show ?thesis by (simp add: push_bit_eq_mult)
qed

locale digit_loop =
  fixes bits :: nat
    and digit :: "char \<Rightarrow> int option"
    and limit :: nat
    and loop :: "string \<Rightarrow> nat \<Rightarrow> 'a::len word \<Rightarrow> (nat \<times> 'a word) option"
  assumes digit_range: "digit c = Some d \<Longrightarrow> 0 \<le> d \<and> d < 2 ^ bits"
    and loop_Nil: "loop [] i res = Some (i, res)"
    and loop_Cons: "loop (c # str) i res =
      (if i < limit
       then case digit c of None \<Rightarrow> None
            | Some d \<Rightarrow> loop str (i + 1) (push_bit bits res OR of_int d)
       else Some (i, res))"
begin

lemma loop_spec:
  "loop str i (of_nat n) =
     (let s = take (limit - i) str
      in if \<forall>c \<in> set s. digit c \<noteq> None
         then Some (i + length s, of_nat (foldl (\<lambda>n c. n * 2 ^ bits + nat (the (digit c))) n s))
         else None)"
proof (induction str arbitrary: i n)
  case Nil
  then show ?case by (simp add: loop_Nil)
next
  case (Cons c str)
  show ?case
  proof (cases "i < limit")
    case True
    then have tk: "take (limit - i) (c # str) = c # take (limit - (i + 1)) str"
      by (metis Suc_diff_Suc Suc_eq_plus1 take_Suc_Cons)
    show ?thesis
    proof (cases "digit c")
      case None
      then show ?thesis using True tk by (simp add: loop_Cons Let_def)
    next
      case (Some d)
      have range: "0 \<le> d" "d < 2 ^ bits" using digit_range [OF Some] by simp_all
      have "push_bit bits (of_nat n :: 'a word) OR of_int d = of_nat (n * 2 ^ bits + nat d)"
        using push_bit_or_eq_plus [OF range, of "of_nat n :: 'a word"] range(1) by simp
      then show ?thesis
        using True tk Some Cons.IH [of "i + 1" "n * 2 ^ bits + nat d"] by (simp add: loop_Cons Let_def)
    qed
  next
    case False
    then show ?thesis by (simp add: loop_Cons)
  qed
qed

lemma loop_0:
  "loop str 0 0 =
     (let s = take limit str
      in if \<forall>c \<in> set s. digit c \<noteq> None then Some (length s, of_nat (digits_value (2 ^ bits) digit s)) else None)"
  using loop_spec [of str 0 0] by (simp add: digits_value_def Let_def)

lemma value_bound:
  assumes "\<forall>c \<in> set s. digit c \<noteq> None"
  shows "digits_value (2 ^ bits) digit s < 2 ^ (bits * length s)"
  using assms
proof (induction s rule: rev_induct)
  case Nil
  then show ?case by (simp add: digits_value_def)
next
  case (snoc c s)
  then obtain d where "digit c = Some d" by auto
  then have d: "nat d < 2 ^ bits" using digit_range by (simp add: nat_less_iff)
  have "digits_value (2 ^ bits) digit (s @ [c]) = digits_value (2 ^ bits) digit s * 2 ^ bits + nat d"
    using \<open>digit c = Some d\<close> by (simp add: digits_value_def)
  also have "\<dots> < (digits_value (2 ^ bits) digit s + 1) * 2 ^ bits" using d by simp
  also have "\<dots> \<le> 2 ^ (bits * length s) * 2 ^ bits" using snoc by (intro mult_le_mono1) simp
  finally show ?case by (simp add: power_add mult.commute)
qed

end

definition oct_digit :: "char \<Rightarrow> int option" where
  "oct_digit c = (if char_val c < 0x30 \<or> 0x38 \<le> char_val c then None else Some (char_val c - 0x30))"

definition bin_digit :: "char \<Rightarrow> int option" where
  "bin_digit c = (if c = CHR ''1'' then Some 1 else if c = CHR ''0'' then Some 0 else None)"

interpretation hex: digit_loop 4 "\<lambda>c. hex_digit (char_val c)" limit "base16_loop limit" for limit
  by unfold_locales (auto simp: hex_digit_def split: if_splits)

interpretation oct: digit_loop 3 oct_digit limit "base8_loop limit" for limit
  by unfold_locales (auto simp: oct_digit_def split: if_splits)

interpretation bin: digit_loop 1 bin_digit "LENGTH('a::len)" "base2_loop :: _ \<Rightarrow> _ \<Rightarrow> 'a word \<Rightarrow> _"
  by unfold_locales (auto simp: bin_digit_def split: if_splits)

lemma take_length_limit: "take limit str = str \<and> length str < limit \<or> length (take limit str) = limit"
  by (cases "length str < limit") auto

lemma StrToUIntBase2_eq:
  "StrToUIntBase2 str (val :: 'a::len word) =
     (if str \<noteq> [] \<and> length str < LENGTH('a) \<and> (\<forall>c \<in> set str. bin_digit c \<noteq> None)
      then (Okay, of_nat (digits_value 2 bin_digit str)) else (ArgumentOutOfRange, val))"
  using take_length_limit [of "LENGTH('a)" str]
  by (auto simp: StrToUIntBase2_def bin.loop_0 Let_def)

lemma StrToUIntBase8_eq:
  "StrToUIntBase8 limit str (val :: 'a::len word) =
     (if length str < limit \<and> (\<forall>c \<in> set str. oct_digit c \<noteq> None)
      then (Okay, of_nat (digits_value 8 oct_digit str)) else (ArgumentOutOfRange, val))"
  using take_length_limit [of limit str]
  by (auto simp: StrToUIntBase8_def oct.loop_0 Let_def)

lemma StrToUIntBase16_eq:
  "StrToUIntBase16 limit str (val :: 'a::len word) =
     (if str \<noteq> [] \<and> length str < limit \<and> (\<forall>c \<in> set str. hex_digit (char_val c) \<noteq> None)
      then (Okay, of_nat (digits_value 16 (\<lambda>c. hex_digit (char_val c)) str)) else (ArgumentOutOfRange, val))"
  using take_length_limit [of limit str]
  by (auto simp: StrToUIntBase16_def hex.loop_0 Let_def)

section \<open>Decimal numbers\<close>

definition digit_char :: "nat \<Rightarrow> char" where
  "digit_char n = char_of (n + 48)"

fun decimal :: "nat \<Rightarrow> string" where
  "decimal n = (if n < 10 then [digit_char n] else decimal (n div 10) @ [digit_char (n mod 10)])"

declare decimal.simps [simp del]

definition decimal_int :: "int \<Rightarrow> string" where
  "decimal_int i = (if i < 0 then CHR ''-'' # decimal (nat (- i)) else decimal (nat i))"

lemma char_val_digit: "n < 10 \<Longrightarrow> char_val (digit_char n) = int n + 48"
proof -
  assume n: "n < 10"
  have "(of_char (char_of (n + 48) :: char) :: int) = int (of_char (char_of (n + 48) :: char))"
    by (rule of_nat_of_char [symmetric])
  also have "\<dots> = int n + 48" using n by (simp only: of_char_of) simp
  finally show ?thesis using n by (simp add: char_val_def digit_char_def)
qed

definition decimal_value :: "string \<Rightarrow> nat \<Rightarrow> nat" where
  "decimal_value str n = foldl (\<lambda>n c. n * 10 + nat (char_val c - 0x30)) n str"

lemma decimal_value_simps [simp]:
  "decimal_value [] n = n"
  "decimal_value (c # str) n = decimal_value str (n * 10 + nat (char_val c - 0x30))"
  "decimal_value (xs @ ys) n = decimal_value ys (decimal_value xs n)"
  by (simp_all add: decimal_value_def)

lemma decimal_value_mono: "n \<le> decimal_value str n"
proof (induction str arbitrary: n)
  case (Cons c str)
  have "n \<le> n * 10 + nat (char_val c - 0x30)" by simp
  also have "\<dots> \<le> decimal_value str (n * 10 + nat (char_val c - 0x30))" by (rule Cons.IH)
  finally show ?case by simp
qed simp

text \<open>As long as the number fits its type the overflow test stays silent and the value is right.\<close>

lemma base10_loop_spec:
  fixes res val :: "'a::len word"
  assumes "\<forall>c \<in> set str. 0x30 \<le> char_val c \<and> char_val c < 0x3A"
    "decimal_value str (unat res) < 2 ^ LENGTH('a)" "unat val \<le> unat res" "3 < LENGTH('a)"
  shows "base10_loop str res val = (Okay, of_nat (decimal_value str (unat res)))"
  using assms
proof (induction str arbitrary: res val)
  case Nil
  then show ?case by simp
next
  case (Cons c str)
  define d where "d = nat (char_val c - 0x30)"
  have c: "0x30 \<le> char_val c" "char_val c < 0x3A" using Cons.prems(1) by simp_all
  have d: "d < 10" "(of_int (char_val c - 0x30) :: 'a word) = of_nat d"
    using c by (simp_all add: d_def)
  have small: "unat res * 10 + d < 2 ^ LENGTH('a)"
    using Cons.prems(2) decimal_value_mono [of "unat res * 10 + d" str] by (simp add: d_def)
  have "(2::nat) ^ 4 \<le> 2 ^ LENGTH('a)" using Cons.prems(4) by (intro power_increasing) simp_all
  then have "unat (of_nat m :: 'a word) = m" if "m \<le> 10" for m
    using that by (simp add: unat_of_nat take_bit_eq_mod)
  from this [of 10] this [of d] have ten: "unat (10 :: 'a word) = 10" "unat (of_nat d :: 'a word) = d"
    using d(1) by simp_all
  have r1: "unat (res * 10) = unat res * 10"
    using small ten(1) by (subst unat_mult_small) simp_all
  have r2: "unat (res * 10 + of_nat d) = unat res * 10 + d"
    using small r1 ten(2) by (subst unat_plus_small) simp_all
  have "\<not> res * 10 < val" using Cons.prems(3) r1 by (simp add: word_less_nat_alt)
  then have "base10_loop (c # str) res val = base10_loop str (res * 10 + of_nat d) (res * 10)"
    using c d(2) by (simp add: Let_def)
  also have "\<dots> = (Okay, of_nat (decimal_value str (unat (res * 10 + of_nat d))))"
    by (rule Cons.IH) (use Cons.prems r1 r2 in \<open>simp_all add: d_def\<close>)
  finally show ?case by (simp only: r2) (simp add: d_def)
qed

lemma decimal_digits: "\<forall>c \<in> set (decimal n). 0x30 \<le> char_val c \<and> char_val c < 0x3A"
proof (induction n rule: decimal.induct)
  case (1 n)
  then show ?case
    by (subst decimal.simps) (auto simp: char_val_digit)
qed

lemma decimal_value_decimal: "decimal_value (decimal n) 0 = n"
proof (induction n rule: decimal.induct)
  case (1 n)
  then show ?case
    by (subst decimal.simps) (auto simp: char_val_digit)
qed

lemma decimal_first: "0 < n \<Longrightarrow> \<exists>d ds. decimal n = digit_char d # ds \<and> 0 < d \<and> d < 10"
proof (induction n rule: decimal.induct)
  case (1 n)
  then show ?case
    by (subst decimal.simps) (force simp: div_greater_zero_iff)
qed

lemma digit_char_neq: "0 < d \<Longrightarrow> d < 10 \<Longrightarrow> digit_char d \<noteq> CHR ''0'' \<and> digit_char d \<noteq> CHR ''-''"
proof -
  assume "0 < d" "d < 10"
  then have "char_val (digit_char d) = int d + 48" using char_val_digit by simp
  moreover have "char_val CHR ''0'' = 48" "char_val CHR ''-'' = 45" by (simp_all add: char_val_def)
  ultimately show ?thesis using \<open>0 < d\<close> by auto
qed

lemma StrToUIntBase10_decimal:
  assumes "n < 2 ^ LENGTH('a::len)" "3 < LENGTH('a)"
  shows "StrToUIntBase10 (decimal n) (val :: 'a word) = (Okay, of_nat n)"
  unfolding StrToUIntBase10_def
  using base10_loop_spec [OF decimal_digits, of n "0 :: 'a word" 0] assms by (simp add: decimal_value_decimal)

lemma decimal_0: "decimal 0 = ''0''"
  by code_simp

text \<open>The magnitude every \<open>FromString\<close> parses when its argument is a decimal number.\<close>

lemma decimal_dispatch:
  assumes "0 < n"
  shows "char_at (decimal n) 0 \<noteq> CHR ''0''" "char_at (decimal n) 0 \<noteq> CHR ''-''"
  using decimal_first [OF assms] digit_char_neq by (auto simp: char_at_def)

lemma StrToUIntBase8_empty: "0 < limit \<Longrightarrow> StrToUIntBase8 limit [] val = (Okay, 0)"
  by (simp add: StrToUIntBase8_def)

section \<open>Theorems\<close>

text \<open>
  Numbers written with a prefix: binary and octal digits after \<open>0b\<close> and \<open>0\<close> are read as the
  positional value they denote, for up to one digit less than the limit of the type, and anything
  else is refused with the output unchanged; digits after \<open>0x\<close> are read positionally as well, by
  the digit values of \<open>hex_digit\<close>.
\<close>

theorem FromString_u64_prefixed:
  "FromString_u64 (''0b'' @ str) val =
     (if str \<noteq> [] \<and> length str < 64 \<and> (\<forall>c \<in> set str. bin_digit c \<noteq> None)
      then (Okay, of_nat (digits_value 2 bin_digit str)) else (ArgumentOutOfRange, val))
   \<and> FromString_u64 (''0x'' @ str) val =
     (if str \<noteq> [] \<and> length str < 16 \<and> (\<forall>c \<in> set str. hex_digit (char_val c) \<noteq> None)
      then (Okay, of_nat (digits_value 16 (\<lambda>c. hex_digit (char_val c)) str)) else (ArgumentOutOfRange, val))
   \<and> (\<not> is_x (char_at str 0) \<and> \<not> is_b (char_at str 0) \<longrightarrow> FromString_u64 (''0'' @ str) val =
     (if length str < 21 \<and> (\<forall>c \<in> set str. oct_digit c \<noteq> None)
      then (Okay, of_nat (digits_value 8 oct_digit str)) else (ArgumentOutOfRange, val)))"
proof (intro conjI impI)
  show "FromString_u64 (''0b'' @ str) val =
     (if str \<noteq> [] \<and> length str < 64 \<and> (\<forall>c \<in> set str. bin_digit c \<noteq> None)
      then (Okay, of_nat (digits_value 2 bin_digit str)) else (ArgumentOutOfRange, val))"
    unfolding FromString_u64_def by (simp add: char_at_def is_x_def is_b_def StrToUIntBase2_eq del: not_None_eq)
  show "FromString_u64 (''0x'' @ str) val =
     (if str \<noteq> [] \<and> length str < 16 \<and> (\<forall>c \<in> set str. hex_digit (char_val c) \<noteq> None)
      then (Okay, of_nat (digits_value 16 (\<lambda>c. hex_digit (char_val c)) str)) else (ArgumentOutOfRange, val))"
    unfolding FromString_u64_def by (simp add: char_at_def is_x_def StrToUIntBase16_eq del: not_None_eq)
  have at_1: "char_at (CHR ''0'' # str) (Suc 0) = char_at str 0" by (simp add: char_at_def)
  have at_0: "char_at (CHR ''0'' # str) 0 = CHR ''0''" by (simp add: char_at_def)
  assume "\<not> is_x (char_at str 0) \<and> \<not> is_b (char_at str 0)"
  then show "FromString_u64 (''0'' @ str) val =
     (if length str < 21 \<and> (\<forall>c \<in> set str. oct_digit c \<noteq> None)
      then (Okay, of_nat (digits_value 8 oct_digit str)) else (ArgumentOutOfRange, val))"
    unfolding FromString_u64_def by (simp add: at_0 at_1 StrToUIntBase8_eq del: not_None_eq)
qed

theorem FromString_u64_prefixed_witness:
  "FromString_u64 ''0b101'' 7 = (Okay, 5) \<and> FromString_u64 ''0x19'' 7 = (Okay, 0x19)"
proof -
  have "FromString_u64 (''0b'' @ ''101'') 7 = (Okay, 5)" "FromString_u64 (''0x'' @ ''19'') 7 = (Okay, 0x19)"
    using FromString_u64_prefixed [of "''101''" 7] FromString_u64_prefixed [of "''19''" 7]
    by (simp_all add: bin_digit_def digits_value_def hex_digit_def char_val_def)
  then show ?thesis by simp
qed

text \<open>
  C26. Decimal round trip: the decimal notation of every number that fits, with a minus sign for a
  negative one, is read back as that number, by the unsigned and the signed 64-bit parser; the
  most negative 64-bit number alone is refused.
\<close>

theorem FromString_decimal_roundtrip:
  "(n < 2 ^ 64 \<longrightarrow> FromString_u64 (decimal n) v = (Okay, of_nat n))
   \<and> (- (2 ^ 63) < i \<and> i < 2 ^ 63 \<longrightarrow> FromString_i64 junk (decimal_int i) v = (Okay, of_int i))
   \<and> FromString_i64 junk (decimal_int (- (2 ^ 63))) v = (ArgumentOutOfRange, v)"
proof -
  have u64: "FromString_u64 (decimal n) v = (Okay, of_nat n)" if "n < 2 ^ 64"
  proof (cases "n = 0")
    case True
    then show ?thesis by (simp add: decimal_0 FromString_u64_def char_at_def is_x_def is_b_def StrToUIntBase8_empty)
  next
    case False
    then show ?thesis
      using that StrToUIntBase10_decimal [of n v] decimal_dispatch [of n] by (simp add: FromString_u64_def)
  qed
  have magnitude: "FromString_i64 junk (decimal_int j) v =
      signed_result (j < 0) (Okay, of_nat (nat \<bar>j\<bar>)) v" if "\<bar>j\<bar> < 2 ^ 64" for j
  proof (cases "j = 0")
    case True
    then show ?thesis
      by (simp add: decimal_int_def decimal_0 FromString_i64_def skip_sign_def char_at_def is_x_def is_b_def
          StrToUIntBase8_empty)
  next
    case False
    then have pos: "0 < nat \<bar>j\<bar>" "nat \<bar>j\<bar> < 2 ^ LENGTH(64)" using that by simp_all
    have skip: "skip_sign (decimal_int j) = (j < 0, decimal (nat \<bar>j\<bar>))"
      using decimal_dispatch(2) [OF pos(1)] by (auto simp: decimal_int_def skip_sign_def char_at_def)
    show ?thesis
      using decimal_dispatch(1) [OF pos(1)] StrToUIntBase10_decimal [OF pos(2), of junk]
      by (simp add: FromString_i64_def skip)
  qed
  have top: "drop_bit 63 (of_nat m :: u64) = 0 \<longleftrightarrow> m < 2 ^ 63" if "m < 2 ^ 64" for m
  proof -
    have "unat (drop_bit 63 (of_nat m :: u64)) = m div 2 ^ 63"
      using that by (simp add: unat_drop_bit unat_of_nat take_bit_eq_mod)
    then show ?thesis by (metis div_eq_0_iff power_not_zero unat_eq_0 zero_neq_numeral)
  qed
  have i64: "FromString_i64 junk (decimal_int i) v = (Okay, of_int i)" if "- (2 ^ 63) < i" "i < 2 ^ 63"
    using that magnitude [of i] top [of "nat \<bar>i\<bar>"] by (simp add: signed_result_def nat_less_iff)
  have "FromString_i64 junk (decimal_int (- (2 ^ 63))) v = (ArgumentOutOfRange, v)"
    using magnitude [of "- (2 ^ 63)"] top [of "2 ^ 63"] by (simp add: signed_result_def)
  with u64 i64 show ?thesis by blast
qed

theorem FromString_decimal_roundtrip_witness:
  "FromString_u64 (decimal 2026) 0 = (Okay, 2026) \<and> FromString_i64 0 (decimal_int (- 42)) 0 = (Okay, - 42)"
  using FromString_decimal_roundtrip [of 2026 0 "- 42" 0] by simp

text \<open>
  Letters after \<open>0x\<close> are misread: a hexadecimal number of one letter \<open>a\<close> to \<open>f\<close>, in either case,
  is parsed as 1 to 6 and not as 10 to 15.
\<close>

theorem FromString_hex_letters_misread:
  "map (\<lambda>c. FromString_u64 [CHR ''0'', CHR ''x'', c] val) ''abcdefABCDEF''
     = map (Pair Okay) ([1, 2, 3, 4, 5, 6] @ [1, 2, 3, 4, 5, 6])"
  by (simp add: FromString_u64_def char_at_def is_x_def StrToUIntBase16_def hex_digit_def char_val_def)

text \<open>
  The overflow test of the decimal parser compares the accumulator times ten with the last such
  product, so an overflow that leaves a larger remainder is accepted: 300000 is parsed without an
  error as the 16-bit number 37856.
\<close>

theorem FromString_u16_overflow_accepted:
  "FromString_u16 junk ''300000'' val = (Okay, 37856)"
  by (simp add: FromString_u16_def char_at_def StrToUIntBase10_def char_val_def Let_def)

text \<open>
  Booleans: exactly the six words true, yes, on, false, no and off are accepted, in any mixture
  of cases, and they set the output to their meaning; every other string is refused and leaves the
  output as it was.
\<close>

theorem FromString_bool_correct:
  "FromString_bool str val =
     (if map to_lower str \<in> {''true'', ''yes'', ''on''} then (Okay, True)
      else if map to_lower str \<in> {''false'', ''no'', ''off''} then (Okay, False)
      else (ArgumentOutOfRange, val))"
proof (cases "length str < 6")
  case True
  define low where "low = map to_lower str"
  have low: "map to_lower (take 6 str) = low" and len: "length low \<noteq> 6" using True by (simp_all add: low_def)
  have eq: "low = take (length low) w \<and> length low = length w \<longleftrightarrow> low = w" for w by auto
  have "FromString_bool str val =
     (if low = ''true'' then (Okay, True) else if low = ''false'' then (Okay, False)
      else if low = ''yes'' then (Okay, True) else if low = ''no'' then (Okay, False)
      else if low = ''on'' then (Okay, True) else if low = ''off'' then (Okay, False)
      else (ArgumentOutOfRange, val))"
    unfolding FromString_bool_def Let_def low eq using len by (simp only: if_False)
  then show ?thesis unfolding low_def [symmetric] by (simp split: if_split)
next
  case False
  then have "length (map to_lower str) \<ge> 6" by simp
  then have "map to_lower str \<noteq> w" if "length w < 6" for w using that by auto
  then show ?thesis using False by (simp add: FromString_bool_def Let_def)
qed

end
