(* ===== verification/Id_Pool.thy ===== *)
theory Id_Pool
  imports Beel_Prelude "HOL-Library.Monad_Syntax"
begin

text \<open>
  \<^verbatim>\<open>sysheaders/common/beel/utils/id.pool.hpp\<close>: a pool of identifiers whose free ones form a queue
  threaded through the array of entries. Every operation is in \<open>option\<close>: \<open>None\<close> stands for an
  access outside of the storage. An operation that consists of several atomic accesses is split
  at them, so that the accesses of several threads can be interleaved.
\<close>

section \<open>The pool\<close>

definition ValueMask :: u64 where "ValueMask = 0xFFFFFFFFFFFFFFFE"
definition BusyMask :: u64 where "BusyMask = 1"
definition NoNext :: u64 where "NoNext = 0xFFFFFFFFFFFFFFFE"
definition Unallocated :: u64 where "Unallocated = 0xFFFFFFFFFFFFFFFF"
definition Deallocated :: u64 where "Deallocated = 0xFFFFFFFFFFFFFFFD"

record IdPool =
  pool_Head :: u64
  pool_Tail :: u64
  pool_Entries :: "u64 list"
  pool_Capacity :: u64

definition load :: "u64 list \<Rightarrow> u64 \<Rightarrow> u64 option" where
  "load es i = (if unat i < length es then Some (es ! unat i) else None)"

definition store :: "u64 list \<Rightarrow> u64 \<Rightarrow> u64 \<Rightarrow> u64 list option" where
  "store es i v = (if unat i < length es then Some (es[unat i := v]) else None)"

text \<open>\<^verbatim>\<open>__atomic_compare_exchange_n\<close> on an entry.\<close>

definition cas_entry :: "u64 \<Rightarrow> u64 \<Rightarrow> u64 \<Rightarrow> IdPool \<Rightarrow> (bool \<times> IdPool) option" where
  "cas_entry i old new p = do {
     e \<leftarrow> load (pool_Entries p) i;
     if e = old then do {
       es \<leftarrow> store (pool_Entries p) i new;
       Some (True, p\<lparr>pool_Entries := es\<rparr>)
     } else Some (False, p)
   }"

definition IdPool_empty :: IdPool where
  "IdPool_empty = \<lparr>pool_Head = NoNext, pool_Tail = NoNext, pool_Entries = [], pool_Capacity = 0\<rparr>"

function init_loop :: "u64 \<Rightarrow> u64 \<Rightarrow> u64 list \<Rightarrow> u64 list option" where
  "init_loop i lst es =
     (if i < lst
      then case store es i (push_bit 1 (i + 1)) of
             None \<Rightarrow> None
           | Some es' \<Rightarrow> init_loop (i + 1) lst es'
      else Some es)"
  by pat_completeness auto
termination
proof (relation "measure (\<lambda>(i, lst, es). unat lst - unat i)")
  fix i lst :: u64 and es es' :: "u64 list"
  assume "i < lst"
  then have "unat i < unat lst" by (simp add: word_less_nat_alt)
  moreover from this have "unat (i + 1) = unat i + 1"
    using unat_lt_exp [of lst] by (intro plus_one_small) linarith
  ultimately show "((i + 1, lst, es'), (i, lst, es)) \<in> measure (\<lambda>(i, lst, es). unat lst - unat i)"
    by simp
qed simp

declare init_loop.simps [simp del]

definition IdPool_new :: "u64 list \<Rightarrow> u64 \<Rightarrow> IdPool option" where
  "IdPool_new storage cap = do {
     es \<leftarrow> init_loop 0 (cap - 1) storage;
     es' \<leftarrow> store es (cap - 1) NoNext;
     Some \<lparr>pool_Head = 0, pool_Tail = cap - 1, pool_Entries = es', pool_Capacity = cap\<rparr>
   }"

section \<open>Acquiring\<close>

text \<open>The two \<open>Acquire\<close>s differ in what they leave in the entry.\<close>

definition acquire_entry :: "u64 \<Rightarrow> IdPool \<Rightarrow> (u64 \<times> IdPool) option" where
  "acquire_entry w p =
     (let head = pool_Head p in
      if head \<noteq> NoNext
      then do {
        e \<leftarrow> load (pool_Entries p) head;
        let p1 = (if e = NoNext then p\<lparr>pool_Head := NoNext, pool_Tail := NoNext\<rparr>
                  else p\<lparr>pool_Head := drop_bit 1 e\<rparr>);
        es \<leftarrow> store (pool_Entries p1) head w;
        Some (head, p1\<lparr>pool_Entries := es\<rparr>)
      }
      else Some (head, p))"

definition Acquire :: "IdPool \<Rightarrow> (u64 \<times> IdPool) option" where
  "Acquire p = acquire_entry Unallocated p"

definition Acquire_val :: "u64 \<Rightarrow> IdPool \<Rightarrow> (u64 \<times> IdPool) option" where
  "Acquire_val val p = acquire_entry (val OR BusyMask) p"

section \<open>Pointers\<close>

definition SetPointer :: "u64 \<Rightarrow> u64 \<Rightarrow> IdPool \<Rightarrow> (bool \<times> IdPool) option" where
  "SetPointer i val p =
     (if pool_Capacity p \<le> i \<or> val AND NOT ValueMask \<noteq> 0 then Some (False, p)
      else cas_entry i Unallocated (val OR BusyMask) p)"

text \<open>The load of \<open>UnsetPointer\<close>, which may end it, and its exchange; its argument \<open>val\<close> is not written.\<close>

definition UnsetPointer_load :: "u64 \<Rightarrow> IdPool \<Rightarrow> u64 option option" where
  "UnsetPointer_load i p =
     (if pool_Capacity p \<le> i then Some None
      else do {
        old \<leftarrow> load (pool_Entries p) i;
        Some (if old = Unallocated \<or> old AND BusyMask = 0 then None else Some old)
      })"

definition UnsetPointer_cas :: "u64 \<Rightarrow> u64 \<Rightarrow> IdPool \<Rightarrow> (bool \<times> IdPool) option" where
  "UnsetPointer_cas i old p = cas_entry i old Deallocated p"

definition UnsetPointer :: "u64 \<Rightarrow> u64 \<Rightarrow> IdPool \<Rightarrow> (bool \<times> u64 \<times> IdPool) option" where
  "UnsetPointer i val p = do {
     loaded \<leftarrow> UnsetPointer_load i p;
     case loaded of
       None \<Rightarrow> Some (False, val, p)
     | Some old \<Rightarrow> do { (ok, p1) \<leftarrow> UnsetPointer_cas i old p; Some (ok, val, p1) }
   }"

definition Resolve :: "u64 \<Rightarrow> IdPool \<Rightarrow> u64 option" where
  "Resolve i p =
     (if pool_Capacity p \<le> i then Some 0
      else do {
        val \<leftarrow> load (pool_Entries p) i;
        Some (if val = Unallocated \<or> val AND BusyMask = 0 then 0 else val AND ValueMask)
      })"

section \<open>Releasing\<close>

definition Release_load :: "u64 \<Rightarrow> IdPool \<Rightarrow> u64 option option" where
  "Release_load i p =
     (if pool_Capacity p \<le> i then Some None
      else do {
        old \<leftarrow> load (pool_Entries p) i;
        Some (if old AND BusyMask = 0 then None else Some old)
      })"

definition Release_cas :: "u64 \<Rightarrow> u64 \<Rightarrow> IdPool \<Rightarrow> (bool \<times> IdPool) option" where
  "Release_cas i old p = cas_entry i old NoNext p"

definition Release_link :: "u64 \<Rightarrow> IdPool \<Rightarrow> IdPool option" where
  "Release_link i p =
     (if pool_Tail p = NoNext then Some (p\<lparr>pool_Head := i, pool_Tail := i\<rparr>)
      else do {
        es \<leftarrow> store (pool_Entries p) (pool_Tail p) (push_bit 1 i);
        Some (p\<lparr>pool_Entries := es, pool_Tail := i\<rparr>)
      })"

definition Release :: "u64 \<Rightarrow> IdPool \<Rightarrow> (bool \<times> IdPool) option" where
  "Release i p = do {
     loaded \<leftarrow> Release_load i p;
     case loaded of
       None \<Rightarrow> Some (False, p)
     | Some old \<Rightarrow> do {
         (ok, p1) \<leftarrow> Release_cas i old p;
         if ok then do { p2 \<leftarrow> Release_link i p1; Some (True, p2) } else Some (False, p1)
       }
   }"

section \<open>The queue of free identifiers\<close>

definition busy :: "u64 \<Rightarrow> bool" where
  "busy e \<longleftrightarrow> e AND BusyMask \<noteq> 0"

definition next_of :: "u64 \<Rightarrow> u64" where
  "next_of e = (if e = NoNext then NoNext else drop_bit 1 e)"

definition entry :: "IdPool \<Rightarrow> u64 \<Rightarrow> u64" where
  "entry p i = pool_Entries p ! unat i"

text \<open>
  \<open>free\<close> is the queue of free identifiers; \<open>linking\<close> are the identifiers whose release has
  marked the entry but has not linked it yet. Every other identifier is busy.
\<close>

definition pool_sized :: "IdPool \<Rightarrow> bool" where
  "pool_sized p \<longleftrightarrow> unat (pool_Capacity p) < 2 ^ 63 \<and> unat (pool_Capacity p) \<le> length (pool_Entries p)"

definition pool_inv :: "IdPool \<Rightarrow> u64 list \<Rightarrow> u64 set \<Rightarrow> bool" where
  "pool_inv p free linking \<longleftrightarrow>
     pool_sized p
     \<and> seg (\<lambda>i. next_of (entry p i)) NoNext (pool_Head p) free NoNext
     \<and> pool_Tail p = (if free = [] then NoNext else last free)
     \<and> (\<forall>i \<in> set free \<union> linking. i < pool_Capacity p \<and> \<not> busy (entry p i))
     \<and> (\<forall>i \<in> linking. entry p i = NoNext) \<and> set free \<inter> linking = {}
     \<and> (\<forall>i < pool_Capacity p. i \<notin> set free \<longrightarrow> i \<notin> linking \<longrightarrow> busy (entry p i))"

declare push_bit_Suc [simp del] drop_bit_Suc [simp del]

lemma busy_simps [simp]:
  "busy Unallocated" "busy Deallocated" "\<not> busy NoNext" "busy (v OR BusyMask)" "\<not> busy (push_bit 1 i)"
  "\<not> busy (push_bit (Suc 0) i)"
proof -
  show "busy Unallocated" "busy Deallocated" "\<not> busy NoNext"
    by (simp_all add: busy_def Unallocated_def Deallocated_def NoNext_def BusyMask_def)
  have "bit ((v OR BusyMask) AND BusyMask) 0" by (simp add: BusyMask_def bit_simps)
  then show "busy (v OR BusyMask)" by (auto simp: busy_def)
  have "push_bit 1 i AND BusyMask = 0" by (rule bit_word_eqI) (auto simp: BusyMask_def bit_simps)
  then show "\<not> busy (push_bit 1 i)" "\<not> busy (push_bit (Suc 0) i)" by (simp_all add: busy_def)
qed

lemma busyE: "busy e \<Longrightarrow> e \<noteq> NoNext \<and> e AND BusyMask \<noteq> 0"
  by (auto simp: busy_def NoNext_def BusyMask_def)

lemma small_id:
  assumes "unat i < 2 ^ 63 - 1"
  shows "i \<noteq> NoNext" "next_of (push_bit 1 i) = i"
proof -
  show "i \<noteq> NoNext" using assms by (auto simp: NoNext_def)
  have "unat (push_bit 1 i) = 2 * unat i" using assms by (subst unat_push_bit_small) simp_all
  moreover have "unat NoNext = 2 ^ 64 - 2" by (simp add: NoNext_def)
  ultimately have "push_bit 1 i \<noteq> NoNext" using assms by auto
  moreover have "unat (drop_bit 1 (push_bit 1 i)) = unat i"
    using \<open>unat (push_bit 1 i) = 2 * unat i\<close> by (simp add: unat_drop_bit)
  ultimately show "next_of (push_bit 1 i) = i"
    by (simp add: next_of_def unat_inject)
qed

lemma next_of_NoNext: "next_of e = NoNext \<longleftrightarrow> e = NoNext"
proof -
  have "unat (drop_bit 1 e) < 2 ^ 63" using unat_lt_exp [of e] by (simp add: unat_drop_bit)
  then have "drop_bit 1 e \<noteq> NoNext" by (auto simp: NoNext_def)
  then show ?thesis by (simp add: next_of_def)
qed

lemma pool_sized_id: "pool_sized p \<Longrightarrow> i < pool_Capacity p \<Longrightarrow> unat i < 2 ^ 63 - 1 \<and> unat i < length (pool_Entries p)"
  by (auto simp: pool_sized_def word_less_nat_alt)

lemma load_entry: "pool_sized p \<Longrightarrow> i < pool_Capacity p \<Longrightarrow> load (pool_Entries p) i = Some (entry p i)"
  using pool_sized_id by (simp add: load_def entry_def)

definition with_entry :: "u64 \<Rightarrow> u64 \<Rightarrow> IdPool \<Rightarrow> IdPool" where
  "with_entry i v p = p\<lparr>pool_Entries := (pool_Entries p)[unat i := v]\<rparr>"

lemma store_entry:
  "pool_sized p \<Longrightarrow> i < pool_Capacity p \<Longrightarrow> store (pool_Entries p) i v = Some ((pool_Entries p)[unat i := v])"
  using pool_sized_id by (simp add: store_def)

lemma entry_with_entry [simp]:
  "pool_sized p \<Longrightarrow> i < pool_Capacity p \<Longrightarrow> entry (with_entry i v p) j = (if j = i then v else entry p j)"
  using pool_sized_id [of p i] by (auto simp: entry_def with_entry_def unat_inject)

lemma with_entry_simps [simp]:
  "pool_sized (with_entry i v p) = pool_sized p" "pool_Capacity (with_entry i v p) = pool_Capacity p"
  "pool_Head (with_entry i v p) = pool_Head p" "pool_Tail (with_entry i v p) = pool_Tail p"
  by (simp_all add: with_entry_def pool_sized_def)

lemma cas_entry_eq:
  "pool_sized p \<Longrightarrow> i < pool_Capacity p \<Longrightarrow>
   cas_entry i old new p = Some (if entry p i = old then (True, with_entry i new p) else (False, p))"
  by (simp add: cas_entry_def load_entry store_entry with_entry_def)

end
