(* ===== verification/Id_Pool_Props.thy ===== *)
theory Id_Pool_Props
  imports Id_Pool
begin

text \<open>
  The free identifiers of a pool as a queue, operation by operation, and the interleavings of the
  atomic accesses of several threads.
\<close>

section \<open>Operations on the queue\<close>

lemma seg_with_entry:
  assumes "pool_sized p" "i < pool_Capacity p" "i \<notin> set xs"
  shows "seg (\<lambda>j. next_of (entry (with_entry i v p) j)) null x xs z = seg (\<lambda>j. next_of (entry p j)) null x xs z"
  using assms by (intro seg_cong) auto

lemma pool_invD:
  assumes "pool_inv p free L"
  shows "pool_sized p" "seg (\<lambda>i. next_of (entry p i)) NoNext (pool_Head p) free NoNext"
    "pool_Tail p = (if free = [] then NoNext else last free)"
    "i \<in> set free \<union> L \<Longrightarrow> i < pool_Capacity p \<and> \<not> busy (entry p i)"
    "distinct free"
  using assms by (auto simp: pool_inv_def intro: seg_distinct)

lemma pool_inv_empty:
  assumes "pool_inv p [] L"
  shows "acquire_entry w p = Some (NoNext, p)"
  using assms by (simp add: pool_inv_def acquire_entry_def)

lemma pool_inv_acquire:
  assumes inv: "pool_inv p (x # xs) L" and w: "busy w"
  shows "\<exists>p'. acquire_entry w p = Some (x, p') \<and> pool_inv p' xs L \<and> entry p' = (entry p)(x := w)"
proof -
  note i = inv [unfolded pool_inv_def]
  have x: "x < pool_Capacity p" "pool_Head p = x" "x \<noteq> NoNext" and sized: "pool_sized p"
    and chain: "seg (\<lambda>i. next_of (entry p i)) NoNext (next_of (entry p x)) xs NoNext"
    using pool_invD(1,2) [OF inv] pool_invD(4) [OF inv, of x] by auto
  have "distinct (x # xs)" by (rule pool_invD(5) [OF inv])
  then have chain': "seg (\<lambda>i. next_of (entry (with_entry x w p) i)) NoNext (next_of (entry p x)) xs NoNext"
    using chain seg_with_entry [OF sized x(1)] by simp
  define p' where "p' = (if entry p x = NoNext then with_entry x w p\<lparr>pool_Head := NoNext, pool_Tail := NoNext\<rparr>
    else with_entry x w p\<lparr>pool_Head := drop_bit 1 (entry p x)\<rparr>)"
  have eq: "acquire_entry w p = Some (x, p')"
    using x sized by (simp add: acquire_entry_def Let_def load_entry store_entry p'_def with_entry_def)
  have ent: "entry p' j = (if j = x then w else entry p j)" for j
    using entry_with_entry [OF sized x(1)] by (auto simp: p'_def entry_def)
  have head: "pool_Head p' = next_of (entry p x)" by (simp add: p'_def next_of_def)
  have tail: "pool_Tail p' = (if xs = [] then NoNext else last xs)"
  proof (cases "xs = []")
    case True
    with chain have "entry p x = NoNext" by (simp add: next_of_NoNext)
    with True show ?thesis by (simp add: p'_def)
  next
    case False
    with chain have "entry p x \<noteq> NoNext" by (auto simp: next_of_def seg_null_head)
    with False show ?thesis using i by (simp add: p'_def)
  qed
  have "pool_inv p' xs L"
    unfolding pool_inv_def
  proof (intro conjI)
    show "pool_sized p'" using sized by (simp add: p'_def pool_sized_def with_entry_def)
    have "entry p' = entry (with_entry x w p)" using ent sized x(1) by auto
    then show "seg (\<lambda>i. next_of (entry p' i)) NoNext (pool_Head p') xs NoNext"
      using chain' by (simp add: head)
    have cap: "pool_Capacity p' = pool_Capacity p" by (simp add: p'_def)
    show "\<forall>i \<in> set xs \<union> L. i < pool_Capacity p' \<and> \<not> busy (entry p' i)" "\<forall>i \<in> L. entry p' i = NoNext"
      "set xs \<inter> L = {}"
      using i \<open>distinct (x # xs)\<close> unfolding cap ent by auto
    show "\<forall>i < pool_Capacity p'. i \<notin> set xs \<longrightarrow> i \<notin> L \<longrightarrow> busy (entry p' i)"
      using i w unfolding cap ent by auto
  qed (rule tail)
  with eq ent show ?thesis by auto
qed

text \<open>An entry of a busy identifier changes to another busy value.\<close>

lemma pool_inv_busy_entry:
  assumes inv: "pool_inv p free L" and b: "busy (entry p i)" "i < pool_Capacity p" "busy v"
  shows "pool_inv (with_entry i v p) free L"
proof -
  note iv = inv [unfolded pool_inv_def]
  have sized: "pool_sized p" and out: "i \<notin> set free" "i \<notin> L" using iv b(1) by auto
  have "seg (\<lambda>j. next_of (entry (with_entry i v p) j)) NoNext (pool_Head p) free NoNext"
    using iv seg_with_entry [OF sized b(2) out(1)] by simp
  with iv out sized b show ?thesis by (auto simp: pool_inv_def)
qed

text \<open>The first half of a release takes a busy identifier out of use, the second one queues it.\<close>

lemma pool_inv_mark:
  assumes inv: "pool_inv p free L" and b: "busy (entry p i)" "i < pool_Capacity p"
  shows "pool_inv (with_entry i NoNext p) free (insert i L)" "i \<notin> L"
proof -
  note iv = inv [unfolded pool_inv_def]
  have sized: "pool_sized p" and out: "i \<notin> set free" "i \<notin> L" using iv b(1) by auto
  have "seg (\<lambda>j. next_of (entry (with_entry i NoNext p) j)) NoNext (pool_Head p) free NoNext"
    using iv seg_with_entry [OF sized b(2) out(1)] by simp
  with iv out sized b show "pool_inv (with_entry i NoNext p) free (insert i L)" by (auto simp: pool_inv_def)
  show "i \<notin> L" by (rule out)
qed

lemma seg_snoc_update:
  assumes "seg nxt null x (xs @ [y]) null" "z \<noteq> null" "z \<notin> set (xs @ [y])" "nxt z = null"
  shows "seg (nxt(y := z)) null x (xs @ [y, z]) null"
proof -
  have "y \<notin> set xs" using seg_distinct [OF assms(1)] by simp
  then have "seg (nxt(y := z)) null x xs m \<longleftrightarrow> seg nxt null x xs m" for m
    by (intro seg_cong) auto
  with assms show ?thesis by (auto simp: seg_append)
qed

lemma pool_inv_link:
  assumes inv: "pool_inv p free L" and i: "i \<in> L"
  shows "\<exists>p'. Release_link i p = Some p' \<and> pool_inv p' (free @ [i]) (L - {i})
    \<and> (\<forall>j. busy (entry p' j) = busy (entry p j)) \<and> (\<forall>j. busy (entry p j) \<longrightarrow> entry p' j = entry p j)"
proof -
  note iv = inv [unfolded pool_inv_def]
  have sized: "pool_sized p" and ic: "i < pool_Capacity p" "entry p i = NoNext" "i \<notin> set free"
    using iv i by auto
  have small: "i \<noteq> NoNext" "next_of (push_bit 1 i) = i"
    using small_id [of i] pool_sized_id [OF sized ic(1)] by auto
  show ?thesis
  proof (cases free rule: rev_exhaust)
    case Nil
    let ?p = "p\<lparr>pool_Head := i, pool_Tail := i\<rparr>"
    have "entry ?p = entry p" by (rule ext) (simp add: entry_def)
    moreover have "Release_link i p = Some ?p" using iv Nil by (simp add: Release_link_def)
    moreover have "pool_inv ?p (free @ [i]) (L - {i})"
      using iv Nil small(1) ic i by (auto simp: pool_inv_def pool_sized_def next_of_NoNext \<open>entry ?p = entry p\<close>)
    ultimately show ?thesis by auto
  next
    case (snoc xs t)
    have t: "pool_Tail p = t" "t < pool_Capacity p" "t \<noteq> NoNext" "\<not> busy (entry p t)" "t \<noteq> i"
      using iv snoc ic(3) by (auto dest: seg_not_null)
    let ?p = "with_entry t (push_bit 1 i) p\<lparr>pool_Tail := i\<rparr>"
    have ent: "entry ?p j = (if j = t then push_bit 1 i else entry p j)" for j
      using entry_with_entry [OF sized t(2)] by (simp add: entry_def)
    have link: "Release_link i p = Some ?p"
      using t sized by (simp add: Release_link_def store_entry with_entry_def)
    have "seg ((\<lambda>j. next_of (entry p j))(t := i)) NoNext (pool_Head p) (xs @ [t, i]) NoNext"
      using iv snoc small(1) ic by (intro seg_snoc_update) (auto simp: next_of_NoNext)
    moreover have "(\<lambda>j. next_of (entry p j))(t := i) = (\<lambda>j. next_of (entry ?p j))"
      unfolding ent fun_upd_def using small(2) by (intro ext) simp
    ultimately have "seg (\<lambda>j. next_of (entry ?p j)) NoNext (pool_Head ?p) (free @ [i]) NoNext"
      using snoc by simp
    then have "pool_inv ?p (free @ [i]) (L - {i})"
      unfolding pool_inv_def ent using iv snoc ic i t by (auto simp: pool_sized_def with_entry_def)
    moreover have "busy (entry ?p j) = busy (entry p j) \<and> (busy (entry p j) \<longrightarrow> entry ?p j = entry p j)" for j
      unfolding ent using t(4) by simp
    ultimately show ?thesis using link by blast
  qed
qed

section \<open>Construction\<close>

lemma init_loop_spec:
  assumes "unat lst \<le> length es" "i \<le> lst"
  shows "\<exists>es'. init_loop i lst es = Some es' \<and> length es' = length es
    \<and> (\<forall>j. es' ! j = (if unat i \<le> j \<and> j < unat lst then push_bit 1 (of_nat (j + 1)) else es ! j))"
  using assms
proof (induction i lst es rule: init_loop.induct)
  case (1 i lst es)
  show ?case
  proof (cases "i < lst")
    case False
    with 1(3) have "i = lst" by simp
    then show ?thesis by (auto simp: init_loop.simps)
  next
    case True
    then have lt: "unat i < unat lst" by (simp add: word_less_nat_alt)
    then have suc: "unat (i + 1) = unat i + 1"
      using unat_lt_exp [of lst] by (intro plus_one_small) linarith
    let ?es = "es[unat i := push_bit 1 (i + 1)]"
    have st: "store es i (push_bit 1 (i + 1)) = Some ?es" using lt 1(2) by (simp add: store_def)
    have "i + 1 \<le> lst" using lt suc by (simp add: word_le_nat_alt)
    then obtain es' where es': "init_loop (i + 1) lst ?es = Some es'" "length es' = length es"
      "\<forall>j. es' ! j = (if unat (i + 1) \<le> j \<and> j < unat lst then push_bit 1 (of_nat (j + 1)) else ?es ! j)"
      using 1(1) [OF True st] 1(2) by auto
    have "init_loop i lst es = Some es'" using True st es'(1) by (subst init_loop.simps) simp
    moreover have "es' ! j = (if unat i \<le> j \<and> j < unat lst then push_bit 1 (of_nat (j + 1)) else es ! j)" for j
    proof (cases "j = unat i")
      case True
      then have "(of_nat (j + 1) :: u64) = i + 1" by simp
      then show ?thesis using es'(3) True suc lt 1(2) by (simp add: add.commute)
    next
      case False
      then show ?thesis using es'(3) suc by auto
    qed
    ultimately show ?thesis using es'(2) by blast
  qed
qed

lemma IdPool_new_spec:
  assumes "0 < unat cap" "unat cap < 2 ^ 63" "unat cap \<le> length storage"
  shows "\<exists>p. IdPool_new storage cap = Some p \<and> pool_inv p (map of_nat [0..<unat cap]) {} \<and> pool_Capacity p = cap"
proof -
  define n where "n = unat cap"
  have l: "unat (cap - 1) = n - 1" using assms(1) by (subst unat_minus_le) (simp_all add: n_def word_le_nat_alt)
  then have le: "unat (cap - 1) \<le> length storage" using assms(3) by (simp add: n_def)
  obtain es where es: "init_loop 0 (cap - 1) storage = Some es" "length es = length storage"
    "\<forall>j. es ! j = (if unat (0 :: u64) \<le> j \<and> j < unat (cap - 1) then push_bit 1 (of_nat (j + 1)) else storage ! j)"
    using init_loop_spec [OF le, of 0] by auto
  let ?p = "\<lparr>pool_Head = 0, pool_Tail = cap - 1, pool_Entries = es[n - 1 := NoNext], pool_Capacity = cap\<rparr>"
  have new: "IdPool_new storage cap = Some ?p"
    using es l assms by (simp add: IdPool_new_def store_def n_def)
  have un: "unat (of_nat j :: u64) = j" if "j < n" for j
    using that assms(2) by (simp add: n_def unat_of_nat take_bit_eq_mod)
  have ent: "entry ?p (of_nat j) = (if j + 1 = n then NoNext else push_bit 1 (of_nat (j + 1)))" if "j < n" for j
    using that un es l assms by (auto simp: entry_def n_def nth_list_update)
  have small: "(of_nat j :: u64) \<noteq> NoNext" "next_of (push_bit 1 (of_nat j :: u64)) = of_nat j" if "j < n" for j
    using small_id [of "of_nat j"] un [OF that] that assms(2) by (auto simp: n_def)
  have "seg (\<lambda>i. next_of (entry ?p i)) NoNext (of_nat 0) (map of_nat [0..<n]) NoNext"
  proof (rule seg_upt)
    fix j assume "0 \<le> j" "j < n"
    then show "next_of (entry ?p (of_nat j)) = (if j + 1 = n then NoNext else of_nat (j + 1))"
      using ent small(2) [of "j + 1"] by (auto simp: next_of_NoNext)
  qed (use small assms(1) in \<open>auto simp: n_def\<close>)
  then have seg: "seg (\<lambda>i. next_of (entry ?p i)) NoNext (pool_Head ?p) (map of_nat [0..<n]) NoNext" by simp
  have all: "i \<in> set (map of_nat [0..<n])" if "i < cap" for i
    using that by (auto simp: n_def word_less_nat_alt intro!: image_eqI [of _ _ "unat i"])
  have "last (map of_nat [0..<n]) = cap - 1"
    using assms(1) l by (simp add: n_def last_map flip: l)
  moreover have "i < cap \<and> \<not> busy (entry ?p i)" if "i \<in> set (map of_nat [0..<n])" for i
  proof -
    from that obtain j where j: "i = of_nat j" "j < n" by auto
    then show ?thesis using ent un by (auto simp: word_less_nat_alt n_def)
  qed
  ultimately have "pool_inv ?p (map of_nat [0..<n]) {}"
    unfolding pool_inv_def using seg all assms es(2) by (auto simp: pool_sized_def n_def)
  with new show ?thesis by (auto simp: n_def)
qed

end
