(* ===== verification/Id_Pool_Theorems.thy ===== *)
theory Id_Pool_Theorems
  imports Id_Pool_Props
begin

text \<open>
  The identifier pool: its queue discipline, its pointers, and its operation by several threads.
\<close>

section \<open>Interleaved threads\<close>

text \<open>
  A thread between two atomic accesses of an operation; the sections under the lock of the pool and
  the single exchanges are one step each. Operations that answer without touching the pool are
  no steps.
\<close>

datatype pool_thread = Idle | Unsetting u64 u64 | Releasing u64 u64 | Linking u64

type_synonym shared_pool = "IdPool \<times> (nat \<Rightarrow> pool_thread)"

inductive pool_step :: "shared_pool \<Rightarrow> shared_pool \<Rightarrow> bool" where
  acquire: "T t = Idle \<Longrightarrow> Acquire p = Some (i, p') \<Longrightarrow> pool_step (p, T) (p', T)"
| acquire_val: "T t = Idle \<Longrightarrow> Acquire_val val p = Some (i, p') \<Longrightarrow> pool_step (p, T) (p', T)"
| set_pointer: "T t = Idle \<Longrightarrow> SetPointer i val p = Some (b, p') \<Longrightarrow> pool_step (p, T) (p', T)"
| unset_load: "T t = Idle \<Longrightarrow> UnsetPointer_load i p = Some (Some old) \<Longrightarrow> pool_step (p, T) (p, T(t := Unsetting i old))"
| unset_cas: "T t = Unsetting i old \<Longrightarrow> UnsetPointer_cas i old p = Some (b, p') \<Longrightarrow> pool_step (p, T) (p', T(t := Idle))"
| release_load: "T t = Idle \<Longrightarrow> Release_load i p = Some (Some old) \<Longrightarrow> pool_step (p, T) (p, T(t := Releasing i old))"
| release_cas: "T t = Releasing i old \<Longrightarrow> Release_cas i old p = Some (True, p') \<Longrightarrow> pool_step (p, T) (p', T(t := Linking i))"
| release_lost: "T t = Releasing i old \<Longrightarrow> Release_cas i old p = Some (False, p') \<Longrightarrow> pool_step (p, T) (p', T(t := Idle))"
| release_link: "T t = Linking i \<Longrightarrow> Release_link i p = Some p' \<Longrightarrow> pool_step (p, T) (p', T(t := Idle))"

definition linking :: "(nat \<Rightarrow> pool_thread) \<Rightarrow> u64 set" where
  "linking T = {i. \<exists>t. T t = Linking i}"

definition threads_inv :: "IdPool \<Rightarrow> (nat \<Rightarrow> pool_thread) \<Rightarrow> bool" where
  "threads_inv p T \<longleftrightarrow>
     (\<forall>t u i. T t = Linking i \<longrightarrow> T u = Linking i \<longrightarrow> t = u)
     \<and> (\<forall>t i old. T t = Unsetting i old \<or> T t = Releasing i old \<longrightarrow> i < pool_Capacity p \<and> busy old)"

definition shared_inv :: "shared_pool \<Rightarrow> bool" where
  "shared_inv s \<longleftrightarrow> (case s of (p, T) \<Rightarrow> (\<exists>free. pool_inv p free (linking T)) \<and> threads_inv p T)"

lemma linking_upd:
  assumes "\<forall>i. T t \<noteq> Linking i"
  shows "linking (T(t := x)) = linking T \<union> {i. x = Linking i}"
  using assms unfolding linking_def by (auto split: if_splits)

lemma linking_done:
  assumes "threads_inv p T" "T t = Linking i"
  shows "linking (T(t := Idle)) = linking T - {i}"
proof (rule set_eqI)
  fix j
  have "(T(t := Idle)) u = Linking j \<longleftrightarrow> T u = Linking j \<and> j \<noteq> i" for u
    using assms by (cases "u = t") (auto simp: threads_inv_def)
  then show "j \<in> linking (T(t := Idle)) \<longleftrightarrow> j \<in> linking T - {i}"
    by (auto simp: linking_def)
qed

lemma threads_inv_upd:
  assumes "threads_inv p T" "\<And>i. x = Linking i \<Longrightarrow> i \<notin> linking T"
    "\<And>i old. x = Unsetting i old \<or> x = Releasing i old \<Longrightarrow> i < pool_Capacity p \<and> busy old"
  shows "threads_inv p (T(t := x))"
  using assms unfolding threads_inv_def linking_def by (auto split: if_splits)

lemma threads_inv_cong: "pool_Capacity p' = pool_Capacity p \<Longrightarrow> threads_inv p T \<Longrightarrow> threads_inv p' T"
  by (simp add: threads_inv_def)

lemma acquire_entry_inv:
  assumes "pool_inv p free L" "busy w" "acquire_entry w p = Some (i, p')"
  shows "\<exists>free'. pool_inv p' free' L" "pool_Capacity p' = pool_Capacity p"
    "busy (entry p j) \<Longrightarrow> entry p' j = entry p j"
proof -
  have "(\<exists>free'. pool_inv p' free' L) \<and> (busy (entry p j) \<longrightarrow> entry p' j = entry p j)" for j
  proof (cases free)
    case Nil
    with assms pool_inv_empty [of p L w] show ?thesis by auto
  next
    case (Cons x xs)
    then have x: "\<not> busy (entry p x)" using pool_invD(4) [OF assms(1), of x] by simp
    from pool_inv_acquire [OF assms(1) [unfolded Cons] assms(2)]
    obtain q where "acquire_entry w p = Some (x, q)" "pool_inv q xs L" "entry q = (entry p)(x := w)" by auto
    with assms(3) x show ?thesis by auto
  qed
  then show "\<exists>free'. pool_inv p' free' L" "busy (entry p j) \<Longrightarrow> entry p' j = entry p j" by blast+
  show "pool_Capacity p' = pool_Capacity p"
    using assms(3) by (auto simp: acquire_entry_def Let_def bind_eq_Some_conv split: if_splits)
qed

lemma cas_entry_inv:
  assumes "pool_inv p free L" "busy old" "busy new" "i < pool_Capacity p" "cas_entry i old new p = Some (b, p')"
  shows "pool_inv p' free L" "pool_Capacity p' = pool_Capacity p"
    "busy (entry p j) \<Longrightarrow> busy (entry p' j)"
  using assms pool_inv_busy_entry [OF assms(1) _ assms(4,3)] pool_invD(1) [OF assms(1)]
  by (auto simp: cas_entry_eq split: if_splits)

lemma pool_step_inv:
  assumes "pool_step s s'" "shared_inv s"
  shows "shared_inv s'"
  using assms
proof (induction rule: pool_step.induct)
  case (acquire T t p i p')
  then obtain free where "pool_inv p free (linking T)" "threads_inv p T" by (auto simp: shared_inv_def)
  with acquire acquire_entry_inv [of p free "linking T" Unallocated i p'] show ?case
    by (auto simp: shared_inv_def Acquire_def intro: threads_inv_cong)
next
  case (acquire_val T t val p i p')
  then obtain free where "pool_inv p free (linking T)" "threads_inv p T" by (auto simp: shared_inv_def)
  with acquire_val acquire_entry_inv [of p free "linking T" "val OR BusyMask" i p'] show ?case
    by (auto simp: shared_inv_def Acquire_val_def intro: threads_inv_cong)
next
  case (set_pointer T t i val p b p')
  then obtain free where inv: "pool_inv p free (linking T)" "threads_inv p T" by (auto simp: shared_inv_def)
  show ?case
  proof (cases "p' = p")
    case True
    with set_pointer show ?thesis by simp
  next
    case False
    with set_pointer(2) have "i < pool_Capacity p" "cas_entry i Unallocated (val OR BusyMask) p = Some (b, p')"
      by (auto simp: SetPointer_def split: if_splits)
    with inv cas_entry_inv [of p free "linking T" Unallocated "val OR BusyMask" i b p'] show ?thesis
      by (auto simp: shared_inv_def intro: threads_inv_cong)
  qed
next
  case (unset_load T t i p old)
  then have "linking (T(t := Unsetting i old)) = linking T" "threads_inv p (T(t := Unsetting i old))"
    by (auto simp: linking_upd shared_inv_def UnsetPointer_load_def busy_def bind_eq_Some_conv
        split: if_splits intro!: threads_inv_upd)
  with unset_load show ?case by (simp add: shared_inv_def)
next
  case (unset_cas T t i old p b p')
  then obtain free where inv: "pool_inv p free (linking T)" "threads_inv p T" by (auto simp: shared_inv_def)
  then have "i < pool_Capacity p" "busy old" using unset_cas(1) by (auto simp: threads_inv_def)
  with inv unset_cas cas_entry_inv [of p free "linking T" old Deallocated i b p']
  have "pool_inv p' free (linking T)" "pool_Capacity p' = pool_Capacity p" by (auto simp: UnsetPointer_cas_def)
  moreover have "threads_inv p (T(t := Idle))" using inv(2) by (intro threads_inv_upd) auto
  ultimately show ?case using unset_cas(1) by (auto simp: shared_inv_def linking_upd intro: threads_inv_cong)
next
  case (release_load T t i p old)
  then have "linking (T(t := Releasing i old)) = linking T" "threads_inv p (T(t := Releasing i old))"
    by (auto simp: linking_upd shared_inv_def Release_load_def busy_def bind_eq_Some_conv
        split: if_splits intro!: threads_inv_upd)
  with release_load show ?case by (simp add: shared_inv_def)
next
  case (release_cas T t i old p p')
  then obtain free where inv: "pool_inv p free (linking T)" "threads_inv p T" by (auto simp: shared_inv_def)
  then have i: "i < pool_Capacity p" "busy old" using release_cas(1) by (auto simp: threads_inv_def)
  then have eq: "entry p i = old" "p' = with_entry i NoNext p"
    using release_cas(2) pool_invD(1) [OF inv(1)] by (auto simp: Release_cas_def cas_entry_eq split: if_splits)
  with i pool_inv_mark [OF inv(1), of i] have "pool_inv p' free (insert i (linking T))" "i \<notin> linking T" by auto
  moreover have "linking (T(t := Linking i)) = insert i (linking T)" using release_cas(1) by (auto simp: linking_upd)
  moreover have "threads_inv p' (T(t := Linking i))"
    using inv(2) \<open>i \<notin> linking T\<close> by (intro threads_inv_upd) (auto simp: eq(2) threads_inv_def)
  ultimately show ?case by (auto simp: shared_inv_def)
next
  case (release_lost T t i old p p')
  then obtain free where inv: "pool_inv p free (linking T)" "threads_inv p T" by (auto simp: shared_inv_def)
  then have "i < pool_Capacity p" using release_lost(1) by (auto simp: threads_inv_def)
  then have "p' = p"
    using release_lost(2) pool_invD(1) [OF inv(1)] by (auto simp: Release_cas_def cas_entry_eq split: if_splits)
  moreover have "threads_inv p (T(t := Idle))" using inv(2) by (intro threads_inv_upd) auto
  ultimately show ?case using release_lost(1) inv by (auto simp: shared_inv_def linking_upd)
next
  case (release_link T t i p p')
  then obtain free where inv: "pool_inv p free (linking T)" "threads_inv p T" by (auto simp: shared_inv_def)
  have "i \<in> linking T" using release_link(1) by (auto simp: linking_def)
  then have "pool_inv p' (free @ [i]) (linking T - {i})"
    using pool_inv_link [OF inv(1), of i] release_link(2) by auto
  moreover have "pool_Capacity p' = pool_Capacity p"
    using release_link(2) by (auto simp: Release_link_def bind_eq_Some_conv split: if_splits)
  moreover have "threads_inv p (T(t := Idle))" using inv(2) by (intro threads_inv_upd) auto
  ultimately show ?case
    using linking_done [OF inv(2) release_link(1)] by (auto simp: shared_inv_def intro: threads_inv_cong)
qed

lemma pool_step_busy:
  assumes "pool_step s s'" "shared_inv s" "busy (entry (fst s) i)"
  shows "busy (entry (fst s') i) \<or> (\<exists>t old. snd s t = Releasing i old \<and> snd s' t = Linking i)"
  using assms
proof (induction rule: pool_step.induct)
  case (acquire T t p j p')
  then obtain free where "pool_inv p free (linking T)" by (auto simp: shared_inv_def)
  with acquire acquire_entry_inv(3) [of p free "linking T" Unallocated j p' i] show ?case
    by (simp add: Acquire_def)
next
  case (acquire_val T t val p j p')
  then obtain free where "pool_inv p free (linking T)" by (auto simp: shared_inv_def)
  with acquire_val acquire_entry_inv(3) [of p free "linking T" "val OR BusyMask" j p' i] show ?case
    by (simp add: Acquire_val_def)
next
  case (set_pointer T t j val p b p')
  then obtain free where "pool_inv p free (linking T)" by (auto simp: shared_inv_def)
  with set_pointer cas_entry_inv(3) [of p free "linking T" Unallocated "val OR BusyMask" j b p' i] show ?case
    by (auto simp: SetPointer_def split: if_splits)
next
  case (unset_cas T t j old p b p')
  then have "j < pool_Capacity p" "busy old" by (auto simp: shared_inv_def threads_inv_def)
  moreover obtain free where "pool_inv p free (linking T)" using unset_cas by (auto simp: shared_inv_def)
  ultimately show ?case
    using unset_cas cas_entry_inv(3) [of p free "linking T" old Deallocated j b p' i]
    by (simp add: UnsetPointer_cas_def)
next
  case (release_cas T t j old p p')
  then have "j < pool_Capacity p" "pool_sized p" by (auto simp: shared_inv_def threads_inv_def dest: pool_invD(1))
  with release_cas show ?case
    by (cases "i = j") (auto simp: Release_cas_def cas_entry_eq split: if_splits)
next
  case (release_lost T t j old p p')
  then have "j < pool_Capacity p" "pool_sized p" by (auto simp: shared_inv_def threads_inv_def dest: pool_invD(1))
  with release_lost show ?case by (auto simp: Release_cas_def cas_entry_eq split: if_splits)
next
  case (release_link T t j p p')
  then obtain free where inv: "pool_inv p free (linking T)" by (auto simp: shared_inv_def)
  moreover have "j \<in> linking T" using release_link(1) by (auto simp: linking_def)
  ultimately show ?case using pool_inv_link [of p free "linking T" j] release_link by auto
qed auto

lemma shared_inv_reachable: "rtranclp pool_step s s' \<Longrightarrow> shared_inv s \<Longrightarrow> shared_inv s'"
  by (induction rule: rtranclp_induct) (auto intro: pool_step_inv)

section \<open>Theorems\<close>

text \<open>
  C24. The free identifiers form a queue: \<open>Acquire\<close> hands out the first one and answers \<open>NoNext\<close>
  exactly when there is none; \<open>Release\<close> appends an identifier in use and refuses every other one,
  leaving the pool as it was. Identifiers that stay in use keep their entries.
\<close>

theorem IdPool_refines_queue:
  assumes "pool_inv p free {}"
  shows "(case free of [] \<Rightarrow> Acquire p = Some (NoNext, p)
      | x # xs \<Rightarrow> (\<exists>p'. Acquire p = Some (x, p') \<and> pool_inv p' xs {} \<and> entry p' = (entry p)(x := Unallocated)))
    \<and> (\<exists>ok p'. Release i p = Some (ok, p') \<and> (ok \<longleftrightarrow> i < pool_Capacity p \<and> i \<notin> set free)
        \<and> pool_inv p' (if ok then free @ [i] else free) {} \<and> (\<not> ok \<longrightarrow> p' = p)
        \<and> (\<forall>j. j \<noteq> i \<longrightarrow> busy (entry p j) \<longrightarrow> entry p' j = entry p j))"
proof (rule conjI)
  show "case free of [] \<Rightarrow> Acquire p = Some (NoNext, p)
      | x # xs \<Rightarrow> (\<exists>p'. Acquire p = Some (x, p') \<and> pool_inv p' xs {} \<and> entry p' = (entry p)(x := Unallocated))"
    using assms pool_inv_empty [of p "{}" Unallocated] pool_inv_acquire [of p _ _ "{}" Unallocated]
    by (auto simp: Acquire_def split: list.split)
  show "\<exists>ok p'. Release i p = Some (ok, p') \<and> (ok \<longleftrightarrow> i < pool_Capacity p \<and> i \<notin> set free)
        \<and> pool_inv p' (if ok then free @ [i] else free) {} \<and> (\<not> ok \<longrightarrow> p' = p)
        \<and> (\<forall>j. j \<noteq> i \<longrightarrow> busy (entry p j) \<longrightarrow> entry p' j = entry p j)"
  proof (cases "i < pool_Capacity p \<and> i \<notin> set free")
    case True
    then have b: "busy (entry p i)" using assms by (auto simp: pool_inv_def)
    have sized: "pool_sized p" using pool_invD(1) [OF assms] .
    have mark: "pool_inv (with_entry i NoNext p) free {i}" using pool_inv_mark [OF assms b] True by simp
    obtain p' where p': "Release_link i (with_entry i NoNext p) = Some p'" "pool_inv p' (free @ [i]) {}"
      "\<forall>j. busy (entry (with_entry i NoNext p) j) \<longrightarrow> entry p' j = entry (with_entry i NoNext p) j"
      using pool_inv_link [OF mark, of i] by auto
    have "Release i p = Some (True, p')"
      using True b sized p'(1)
      by (auto simp: Release_def Release_load_def Release_cas_def load_entry cas_entry_eq busy_def not_less)
    with p' True sized show ?thesis by auto
  next
    case False
    then have "i < pool_Capacity p \<Longrightarrow> \<not> busy (entry p i)" using pool_invD(4) [OF assms, of i] by auto
    with pool_invD(1) [OF assms] have "Release i p = Some (False, p)"
      by (auto simp: Release_def Release_load_def load_entry busy_def)
    with False assms show ?thesis by auto
  qed
qed

text \<open>The pool of the witnesses: two identifiers.\<close>

definition demo_pool :: IdPool where
  "demo_pool = \<lparr>pool_Head = 0, pool_Tail = 1, pool_Entries = [2, NoNext], pool_Capacity = 2\<rparr>"

lemma demo_pool_new: "IdPool_new [7, 7] 2 = Some demo_pool" and demo_pool_inv: "pool_inv demo_pool [0, 1] {}"
proof -
  obtain p where p: "IdPool_new [7, 7] 2 = Some p" "pool_inv p (map of_nat [0..<unat (2 :: u64)]) {}"
    using IdPool_new_spec [of 2 "[7, 7]"] by auto
  show new: "IdPool_new [7, 7] 2 = Some demo_pool"
    by (simp add: IdPool_new_def init_loop.simps store_def demo_pool_def push_bit_Suc)
  have "map of_nat [0..<unat (2 :: u64)] = ([0, 1] :: u64 list)" by (simp add: upt_rec)
  with p new show "pool_inv demo_pool [0, 1] {}" by simp
qed

theorem IdPool_refines_queue_witness:
  "(\<exists>p'. Acquire demo_pool = Some (0, p') \<and> pool_inv p' [1] {} \<and> entry p' = (entry demo_pool)(0 := Unallocated))
   \<and> Release 1 demo_pool = Some (False, demo_pool)"
  using IdPool_refines_queue [OF demo_pool_inv, of 1] by auto

text \<open>
  C23. Whatever the interleaving of the accesses of any number of threads on a pool just constructed,
  the free identifiers stay a queue apart from those being released, \<open>Acquire\<close> hands out an
  identifier that nobody uses, and an identifier in use stays so until a thread releases it.
\<close>

theorem IdPool_interleavings_safe:
  assumes "0 < unat cap" "unat cap < 2 ^ 63" "unat cap \<le> length storage"
  shows "\<exists>p0. IdPool_new storage cap = Some p0 \<and>
    (\<forall>p T. rtranclp pool_step (p0, \<lambda>_. Idle) (p, T) \<longrightarrow>
       (\<exists>free. pool_inv p free (linking T))
       \<and> (\<exists>i p'. Acquire p = Some (i, p') \<and> (i = NoNext \<or> \<not> busy (entry p i) \<and> entry p' i = Unallocated))
       \<and> (\<forall>p' T' i. pool_step (p, T) (p', T') \<longrightarrow> busy (entry p i) \<longrightarrow>
            busy (entry p' i) \<or> (\<exists>t old. T t = Releasing i old \<and> T' t = Linking i)))"
proof -
  obtain p0 where p0: "IdPool_new storage cap = Some p0" "pool_inv p0 (map of_nat [0..<unat cap]) {}"
    using IdPool_new_spec [OF assms] by auto
  have init: "shared_inv (p0, \<lambda>_. Idle)"
    using p0(2) by (auto simp: shared_inv_def linking_def threads_inv_def)
  have "(\<exists>free. pool_inv p free (linking T))
       \<and> (\<exists>i p'. Acquire p = Some (i, p') \<and> (i = NoNext \<or> \<not> busy (entry p i) \<and> entry p' i = Unallocated))
       \<and> (\<forall>p' T' i. pool_step (p, T) (p', T') \<longrightarrow> busy (entry p i) \<longrightarrow>
            busy (entry p' i) \<or> (\<exists>t old. T t = Releasing i old \<and> T' t = Linking i))"
    if "rtranclp pool_step (p0, \<lambda>_. Idle) (p, T)" for p T
  proof -
    have inv: "shared_inv (p, T)" using shared_inv_reachable [OF that init] .
    then obtain free where free: "pool_inv p free (linking T)" by (auto simp: shared_inv_def)
    have "\<exists>i p'. Acquire p = Some (i, p') \<and> (i = NoNext \<or> \<not> busy (entry p i) \<and> entry p' i = Unallocated)"
    proof (cases free)
      case Nil
      with free pool_inv_empty [of p _ Unallocated] show ?thesis by (auto simp: Acquire_def)
    next
      case (Cons x xs)
      with free pool_inv_acquire [of p x xs "linking T" Unallocated] pool_invD(4) [OF free, of x]
      show ?thesis by (auto simp: Acquire_def)
    qed
    moreover have "busy (entry p' i) \<or> (\<exists>t old. T t = Releasing i old \<and> T' t = Linking i)"
      if "pool_step (p, T) (p', T')" "busy (entry p i)" for p' T' i
      using pool_step_busy [OF that(1) inv, of i] that(2) by simp
    ultimately show ?thesis using free by blast
  qed
  with p0(1) show ?thesis by blast
qed

theorem IdPool_interleavings_safe_witness:
  "\<exists>i p'. Acquire demo_pool = Some (i, p') \<and> (i = NoNext \<or> \<not> busy (entry demo_pool i) \<and> entry p' i = Unallocated)"
  using IdPool_interleavings_safe [of 2 "[7, 7]"] by (auto simp: demo_pool_new)

text \<open>
  Pointers: an identifier that was acquired without one takes an aligned pointer once, and
  resolves to it from then on; a second \<open>SetPointer\<close> is refused. The one aligned value that cannot
  be told from an entry without a pointer is excluded.
\<close>

theorem IdPool_pointer_roundtrip:
  assumes "pool_inv p free {}" "i < pool_Capacity p" "entry p i = Unallocated"
    "val AND NOT ValueMask = 0" "val \<noteq> ValueMask"
  shows "\<exists>p'. SetPointer i val p = Some (True, p') \<and> pool_inv p' free {} \<and> Resolve i p = Some 0
    \<and> Resolve i p' = Some val \<and> SetPointer i other p' = Some (False, p')"
proof -
  have sized: "pool_sized p" using pool_invD(1) [OF assms(1)] .
  let ?p = "with_entry i (val OR BusyMask) p"
  have mask: "ValueMask = NOT BusyMask" by (simp add: ValueMask_def BusyMask_def)
  have "\<not> bit (val AND BusyMask) 0" using assms(4) by (simp add: mask)
  then have low: "\<not> bit val 0" by (simp add: BusyMask_def bit_simps)
  have unmask: "(val OR BusyMask) AND ValueMask = val"
  proof (rule bit_word_eqI)
    fix n assume "n < LENGTH(64)"
    then show "bit ((val OR BusyMask) AND ValueMask) n = bit val n"
      using low by (cases "n = 0") (auto simp: mask BusyMask_def bit_simps)
  qed
  then have "val OR BusyMask \<noteq> Unallocated"
    using assms(5) by (auto simp: Unallocated_def ValueMask_def)
  moreover have "(val OR BusyMask) AND BusyMask \<noteq> 0" using busy_simps(4) [of val] unfolding busy_def .
  moreover have "pool_inv ?p free {}" using assms by (intro pool_inv_busy_entry) simp_all
  ultimately show ?thesis
    using assms sized unmask by (auto simp: SetPointer_def Resolve_def cas_entry_eq load_entry not_less)
qed

theorem IdPool_pointer_roundtrip_witness:
  "\<exists>p p'. Acquire demo_pool = Some (0, p) \<and> SetPointer 0 0x1000 p = Some (True, p') \<and> Resolve 0 p' = Some 0x1000"
proof -
  let ?p = "\<lparr>pool_Head = 1, pool_Tail = 1, pool_Entries = [Unallocated, NoNext], pool_Capacity = 2\<rparr>"
  have acq: "Acquire demo_pool = Some (0, ?p)"
    by (simp add: Acquire_def acquire_entry_def demo_pool_def NoNext_def load_def store_def drop_bit_Suc)
  then have "pool_inv ?p [1] {}" using pool_inv_acquire [OF demo_pool_inv busy_simps(1)] by (auto simp: Acquire_def)
  from IdPool_pointer_roundtrip [OF this, of 0 "0x1000"] acq show ?thesis
    by (auto simp: entry_def ValueMask_def)
qed

text \<open>After \<open>UnsetPointer\<close> the identifier resolves to the marker of deallocation and not to null.\<close>

theorem IdPool_unset_resolves_marker:
  assumes "pool_sized p" "i < pool_Capacity p" "busy (entry p i)" "entry p i \<noteq> Unallocated"
  shows "\<exists>p'. UnsetPointer i val p = Some (True, val, p') \<and> Resolve i p' = Some 0xFFFFFFFFFFFFFFFC
    \<and> (\<exists>p''. UnsetPointer i val p' = Some (True, val, p''))"
  using assms
  by (auto simp: UnsetPointer_def UnsetPointer_load_def UnsetPointer_cas_def Resolve_def load_entry cas_entry_eq
      busy_def Deallocated_def Unallocated_def BusyMask_def ValueMask_def not_less)

end
