(* ===== verification/Ticket_Lock.thy ===== *)
theory Ticket_Lock
  imports Beel_Prelude
begin

text \<open>
  \<^verbatim>\<open>sysheaders/common/beel/sync/ticket.lock.hpp\<close>: the ticket spinlock. Every operation is split at its
  atomic accesses to the lock word; the threads that use the lock are interleaved at these
  accesses. \<open>Release\<close> increments the tail with a plain load and store.
\<close>

section \<open>The lock word\<close>

record ticketlock =
  lock_Tail :: u16
  lock_Head :: u16

definition Overall :: "ticketlock \<Rightarrow> u32" where
  "Overall v = ucast (lock_Tail v) OR push_bit 16 (ucast (lock_Head v))"

definition lock_Reset :: ticketlock where
  "lock_Reset = \<lparr>lock_Tail = 0, lock_Head = 0\<rparr>"

section \<open>Operations\<close>

definition TryAcquire_read :: "ticketlock \<Rightarrow> u16" where
  "TryAcquire_read v = lock_Head v"

definition TryAcquire_cas :: "u16 \<Rightarrow> ticketlock \<Rightarrow> bool \<times> ticketlock" where
  "TryAcquire_cas oldHead v =
     (let cmp = \<lparr>lock_Tail = oldHead, lock_Head = oldHead\<rparr>;
          newVal = \<lparr>lock_Tail = oldHead, lock_Head = oldHead + 1\<rparr>
      in if Overall v = Overall cmp then (True, newVal) else (False, v))"

definition TryAcquire :: "ticketlock \<Rightarrow> bool \<times> ticketlock" where
  "TryAcquire v = TryAcquire_cas (TryAcquire_read v) v"

definition lock_Check :: "ticketlock \<Rightarrow> bool" where
  "lock_Check v = (if lock_Head v \<noteq> lock_Tail v then False else True)"

text \<open>\<open>Spin\<close> and \<open>Await\<close> over the values their reads observe; \<open>None\<close> when they are still waiting.\<close>

fun lock_Spin :: "ticketlock list \<Rightarrow> ticketlock list option" where
  "lock_Spin [] = None"
| "lock_Spin (copy # reads) = (if lock_Tail copy \<noteq> lock_Head copy then lock_Spin reads else Some reads)"

fun lock_Await :: "ticketlock list \<Rightarrow> ticketlock list option" where
  "lock_Await [] = None"
| "lock_Await (copy # reads) = (if lock_Tail copy \<noteq> lock_Head copy then lock_Await reads else Some reads)"

definition Acquire_fetch :: "ticketlock \<Rightarrow> u16 \<times> ticketlock" where
  "Acquire_fetch v = (lock_Head v, v\<lparr>lock_Head := lock_Head v + 1\<rparr>)"

definition Acquire_poll :: "u16 \<Rightarrow> ticketlock \<Rightarrow> u16" where
  "Acquire_poll myTicket v = myTicket - lock_Tail v"

text \<open>The inner loop of \<open>Acquire\<close>, counting its pauses.\<close>

function pause_loop :: "u16 \<Rightarrow> nat" where
  "pause_loop diff = (let diff' = diff - 1 in if diff' \<noteq> 0 then Suc (pause_loop diff') else 1)"
  by pat_completeness auto
termination
proof (relation "measure (\<lambda>diff. unat (diff - 1))")
  fix diff diff' :: u16
  assume "diff' = diff - 1" "diff' \<noteq> 0"
  then have "unat (diff' - 1) < unat (diff - 1)"
    using unat_minus_one [of diff'] by (simp add: unat_gt_0)
  then show "(diff', diff) \<in> measure (\<lambda>diff. unat (diff - 1))" by simp
qed simp

declare pause_loop.simps [simp del]

text \<open>The rounds of \<open>Acquire\<close> after the ticket is drawn, over the values its reads observe.\<close>

fun Acquire_wait :: "u16 \<Rightarrow> ticketlock list \<Rightarrow> nat option" where
  "Acquire_wait myTicket [] = None"
| "Acquire_wait myTicket (v # reads) =
     (let diff = Acquire_poll myTicket v in
      if diff \<noteq> 0 then map_option ((+) (pause_loop diff)) (Acquire_wait myTicket reads) else Some 0)"

definition lock_Release_load :: "ticketlock \<Rightarrow> u16" where
  "lock_Release_load v = lock_Tail v"

definition lock_Release_store :: "u16 \<Rightarrow> ticketlock \<Rightarrow> ticketlock" where
  "lock_Release_store tail v = v\<lparr>lock_Tail := tail + 1\<rparr>"

definition lock_Release :: "ticketlock \<Rightarrow> ticketlock" where
  "lock_Release v = lock_Release_store (lock_Release_load v) v"

section \<open>Threads\<close>

datatype lock_thread = Outside | Trying u16 | Waiting u16 | Inside | Leaving u16

type_synonym lock_state = "ticketlock \<times> (nat \<Rightarrow> lock_thread)"

text \<open>Steps of \<open>N\<close> threads. A poll that does not find its ticket changes nothing and is no step.\<close>

inductive lock_step :: "nat \<Rightarrow> lock_state \<Rightarrow> lock_state \<Rightarrow> bool" for N where
  try_read: "t < N \<Longrightarrow> T t = Outside \<Longrightarrow> lock_step N (v, T) (v, T(t := Trying (TryAcquire_read v)))"
| try_win: "t < N \<Longrightarrow> T t = Trying h \<Longrightarrow> TryAcquire_cas h v = (True, v') \<Longrightarrow> lock_step N (v, T) (v', T(t := Inside))"
| try_lose: "t < N \<Longrightarrow> T t = Trying h \<Longrightarrow> TryAcquire_cas h v = (False, v') \<Longrightarrow> lock_step N (v, T) (v', T(t := Outside))"
| fetch: "t < N \<Longrightarrow> T t = Outside \<Longrightarrow> Acquire_fetch v = (k, v') \<Longrightarrow> lock_step N (v, T) (v', T(t := Waiting k))"
| enter: "t < N \<Longrightarrow> T t = Waiting k \<Longrightarrow> Acquire_poll k v = 0 \<Longrightarrow> lock_step N (v, T) (v, T(t := Inside))"
| release_load: "t < N \<Longrightarrow> T t = Inside \<Longrightarrow> lock_step N (v, T) (v, T(t := Leaving (lock_Release_load v)))"
| release_store: "t < N \<Longrightarrow> T t = Leaving k \<Longrightarrow> lock_step N (v, T) (lock_Release_store k v, T(t := Outside))"

text \<open>The queue a fair lock keeps: threads join at the end and leave from the front.\<close>

inductive queue_step :: "nat list \<Rightarrow> nat list \<Rightarrow> bool" where
  join: "t \<notin> set q \<Longrightarrow> queue_step q (q @ [t])"
| leave: "queue_step (t # q) q"

definition holds :: "lock_thread \<Rightarrow> bool" where
  "holds l \<longleftrightarrow> (case l of Inside \<Rightarrow> True | Leaving _ \<Rightarrow> True | _ \<Rightarrow> False)"

definition queued :: "lock_thread \<Rightarrow> bool" where
  "queued l \<longleftrightarrow> (case l of Outside \<Rightarrow> False | Trying _ \<Rightarrow> False | _ \<Rightarrow> True)"

text \<open>The thread in front may be in any of the three states, those behind it wait with their tickets.\<close>

definition ticket_ok :: "ticketlock \<Rightarrow> nat \<Rightarrow> lock_thread \<Rightarrow> bool" where
  "ticket_ok v j l \<longleftrightarrow> l = Waiting (lock_Tail v + of_nat j) \<or> j = 0 \<and> l \<in> {Inside, Leaving (lock_Tail v)}"

definition lock_inv :: "nat \<Rightarrow> lock_state \<Rightarrow> nat list \<Rightarrow> bool" where
  "lock_inv N s q \<longleftrightarrow> (case s of (v, T) \<Rightarrow>
     distinct q \<and> set q = {t. queued (T t)} \<and> (\<forall>t. queued (T t) \<longrightarrow> t < N)
     \<and> lock_Head v = lock_Tail v + of_nat (length q)
     \<and> (\<forall>j < length q. ticket_ok v j (T (q ! j))))"

lemma Overall_inject: "Overall v = Overall w \<longleftrightarrow> v = w"
proof
  assume eq: "Overall v = Overall w"
  have "bit (Overall x) n \<longleftrightarrow> (if n < 16 then bit (lock_Tail x) n else bit (lock_Head x) (n - 16))" if "n < 32" for x n
    using that bit_imp_le_length [of "lock_Tail x" n] by (auto simp: Overall_def bit_simps)
  then have b: "n < 32 \<Longrightarrow> (if n < 16 then bit (lock_Tail v) n else bit (lock_Head v) (n - 16))
      = (if n < 16 then bit (lock_Tail w) n else bit (lock_Head w) (n - 16))" for n
    using eq by metis
  have "lock_Tail v = lock_Tail w"
  proof (rule bit_word_eqI)
    fix n assume "n < LENGTH(16)"
    then show "bit (lock_Tail v) n = bit (lock_Tail w) n" using b [of n] by simp
  qed
  moreover have "lock_Head v = lock_Head w"
  proof (rule bit_word_eqI)
    fix n assume "n < LENGTH(16)"
    then show "bit (lock_Head v) n = bit (lock_Head w) n" using b [of "n + 16"] by simp
  qed
  ultimately show "v = w" by simp
qed simp

lemma TryAcquire_cas_eq:
  "TryAcquire_cas h v = (if lock_Tail v = h \<and> lock_Head v = h then (True, v\<lparr>lock_Head := h + 1\<rparr>) else (False, v))"
proof -
  have "v = \<lparr>lock_Tail = h, lock_Head = h\<rparr> \<longleftrightarrow> lock_Tail v = h \<and> lock_Head v = h"
    by (cases v) auto
  then show ?thesis by (cases v) (auto simp: TryAcquire_cas_def Let_def Overall_inject)
qed

lemma queued_simps [simp]:
  "\<not> queued Outside" "\<not> queued (Trying h)" "queued (Waiting k)" "queued Inside" "queued (Leaving k)"
  by (simp_all add: queued_def)

lemma holds_simps [simp]:
  "\<not> holds Outside" "\<not> holds (Trying h)" "\<not> holds (Waiting k)" "holds Inside" "holds (Leaving k)"
  by (simp_all add: holds_def)

lemma holds_queued: "holds l \<Longrightarrow> queued l"
  by (cases l) simp_all

section \<open>The queue of a reachable lock\<close>

lemma lock_inv_length:
  assumes "lock_inv N (v, T) q"
  shows "length q \<le> N"
proof -
  have "set q \<subseteq> {..<N}" "distinct q" using assms by (auto simp: lock_inv_def)
  then have "card (set q) \<le> card {..<N}" by (intro card_mono) simp_all
  then show ?thesis using \<open>distinct q\<close> by (simp add: distinct_card)
qed

text \<open>A ticket is read as its distance to the front, which is exact for up to \<open>2 ^ 16\<close> threads.\<close>

lemma lock_inv_position:
  assumes "lock_inv N (v, T) q" "N \<le> 2 ^ 16" "T t = Waiting k"
  obtains j where "j < length q" "q ! j = t" "k = lock_Tail v + of_nat j" "unat (Acquire_poll k v) = j"
proof -
  have "t \<in> set q" using assms by (auto simp: lock_inv_def)
  then obtain j where j: "j < length q" "q ! j = t" by (auto simp: in_set_conv_nth)
  then have "ticket_ok v j (T t)" using assms(1) by (auto simp: lock_inv_def)
  then have k: "k = lock_Tail v + of_nat j" using assms(3) by (auto simp: ticket_ok_def)
  have "j < 2 ^ 16" using j(1) lock_inv_length [OF assms(1)] assms(2) by linarith
  then have "unat (of_nat j :: u16) = j" by (simp add: unat_of_nat take_bit_eq_mod)
  then have "unat (Acquire_poll k v) = j" by (simp add: Acquire_poll_def k)
  with j k show ?thesis using that by blast
qed

lemma lock_inv_holder:
  assumes "lock_inv N (v, T) q" "holds (T t)"
  obtains q' where "q = t # q'"
proof -
  have "t \<in> set q" using assms by (auto simp: lock_inv_def dest: holds_queued)
  then obtain j where j: "j < length q" "q ! j = t" by (auto simp: in_set_conv_nth)
  then have "ticket_ok v j (T t)" using assms(1) by (auto simp: lock_inv_def)
  then have "j = 0" using assms(2) by (auto simp: ticket_ok_def)
  with j that show ?thesis by (cases q) auto
qed

end
