(* ===== verification/Ticket_Lock_Theorems.thy ===== *)
theory Ticket_Lock_Theorems
  imports Ticket_Lock
begin

text \<open>
  The ticket lock implements the queue of a fair lock: one lemma per kind of step, the simulation,
  and what follows for the threads.
\<close>

section \<open>Steps on the queue\<close>

lemma lock_inv_same_queue:
  assumes "lock_inv N (v, T) q" "\<not> queued (T t)" "\<not> queued l"
  shows "lock_inv N (v, T(t := l)) q"
proof -
  have "t \<notin> set q" using assms by (auto simp: lock_inv_def)
  then have "(T(t := l)) (q ! j) = T (q ! j)" if "j < length q" for j using that by auto
  moreover have "{u. queued ((T(t := l)) u)} = {u. queued (T u)}" using assms(2,3) by auto
  ultimately show ?thesis using assms by (auto simp: lock_inv_def)
qed

lemma lock_inv_front:
  assumes "lock_inv N (v, T) (t # q)" "l \<in> {Inside, Leaving (lock_Tail v)}"
  shows "lock_inv N (v, T(t := l)) (t # q)"
proof -
  have d: "t \<notin> set q" "queued (T t)" "queued l" using assms by (auto simp: lock_inv_def)
  then have "{u. queued ((T(t := l)) u)} = {u. queued (T u)}" by auto
  moreover have "ticket_ok v j ((T(t := l)) ((t # q) ! j))" if "j < length (t # q)" for j
  proof (cases j)
    case 0
    with assms(2) show ?thesis by (auto simp: ticket_ok_def)
  next
    case (Suc i)
    with that d(1) have "(T(t := l)) ((t # q) ! j) = T ((t # q) ! j)" by auto
    with that assms(1) show ?thesis by (simp add: lock_inv_def)
  qed
  ultimately show ?thesis using assms(1) d by (auto simp: lock_inv_def)
qed

lemma lock_inv_join:
  assumes "lock_inv N (v, T) q" "t < N" "\<not> queued (T t)" "ticket_ok v (length q) l"
  shows "lock_inv N (v\<lparr>lock_Head := lock_Head v + 1\<rparr>, T(t := l)) (q @ [t])"
proof -
  have d: "t \<notin> set q" "queued l" using assms by (auto simp: lock_inv_def ticket_ok_def)
  then have "{u. queued ((T(t := l)) u)} = insert t {u. queued (T u)}" by auto
  moreover have "ticket_ok v j ((T(t := l)) ((q @ [t]) ! j))" if "j < length (q @ [t])" for j
  proof (cases "j < length q")
    case True
    with d(1) have "(T(t := l)) ((q @ [t]) ! j) = T (q ! j)" by (auto simp: nth_append)
    with True assms(1) show ?thesis by (simp add: lock_inv_def)
  next
    case False
    with that have "j = length q" by simp
    with assms(4) show ?thesis by simp
  qed
  ultimately show ?thesis using assms d by (auto simp: lock_inv_def ticket_ok_def)
qed

lemma lock_inv_leave:
  assumes "lock_inv N (v, T) (t # q)"
  shows "lock_inv N (v\<lparr>lock_Tail := lock_Tail v + 1\<rparr>, T(t := Outside)) q"
proof -
  have d: "t \<notin> set q" using assms by (auto simp: lock_inv_def)
  have "{u. queued ((T(t := Outside)) u)} = {u. queued (T u)} - {t}" by auto
  moreover have "ticket_ok (v\<lparr>lock_Tail := lock_Tail v + 1\<rparr>) j ((T(t := Outside)) (q ! j))" if "j < length q" for j
  proof -
    have "ticket_ok v (Suc j) (T ((t # q) ! Suc j))" using assms that unfolding lock_inv_def by fastforce
    moreover have "(T(t := Outside)) (q ! j) = T (q ! j)" using d that by auto
    ultimately show ?thesis by (simp add: ticket_ok_def add.assoc)
  qed
  ultimately show ?thesis using assms by (auto simp: lock_inv_def)
qed

text \<open>The lock looks free to a thread that tries only if the queue is empty.\<close>

lemma lock_inv_free:
  assumes "lock_inv N (v, T) q" "N \<le> 2 ^ 16" "t < N" "\<not> queued (T t)" "lock_Tail v = lock_Head v"
  shows "q = []"
proof -
  have "t \<notin> set q" "distinct q" "set q \<subseteq> {..<N}" using assms(1,4) by (auto simp: lock_inv_def)
  then have "set q \<subseteq> {..<N} - {t}" by auto
  then have "card (set q) \<le> N - 1" using assms(3) card_mono [of "{..<N} - {t}" "set q"] by simp
  then have len: "length q < 2 ^ 16" using assms(2,3) \<open>distinct q\<close> by (simp add: distinct_card)
  have "lock_Tail v + of_nat (length q) = lock_Tail v" using assms(1,5) by (simp add: lock_inv_def)
  then have "unat (of_nat (length q) :: u16) = 0" by simp
  with len show ?thesis by (simp add: unat_of_nat take_bit_eq_mod)
qed

lemma lock_step_simulates:
  assumes "lock_inv N s q" "N \<le> 2 ^ 16" "lock_step N s s'"
  shows "\<exists>q'. (queue_step q q' \<or> q' = q) \<and> lock_inv N s' q'"
  using assms(3,1)
proof (cases rule: lock_step.cases)
  case (try_read t T v)
  then show ?thesis using assms(1) lock_inv_same_queue [of N v T q t] by auto
next
  case (try_win t T h v v')
  then have h: "lock_Tail v = h" "lock_Head v = h" "v' = v\<lparr>lock_Head := lock_Head v + 1\<rparr>"
    by (auto simp: TryAcquire_cas_eq split: if_splits)
  have "q = []" using lock_inv_free [of N v T q t] assms(1,2) try_win h by simp
  with assms(1) try_win h lock_inv_join [of N v T "[]" t Inside] show ?thesis
    by (auto simp: ticket_ok_def intro: queue_step.join [of t "[]", simplified])
next
  case (try_lose t T h v v')
  then have "v' = v" by (auto simp: TryAcquire_cas_eq split: if_splits)
  with try_lose show ?thesis using assms(1) lock_inv_same_queue [of N v T q t] by auto
next
  case (fetch t T v k v')
  then have k: "k = lock_Tail v + of_nat (length q)" "v' = v\<lparr>lock_Head := lock_Head v + 1\<rparr>" "t \<notin> set q"
    using assms(1) by (auto simp: Acquire_fetch_def lock_inv_def)
  with assms(1) fetch lock_inv_join [of N v T q t "Waiting k"] show ?thesis
    by (auto simp: ticket_ok_def intro: queue_step.join)
next
  case (enter t T k v)
  have inv: "lock_inv N (v, T) q" using assms(1) enter(1) by simp
  obtain j where "j < length q" "q ! j = t" "unat (Acquire_poll k v) = j"
    using lock_inv_position [OF inv assms(2) enter(4)] by blast
  then obtain q' where "q = t # q'" using enter by (cases q) auto
  with assms(1) enter lock_inv_front [of N v T t q' Inside] show ?thesis by auto
next
  case (release_load t T v)
  then obtain q' where "q = t # q'" using lock_inv_holder [of N v T q t] assms(1) by auto
  with assms(1) release_load lock_inv_front [of N v T t q' "Leaving (lock_Tail v)"] show ?thesis
    by (auto simp: lock_Release_load_def)
next
  case (release_store t T k v)
  then obtain q' where q: "q = t # q'" using lock_inv_holder [of N v T q t] assms(1) by auto
  then have "ticket_ok v 0 (T t)" using assms(1) release_store(1) by (auto simp: lock_inv_def)
  then have "k = lock_Tail v" using release_store by (auto simp: ticket_ok_def)
  with q assms(1) release_store lock_inv_leave [of N v T t q'] show ?thesis
    by (auto simp: lock_Release_store_def intro: queue_step.leave)
qed

interpretation tickets: simulation "lock_step (min N (2 ^ 16))" queue_step "lock_inv (min N (2 ^ 16))" for N
  by unfold_locales (rule lock_step_simulates, simp_all)

lemma lock_inv_Reset: "lock_inv N (lock_Reset, \<lambda>_. Outside) []"
  by (simp add: lock_inv_def lock_Reset_def)

lemma reachable_queue:
  assumes "N \<le> 2 ^ 16" "rtranclp (lock_step N) (lock_Reset, \<lambda>_. Outside) (v, T)"
  obtains q where "rtranclp queue_step [] q" "lock_inv N (v, T) q"
  using tickets.reachable_simulates [of N "(lock_Reset, \<lambda>_. Outside)" "(v, T)" "[]"] assms lock_inv_Reset
  by (auto simp: min_absorb1)

section \<open>Theorems\<close>

text \<open>
  C20. Mutual exclusion: however the accesses of up to \<open>2 ^ 16\<close> threads to a reset ticket lock are
  interleaved, and however often its counters wrap around, two threads are never both between the
  end of an acquisition (by \<open>Acquire\<close> or \<open>TryAcquire\<close>) and the end of its release.
\<close>

theorem ticket_lock_mutual_exclusion:
  assumes "N \<le> 2 ^ 16" "rtranclp (lock_step N) (lock_Reset, \<lambda>_. Outside) (v, T)"
    and "holds (T t)" "holds (T u)"
  shows "t = u"
proof -
  obtain q where q: "lock_inv N (v, T) q" using reachable_queue [OF assms(1,2)] by blast
  obtain q1 where q1: "q = t # q1" using lock_inv_holder [OF q assms(3)] .
  obtain q2 where "q = u # q2" using lock_inv_holder [OF q assms(4)] .
  with q1 show ?thesis by simp
qed

text \<open>An execution for the witnesses: thread 0 takes the lock, thread 1 draws the next ticket.\<close>

definition demo_lock :: ticketlock where
  "demo_lock = \<lparr>lock_Tail = 0, lock_Head = 2\<rparr>"

definition demo_threads :: "nat \<Rightarrow> lock_thread" where
  "demo_threads = (\<lambda>_. Outside)(0 := Inside, 1 := Waiting 1)"

lemma demo_lock_reachable: "rtranclp (lock_step 2) (lock_Reset, \<lambda>_. Outside) (demo_lock, demo_threads)"
proof -
  let ?T = "\<lambda>_ :: nat. Outside" and ?v = "\<lparr>lock_Tail = 0, lock_Head = 1\<rparr> :: ticketlock"
  have "lock_step 2 (lock_Reset, ?T) (?v, ?T(0 := Waiting 0))"
    by (rule lock_step.fetch) (simp_all add: Acquire_fetch_def lock_Reset_def)
  moreover have "lock_step 2 (?v, ?T(0 := Waiting 0)) (?v, ?T(0 := Inside))"
    using lock_step.enter [of 0 2 "?T(0 := Waiting 0)" 0 ?v] by (simp add: Acquire_poll_def)
  moreover have "lock_step 2 (?v, ?T(0 := Inside)) (demo_lock, demo_threads)"
    unfolding demo_threads_def
    by (rule lock_step.fetch) (simp_all add: Acquire_fetch_def demo_lock_def)
  ultimately show ?thesis by (meson r_into_rtranclp rtranclp_trans)
qed

theorem ticket_lock_mutual_exclusion_witness:
  "holds (demo_threads 0) \<and> \<not> holds (demo_threads 1)"
proof -
  have "holds (demo_threads 0)" by (simp add: demo_threads_def)
  with ticket_lock_mutual_exclusion [OF _ demo_lock_reachable, of 0 1] show ?thesis by auto
qed

text \<open>
  C21. Fairness: every reachable state has the threads that want the lock in a queue, in the order
  they drew their tickets, which only ever grows at the end by one thread and shrinks at the front
  by the thread that releases; the difference a waiting thread polls is the number of threads
  before it, so it enters exactly when it is the first, and the pauses of a round are as many.
\<close>

theorem ticket_lock_fifo:
  assumes "N \<le> 2 ^ 16" "rtranclp (lock_step N) (lock_Reset, \<lambda>_. Outside) (v, T)"
  shows "\<exists>q. rtranclp queue_step [] q \<and> distinct q \<and> set q = {t. queued (T t)}
    \<and> (\<forall>s'. lock_step N (v, T) s' \<longrightarrow> (\<exists>q'. (queue_step q q' \<or> q' = q) \<and> lock_inv N s' q'))
    \<and> (\<forall>t k. T t = Waiting k \<longrightarrow> unat (Acquire_poll k v) < length q \<and> q ! unat (Acquire_poll k v) = t)"
proof -
  obtain q where q: "rtranclp queue_step [] q" "lock_inv N (v, T) q" using reachable_queue [OF assms] by blast
  have "unat (Acquire_poll k v) < length q \<and> q ! unat (Acquire_poll k v) = t" if wait: "T t = Waiting k" for t k
  proof -
    obtain j where "j < length q" "q ! j = t" "unat (Acquire_poll k v) = j"
      using lock_inv_position [OF q(2) assms(1) wait] by blast
    then show ?thesis by simp
  qed
  moreover have "distinct q" "set q = {t. queued (T t)}" using q(2) by (auto simp: lock_inv_def)
  ultimately show ?thesis using q lock_step_simulates [OF q(2) assms(1)] by blast
qed

theorem ticket_lock_fifo_witness: "Acquire_poll 1 demo_lock = 1 \<and> (\<exists>q. q ! 1 = (1 :: nat) \<and> 1 < length q \<and> distinct q
    \<and> set q = {t. queued (demo_threads t)})"
proof -
  have poll: "Acquire_poll 1 demo_lock = 1" by (simp add: Acquire_poll_def demo_lock_def)
  have thread: "demo_threads 1 = Waiting 1" by (simp add: demo_threads_def)
  have N: "(2 :: nat) \<le> 2 ^ 16" by simp
  obtain q where q: "distinct q" "set q = {t. queued (demo_threads t)}"
    "\<forall>t k. demo_threads t = Waiting k
       \<longrightarrow> unat (Acquire_poll k demo_lock) < length q \<and> q ! unat (Acquire_poll k demo_lock) = t"
    using ticket_lock_fifo [OF N demo_lock_reachable] by blast
  from q(3) [rule_format, OF thread] poll have "q ! 1 = 1" "1 < length q" by simp_all
  with q(1,2) poll show ?thesis by blast
qed

text \<open>
  C22. No deadlock: in every reachable state in which some thread waits for the lock or holds it, the
  thread in front of all others can take a step, and at the latest the third step of that thread
  has passed the lock on to the next one.
\<close>

theorem ticket_lock_progress:
  assumes "N \<le> 2 ^ 16" "rtranclp (lock_step N) (lock_Reset, \<lambda>_. Outside) (v, T)" "queued (T u)"
  shows "\<exists>t. queued (T t) \<and> (\<exists>k. T t = Waiting k \<and> Acquire_poll k v = 0 \<or> holds (T t))
    \<and> rtranclp (lock_step N) (v, T) (lock_Release v, T(t := Outside))"
proof -
  obtain q where q: "lock_inv N (v, T) q" using reachable_queue [OF assms(1,2)] by blast
  then have "u \<in> set q" using assms(3) by (auto simp: lock_inv_def)
  then obtain t q' where tq: "q = t # q'" by (cases q) auto
  have tN: "t < N" and ok: "ticket_ok v 0 (T t)" and "queued (T t)" using q tq by (auto simp: lock_inv_def)
  have store: "lock_step N (v, T(t := Leaving (lock_Tail v))) (lock_Release v, T(t := Outside))"
    using lock_step.release_store [of t N "T(t := Leaving (lock_Tail v))" "lock_Tail v" v] tN
    by (simp add: lock_Release_def lock_Release_load_def)
  have load: "lock_step N (v, T(t := Inside)) (v, T(t := Leaving (lock_Tail v)))"
    using lock_step.release_load [of t N "T(t := Inside)" v] tN by (simp add: lock_Release_load_def)
  consider "T t = Waiting (lock_Tail v)" | "T t = Inside" | "T t = Leaving (lock_Tail v)"
    using ok by (auto simp: ticket_ok_def)
  then have "rtranclp (lock_step N) (v, T) (lock_Release v, T(t := Outside))"
  proof cases
    case 1
    then have "lock_step N (v, T) (v, T(t := Inside))" using tN by (auto intro: lock_step.enter simp: Acquire_poll_def)
    with load store show ?thesis by (meson converse_rtranclp_into_rtranclp r_into_rtranclp)
  next
    case 2
    then have "T(t := Inside) = T" by auto
    with load store show ?thesis by (metis converse_rtranclp_into_rtranclp r_into_rtranclp)
  next
    case 3
    then have "T(t := Leaving (lock_Tail v)) = T" by auto
    with store show ?thesis by auto
  qed
  moreover have "\<exists>k. T t = Waiting k \<and> Acquire_poll k v = 0 \<or> holds (T t)"
    using ok by (auto simp: ticket_ok_def Acquire_poll_def)
  ultimately show ?thesis using \<open>queued (T t)\<close> by blast
qed

theorem ticket_lock_progress_witness:
  "\<exists>t. queued (demo_threads t)
    \<and> rtranclp (lock_step 2) (demo_lock, demo_threads) (lock_Release demo_lock, demo_threads(t := Outside))"
proof -
  have "(2 :: nat) \<le> 2 ^ 16" "queued (demo_threads 1)" by (simp_all add: demo_threads_def)
  from ticket_lock_progress [OF this(1) demo_lock_reachable this(2)] show ?thesis by blast
qed

text \<open>A round of \<open>Acquire\<close> pauses as many times as there are threads before it.\<close>

lemma pause_loop_eq: "diff \<noteq> 0 \<Longrightarrow> pause_loop diff = unat diff"
proof (induction diff rule: pause_loop.induct)
  case (1 diff)
  have d: "unat (diff - 1) = unat diff - 1" "0 < unat diff"
    using 1(2) by (simp_all add: unat_minus_one unat_gt_0)
  show ?case
  proof (cases "diff - 1 = 0")
    case True
    then show ?thesis by (subst pause_loop.simps) (simp add: Let_def)
  next
    case False
    then show ?thesis using 1(1) [OF refl False] d by (subst pause_loop.simps) (simp add: Let_def)
  qed
qed

text \<open>Without interference \<open>TryAcquire\<close> takes exactly a free lock, and \<open>Release\<close> undoes it up to a rotation.\<close>

lemma TryAcquire_sequential:
  "TryAcquire v = (if lock_Check v then (True, v\<lparr>lock_Head := lock_Head v + 1\<rparr>) else (False, v))"
  by (auto simp: TryAcquire_def TryAcquire_cas_eq TryAcquire_read_def lock_Check_def)

lemma TryAcquire_Release: "TryAcquire v = (True, v') \<Longrightarrow> lock_Check (lock_Release v')"
  by (auto simp: TryAcquire_sequential lock_Check_def lock_Release_def lock_Release_store_def
      lock_Release_load_def split: if_splits)

end
