(* ===== verification/Rw_Lock.thy ===== *)
theory Rw_Lock
  imports Ticket_Lock
begin

text \<open>
  \<^verbatim>\<open>sysheaders/common/beel/sync/rw.ticket.lock.hpp\<close>: the readers-writer ticket lock of
  multiprocessor builds, which protects a virtual address space. As for the ticket lock the
  operations are split at their accesses to the lock word.
\<close>

section \<open>The lock word\<close>

text \<open>The union has 64 bits, of which the three counters use 48; \<open>rw_Rest\<close> are the bits above them.\<close>

record rwticketlock =
  WritersTail :: u16
  ReadersTail :: u16
  rw_Head :: u16
  rw_Rest :: u16

definition Whole :: "rwticketlock \<Rightarrow> u64" where
  "Whole v = ucast (WritersTail v) OR push_bit 16 (ucast (ReadersTail v))
     OR push_bit 32 (ucast (rw_Head v)) OR push_bit 48 (ucast (rw_Rest v))"

definition of_Whole :: "u64 \<Rightarrow> rwticketlock" where
  "of_Whole w = \<lparr>WritersTail = ucast w, ReadersTail = ucast (drop_bit 16 w), rw_Head = ucast (drop_bit 32 w),
     rw_Rest = ucast (drop_bit 48 w)\<rparr>"

definition cas_Whole :: "u64 \<Rightarrow> u64 \<Rightarrow> rwticketlock \<Rightarrow> bool \<times> rwticketlock" where
  "cas_Whole cmp new v = (if Whole v = cmp then (True, of_Whole new) else (False, v))"

definition rw_Reset :: rwticketlock where
  "rw_Reset = of_Whole 0"

section \<open>Operations\<close>

text \<open>
  The attempts, as the exchange they make with the counters \<open>me\<close> and \<open>write\<close> or \<open>read\<close> they have read
  before; the exchange may also fail for no reason (it is weak). The shift of the 16-bit tail of
  the readers is one of \<open>int\<close>, whose result is sign-extended.
\<close>

definition TryAcquireAsReader_cas :: "u16 \<Rightarrow> u16 \<Rightarrow> rwticketlock \<Rightarrow> bool \<times> rwticketlock" where
  "TryAcquireAsReader_cas head writers v =
     (let me = ucast head :: u64; write = ucast writers;
          cmpnew = push_bit 32 (me + 1) + push_bit 16 (me + 1) + write;
          cmp = push_bit 32 me + push_bit 16 me + write
      in cas_Whole cmp cmpnew v)"

definition TryAcquireAsWriter_cas :: "u16 \<Rightarrow> u16 \<Rightarrow> rwticketlock \<Rightarrow> bool \<times> rwticketlock" where
  "TryAcquireAsWriter_cas head readers v =
     (let me = ucast head :: u64; read = scast (push_bit 16 (ucast readers :: u32)) :: u64;
          cmpnew = push_bit 32 (me + 1) + read + me;
          cmp = push_bit 32 me + read + me
      in cas_Whole cmp cmpnew v)"

definition TryAcquireAsReader :: "rwticketlock \<Rightarrow> bool \<times> rwticketlock" where
  "TryAcquireAsReader v = TryAcquireAsReader_cas (rw_Head v) (WritersTail v) v"

definition TryAcquireAsWriter :: "rwticketlock \<Rightarrow> bool \<times> rwticketlock" where
  "TryAcquireAsWriter v = TryAcquireAsWriter_cas (rw_Head v) (ReadersTail v) v"

definition rw_fetch :: "rwticketlock \<Rightarrow> u16 \<times> rwticketlock" where
  "rw_fetch v = (rw_Head v, v\<lparr>rw_Head := rw_Head v + 1\<rparr>)"

definition AcquireAsReader_poll :: "u16 \<Rightarrow> rwticketlock \<Rightarrow> u16" where
  "AcquireAsReader_poll me v = me - ReadersTail v"

definition AcquireAsReader_store :: "u16 \<Rightarrow> rwticketlock \<Rightarrow> rwticketlock" where
  "AcquireAsReader_store tail v = v\<lparr>ReadersTail := tail + 1\<rparr>"

definition AcquireAsWriter_poll :: "u16 \<Rightarrow> rwticketlock \<Rightarrow> u16" where
  "AcquireAsWriter_poll me v = me - WritersTail v"

text \<open>One round of \<open>UpgradeToWriter\<close>: the difference is one of \<open>int\<close>; \<open>None\<close> refuses.\<close>

definition Upgrade_round :: "rwticketlock \<Rightarrow> rwticketlock \<Rightarrow> (bool \<times> rwticketlock) option" where
  "Upgrade_round cur v =
     (if int (unat (ReadersTail cur)) - int (unat (WritersTail cur)) \<noteq> 1 then None
      else let des = \<lparr>WritersTail = WritersTail cur, ReadersTail = ReadersTail cur - 1, rw_Head = rw_Head cur, rw_Rest = 0\<rparr>
           in Some (cas_Whole (Whole cur) (Whole des) v))"

text \<open>
  \<open>UpgradeToWriter\<close> without interference. The weak version makes one round. The strong one repeats its
  loop, whose condition is constant, until it returns: \<open>None\<close> is a run of more than \<open>fuel\<close> rounds.
\<close>

definition UpgradeToWriter_weak :: "rwticketlock \<Rightarrow> bool \<times> rwticketlock" where
  "UpgradeToWriter_weak v =
     (case Upgrade_round v v of None \<Rightarrow> (False, v) | Some (ok, v') \<Rightarrow> (ok, v'))"

fun UpgradeToWriter :: "nat \<Rightarrow> rwticketlock \<Rightarrow> (bool \<times> rwticketlock) option" where
  "UpgradeToWriter 0 v = None"
| "UpgradeToWriter (Suc fuel) v =
     (case Upgrade_round v v of
        None \<Rightarrow> Some (False, v)
      | Some (ok, v') \<Rightarrow> if ok then UpgradeToWriter fuel v' else Some (False, v'))"

definition ReleaseAsReader :: "rwticketlock \<Rightarrow> rwticketlock" where
  "ReleaseAsReader v = v\<lparr>WritersTail := WritersTail v + 1\<rparr>"

definition ReleaseAsWriter_store :: "rwticketlock \<Rightarrow> rwticketlock \<Rightarrow> rwticketlock" where
  "ReleaseAsWriter_store temp v =
     v\<lparr>WritersTail := WritersTail temp + 1, ReadersTail := ReadersTail temp + 1\<rparr>"

definition DowngradeToReader_store :: "u16 \<Rightarrow> rwticketlock \<Rightarrow> rwticketlock" where
  "DowngradeToReader_store tail v = v\<lparr>ReadersTail := tail + 1\<rparr>"

definition HasWriter :: "rwticketlock \<Rightarrow> bool" where
  "HasWriter v \<longleftrightarrow> ReadersTail v < rw_Head v"

text \<open>The count is a difference of \<open>int\<close>, converted to \<open>size_t\<close>.\<close>

definition GetReaderCount :: "rwticketlock \<Rightarrow> u64" where
  "GetReaderCount v = ucast (ReadersTail v) - ucast (WritersTail v)"

section \<open>Threads\<close>

datatype rw_thread =
    Rw_Out | R_Waiting u16 | R_Entering | R_Storing u16 | Reading
  | W_Waiting u16 | Writing | W_Releasing rwticketlock | Downgrading u16

type_synonym rw_state = "rwticketlock \<times> (nat \<Rightarrow> rw_thread)"

text \<open>
  Steps of \<open>N\<close> threads that acquire, release and downgrade. (The attempts and the upgrade are looked at
  separately.)
\<close>

inductive rw_step :: "nat \<Rightarrow> rw_state \<Rightarrow> rw_state \<Rightarrow> bool" for N where
  r_fetch: "t < N \<Longrightarrow> T t = Rw_Out \<Longrightarrow> rw_fetch v = (k, v') \<Longrightarrow> rw_step N (v, T) (v', T(t := R_Waiting k))"
| r_poll: "t < N \<Longrightarrow> T t = R_Waiting k \<Longrightarrow> AcquireAsReader_poll k v = 0 \<Longrightarrow> rw_step N (v, T) (v, T(t := R_Entering))"
| r_load: "t < N \<Longrightarrow> T t = R_Entering \<Longrightarrow> rw_step N (v, T) (v, T(t := R_Storing (ReadersTail v)))"
| r_store: "t < N \<Longrightarrow> T t = R_Storing x \<Longrightarrow> rw_step N (v, T) (AcquireAsReader_store x v, T(t := Reading))"
| r_release: "t < N \<Longrightarrow> T t = Reading \<Longrightarrow> rw_step N (v, T) (ReleaseAsReader v, T(t := Rw_Out))"
| w_fetch: "t < N \<Longrightarrow> T t = Rw_Out \<Longrightarrow> rw_fetch v = (k, v') \<Longrightarrow> rw_step N (v, T) (v', T(t := W_Waiting k))"
| w_poll: "t < N \<Longrightarrow> T t = W_Waiting k \<Longrightarrow> AcquireAsWriter_poll k v = 0 \<Longrightarrow> rw_step N (v, T) (v, T(t := Writing))"
| w_load: "t < N \<Longrightarrow> T t = Writing \<Longrightarrow> rw_step N (v, T) (v, T(t := W_Releasing v))"
| w_store: "t < N \<Longrightarrow> T t = W_Releasing temp \<Longrightarrow> rw_step N (v, T) (ReleaseAsWriter_store temp v, T(t := Rw_Out))"
| d_load: "t < N \<Longrightarrow> T t = Writing \<Longrightarrow> rw_step N (v, T) (v, T(t := Downgrading (ReadersTail v)))"
| d_store: "t < N \<Longrightarrow> T t = Downgrading x \<Longrightarrow> rw_step N (v, T) (DowngradeToReader_store x v, T(t := Reading))"

text \<open>With the exchange of the weak \<open>UpgradeToWriter\<close> as a further step.\<close>

inductive rw_upgrade_step :: "nat \<Rightarrow> rw_state \<Rightarrow> rw_state \<Rightarrow> bool" for N where
  rw: "rw_step N s s' \<Longrightarrow> rw_upgrade_step N s s'"
| upgrade: "t < N \<Longrightarrow> T t = Reading \<Longrightarrow> Upgrade_round v v = Some (True, v')
    \<Longrightarrow> rw_upgrade_step N (v, T) (v', T(t := Writing))"

definition reads :: "rw_thread \<Rightarrow> bool" where
  "reads l \<longleftrightarrow> l = Reading"

definition writes :: "rw_thread \<Rightarrow> bool" where
  "writes l \<longleftrightarrow> (case l of Writing \<Rightarrow> True | W_Releasing _ \<Rightarrow> True | Downgrading _ \<Rightarrow> True | _ \<Rightarrow> False)"

text \<open>The specification: readers inside and the others in a queue, a writer being the first of it.\<close>

type_synonym rw_spec = "nat set \<times> nat list"

inductive rw_spec_step :: "rw_spec \<Rightarrow> rw_spec \<Rightarrow> bool" where
  join: "t \<notin> R \<Longrightarrow> t \<notin> set q \<Longrightarrow> rw_spec_step (R, q) (R, q @ [t])"
| enter: "rw_spec_step (R, t # q) (insert t R, q)"
| leave_reader: "t \<in> R \<Longrightarrow> rw_spec_step (R, q) (R - {t}, q)"
| leave_writer: "rw_spec_step ({}, t # q) ({}, q)"

text \<open>What a thread at position \<open>j\<close> of the queue may be doing while \<open>n\<close> readers are inside.\<close>

definition front_ok :: "rwticketlock \<Rightarrow> nat \<Rightarrow> rw_thread \<Rightarrow> bool" where
  "front_ok v n l \<longleftrightarrow> (case l of
      R_Entering \<Rightarrow> True
    | R_Storing x \<Rightarrow> x = ReadersTail v
    | Writing \<Rightarrow> n = 0
    | W_Releasing temp \<Rightarrow> n = 0 \<and> WritersTail temp = WritersTail v \<and> ReadersTail temp = ReadersTail v
    | Downgrading x \<Rightarrow> n = 0 \<and> x = ReadersTail v
    | _ \<Rightarrow> False)"

definition place_ok :: "rwticketlock \<Rightarrow> nat \<Rightarrow> nat \<Rightarrow> rw_thread \<Rightarrow> bool" where
  "place_ok v n j l \<longleftrightarrow> (let k = ReadersTail v + of_nat j in l = R_Waiting k \<or> l = W_Waiting k \<or> j = 0 \<and> front_ok v n l)"

definition rw_inv :: "nat \<Rightarrow> rw_state \<Rightarrow> rw_spec \<Rightarrow> bool" where
  "rw_inv N s a \<longleftrightarrow> (case s of (v, T) \<Rightarrow> case a of (R, q) \<Rightarrow>
     finite R \<and> distinct q \<and> R = {t. T t = Reading} \<and> set q = {t. T t \<noteq> Reading \<and> T t \<noteq> Rw_Out}
     \<and> (\<forall>t. T t \<noteq> Rw_Out \<longrightarrow> t < N)
     \<and> ReadersTail v = WritersTail v + of_nat (card R) \<and> rw_Head v = ReadersTail v + of_nat (length q)
     \<and> (\<forall>j < length q. place_ok v (card R) j (T (q ! j))))"

end
