(* ===== verification/Rw_Lock_Theorems.thy ===== *)
theory Rw_Lock_Theorems
  imports Rw_Lock
begin

text \<open>
  The readers-writer ticket lock implements its specification; exclusion follows. The attempts and
  the upgrade do not fit: what they do is stated at the end.
\<close>

section \<open>Steps on the specification\<close>

lemma place_Suc: "place_ok v n (Suc j) l \<longleftrightarrow>
    l = R_Waiting (ReadersTail v + 1 + of_nat j) \<or> l = W_Waiting (ReadersTail v + 1 + of_nat j)"
  by (simp add: place_ok_def Let_def add.assoc)

lemma rw_inv_place: "rw_inv N (v, T) (R, q) \<Longrightarrow> j < length q \<Longrightarrow> place_ok v (card R) j (T (q ! j))"
  unfolding rw_inv_def prod.case by blast

lemma rw_inv_count:
  assumes "rw_inv N (v, T) (R, q)"
  shows "card R + length q \<le> N"
proof -
  have sub: "R \<union> set q \<subseteq> {..<N}" "R \<inter> set q = {}" "finite R" "distinct q"
    using assms by (auto simp: rw_inv_def)
  then have "card (R \<union> set q) \<le> card {..<N}" by (intro card_mono) simp_all
  moreover have "card (R \<union> set q) = card R + length q"
    using sub by (simp add: card_Un_disjoint distinct_card)
  ultimately show ?thesis by simp
qed

lemma rw_inv_waiting:
  assumes "rw_inv N (v, T) (R, q)" "N \<le> 2 ^ 16" "T t = R_Waiting k \<or> T t = W_Waiting k"
  obtains j where "j < length q" "q ! j = t" "unat (AcquireAsReader_poll k v) = j"
    "unat (AcquireAsWriter_poll k v) = card R + j"
proof -
  have "t \<in> set q" using assms by (auto simp: rw_inv_def)
  then obtain j where j: "j < length q" "q ! j = t" by (auto simp: in_set_conv_nth)
  then have "place_ok v (card R) j (T t)" using rw_inv_place [OF assms(1)] by blast
  then have k: "k = ReadersTail v + of_nat j"
    using assms(3) by (auto simp: place_ok_def front_ok_def Let_def)
  have small: "card R + j < 2 ^ 16" using j(1) rw_inv_count [OF assms(1)] assms(2) by linarith
  have "ReadersTail v = WritersTail v + of_nat (card R)" using assms(1) by (simp add: rw_inv_def)
  then have w: "AcquireAsWriter_poll k v = of_nat (card R + j)" "AcquireAsReader_poll k v = of_nat j"
    by (simp_all add: AcquireAsWriter_poll_def AcquireAsReader_poll_def k)
  have un: "unat (of_nat m :: u16) = m" if "m \<le> card R + j" for m
    using small that by (simp add: unat_of_nat take_bit_eq_mod)
  show ?thesis using that [OF j] un [of j] un [of "card R + j"] by (simp add: w)
qed

lemma rw_inv_front:
  assumes "rw_inv N (v, T) (R, q)" "T t \<notin> {Rw_Out, Reading}" "\<forall>k. T t \<noteq> R_Waiting k \<and> T t \<noteq> W_Waiting k"
  obtains q' where "q = t # q'" "front_ok v (card R) (T t)"
proof -
  have "t \<in> set q" using assms by (auto simp: rw_inv_def)
  then obtain j where j: "j < length q" "q ! j = t" by (auto simp: in_set_conv_nth)
  then have "place_ok v (card R) j (T t)" using rw_inv_place [OF assms(1)] by blast
  then have "j = 0" "front_ok v (card R) (T t)" using assms(3) by (auto simp: place_ok_def Let_def)
  with j that show ?thesis by (cases q) auto
qed

lemma rw_inv_set_front:
  assumes "rw_inv N (v, T) (R, t # q)" "front_ok v (card R) l"
  shows "rw_inv N (v, T(t := l)) (R, t # q)"
proof -
  have l: "l \<noteq> Reading" "l \<noteq> Rw_Out" using assms(2) by (auto simp: front_ok_def)
  have t: "T t \<noteq> Reading" "T t \<noteq> Rw_Out" "t \<notin> set q" using assms(1) by (auto simp: rw_inv_def)
  have "{u. (T(t := l)) u = Reading} = {u. T u = Reading}" "t < N"
    "{u. (T(t := l)) u \<noteq> Reading \<and> (T(t := l)) u \<noteq> Rw_Out} = {u. T u \<noteq> Reading \<and> T u \<noteq> Rw_Out}"
    using l t assms(1) by (auto simp: rw_inv_def)
  moreover have "place_ok v (card R) j ((T(t := l)) ((t # q) ! j))" if "j < length (t # q)" for j
  proof (cases j)
    case 0
    with assms(2) show ?thesis by (simp add: place_ok_def Let_def)
  next
    case (Suc i)
    with that t(3) have "(T(t := l)) ((t # q) ! j) = T ((t # q) ! j)" by auto
    with rw_inv_place [OF assms(1) that] show ?thesis by simp
  qed
  ultimately show ?thesis using assms(1) by (auto simp: rw_inv_def)
qed

lemma rw_inv_join:
  assumes "rw_inv N (v, T) (R, q)" "t < N" "T t = Rw_Out" "l = R_Waiting (rw_Head v) \<or> l = W_Waiting (rw_Head v)"
  shows "rw_inv N (v\<lparr>rw_Head := rw_Head v + 1\<rparr>, T(t := l)) (R, q @ [t])"
proof -
  have t: "t \<notin> set q" "t \<notin> R" using assms(1,3) by (auto simp: rw_inv_def)
  have l: "l \<noteq> Reading" "l \<noteq> Rw_Out" using assms(4) by auto
  have "{u. (T(t := l)) u = Reading} = {u. T u = Reading}"
    "{u. (T(t := l)) u \<noteq> Reading \<and> (T(t := l)) u \<noteq> Rw_Out} = insert t {u. T u \<noteq> Reading \<and> T u \<noteq> Rw_Out}"
    using l assms(3) by auto
  moreover have "place_ok (v\<lparr>rw_Head := rw_Head v + 1\<rparr>) (card R) j ((T(t := l)) ((q @ [t]) ! j))"
    if "j < length (q @ [t])" for j
  proof (cases "j < length q")
    case True
    with t(1) have "(T(t := l)) ((q @ [t]) ! j) = T (q ! j)" by (auto simp: nth_append)
    moreover have "place_ok v (card R) j (T (q ! j))" by (rule rw_inv_place [OF assms(1) True])
    ultimately show ?thesis by (simp add: place_ok_def front_ok_def split: rw_thread.splits)
  next
    case False
    with that have "j = length q" by simp
    then show ?thesis using assms(1,4) by (auto simp: rw_inv_def place_ok_def Let_def)
  qed
  ultimately show ?thesis using assms t by (auto simp: rw_inv_def)
qed

lemma rw_inv_shift:
  assumes "rw_inv N (v, T) (R, t # q)" "ReadersTail v' = ReadersTail v + 1" "j < length q" "T' (q ! j) = T (q ! j)"
  shows "place_ok v' n j (T' (q ! j))"
proof -
  have "place_ok v (card R) (Suc j) (T ((t # q) ! Suc j))" using assms(3) by (intro rw_inv_place [OF assms(1)]) simp
  then show ?thesis using assms(2,4) by (auto simp: place_Suc place_ok_def Let_def)
qed

lemma rw_inv_enter:
  assumes "rw_inv N (v, T) (R, t # q)"
  shows "rw_inv N (v\<lparr>ReadersTail := ReadersTail v + 1\<rparr>, T(t := Reading)) (insert t R, q)"
proof -
  have t: "t \<notin> set q" "t \<notin> R" "t < N" using assms by (auto simp: rw_inv_def)
  have "{u. (T(t := Reading)) u = Reading} = insert t {u. T u = Reading}"
    "{u. (T(t := Reading)) u \<noteq> Reading \<and> (T(t := Reading)) u \<noteq> Rw_Out} = {u. T u \<noteq> Reading \<and> T u \<noteq> Rw_Out} - {t}"
    by auto
  moreover have "place_ok (v\<lparr>ReadersTail := ReadersTail v + 1\<rparr>) n j ((T(t := Reading)) (q ! j))" if "j < length q" for n j
    using t(1) that by (intro rw_inv_shift [OF assms]) auto
  ultimately show ?thesis using assms t by (auto simp: rw_inv_def)
qed

lemma rw_inv_leave_reader:
  assumes "rw_inv N (v, T) (R, q)" "T t = Reading"
  shows "rw_inv N (ReleaseAsReader v, T(t := Rw_Out)) (R - {t}, q)"
proof -
  have t: "t \<in> R" "finite R" "t \<notin> set q" using assms by (auto simp: rw_inv_def)
  then have "0 < card R" by (auto simp: card_gt_0_iff)
  then have c: "card R = card (R - {t}) + 1" using t by simp
  have "{u. (T(t := Rw_Out)) u = Reading} = {u. T u = Reading} - {t}"
    "{u. (T(t := Rw_Out)) u \<noteq> Reading \<and> (T(t := Rw_Out)) u \<noteq> Rw_Out} = {u. T u \<noteq> Reading \<and> T u \<noteq> Rw_Out}"
    using assms(2) by auto
  moreover have "place_ok (ReleaseAsReader v) (card (R - {t})) j ((T(t := Rw_Out)) (q ! j))" if "j < length q" for j
  proof -
    have "place_ok v (card R) j (T (q ! j))" by (rule rw_inv_place [OF assms(1) that])
    moreover have "(T(t := Rw_Out)) (q ! j) = T (q ! j)" using t(3) that by auto
    ultimately show ?thesis using \<open>0 < card R\<close>
      by (auto simp: place_ok_def front_ok_def Let_def ReleaseAsReader_def split: rw_thread.splits)
  qed
  ultimately show ?thesis using assms c by (auto simp: rw_inv_def ReleaseAsReader_def)
qed

lemma rw_inv_leave_writer:
  assumes "rw_inv N (v, T) ({}, t # q)"
  shows "rw_inv N (v\<lparr>WritersTail := WritersTail v + 1, ReadersTail := ReadersTail v + 1\<rparr>, T(t := Rw_Out)) ({}, q)"
proof -
  let ?v = "v\<lparr>WritersTail := WritersTail v + 1, ReadersTail := ReadersTail v + 1\<rparr>"
  have t: "t \<notin> set q" "T t \<noteq> Reading" using assms by (auto simp: rw_inv_def)
  have "{u. (T(t := Rw_Out)) u = Reading} = {u. T u = Reading}"
    "{u. (T(t := Rw_Out)) u \<noteq> Reading \<and> (T(t := Rw_Out)) u \<noteq> Rw_Out} = {u. T u \<noteq> Reading \<and> T u \<noteq> Rw_Out} - {t}"
    using t(2) by auto
  moreover have "place_ok ?v n j ((T(t := Rw_Out)) (q ! j))" if "j < length q" for n j
    using t(1) that by (intro rw_inv_shift [OF assms]) auto
  ultimately show ?thesis using assms by (auto simp: rw_inv_def)
qed

lemma rw_step_simulates:
  assumes "rw_inv N s a" "N \<le> 2 ^ 16" "rw_step N s s'"
  shows "\<exists>a'. (rw_spec_step a a' \<or> a' = a) \<and> rw_inv N s' a'"
proof -
  obtain R q where a: "a = (R, q)" by (cases a)
  note inv = assms(1) [unfolded a]
  from assms(3) show ?thesis
  proof (cases rule: rw_step.cases)
    case (r_fetch t T v k v')
    then have "v' = v\<lparr>rw_Head := rw_Head v + 1\<rparr>" "k = rw_Head v" "t \<notin> R" "t \<notin> set q"
      using inv by (auto simp: rw_fetch_def rw_inv_def)
    with inv r_fetch rw_inv_join [of N v T R q t "R_Waiting k"] show ?thesis by (auto simp: a intro: rw_spec_step.join)
  next
    case (w_fetch t T v k v')
    then have "v' = v\<lparr>rw_Head := rw_Head v + 1\<rparr>" "k = rw_Head v" "t \<notin> R" "t \<notin> set q"
      using inv by (auto simp: rw_fetch_def rw_inv_def)
    with inv w_fetch rw_inv_join [of N v T R q t "W_Waiting k"] show ?thesis by (auto simp: a intro: rw_spec_step.join)
  next
    case (r_poll t T k v)
    have inv': "rw_inv N (v, T) (R, q)" using inv r_poll(1) by simp
    obtain j where "j < length q" "q ! j = t" "unat (AcquireAsReader_poll k v) = j"
      using rw_inv_waiting [OF inv' assms(2), of t k] r_poll(4) by blast
    then obtain q' where "q = t # q'" using r_poll(5) by (cases q) auto
    with rw_inv_set_front [of N v T R t q' R_Entering] inv' r_poll show ?thesis by (auto simp: a front_ok_def)
  next
    case (w_poll t T k v)
    have inv': "rw_inv N (v, T) (R, q)" using inv w_poll(1) by simp
    obtain j where "j < length q" "q ! j = t" "unat (AcquireAsWriter_poll k v) = card R + j"
      using rw_inv_waiting [OF inv' assms(2), of t k] w_poll(4) by blast
    then obtain q' where "q = t # q'" "card R = 0" using w_poll(5) by (cases q) auto
    with rw_inv_set_front [of N v T R t q' Writing] inv' w_poll show ?thesis by (auto simp: a front_ok_def)
  next
    case (r_load t T v)
    obtain q' where "q = t # q'" using rw_inv_front [of N v T R q t] inv r_load by auto
    with rw_inv_set_front [of N v T R t q' "R_Storing (ReadersTail v)"] inv r_load show ?thesis by (auto simp: a front_ok_def)
  next
    case (r_store t T x v)
    obtain q' where "q = t # q'" "front_ok v (card R) (T t)" using rw_inv_front [of N v T R q t] inv r_store by auto
    with rw_inv_enter [of N v T R t q'] inv r_store show ?thesis
      by (auto simp: a front_ok_def AcquireAsReader_store_def intro: rw_spec_step.enter)
  next
    case (r_release t T v)
    then have "t \<in> R" using inv by (auto simp: rw_inv_def)
    with rw_inv_leave_reader [of N v T R q t] inv r_release show ?thesis by (auto simp: a intro: rw_spec_step.leave_reader)
  next
    case (w_load t T v)
    obtain q' where "q = t # q'" "front_ok v (card R) (T t)" using rw_inv_front [of N v T R q t] inv w_load by auto
    with rw_inv_set_front [of N v T R t q' "W_Releasing v"] inv w_load show ?thesis by (auto simp: a front_ok_def)
  next
    case (w_store t T temp v)
    obtain q' where q: "q = t # q'" "front_ok v (card R) (T t)" using rw_inv_front [of N v T R q t] inv w_store by auto
    then have "R = {}" "WritersTail temp = WritersTail v" "ReadersTail temp = ReadersTail v"
      using w_store inv by (auto simp: front_ok_def rw_inv_def)
    with rw_inv_leave_writer [of N v T t q'] inv w_store q show ?thesis
      by (auto simp: a ReleaseAsWriter_store_def intro: rw_spec_step.leave_writer)
  next
    case (d_load t T v)
    obtain q' where "q = t # q'" "front_ok v (card R) (T t)" using rw_inv_front [of N v T R q t] inv d_load by auto
    with rw_inv_set_front [of N v T R t q' "Downgrading (ReadersTail v)"] inv d_load show ?thesis by (auto simp: a front_ok_def)
  next
    case (d_store t T x v)
    obtain q' where "q = t # q'" "front_ok v (card R) (T t)" using rw_inv_front [of N v T R q t] inv d_store by auto
    with rw_inv_enter [of N v T R t q'] inv d_store show ?thesis
      by (auto simp: a front_ok_def DowngradeToReader_store_def intro: rw_spec_step.enter)
  qed
qed

interpretation rw: simulation "rw_step (min N (2 ^ 16))" rw_spec_step "rw_inv (min N (2 ^ 16))" for N
  by unfold_locales (rule rw_step_simulates, simp_all)

lemma rw_inv_Reset: "rw_inv N (rw_Reset, \<lambda>_. Rw_Out) ({}, [])"
  by (simp add: rw_inv_def rw_Reset_def of_Whole_def)

lemma rw_reachable:
  assumes "N \<le> 2 ^ 16" "rtranclp (rw_step N) (rw_Reset, \<lambda>_. Rw_Out) (v, T)"
  obtains R q where "rtranclp rw_spec_step ({}, []) (R, q)" "rw_inv N (v, T) (R, q)"
  using rw.reachable_simulates [of N "(rw_Reset, \<lambda>_. Rw_Out)" "(v, T)" "({}, [])"] assms rw_inv_Reset
  by (auto simp: min_absorb1)

section \<open>Theorems\<close>

text \<open>
  C18. Readers and writers exclude each other: however up to \<open>2 ^ 16\<close> threads interleave the accesses of
  acquiring, releasing and downgrading, a writer is alone, and the counters keep the number of
  readers and the number of threads that wait.
\<close>

theorem rw_lock_exclusion:
  assumes "N \<le> 2 ^ 16" "rtranclp (rw_step N) (rw_Reset, \<lambda>_. Rw_Out) (v, T)"
  shows "(writes (T t) \<longrightarrow> (\<forall>u. reads (T u) \<or> writes (T u) \<longrightarrow> u = t))
    \<and> ReadersTail v - WritersTail v = of_nat (card {u. reads (T u)})
    \<and> rw_Head v - ReadersTail v = of_nat (card {u. \<not> reads (T u) \<and> T u \<noteq> Rw_Out})"
proof -
  obtain R q where inv: "rw_inv N (v, T) (R, q)" using rw_reachable [OF assms] by blast
  have "u = t" if "writes (T t)" "reads (T u) \<or> writes (T u)" for u
  proof -
    have front: "\<exists>q'. q = x # q' \<and> card R = 0" if w: "writes (T x)" for x
    proof -
      have "T x \<notin> {Rw_Out, Reading}" "\<forall>k. T x \<noteq> R_Waiting k \<and> T x \<noteq> W_Waiting k"
        using w by (auto simp: writes_def)
      then obtain q' where "q = x # q'" "front_ok v (card R) (T x)" using rw_inv_front [OF inv] by blast
      with w show ?thesis by (auto simp: writes_def front_ok_def split: rw_thread.splits)
    qed
    have "R = {}" using front [OF that(1)] inv by (auto simp: rw_inv_def)
    then have "\<not> reads (T u)" using inv by (auto simp: rw_inv_def reads_def)
    with that(2) have "writes (T u)" by simp
    then show ?thesis using front [OF that(1)] front by fastforce
  qed
  moreover have "{u. reads (T u)} = R" "{u. \<not> reads (T u) \<and> T u \<noteq> Rw_Out} = set q" "distinct q"
    using inv by (auto simp: rw_inv_def reads_def)
  moreover have "ReadersTail v - WritersTail v = of_nat (card R)" "rw_Head v - ReadersTail v = of_nat (length q)"
    using inv by (auto simp: rw_inv_def)
  ultimately show ?thesis by (metis distinct_card)
qed

definition demo_rw :: rwticketlock where
  "demo_rw = \<lparr>WritersTail = 0, ReadersTail = 1, rw_Head = 2, rw_Rest = 0\<rparr>"

definition demo_rw_threads :: "nat \<Rightarrow> rw_thread" where
  "demo_rw_threads = (\<lambda>_. Rw_Out)(0 := Reading, 1 := R_Entering)"

text \<open>Thread 0 reads, thread 1 has found its turn to read.\<close>

lemma demo_rw_reachable: "rtranclp (rw_step 2) (rw_Reset, \<lambda>_. Rw_Out) (demo_rw, demo_rw_threads)"
proof -
  let ?T = "\<lambda>_ :: nat. Rw_Out" and ?v = "\<lambda>r h. \<lparr>WritersTail = 0, ReadersTail = r, rw_Head = h, rw_Rest = 0\<rparr> :: rwticketlock"
  have "rw_step 2 (rw_Reset, ?T) (?v 0 1, ?T(0 := R_Waiting 0))"
    by (rule rw_step.r_fetch) (simp_all add: rw_fetch_def rw_Reset_def of_Whole_def)
  moreover have "rw_step 2 (?v 0 1, ?T(0 := R_Waiting 0)) (?v 0 1, ?T(0 := R_Entering))"
    using rw_step.r_poll [of 0 2 "?T(0 := R_Waiting 0)" 0 "?v 0 1"] by (simp add: AcquireAsReader_poll_def)
  moreover have "rw_step 2 (?v 0 1, ?T(0 := R_Entering)) (?v 0 1, ?T(0 := R_Storing 0))"
    using rw_step.r_load [of 0 2 "?T(0 := R_Entering)" "?v 0 1"] by simp
  moreover have "rw_step 2 (?v 0 1, ?T(0 := R_Storing 0)) (?v 1 1, ?T(0 := Reading))"
    using rw_step.r_store [of 0 2 "?T(0 := R_Storing 0)" 0 "?v 0 1"] by (simp add: AcquireAsReader_store_def)
  moreover have "rw_step 2 (?v 1 1, ?T(0 := Reading)) (?v 1 2, ?T(0 := Reading, 1 := R_Waiting 1))"
    by (rule rw_step.r_fetch) (simp_all add: rw_fetch_def)
  moreover have "rw_step 2 (?v 1 2, ?T(0 := Reading, 1 := R_Waiting 1)) (demo_rw, demo_rw_threads)"
    using rw_step.r_poll [of 1 2 "?T(0 := Reading, 1 := R_Waiting 1)" 1 "?v 1 2"]
    by (simp add: AcquireAsReader_poll_def demo_rw_def demo_rw_threads_def)
  ultimately show ?thesis by (meson converse_rtranclp_into_rtranclp rtranclp.rtrancl_refl)
qed

theorem rw_lock_exclusion_witness:
  "ReadersTail demo_rw - WritersTail demo_rw = of_nat (card {u. reads (demo_rw_threads u)})"
proof -
  have "(2 :: nat) \<le> 2 ^ 16" by simp
  from rw_lock_exclusion [OF this demo_rw_reachable] show ?thesis by blast
qed

text \<open>
  C19. Upgrading breaks the exclusion: from a reachable state with one reader, and a second thread that
  has found its turn to read but has not moved the tail of the readers yet, the exchange of
  \<open>UpgradeToWriter\<close> succeeds for the first one, and the second one enters beside the new writer.
\<close>

theorem rw_upgrade_breaks_exclusion:
  "\<exists>v T. rtranclp (rw_upgrade_step 2) (rw_Reset, \<lambda>_. Rw_Out) (v, T) \<and> T 0 = Writing \<and> T 1 = Reading"
proof -
  have lift: "rtranclp (rw_upgrade_step 2) s s'" if "rtranclp (rw_step 2) s s'" for s s'
    using that by (induction rule: rtranclp_induct) (auto intro: rw_upgrade_step.rw rtranclp.rtrancl_into_rtrancl)
  let ?v = "\<lambda>r. \<lparr>WritersTail = 0, ReadersTail = r, rw_Head = 2, rw_Rest = 0\<rparr> :: rwticketlock"
  let ?T = "(\<lambda>_ :: nat. Rw_Out)(0 := Writing, 1 := R_Entering)"
  have "Upgrade_round demo_rw demo_rw = Some (True, ?v 0)"
    by (simp add: Upgrade_round_def demo_rw_def cas_Whole_def Whole_def of_Whole_def)
  then have "rw_upgrade_step 2 (demo_rw, demo_rw_threads) (?v 0, demo_rw_threads(0 := Writing))"
    by (intro rw_upgrade_step.upgrade) (simp_all add: demo_rw_threads_def)
  moreover have "demo_rw_threads(0 := Writing) = ?T" by (auto simp: demo_rw_threads_def)
  moreover have "rw_step 2 (?v 0, ?T) (?v 0, ?T(1 := R_Storing 0))"
    using rw_step.r_load [of 1 2 ?T "?v 0"] by simp
  moreover have "rw_step 2 (?v 0, ?T(1 := R_Storing 0)) (?v 1, ?T(1 := Reading))"
    using rw_step.r_store [of 1 2 "?T(1 := R_Storing 0)" 0 "?v 0"] by (simp add: AcquireAsReader_store_def)
  ultimately have "rtranclp (rw_upgrade_step 2) (rw_Reset, \<lambda>_. Rw_Out) (?v 1, ?T(1 := Reading))"
    using lift [OF demo_rw_reachable] by (metis (no_types, lifting) rtranclp.rtrancl_into_rtrancl rw_upgrade_step.rw)
  moreover have "(?T(1 := Reading)) 0 = Writing" "(?T(1 := Reading)) 1 = Reading" by simp_all
  ultimately show ?thesis by blast
qed

section \<open>Attempts and upgrades alone\<close>

lemma of_Whole_Whole: "of_Whole (Whole v) = v"
proof -
  have "ucast (Whole v) = WritersTail v" "ucast (drop_bit 16 (Whole v)) = ReadersTail v"
    "ucast (drop_bit 32 (Whole v)) = rw_Head v" "ucast (drop_bit 48 (Whole v)) = rw_Rest v"
    by (rule bit_word_eqI; auto simp: Whole_def bit_simps dest: bit_imp_le_length)+
  then show ?thesis by (simp add: of_Whole_def)
qed

text \<open>
  The strong version of \<open>UpgradeToWriter\<close> always answers false, within two rounds; when there was exactly
  one reader it has taken back the tail of the readers nevertheless.
\<close>

theorem UpgradeToWriter_never_true:
  "UpgradeToWriter (Suc (Suc fuel)) v =
     Some (False, if unat (ReadersTail v) = unat (WritersTail v) + 1 then v\<lparr>ReadersTail := ReadersTail v - 1, rw_Rest := 0\<rparr> else v)"
proof (cases "unat (ReadersTail v) = unat (WritersTail v) + 1")
  case True
  then have "ReadersTail v = WritersTail v + 1" by (metis of_nat_1 of_nat_add of_nat_unat)
  then have "ReadersTail v - 1 = WritersTail v" by simp
  with True show ?thesis by (simp add: Upgrade_round_def cas_Whole_def of_Whole_Whole)
next
  case False
  then have "int (unat (ReadersTail v)) - int (unat (WritersTail v)) \<noteq> 1" by linarith
  then show ?thesis unfolding if_not_P [OF False] by (simp add: Upgrade_round_def)
qed

text \<open>
  When the counters reach their largest value a successful \<open>TryAcquireAsReader\<close> carries from the tail of
  the readers into the head: ticket 0 is skipped, and nobody will ever move the tails past it.
\<close>

theorem TryAcquireAsReader_skips_ticket:
  "TryAcquireAsReader \<lparr>WritersTail = 0xFFFF, ReadersTail = 0xFFFF, rw_Head = 0xFFFF, rw_Rest = 0\<rparr>
     = (True, \<lparr>WritersTail = 0xFFFF, ReadersTail = 0, rw_Head = 1, rw_Rest = 1\<rparr>)"
  by code_simp

text \<open>\<open>TryAcquireAsWriter\<close> fails on a free lock once the tail of the readers has its top bit set.\<close>

theorem TryAcquireAsWriter_sign_extends:
  "TryAcquireAsWriter \<lparr>WritersTail = 0x8000, ReadersTail = 0x8000, rw_Head = 0x8000, rw_Rest = 0\<rparr>
     = (False, \<lparr>WritersTail = 0x8000, ReadersTail = 0x8000, rw_Head = 0x8000, rw_Rest = 0\<rparr>)
   \<and> fst (TryAcquireAsWriter \<lparr>WritersTail = 0x7FFF, ReadersTail = 0x7FFF, rw_Head = 0x7FFF, rw_Rest = 0\<rparr>)"
  by code_simp

end
