(* ===== verification/Bigint.thy ===== *)
theory Bigint
  imports Beel_Prelude "HOL-Library.Monad_Syntax"
begin

text \<open>
  \<^verbatim>\<open>libs/common/src/utils/bigint.cpp\<close>: unsigned integers of many 32-bit digits, the least significant
  first. Arrays live in a store, so that a destination can be one of the sources; a source that is
  only read, or that the code copies first when it is the destination, is passed as the list of
  its digits. \<open>None\<close> stands for an access outside of an array.
\<close>

section \<open>Multiplication\<close>

text \<open>The addition of a 64-bit product at digit \<open>l\<close>, with its carries.\<close>

function carry_loop :: "nat \<Rightarrow> nat \<Rightarrow> u64 \<Rightarrow> u32 list \<Rightarrow> u64 \<times> u32 list" where
  "carry_loop limit l res dst =
     (if res \<noteq> 0 \<and> l < limit
      then let res1 = res + ucast (dst ! l) in
           carry_loop limit (l + 1) (drop_bit 32 res1) (dst[l := ucast res1])
      else (res, dst))"
  by pat_completeness auto
termination by (relation "measure (\<lambda>(limit, l, res, dst). limit - l)") auto

declare carry_loop.simps [simp del]

fun mul_row :: "nat \<Rightarrow> u32 \<Rightarrow> u32 list \<Rightarrow> nat \<Rightarrow> u32 list \<Rightarrow> bool \<Rightarrow> u32 list \<times> bool" where
  "mul_row limit cur [] k dst overflow = (dst, overflow)"
| "mul_row limit cur (d # src2) k dst overflow =
     (if k < limit
      then case carry_loop limit k (ucast cur * ucast d) dst of (res, dst1) \<Rightarrow>
             mul_row limit cur src2 (k + 1) dst1 (if drop_bit 32 res \<noteq> 0 then True else overflow)
      else (dst, overflow))"

fun mul_rows :: "nat \<Rightarrow> u32 list \<Rightarrow> u32 list \<Rightarrow> nat \<Rightarrow> u32 list \<Rightarrow> bool \<Rightarrow> u32 list \<times> bool" where
  "mul_rows limit [] src2 i dst overflow = (dst, overflow)"
| "mul_rows limit (cur # src1) src2 i dst overflow =
     (if cur \<noteq> 0
      then case mul_row limit cur src2 i dst overflow of (dst1, overflow1) \<Rightarrow>
             mul_rows limit src1 src2 (i + 1) dst1 overflow1
      else mul_rows limit src1 src2 (i + 1) dst overflow)"

text \<open>
  Sizes are 32-bit numbers, so is their sum. A source that is the destination is copied before the
  destination is cleared: in every case the sources are the digits before the call.
\<close>

definition BigIntMul :: "u32 list \<Rightarrow> u32 list \<Rightarrow> u32 list \<Rightarrow> u32 \<Rightarrow> bool \<Rightarrow> (bool \<times> u32 list \<times> nat) option" where
  "BigIntMul dst src1 src2 maxSize cin =
     (let limit = unat (min (of_nat (length src1) + of_nat (length src2)) maxSize);
          (src1, src2) = (if length src2 < length src1 then (src2, src1) else (src1, src2))
      in if length dst < limit \<or> dst = [] then None
         else let dst1 = (replicate limit 0 @ drop limit dst)[0 := if cin then 1 else 0];
                  (dst2, overflow) = mul_rows limit src1 src2 0 dst1 False
              in Some (overflow, dst2, limit))"

section \<open>Bitwise operations\<close>

type_synonym arrays = "nat \<Rightarrow> u32 list"

definition rd :: "arrays \<Rightarrow> nat \<Rightarrow> nat \<Rightarrow> u32 option" where
  "rd h p i = (if i < length (h p) then Some (h p ! i) else None)"

definition wr :: "arrays \<Rightarrow> nat \<Rightarrow> nat \<Rightarrow> u32 \<Rightarrow> arrays option" where
  "wr h p i v = (if i < length (h p) then Some (h(p := (h p)[i := v])) else None)"

text \<open>Loops upwards from \<open>i\<close>, \<open>n\<close> times, and downwards to \<open>i\<close>.\<close>

fun for_up :: "nat \<Rightarrow> nat \<Rightarrow> (nat \<Rightarrow> 's \<Rightarrow> 's option) \<Rightarrow> 's \<Rightarrow> 's option" where
  "for_up i 0 body s = Some s"
| "for_up i (Suc n) body s = Option.bind (body i s) (for_up (i + 1) n body)"

fun for_down :: "nat \<Rightarrow> nat \<Rightarrow> (nat \<Rightarrow> 's \<Rightarrow> 's option) \<Rightarrow> 's \<Rightarrow> 's option" where
  "for_down i 0 body s = Some s"
| "for_down i (Suc n) body s = Option.bind (body (i + n) s) (for_down i n body)"

definition memset_0 :: "nat \<Rightarrow> nat \<Rightarrow> nat \<Rightarrow> arrays \<Rightarrow> arrays option" where
  "memset_0 p i n h = for_up i n (\<lambda>i h. wr h p i 0) h"

definition combine_loop :: "(u32 \<Rightarrow> u32 \<Rightarrow> u32) \<Rightarrow> nat \<Rightarrow> nat \<Rightarrow> nat \<Rightarrow> nat \<Rightarrow> arrays \<Rightarrow> arrays option" where
  "combine_loop f dst src1 src2 n h = for_up 0 n (\<lambda>i h. do {
     a \<leftarrow> rd h src1 i; b \<leftarrow> rd h src2 i; wr h dst i (f a b) }) h"

definition copy_loop :: "nat \<Rightarrow> nat \<Rightarrow> nat \<Rightarrow> nat \<Rightarrow> arrays \<Rightarrow> arrays option" where
  "copy_loop dst src i n h = for_up i n (\<lambda>i h. do { a \<leftarrow> rd h src i; wr h dst i a }) h"

definition BigIntAnd2 :: "nat \<Rightarrow> nat \<Rightarrow> nat \<Rightarrow> nat \<Rightarrow> arrays \<Rightarrow> arrays option" where
  "BigIntAnd2 dst sizeD src sizeS h =
     (let sizeS = (if sizeD < sizeS then sizeD else sizeS) in do {
        h1 \<leftarrow> combine_loop (AND) dst dst src sizeS h;
        if sizeS < sizeD then memset_0 dst sizeS (sizeD - sizeS) h1 else Some h1
      })"

definition BigIntAnd :: "nat \<Rightarrow> nat \<Rightarrow> nat \<Rightarrow> nat \<Rightarrow> nat \<Rightarrow> nat \<Rightarrow> arrays \<Rightarrow> arrays option" where
  "BigIntAnd dst sizeD src1 size1 src2 size2 h =
     (if dst = src1 then BigIntAnd2 dst (min sizeD size1) src2 size2 h
      else if dst = src2 then BigIntAnd2 dst (min sizeD size2) src1 size1 h
      else let limit = min size1 size2 in do {
        h1 \<leftarrow> combine_loop (AND) dst src1 src2 limit h;
        if limit < sizeD then memset_0 dst limit (sizeD - limit) h1 else Some h1
      })"

text \<open>\<open>BigIntOr\<close> and \<open>BigIntXor\<close> have the same text but for the operator.\<close>

definition merge2 :: "(u32 \<Rightarrow> u32 \<Rightarrow> u32) \<Rightarrow> nat \<Rightarrow> nat \<Rightarrow> nat \<Rightarrow> nat \<Rightarrow> arrays \<Rightarrow> arrays option" where
  "merge2 f dst sizeD src sizeS h =
     (let sizeS = (if sizeD < sizeS then sizeD else sizeS) in combine_loop f dst dst src sizeS h)"

definition merge :: "(u32 \<Rightarrow> u32 \<Rightarrow> u32) \<Rightarrow> nat \<Rightarrow> nat \<Rightarrow> nat \<Rightarrow> nat \<Rightarrow> nat \<Rightarrow> nat \<Rightarrow> arrays \<Rightarrow> arrays option" where
  "merge f dst sizeD src1 size1 src2 size2 h =
     (if dst = src1 then merge2 f dst (min sizeD size1) src2 size2 h
      else if dst = src2 then merge2 f dst (min sizeD size2) src1 size1 h
      else let size1 = (if sizeD < size1 then sizeD else size1);
               size2 = (if sizeD < size2 then sizeD else size2);
               limit = min size1 size2
      in do {
        h1 \<leftarrow> combine_loop f dst src1 src2 limit h;
        (h2, limit) \<leftarrow>
          (if limit < size1 then do { h2 \<leftarrow> copy_loop dst src1 limit (size1 - limit) h1; Some (h2, size1) }
           else if limit < size2 then do { h2 \<leftarrow> copy_loop dst src2 limit (size2 - limit) h1; Some (h2, size2) }
           else Some (h1, limit));
        if limit < sizeD then memset_0 dst limit (sizeD - limit) h2 else Some h2
      })"

definition BigIntOr :: "nat \<Rightarrow> nat \<Rightarrow> nat \<Rightarrow> nat \<Rightarrow> nat \<Rightarrow> nat \<Rightarrow> arrays \<Rightarrow> arrays option" where
  "BigIntOr = merge (OR)"

definition BigIntXor :: "nat \<Rightarrow> nat \<Rightarrow> nat \<Rightarrow> nat \<Rightarrow> nat \<Rightarrow> nat \<Rightarrow> arrays \<Rightarrow> arrays option" where
  "BigIntXor = merge (XOR)"

definition BigIntNot :: "nat \<Rightarrow> nat \<Rightarrow> nat \<Rightarrow> nat \<Rightarrow> arrays \<Rightarrow> arrays option" where
  "BigIntNot dst sizeD src sizeS h =
     for_up 0 (min sizeD sizeS) (\<lambda>i h. do { a \<leftarrow> rd h src i; wr h dst i (NOT a) }) h"

section \<open>Shifts\<close>

text \<open>One digit of the left shift: \<open>window\<close> is 64 bits wide and its upper half the overflow.\<close>

definition shl_digit :: "nat \<Rightarrow> nat \<Rightarrow> nat \<Rightarrow> nat \<Rightarrow> arrays \<times> u32 \<Rightarrow> (arrays \<times> u32) option" where
  "shl_digit dst src amnt i s =
     (case s of (h, overflow) \<Rightarrow> do {
        a \<leftarrow> rd h src i;
        let window = push_bit amnt (ucast a :: u64) OR ucast overflow;
        h1 \<leftarrow> wr h dst i (ucast window);
        Some (h1, ucast (drop_bit 32 window))
      })"

definition BigIntShL :: "nat \<Rightarrow> nat \<Rightarrow> nat \<Rightarrow> nat \<Rightarrow> nat \<Rightarrow> u64 \<Rightarrow> arrays \<Rightarrow> (bool \<times> nat \<times> arrays) option" where
  "BigIntShL dst sizeD src sizeS sizeM amnt h =
     (let amntMov = unat (drop_bit 5 amnt); amnt = unat (amnt AND 31) in
      if sizeM \<le> amntMov
      then do { h1 \<leftarrow> memset_0 dst 0 sizeM h; Some (True, sizeM, h1) }
      else let sizeD = min sizeM (sizeS + amntMov) in do {
        (h1, overflow) \<leftarrow>
          (if amntMov \<noteq> 0
           then do {
             h1 \<leftarrow> for_down amntMov (sizeD - amntMov) (\<lambda>i h. do { a \<leftarrow> rd h src (i - amntMov); wr h dst i a }) h;
             (h2, overflow) \<leftarrow> for_up amntMov (sizeD - amntMov) (shl_digit dst src amnt) (h1, 0);
             h3 \<leftarrow> memset_0 dst 0 amntMov h2;
             Some (h3, overflow)
           }
           else for_up 0 sizeD (shl_digit dst src amnt) (h, 0));
        if overflow \<noteq> 0
        then if sizeD < sizeM then do { h2 \<leftarrow> wr h1 dst sizeD overflow; Some (False, sizeD + 1, h2) }
             else Some (True, sizeD, h1)
        else Some (False, sizeD, h1)
      })"

text \<open>
  The right shift copies a source that is the destination. The digits are written from the top;
  \<open>trim\<close> reads below the array when all of them are zero.
\<close>

definition shr_digit :: "u32 list \<Rightarrow> nat \<Rightarrow> nat \<Rightarrow> nat \<Rightarrow> u32 list \<times> u32 \<Rightarrow> (u32 list \<times> u32) option" where
  "shr_digit src amntMov amnt i s =
     (case s of (dst, underflow) \<Rightarrow>
        if i + amntMov < length src \<and> i < length dst
        then let window = push_bit amnt (ucast (src ! (i + amntMov)) :: u64);
                 high = ucast (drop_bit 32 window) OR underflow
             in Some (dst[i := high], ucast window)
        else None)"

fun trim :: "u32 list \<Rightarrow> nat \<Rightarrow> nat option" where
  "trim dst 0 = None"
| "trim dst (Suc n) = (if length dst \<le> n then None else if dst ! n = 0 then trim dst n else Some (Suc n))"

definition BigIntShR :: "u32 list \<Rightarrow> nat \<Rightarrow> u32 list \<Rightarrow> u64 \<Rightarrow> (bool \<times> nat \<times> u32 list) option" where
  "BigIntShR dst sizeD src amnt =
     (let amntMov = unat (drop_bit 5 amnt); amnt = 32 - unat (amnt AND 31); sizeS = length src in
      if sizeS \<le> amntMov then Some (True, 0, dst)
      else let underflow = (if sizeD < sizeS then drop_bit (32 - amnt) (src ! sizeD) else 0);
               newD = (if amntMov \<noteq> 0 then min sizeS sizeD - amntMov else if sizeS < sizeD then sizeS else sizeD)
           in if min sizeS sizeD < amntMov then None
              else do {
                (dst1, underflow) \<leftarrow> for_down 0 newD (shr_digit src amntMov amnt) (dst, underflow);
                n \<leftarrow> trim dst1 newD;
                Some (underflow \<noteq> 0, n, dst1)
              })"

section \<open>Comparison\<close>

fun cmp_loop :: "u32 list \<Rightarrow> u32 list \<Rightarrow> nat \<Rightarrow> int" where
  "cmp_loop srcL srcR 0 = 0"
| "cmp_loop srcL srcR (Suc i) =
     (let l = srcL ! i; r = srcR ! i in
      if r < l then 1 else if l < r then - 1 else cmp_loop srcL srcR i)"

text \<open>\<open>same\<close> tells whether the two sources are the same array.\<close>

definition BigIntCmp :: "bool \<Rightarrow> u32 list \<Rightarrow> u32 list \<Rightarrow> int" where
  "BigIntCmp same srcL srcR =
     (let sizeL = length srcL; sizeR = length srcR in
      if sizeR < sizeL \<and> list_ex (\<lambda>d. d \<noteq> 0) (drop sizeR srcL) then 1
      else if sizeL < sizeR \<and> list_ex (\<lambda>d. d \<noteq> 0) (drop sizeL srcR) then - 1
      else let sizeL = (if sizeR < sizeL then sizeR else sizeL) in
           if same \<or> sizeL = 0 then 0 else cmp_loop srcL srcR sizeL)"

section \<open>Powers of ten\<close>

definition PowersOf10_Small :: "u32 list" where
  "PowersOf10_Small = [1, 10, 100, 1000, 10000, 100000, 1000000, 10000000]"

definition PowersOf10_Big :: "u32 list list" where
  "PowersOf10_Big =
    [[100000000],
     [0x6fc10000, 0x002386f2],
     [0x00000000, 0x85acef81, 0x2d6d415b, 0x000004ee],
     [0x00000000, 0x00000000, 0xbf6a1f01, 0x6e38ed64, 0xdaa797ed, 0xe93ff9f4, 0x00184f03],
     [0x00000000, 0x00000000, 0x00000000, 0x00000000, 0x2e953e01, 0x03df9909, 0x0f1538fd, 0x2374e42f,
      0xd3cff5ec, 0xc404dc08, 0xbccdb0da, 0xa6337f19, 0xe91f2603, 0x0000024e],
     [0x00000000, 0x00000000, 0x00000000, 0x00000000, 0x00000000, 0x00000000, 0x00000000, 0x00000000,
      0x982e7c01, 0xbed3875b, 0xd8d99f72, 0x12152f87, 0x6bde50c6, 0xcf4a6e70, 0xd595d80f, 0x26b2716e,
      0xadc666b0, 0x1d153624, 0x3c42d35a, 0x63ff540e, 0xcc5573c0, 0x65f9ef17, 0x55bc28f2, 0x80dcc7f7,
      0xf46eeddc, 0x5fdcefce, 0x000553f7]]"

function pow10_loop :: "u32 \<Rightarrow> nat \<Rightarrow> u32 \<Rightarrow> u32 list \<Rightarrow> nat \<Rightarrow> (u32 list \<times> nat) option" where
  "pow10_loop exponent exponentBig sizeM dst sizeD =
     (if exponent \<noteq> 0
      then if exponent AND 1 \<noteq> 0
           then if exponentBig < length PowersOf10_Big
                then case BigIntMul dst (take sizeD dst) (PowersOf10_Big ! exponentBig) sizeM False of
                       None \<Rightarrow> None
                     | Some (_, dst1, sizeD1) \<Rightarrow> pow10_loop (drop_bit 1 exponent) (exponentBig + 1) sizeM dst1 sizeD1
                else None
           else pow10_loop (drop_bit 1 exponent) (exponentBig + 1) sizeM dst sizeD
      else Some (dst, sizeD))"
  by pat_completeness auto
termination
proof -
  have less: "unat (drop_bit 1 e) < unat e" if "e \<noteq> 0" for e :: u32
    using that unat_gt_0 [of e] by (simp add: unat_drop_bit)
  show ?thesis
    by (relation "measure (\<lambda>(e, _). unat e)") (use less in \<open>auto simp: drop_bit_Suc [symmetric] simp del: drop_bit_Suc\<close>)
qed

declare pow10_loop.simps [simp del]

definition BigIntGetPow10 :: "u32 list \<Rightarrow> nat \<Rightarrow> u32 \<Rightarrow> u32 \<Rightarrow> (bool \<times> u32 list \<times> nat) option" where
  "BigIntGetPow10 dst sizeD sizeM exponent =
     (if 512 \<le> exponent \<or> sizeM < 1 then Some (False, dst, sizeD)
      else if length dst < unat sizeM then None
      else let exponentSmall = unat (exponent AND 7);
               dst1 = PowersOf10_Small ! exponentSmall # replicate (unat sizeM - 1) 0 @ drop (unat sizeM) dst
           in case pow10_loop (drop_bit 3 exponent) 0 sizeM dst1 1 of
                None \<Rightarrow> None
              | Some (dst2, sizeD2) \<Rightarrow> Some (True, dst2, sizeD2))"

end
