(* ===== verification/Bigint_Mul.thy ===== *)
theory Bigint_Mul
  imports Bigint
begin

text \<open>
  The number an array of digits denotes, the value multiplication, comparison and the powers of
  ten compute.
\<close>

section \<open>Values\<close>

fun bigval :: "u32 list \<Rightarrow> nat" where
  "bigval [] = 0"
| "bigval (d # ds) = unat d + 2 ^ 32 * bigval ds"

abbreviation weight :: "nat \<Rightarrow> nat" where
  "weight n \<equiv> (2 ^ 32) ^ n"

lemma bigval_append: "bigval (xs @ ys) = bigval xs + weight (length xs) * bigval ys"
  by (induction xs) (simp_all add: algebra_simps)

lemma unat_digit: "unat (d :: u32) < 2 ^ 32"
  using unsigned_less [of d] by simp

lemma bigval_less: "bigval xs < weight (length xs)"
proof (induction xs)
  case (Cons d xs)
  have "unat d + 2 ^ 32 * bigval xs < 2 ^ 32 * (bigval xs + 1)" using unat_digit [of d] by simp
  also have "\<dots> \<le> 2 ^ 32 * weight (length xs)" using Cons.IH by (intro mult_le_mono2) simp
  finally show ?case by simp
qed simp

lemma bigval_replicate_0 [simp]: "bigval (replicate n 0) = 0"
  by (induction n) simp_all

lemma bigval_update:
  "l < length xs \<Longrightarrow> bigval (xs[l := v]) + unat (xs ! l) * weight l = bigval xs + unat v * weight l"
proof (induction xs arbitrary: l)
  case (Cons d xs)
  show ?case
  proof (cases l)
    case (Suc k)
    then show ?thesis using Cons.IH [of k] Cons.prems by (simp add: algebra_simps flip: distrib_left)
  qed (simp add: algebra_simps)
qed simp

lemma bigval_zero_iff: "bigval xs = 0 \<longleftrightarrow> \<not> list_ex (\<lambda>d. d \<noteq> 0) xs"
  by (induction xs) (auto simp: unat_eq_0)

text \<open>A number below the weight is determined by a sum with any multiple of the weight.\<close>

lemma value_mod: "(x :: nat) + q * m = y \<Longrightarrow> x < m \<Longrightarrow> x = y mod m"
  by auto

section \<open>Multiplication\<close>

lemma carry_loop_spec:
  assumes "carry_loop limit l res dst = (c, dst')" "l \<le> limit" "limit = length dst" "unat res \<le> 2 ^ 64 - 2 ^ 32"
  shows "bigval dst' + unat c * weight limit = bigval dst + unat res * weight l \<and> length dst' = length dst
    \<and> (l < limit \<longrightarrow> unat c < 2 ^ 32)"
  using assms
proof (induction limit l res dst arbitrary: c dst' rule: carry_loop.induct)
  case (1 limit l res dst)
  show ?case
  proof (cases "res \<noteq> 0 \<and> l < limit")
    case False
    then have "c = res" "dst' = dst" "res = 0 \<or> l = limit" using 1(2,3) by (auto simp: carry_loop.simps)
    then show ?thesis by auto
  next
    case True
    define r where "r = res + ucast (dst ! l)"
    have ul: "unat (ucast (dst ! l) :: u64) = unat (dst ! l)"
      using unat_digit [of "dst ! l"] by (simp add: unat_ucast_mod)
    have r: "unat r = unat res + unat (dst ! l)"
      unfolding r_def using 1(5) ul unat_digit [of "dst ! l"] by (subst unat_plus_small) simp_all
    have eq: "carry_loop limit (l + 1) (drop_bit 32 r) (dst[l := ucast r]) = (c, dst')"
      using 1(2) True by (subst (asm) carry_loop.simps) (simp add: r_def Let_def)
    have d: "unat (drop_bit 32 r) = unat r div 2 ^ 32" by (rule unat_drop_bit)
    then have dlt: "unat (drop_bit 32 r) < 2 ^ 32" using unat_lt_exp [of r] by (simp add: less_mult_imp_div_less)
    have low: "unat (ucast r :: u32) = unat r mod 2 ^ 32" by (simp add: unat_ucast_mod)
    have IH: "bigval dst' + unat c * weight limit
        = bigval (dst[l := ucast r]) + unat (drop_bit 32 r) * weight (l + 1) \<and> length dst' = length dst
        \<and> (l + 1 < limit \<longrightarrow> unat c < 2 ^ 32)"
      using 1(1) [OF True r_def eq] True 1(4) dlt by simp
    define lo hi where "lo = unat r mod 2 ^ 32" and "hi = unat r div 2 ^ 32"
    have "bigval (dst[l := ucast r]) + unat (dst ! l) * weight l = bigval dst + lo * weight l"
      using bigval_update [of l dst "ucast r"] True 1(4) by (simp add: low lo_def)
    then have "bigval (dst[l := ucast r]) + unat (drop_bit 32 r) * weight (l + 1) + unat (dst ! l) * weight l
        = bigval dst + (lo + hi * 2 ^ 32) * weight l"
      unfolding d hi_def [symmetric] by (simp add: algebra_simps)
    also have "lo + hi * 2 ^ 32 = unat res + unat (dst ! l)" using r by (simp add: lo_def hi_def)
    finally have "bigval (dst[l := ucast r]) + unat (drop_bit 32 r) * weight (l + 1) = bigval dst + unat res * weight l"
      by (simp add: algebra_simps)
    moreover have "unat c < 2 ^ 32"
    proof (cases "l + 1 < limit")
      case False
      then have "c = drop_bit 32 r" using eq by (subst (asm) carry_loop.simps) (simp add: split: if_splits)
      then show ?thesis using dlt by simp
    qed (use IH in simp)
    ultimately show ?thesis using IH by simp
  qed
qed

lemma carry_loop_take:
  assumes "limit \<le> length dst"
  shows "carry_loop limit l res dst = (case carry_loop limit l res (take limit dst) of (c, d) \<Rightarrow> (c, d @ drop limit dst))"
  using assms
proof (induction limit l res dst rule: carry_loop.induct)
  case (1 limit l res dst)
  show ?case
  proof (cases "res \<noteq> 0 \<and> l < limit")
    case True
    then have "take limit dst ! l = dst ! l" "take limit (dst[l := v]) = (take limit dst)[l := v]"
      "drop limit (dst[l := v]) = drop limit dst" for v
      by (simp_all add: take_update_swap drop_update_cancel)
    then show ?thesis
      using 1(1) [OF True refl] 1(2) True
      by (subst carry_loop.simps, subst (2) carry_loop.simps) (simp add: Let_def)
  next
    case False
    then show ?thesis by (subst carry_loop.simps, subst (2) carry_loop.simps) auto
  qed
qed

text \<open>What the digits below the limit gain from an addition, the lost carries counted apart.\<close>

definition gains :: "nat \<Rightarrow> u32 list \<Rightarrow> u32 list \<Rightarrow> nat \<Rightarrow> bool" where
  "gains limit dst dst' v \<longleftrightarrow> length dst' = length dst \<and> drop limit dst' = drop limit dst
     \<and> (\<exists>q. bigval (take limit dst') + q * weight limit = bigval (take limit dst) + v)"

lemma gains_0: "gains limit dst dst (q * weight limit)"
  unfolding gains_def by blast

lemma gains_trans: "gains limit a b v \<Longrightarrow> gains limit b c w \<Longrightarrow> gains limit a c (v + w)"
  unfolding gains_def
proof (elim conjE exE, intro conjI)
  fix q r
  assume "bigval (take limit b) + q * weight limit = bigval (take limit a) + v"
    "bigval (take limit c) + r * weight limit = bigval (take limit b) + w"
  then have "bigval (take limit c) + (q + r) * weight limit = bigval (take limit a) + (v + w)"
    by (simp add: algebra_simps)
  then show "\<exists>q. bigval (take limit c) + q * weight limit = bigval (take limit a) + (v + w)" by blast
qed simp_all

lemma product_bound: "unat (ucast (a :: u32) * ucast (b :: u32) :: u64) = unat a * unat b"
  "unat (ucast (a :: u32) * ucast (b :: u32) :: u64) \<le> 2 ^ 64 - 2 ^ 32"
proof -
  have "unat a * unat b \<le> (2 ^ 32 - 1) * (2 ^ 32 - 1)"
    using unat_digit [of a] unat_digit [of b] by (intro mult_le_mono) simp_all
  then have le: "unat a * unat b \<le> 2 ^ 64 - 2 ^ 32" by simp
  have "unat (ucast a :: u64) = unat a" "unat (ucast b :: u64) = unat b"
    using unat_digit [of a] unat_digit [of b] by (simp_all add: unat_ucast_mod)
  then show "unat (ucast a * ucast b :: u64) = unat a * unat b"
    using le by (subst unat_mult_small) simp_all
  with le show "unat (ucast a * ucast b :: u64) \<le> 2 ^ 64 - 2 ^ 32" by simp
qed

lemma carry_loop_gains:
  assumes "carry_loop limit k (ucast (a :: u32) * ucast (b :: u32)) dst = (c, dst')" "k < limit" "limit \<le> length dst"
  shows "gains limit dst dst' (unat a * unat b * weight k)" "drop_bit 32 c = 0"
proof -
  obtain d where d: "carry_loop limit k (ucast a * ucast b) (take limit dst) = (c, d)" "dst' = d @ drop limit dst"
    using assms(1) carry_loop_take [OF assms(3), of k "ucast a * ucast b"] by (auto split: prod.splits)
  from carry_loop_spec [OF d(1)] assms(2,3) product_bound
  have spec: "bigval d + unat c * weight limit = bigval (take limit dst) + unat a * unat b * weight k"
    "length d = limit" "unat c < 2 ^ 32"
    by simp_all
  then show "gains limit dst dst' (unat a * unat b * weight k)" using d(2) assms(3) by (auto simp: gains_def)
  have "unat (drop_bit 32 c) = 0" using spec(3) by (simp add: unat_drop_bit)
  then show "drop_bit 32 c = 0" by (simp add: unat_eq_0)
qed

lemma mul_row_gains:
  assumes "limit \<le> length dst"
  shows "\<exists>dst'. mul_row limit cur src2 k dst overflow = (dst', overflow)
    \<and> gains limit dst dst' (unat cur * bigval src2 * weight k)"
  using assms
proof (induction src2 arbitrary: k dst)
  case Nil
  then show ?case using gains_0 [of limit dst 0] by simp
next
  case (Cons d src2)
  show ?case
  proof (cases "k < limit")
    case True
    obtain c dst1 where c: "carry_loop limit k (ucast cur * ucast d) dst = (c, dst1)" by fastforce
    note g = carry_loop_gains [OF c True Cons.prems]
    then have "length dst1 = length dst" by (simp add: gains_def)
    then obtain dst' where "mul_row limit cur src2 (k + 1) dst1 overflow = (dst', overflow)"
      "gains limit dst1 dst' (unat cur * bigval src2 * weight (k + 1))"
      using Cons.IH [of dst1 "k + 1"] Cons.prems by auto
    moreover have "unat cur * unat d * weight k + unat cur * bigval src2 * weight (k + 1)
        = unat cur * bigval (d # src2) * weight k"
      by (simp add: algebra_simps)
    ultimately show ?thesis using True c g gains_trans [OF g(1)] by fastforce
  next
    case False
    then have "weight k = weight (k - limit) * weight limit" by (simp flip: power_add)
    then have "unat cur * bigval (d # src2) * weight k = unat cur * bigval (d # src2) * weight (k - limit) * weight limit"
      by simp
    then have "gains limit dst dst (unat cur * bigval (d # src2) * weight k)" using gains_0 by metis
    moreover have "mul_row limit cur (d # src2) k dst overflow = (dst, overflow)" using False by simp
    ultimately show ?thesis by blast
  qed
qed

lemma mul_rows_gains:
  assumes "limit \<le> length dst"
  shows "\<exists>dst'. mul_rows limit src1 src2 i dst overflow = (dst', overflow)
    \<and> gains limit dst dst' (bigval src1 * bigval src2 * weight i)"
  using assms
proof (induction src1 arbitrary: i dst)
  case Nil
  then show ?case using gains_0 [of limit dst 0] by simp
next
  case (Cons cur src1)
  obtain dst1 where row: "mul_row limit cur src2 i dst overflow = (dst1, overflow)"
    "gains limit dst dst1 (unat cur * bigval src2 * weight i)"
    using mul_row_gains [OF Cons.prems] by blast
  define dst2 where "dst2 = (if cur \<noteq> 0 then dst1 else dst)"
  have g: "gains limit dst dst2 (unat cur * bigval src2 * weight i)"
    using row(2) gains_0 [of limit dst 0] by (simp add: dst2_def)
  then have "limit \<le> length dst2" using Cons.prems by (simp add: gains_def)
  then obtain dst' where rows: "mul_rows limit src1 src2 (i + 1) dst2 overflow = (dst', overflow)"
    "gains limit dst2 dst' (bigval src1 * bigval src2 * weight (i + 1))"
    using Cons.IH by blast
  have "unat cur * bigval src2 * weight i + bigval src1 * bigval src2 * weight (i + 1)
      = bigval (cur # src1) * bigval src2 * weight i"
    by (simp add: algebra_simps)
  moreover have "mul_rows limit (cur # src1) src2 i dst overflow = (dst', overflow)"
    using rows(1) row(1) by (cases "cur = 0") (simp_all add: dst2_def)
  ultimately show ?case using gains_trans [OF g rows(2)] by simp
qed

lemma bigval_first: "bigval ((replicate n 0)[0 := v]) = (if n = 0 then 0 else unat v)"
  by (cases n) simp_all

lemma BigIntMul_spec:
  assumes "length src1 + length src2 < 2 ^ 32" "limit = min (length src1 + length src2) (unat maxSize)"
    "limit \<le> length dst" "dst \<noteq> []"
  shows "\<exists>dst'. BigIntMul dst src1 src2 maxSize cin = Some (False, dst', limit) \<and> length dst' = length dst
    \<and> bigval (take limit dst') = (bigval src1 * bigval src2 + of_bool cin) mod weight limit
    \<and> (0 < limit \<longrightarrow> drop limit dst' = drop limit dst)"
proof -
  have "unat (of_nat (length src1) + of_nat (length src2) :: u32) = length src1 + length src2"
    using assms(1) by (simp add: unat_of_nat take_bit_eq_mod flip: of_nat_add)
  then have limit: "unat (min (of_nat (length src1) + of_nat (length src2)) maxSize) = limit"
    unfolding assms(2) min_def by (simp add: word_le_nat_alt)
  define dst1 where "dst1 = (replicate limit 0 @ drop limit dst)[0 := if cin then 1 else 0]"
  have len: "length dst1 = length dst" using assms(3) by (simp add: dst1_def)
  have tk: "take limit dst1 = (replicate limit 0)[0 := if cin then 1 else 0]"
    by (simp add: dst1_def take_update_swap)
  have v1: "bigval (take limit dst1) = (if limit = 0 then 0 else of_bool cin)"
    unfolding tk bigval_first by simp
  obtain a b where ab: "(if length src2 < length src1 then (src2, src1) else (src1, src2)) = (a, b)"
    "bigval a * bigval b = bigval src1 * bigval src2"
    by (cases "length src2 < length src1") (auto simp: mult.commute)
  obtain dst' where d: "mul_rows limit a b 0 dst1 False = (dst', False)"
    "gains limit dst1 dst' (bigval a * bigval b * weight 0)"
    using mul_rows_gains [of limit dst1 a b 0 False] len assms(3) by auto
  then obtain q where q: "bigval (take limit dst') + q * weight limit
      = bigval (take limit dst1) + bigval src1 * bigval src2" and "length dst' = length dst"
    using ab(2) len by (auto simp: gains_def)
  moreover have "bigval (take limit dst') < weight limit"
    using bigval_less [of "take limit dst'"] assms(3) \<open>length dst' = length dst\<close> by (simp add: min_absorb2)
  ultimately have "bigval (take limit dst') = (bigval (take limit dst1) + bigval src1 * bigval src2) mod weight limit"
    by (intro value_mod)
  then have "bigval (take limit dst') = (bigval src1 * bigval src2 + of_bool cin) mod weight limit"
    using v1 by (cases "limit = 0") (simp_all add: add.commute)
  moreover have "BigIntMul dst src1 src2 maxSize cin = Some (False, dst', limit)"
    unfolding BigIntMul_def Let_def limit ab using assms(3,4) d(1) by (simp add: dst1_def)
  moreover have "drop limit dst' = drop limit dst" if "0 < limit"
    using that d(2) by (simp add: gains_def dst1_def)
  ultimately show ?thesis using \<open>length dst' = length dst\<close> by blast
qed

section \<open>Comparison\<close>

definition compare_nat :: "nat \<Rightarrow> nat \<Rightarrow> int" where
  "compare_nat a b = (if b < a then 1 else if a < b then - 1 else 0)"

lemma leading_less:
  assumes "(a :: nat) < m" "x < y"
  shows "a + m * x < b + m * y"
proof -
  have "a + m * x < m * (x + 1)" using assms by simp
  also have "\<dots> \<le> m * y" using assms by (intro mult_le_mono2) simp
  finally show ?thesis by simp
qed

lemma compare_leading:
  assumes "a < m" "b < m" "x \<noteq> (y :: nat)"
  shows "compare_nat (a + m * x) (b + m * y) = compare_nat x y"
proof (cases "x < y")
  case True
  then show ?thesis using leading_less [OF assms(1) True, of b] by (simp add: compare_nat_def)
next
  case False
  with assms(3) have lt: "y < x" by simp
  then show ?thesis using leading_less [OF assms(2) lt, of a] by (simp add: compare_nat_def)
qed

lemma cmp_loop_spec:
  assumes "n \<le> length l" "n \<le> length r"
  shows "cmp_loop l r n = compare_nat (bigval (take n l)) (bigval (take n r))"
  using assms
proof (induction n)
  case (Suc n)
  let ?L = "bigval (take n l)" and ?R = "bigval (take n r)"
  have split: "bigval (take (Suc n) l) = ?L + weight n * unat (l ! n)"
    "bigval (take (Suc n) r) = ?R + weight n * unat (r ! n)"
    using Suc.prems by (simp_all add: take_Suc_conv_app_nth bigval_append)
  have less: "?L < weight n" "?R < weight n"
    using bigval_less [of "take n l"] bigval_less [of "take n r"] Suc.prems by (simp_all add: min_absorb2)
  show ?case
  proof (cases "l ! n = r ! n")
    case True
    then show ?thesis using Suc by (simp add: split compare_nat_def)
  next
    case False
    then have "unat (l ! n) \<noteq> unat (r ! n)" by (simp add: unat_inject)
    then show ?thesis
      using compare_leading [OF less] False
      by (auto simp: split compare_nat_def word_less_nat_alt Let_def)
  qed
qed (simp add: compare_nat_def)

lemma bigval_extra:
  assumes "n < length l" "list_ex (\<lambda>d. d \<noteq> 0) (drop n l)"
  shows "weight n \<le> bigval l"
proof -
  have "bigval l = bigval (take n l) + weight n * bigval (drop n l)"
    using bigval_append [of "take n l" "drop n l"] assms(1) by (simp add: min_absorb2)
  moreover have "1 \<le> bigval (drop n l)" using assms(2) bigval_zero_iff [of "drop n l"] by linarith
  moreover have "weight n * 1 \<le> weight n * bigval (drop n l)" using calculation(2) by (rule mult_le_mono2)
  ultimately show ?thesis by linarith
qed

lemma bigval_no_extra:
  assumes "\<not> list_ex (\<lambda>d. d \<noteq> 0) (drop n l)"
  shows "bigval (take n l) = bigval l"
  using bigval_append [of "take n l" "drop n l"] bigval_zero_iff [of "drop n l"] assms by simp

section \<open>Powers of ten\<close>

lemma PowersOf10_Big_spec:
  assumes "k < 6"
  shows "bigval (PowersOf10_Big ! k) = 10 ^ (8 * 2 ^ k)" "length (PowersOf10_Big ! k) \<le> 27"
proof -
  have "k = 0 \<or> k = 1 \<or> k = 2 \<or> k = 3 \<or> k = 4 \<or> k = 5" using assms by linarith
  then show "bigval (PowersOf10_Big ! k) = 10 ^ (8 * 2 ^ k)" "length (PowersOf10_Big ! k) \<le> 27"
    by (elim disjE; simp add: PowersOf10_Big_def)+
qed

lemma PowersOf10_Small_spec: "k < 8 \<Longrightarrow> unat (PowersOf10_Small ! k) = 10 ^ k"
proof -
  assume "k < 8"
  then have "k = 0 \<or> k = 1 \<or> k = 2 \<or> k = 3 \<or> k = 4 \<or> k = 5 \<or> k = 6 \<or> k = 7" by linarith
  then show ?thesis by (elim disjE; simp add: PowersOf10_Small_def)
qed

lemma exponent_halved:
  fixes e :: u32
  shows "unat e = 2 * unat (drop_bit 1 e) + of_bool (e AND 1 \<noteq> 0)"
proof -
  have "e AND 1 \<noteq> 0 \<longleftrightarrow> odd (unat e)"
  proof -
    have "unat (e AND 1) = unat e mod 2" using unat_and_mask [of e 1] by simp
    then show ?thesis by (metis odd_iff_mod_2_eq_one one_neq_zero parity_cases unat_0 unat_eq_0)
  qed
  then show ?thesis by (cases "odd (unat e)") (auto simp: unat_drop_bit)
qed

text \<open>One multiplication by a tabulated power, of a number kept modulo the capacity.\<close>

lemma pow10_mul:
  assumes "k < 6" "0 < n" "n \<le> unat M" "unat M \<le> length dst" "unat M < 2 ^ 31"
    "bigval (take n dst) = v mod weight (unat M)"
  shows "\<exists>dst' n'. BigIntMul dst (take n dst) (PowersOf10_Big ! k) M False = Some (False, dst', n')
    \<and> 0 < n' \<and> n' \<le> unat M \<and> length dst' = length dst
    \<and> bigval (take n' dst') = (v * 10 ^ (8 * 2 ^ k)) mod weight (unat M)"
proof -
  let ?t = "PowersOf10_Big ! k" and ?M = "unat M"
  define limit where "limit = min (length (take n dst) + length ?t) ?M"
  have len: "length (take n dst) = n" using assms(3,4) by simp
  have "dst \<noteq> []" "length (take n dst) + length ?t < 2 ^ 32" "limit \<le> length dst"
    using PowersOf10_Big_spec(2) [OF assms(1)] assms len by (auto simp: limit_def)
  from BigIntMul_spec [OF this(2) limit_def this(3,1), of False]
  obtain dst' where d: "BigIntMul dst (take n dst) ?t M False = Some (False, dst', limit)" "length dst' = length dst"
    "bigval (take limit dst') = (bigval (take n dst) * bigval ?t) mod weight limit"
    by auto
  have "(bigval (take n dst) * bigval ?t) mod weight limit = (bigval (take n dst) * bigval ?t) mod weight ?M"
  proof (cases "limit = ?M")
    case False
    then have l: "limit = n + length ?t" "limit \<le> ?M" using len by (auto simp: limit_def)
    have "bigval (take n dst) * bigval ?t < weight n * weight (length ?t)"
      using bigval_less [of "take n dst"] bigval_less [of ?t] len by (intro mult_strict_mono') simp_all
    then have less: "bigval (take n dst) * bigval ?t < weight limit" by (simp add: l power_add)
    also have "\<dots> \<le> weight ?M" using l(2) by (intro power_increasing) simp_all
    finally show ?thesis using less by simp
  qed simp
  also have "\<dots> = (v * 10 ^ (8 * 2 ^ k)) mod weight ?M"
    unfolding assms(6) PowersOf10_Big_spec(1) [OF assms(1)] by (rule mod_mult_left_eq)
  finally show ?thesis using d assms(2,3) len by (auto simp: limit_def)
qed

lemma pow10_loop_spec:
  assumes "unat e < 2 ^ (6 - k)" "k \<le> 6" "0 < n" "n \<le> unat M" "unat M \<le> length dst" "unat M < 2 ^ 31"
    "bigval (take n dst) = v mod weight (unat M)"
  shows "\<exists>dst' n'. pow10_loop e k M dst n = Some (dst', n') \<and> 0 < n' \<and> n' \<le> unat M \<and> length dst' = length dst
    \<and> bigval (take n' dst') = (v * 10 ^ (8 * 2 ^ k * unat e)) mod weight (unat M)"
  using assms
proof (induction "6 - k" arbitrary: e k dst n v)
  case 0
  then have "e = 0" by (simp add: unat_eq_0)
  then show ?case using 0 by (subst pow10_loop.simps) auto
next
  case (Suc m)
  then have k: "k < 6" "m = 6 - (k + 1)" by linarith+
  have half: "unat (drop_bit 1 e) < 2 ^ (6 - (k + 1))"
  proof -
    have "2 ^ (6 - k) = 2 * (2 :: nat) ^ (6 - (k + 1))" using k by (simp flip: power_Suc add: Suc_diff_Suc)
    then show ?thesis using Suc.prems(1) exponent_halved [of e] by linarith
  qed
  show ?case
  proof (cases "e = 0")
    case True
    then show ?thesis using Suc.prems by (subst pow10_loop.simps) auto
  next
    case nonzero: False
    define w where "w = v * 10 ^ (8 * 2 ^ k * of_bool (e AND 1 \<noteq> 0))"
    obtain dst1 n1 where step: "pow10_loop e k M dst n = pow10_loop (drop_bit 1 e) (k + 1) M dst1 n1"
      "0 < n1" "n1 \<le> unat M" "length dst1 = length dst" "bigval (take n1 dst1) = w mod weight (unat M)"
    proof (cases "e AND 1 = 0")
      case True
      then have "pow10_loop e k M dst n = pow10_loop (drop_bit 1 e) (k + 1) M dst n"
        using nonzero by (subst pow10_loop.simps) simp
      then show thesis using that [of dst n] True Suc.prems by (simp add: w_def)
    next
      case False
      from pow10_mul [OF k(1) Suc.prems(3-7)] obtain dst1 n1
        where d: "BigIntMul dst (take n dst) (PowersOf10_Big ! k) M False = Some (False, dst1, n1)"
          "0 < n1" "n1 \<le> unat M" "length dst1 = length dst"
          "bigval (take n1 dst1) = (v * 10 ^ (8 * 2 ^ k)) mod weight (unat M)" by blast
      have "length PowersOf10_Big = 6" by (simp add: PowersOf10_Big_def)
      then have "pow10_loop e k M dst n = pow10_loop (drop_bit 1 e) (k + 1) M dst1 n1"
        using nonzero False d(1) k(1) by (subst pow10_loop.simps) simp
      then show thesis using that [of dst1 n1] d False by (simp add: w_def)
    qed
    have "w * 10 ^ (8 * 2 ^ (k + 1) * unat (drop_bit 1 e)) = v * 10 ^ (8 * 2 ^ k * unat e)"
      unfolding w_def exponent_halved [of e] by (simp add: algebra_simps flip: power_add)
    then show ?thesis
      using Suc.hyps(1) [OF k(2) half _ step(2,3) _ Suc.prems(6) step(5)] step(1,4) k(1) Suc.prems(5) by simp
  qed
qed

end
