(* ===== verification/Bigint_Bits.thy ===== *)
theory Bigint_Bits
  imports Bigint_Mul
begin

text \<open>
  The bitwise operations and the shifts, on any aliasing of their arrays: what a loop over digits
  writes, and the number it leaves behind.
\<close>

section \<open>Loops that write digits\<close>

definition written :: "nat \<Rightarrow> nat \<Rightarrow> nat \<Rightarrow> (nat \<Rightarrow> u32) \<Rightarrow> arrays \<Rightarrow> arrays \<Rightarrow> bool" where
  "written dst i n f h h' \<longleftrightarrow>
     (\<forall>p. p \<noteq> dst \<longrightarrow> h' p = h p) \<and> length (h' dst) = length (h dst)
     \<and> (\<forall>j < length (h dst). h' dst ! j = (if i \<le> j \<and> j < i + n then f j else h dst ! j))"

lemma written_refl: "written dst i 0 f h h"
  by (auto simp: written_def)

lemma written_wr:
  "wr h dst i v = Some h' \<Longrightarrow> written dst i 1 (\<lambda>_. v) h h'"
  by (auto simp: written_def wr_def nth_list_update split: if_splits)

lemma written_join:
  assumes "written dst i n f h h1" "written dst (i + n) m g h1 h2"
  shows "written dst i (n + m) (\<lambda>j. if j < i + n then f j else g j) h h2"
  using assms by (auto simp: written_def)

lemma written_cong:
  "written dst i n f h h' \<Longrightarrow> (\<And>j. i \<le> j \<Longrightarrow> j < i + n \<Longrightarrow> f j = g j) \<Longrightarrow> written dst i n g h h'"
  by (auto simp: written_def)

lemma written_other: "written dst i n f h h' \<Longrightarrow> p \<noteq> dst \<Longrightarrow> h' p = h p"
  by (simp add: written_def)

lemma written_length: "written dst i n f h h' \<Longrightarrow> length (h' p) = length (h p)"
  by (cases "p = dst") (auto simp: written_def)

lemma written_beyond: "written dst i n f h h' \<Longrightarrow> j < length (h p) \<Longrightarrow> j < i \<or> i + n \<le> j \<Longrightarrow> h' p ! j = h p ! j"
  by (cases "p = dst") (auto simp: written_def)

lemma written_nth: "written dst i n f h h' \<Longrightarrow> j < length (h dst) \<Longrightarrow> i \<le> j \<Longrightarrow> j < i + n \<Longrightarrow> h' dst ! j = f j"
  by (auto simp: written_def)

text \<open>
  A loop whose body computes digit \<open>j\<close> of the destination from digits not written before, so
  from the arrays as they were.
\<close>

lemma for_up_written:
  assumes "i + n \<le> length (h dst)"
    and "\<And>j g h'. i \<le> j \<Longrightarrow> j < i + n \<Longrightarrow> written dst i (j - i) g h h' \<Longrightarrow> body j h' = wr h' dst j (f j)"
  shows "\<exists>h'. for_up i n body h = Some h' \<and> written dst i n f h h'"
  using assms
proof (induction n arbitrary: i h)
  case 0
  then show ?case by (simp add: written_refl)
next
  case (Suc n)
  have first: "body i h = wr h dst i (f i)" using Suc.prems(2) [of i] written_refl by simp
  then obtain h1 where h1: "body i h = Some h1" "wr h dst i (f i) = Some h1"
    using Suc.prems(1) by (auto simp: wr_def)
  note w1 = written_wr [OF h1(2)]
  have "\<exists>h'. for_up (i + 1) n body h1 = Some h' \<and> written dst (i + 1) n f h1 h'"
  proof (rule Suc.IH)
    show "i + 1 + n \<le> length (h1 dst)" using Suc.prems(1) written_length [OF w1] by simp
    fix j g h'
    assume j: "i + 1 \<le> j" "j < i + 1 + n" "written dst (i + 1) (j - (i + 1)) g h1 h'"
    have "1 + (j - (i + 1)) = j - i" using j(1) by simp
    then have "\<exists>g. written dst i (j - i) g h h'" using written_join [OF w1 j(3)] by metis
    then show "body j h' = wr h' dst j (f j)" using Suc.prems(2) j by auto
  qed
  then obtain h' where h': "for_up (i + 1) n body h1 = Some h'" "written dst (i + 1) n f h1 h'" by blast
  have "written dst i (Suc n) f h h'"
    using written_join [OF w1, of n f h'] h'(2) by (auto elim!: written_cong dest: le_antisym simp: less_Suc_eq_le)
  with h1 h' show ?case by auto
qed

lemma memset_0_written:
  "i + n \<le> length (h p) \<Longrightarrow> \<exists>h'. memset_0 p i n h = Some h' \<and> written p i n (\<lambda>_. 0) h h'"
  unfolding memset_0_def by (rule for_up_written) simp_all

lemma combine_loop_written:
  assumes "n \<le> length (h dst)" "n \<le> length (h src1)" "n \<le> length (h src2)"
  shows "\<exists>h'. combine_loop f dst src1 src2 n h = Some h' \<and> written dst 0 n (\<lambda>j. f (h src1 ! j) (h src2 ! j)) h h'"
  unfolding combine_loop_def
proof (rule for_up_written)
  fix j g h'
  assume j: "j < 0 + n" "written dst 0 (j - 0) g h h'"
  then have "rd h' src1 j = Some (h src1 ! j)" "rd h' src2 j = Some (h src2 ! j)"
    using assms by (auto simp: rd_def written_length written_beyond)
  then show "(do { a \<leftarrow> rd h' src1 j; b \<leftarrow> rd h' src2 j; wr h' dst j (f a b) }) = wr h' dst j (f (h src1 ! j) (h src2 ! j))"
    by simp
qed (use assms in simp)

lemma copy_loop_written:
  assumes "i + n \<le> length (h dst)" "i + n \<le> length (h src)"
  shows "\<exists>h'. copy_loop dst src i n h = Some h' \<and> written dst i n (\<lambda>j. h src ! j) h h'"
  unfolding copy_loop_def
proof (rule for_up_written)
  fix j g h'
  assume j: "i \<le> j" "j < i + n" "written dst i (j - i) g h h'"
  then have "rd h' src j = Some (h src ! j)"
    using assms by (auto simp: rd_def written_length written_beyond)
  then show "(do { a \<leftarrow> rd h' src j; wr h' dst j a }) = wr h' dst j (h src ! j)" by simp
qed (use assms in simp)

section \<open>Bitwise operations\<close>

text \<open>A digit of a number of \<open>n\<close> digits, extended by zeros.\<close>

definition digit :: "arrays \<Rightarrow> nat \<Rightarrow> nat \<Rightarrow> nat \<Rightarrow> u32" where
  "digit h p n j = (if j < n then h p ! j else 0)"

lemma BigIntAnd_written:
  assumes "dst \<noteq> src1" "dst \<noteq> src2" "max sizeD (min size1 size2) \<le> length (h dst)"
    "size1 \<le> length (h src1)" "size2 \<le> length (h src2)"
  shows "\<exists>h'. BigIntAnd dst sizeD src1 size1 src2 size2 h = Some h'
    \<and> written dst 0 (max sizeD (min size1 size2)) (\<lambda>j. digit h src1 size1 j AND digit h src2 size2 j) h h'"
proof -
  define m where "m = min size1 size2"
  have "m \<le> length (h dst)" "m \<le> length (h src1)" "m \<le> length (h src2)" using assms by (simp_all add: m_def)
  then obtain h1 where h1: "combine_loop (AND) dst src1 src2 m h = Some h1"
    "written dst 0 m (\<lambda>j. h src1 ! j AND h src2 ! j) h h1"
    using combine_loop_written by blast
  have "m + (sizeD - m) \<le> length (h1 dst)" using assms(3) written_length [OF h1(2)] by (auto simp: m_def)
  then obtain h2 where h2: "memset_0 dst m (sizeD - m) h1 = Some h2" "written dst m (sizeD - m) (\<lambda>_. 0) h1 h2"
    using memset_0_written by blast
  have "written dst 0 (m + (sizeD - m)) (\<lambda>j. if j < 0 + m then h src1 ! j AND h src2 ! j else 0) h h2"
    using written_join [OF h1(2), of "sizeD - m" "\<lambda>_. 0" h2] h2(2) by simp
  moreover have "m + (sizeD - m) = max sizeD (min size1 size2)" by (simp add: m_def)
  ultimately have w: "written dst 0 (max sizeD (min size1 size2)) (\<lambda>j. digit h src1 size1 j AND digit h src2 size2 j) h h2"
    by (auto simp: digit_def m_def elim!: written_cong)
  have "BigIntAnd dst sizeD src1 size1 src2 size2 h = Some h2"
  proof (cases "m < sizeD")
    case True
    then show ?thesis using assms(1,2) h1(1) h2(1) by (simp add: BigIntAnd_def m_def [symmetric] Let_def)
  next
    case False
    then have "h2 = h1" using h2(1) by (simp add: memset_0_def)
    then show ?thesis using False assms(1,2) h1(1) by (simp add: BigIntAnd_def m_def [symmetric] Let_def)
  qed
  with w show ?thesis by blast
qed

lemma merge_written:
  assumes f: "\<And>a. f a 0 = a" "\<And>b. f 0 b = b"
    and "dst \<noteq> src1" "dst \<noteq> src2" "sizeD \<le> length (h dst)" "size1 \<le> length (h src1)" "size2 \<le> length (h src2)"
  shows "\<exists>h'. merge f dst sizeD src1 size1 src2 size2 h = Some h'
    \<and> written dst 0 sizeD (\<lambda>j. f (digit h src1 size1 j) (digit h src2 size2 j)) h h'"
proof -
  define s1 s2 where "s1 = min size1 sizeD" and "s2 = min size2 sizeD"
  define m where "m = min s1 s2"
  define M where "M = max s1 s2"
  define src where "src = (if m < s1 then src1 else src2)"
  have sizes: "(if sizeD < size1 then sizeD else size1) = s1" "(if sizeD < size2 then sizeD else size2) = s2"
    by (auto simp: s1_def s2_def)
  have "m \<le> length (h dst)" "m \<le> length (h src1)" "m \<le> length (h src2)"
    using assms by (simp_all add: m_def s1_def s2_def)
  then obtain h1 where h1: "combine_loop f dst src1 src2 m h = Some h1" "written dst 0 m (\<lambda>j. f (h src1 ! j) (h src2 ! j)) h h1"
    using combine_loop_written by blast
  have len: "length (h1 p) = length (h p)" for p by (rule written_length [OF h1(2)])
  have src: "h1 src = h src" "m + (M - m) \<le> length (h1 src)" "m + (M - m) \<le> length (h1 dst)" "M \<le> sizeD" "m \<le> M"
    using assms len by (auto simp: src_def m_def M_def s1_def s2_def written_other [OF h1(2)])
  obtain h2 where h2: "copy_loop dst src m (M - m) h1 = Some h2" "written dst m (M - m) (\<lambda>j. h1 src ! j) h1 h2"
    using copy_loop_written [OF src(3,2)] by blast
  have w2: "written dst 0 M (\<lambda>j. if j < m then f (h src1 ! j) (h src2 ! j) else h src ! j) h h2"
    using written_join [OF h1(2), of "M - m" "\<lambda>j. h1 src ! j" h2] h2(2) src(5) unfolding src(1) by simp
  have "M + (sizeD - M) \<le> length (h2 dst)" using src(4) assms(5) written_length [OF w2] by simp
  then obtain h3 where h3: "memset_0 dst M (sizeD - M) h2 = Some h3" "written dst M (sizeD - M) (\<lambda>_. 0) h2 h3"
    using memset_0_written by blast
  have "written dst 0 sizeD (\<lambda>j. if j < M then (if j < m then f (h src1 ! j) (h src2 ! j) else h src ! j) else 0) h h3"
    using written_join [OF w2, of "sizeD - M" "\<lambda>_. 0" h3] h3(2) src(4) by simp
  then have w: "written dst 0 sizeD (\<lambda>j. f (digit h src1 size1 j) (digit h src2 size2 j)) h h3"
    by (rule written_cong) (auto simp: digit_def f src_def m_def M_def s1_def s2_def split: if_splits)
  have copy: "(if m < s1 then do { h2 \<leftarrow> copy_loop dst src1 m (s1 - m) h1; Some (h2, s1) }
      else if m < s2 then do { h2 \<leftarrow> copy_loop dst src2 m (s2 - m) h1; Some (h2, s2) }
      else Some (h1, m)) = Some (h2, M)"
    using h2(1) by (auto simp: src_def M_def m_def copy_loop_def min_def max_def split: if_splits)
  have set: "(if M < sizeD then memset_0 dst M (sizeD - M) h2 else Some h2) = Some h3"
    using h3(1) by (auto simp: memset_0_def)
  have "merge f dst sizeD src1 size1 src2 size2 h = Some h3"
    unfolding merge_def Let_def sizes m_def [symmetric] using assms(3,4) h1(1) copy set by simp
  with w show ?thesis by blast
qed

text \<open>With the destination as a source the loop runs over the digits both have.\<close>

lemma merge2_written:
  assumes f: "\<And>a. f a 0 = a" and "sizeD \<le> length (h dst)" "sizeS \<le> length (h src)"
  shows "\<exists>h'. merge2 f dst sizeD src sizeS h = Some h'
    \<and> written dst 0 sizeD (\<lambda>j. f (h dst ! j) (digit h src sizeS j)) h h'"
proof -
  define m where "m = (if sizeD < sizeS then sizeD else sizeS)"
  have "m \<le> length (h dst)" "m \<le> length (h src)" using assms by (simp_all add: m_def)
  then obtain h' where h': "combine_loop f dst dst src m h = Some h'"
    "written dst 0 m (\<lambda>j. f (h dst ! j) (h src ! j)) h h'"
    using combine_loop_written by blast
  have "written dst 0 sizeD (\<lambda>j. f (h dst ! j) (digit h src sizeS j)) h h'"
    using h'(2) by (auto simp: written_def digit_def f m_def split: if_splits)
  with h'(1) show ?thesis by (auto simp: merge2_def m_def Let_def)
qed

lemma BigIntAnd2_written:
  assumes "sizeD \<le> length (h dst)" "sizeS \<le> length (h src)"
  shows "\<exists>h'. BigIntAnd2 dst sizeD src sizeS h = Some h'
    \<and> written dst 0 sizeD (\<lambda>j. h dst ! j AND digit h src sizeS j) h h'"
proof -
  define m where "m = (if sizeD < sizeS then sizeD else sizeS)"
  have m: "m \<le> length (h dst)" "m \<le> length (h src)" "m \<le> sizeD" using assms by (simp_all add: m_def)
  then obtain h1 where h1: "combine_loop (AND) dst dst src m h = Some h1"
    "written dst 0 m (\<lambda>j. h dst ! j AND h src ! j) h h1"
    using combine_loop_written by blast
  have "m + (sizeD - m) \<le> length (h1 dst)" using m assms(1) written_length [OF h1(2)] by simp
  then obtain h2 where h2: "memset_0 dst m (sizeD - m) h1 = Some h2" "written dst m (sizeD - m) (\<lambda>_. 0) h1 h2"
    using memset_0_written by blast
  have "written dst 0 sizeD (\<lambda>j. if j < m then h dst ! j AND h src ! j else 0) h h2"
    using written_join [OF h1(2), of "sizeD - m" "\<lambda>_. 0" h2] h2(2) m(3) by simp
  then have "written dst 0 sizeD (\<lambda>j. h dst ! j AND digit h src sizeS j) h h2"
    by (rule written_cong) (auto simp: digit_def m_def split: if_splits)
  moreover have "(if m < sizeD then memset_0 dst m (sizeD - m) h1 else Some h1) = Some h2"
    using h2(1) by (auto simp: memset_0_def)
  ultimately show ?thesis using h1(1) by (auto simp: BigIntAnd2_def m_def [symmetric] Let_def)
qed

lemma BigIntNot_written:
  assumes "sizeD \<le> length (h dst)" "sizeS \<le> length (h src)"
  shows "\<exists>h'. BigIntNot dst sizeD src sizeS h = Some h' \<and> written dst 0 (min sizeD sizeS) (\<lambda>j. NOT (h src ! j)) h h'"
  unfolding BigIntNot_def
proof (rule for_up_written)
  fix j g h'
  assume j: "j < 0 + min sizeD sizeS" "written dst 0 (j - 0) g h h'"
  then have "rd h' src j = Some (h src ! j)"
    using assms by (auto simp: rd_def written_length written_beyond)
  then show "(do { a \<leftarrow> rd h' src j; wr h' dst j (NOT a) }) = wr h' dst j (NOT (h src ! j))" by simp
qed (use assms in simp)

text \<open>The bits of the number an array denotes are those of its digits.\<close>

lemma bit_bigval: "bit (bigval ds) n \<longleftrightarrow> n div 32 < length ds \<and> bit (ds ! (n div 32)) (n mod 32)"
proof (induction ds arbitrary: n)
  case (Cons d ds)
  have "unat d AND push_bit 32 (bigval ds) = 0"
    by (rule bit_eqI) (auto simp: bit_simps bit_push_bit_iff_nat dest: bit_imp_le_length)
  then have "bigval (d # ds) = unat d OR push_bit 32 (bigval ds)"
    by (simp add: disjunctive_add_eq_or push_bit_eq_mult mult.commute flip: disjunctive_add_eq_or)
  then have "bit (bigval (d # ds)) n \<longleftrightarrow> bit d n \<or> 32 \<le> n \<and> bit (bigval ds) (n - 32)"
    by (simp only: bit_or_iff bit_push_bit_iff_nat bit_unsigned_iff) simp
  moreover have "\<not> bit d n" if "32 \<le> n" using that bit_imp_le_length [of d n] by auto
  moreover have "n div 32 = Suc ((n - 32) div 32)" "n mod 32 = (n - 32) mod 32" if "32 \<le> n"
    using that by (simp_all add: le_div_geq le_mod_geq)
  ultimately show ?case using Cons.IH [of "n - 32"] by (cases "32 \<le> n") auto
qed simp

lemma bit_written:
  assumes "written dst 0 n f h h'" "n \<le> length (h dst)"
  shows "bit (bigval (take n (h' dst))) k \<longleftrightarrow> k div 32 < n \<and> bit (f (k div 32)) (k mod 32)"
  using assms written_length [OF assms(1), of dst] written_nth [OF assms(1), of "k div 32"] by (auto simp: bit_bigval)

lemma bit_operand:
  "m \<le> length (h p) \<Longrightarrow> bit (bigval (take m (h p))) k \<longleftrightarrow> bit (digit h p m (k div 32)) (k mod 32)"
  by (auto simp: bit_bigval digit_def)

lemma digit_outside: "m \<le> n \<Longrightarrow> \<not> j < n \<Longrightarrow> digit h p m j = 0"
  by (simp add: digit_def)

end
