(* ===== verification/Bigint_Shift.thy ===== *)
theory Bigint_Shift
  imports Bigint_Bits
begin

text \<open>The shifts of big integers as multiplication and division by powers of two.\<close>

section \<open>Left shift\<close>

fun shl_digits :: "nat \<Rightarrow> u32 \<Rightarrow> u32 list \<Rightarrow> u32 list \<times> u32" where
  "shl_digits amnt overflow [] = ([], overflow)"
| "shl_digits amnt overflow (a # as) =
     (let window = push_bit amnt (ucast a :: u64) OR ucast overflow;
          (ds, c) = shl_digits amnt (ucast (drop_bit 32 window)) as
      in (ucast window # ds, c))"

lemma window_value:
  fixes a overflow :: u32
  assumes "amnt < 32" "unat overflow < 2 ^ amnt"
  shows "unat (push_bit amnt (ucast a :: u64) OR ucast overflow) = unat a * 2 ^ amnt + unat overflow"
proof -
  have "push_bit amnt (ucast a :: u64) AND ucast overflow = 0"
  proof (rule bit_word_eqI)
    fix k
    have "\<not> bit overflow k" if "amnt \<le> k"
    proof -
      have "unat overflow = take_bit amnt (unat overflow)" using assms(2) by (simp add: take_bit_nat_eq_self)
      then have "\<not> bit (unat overflow) k" using that by (metis bit_take_bit_iff linorder_not_less)
      then show ?thesis using bit_imp_le_length [of overflow k] by (auto simp: bit_unsigned_iff)
    qed
    then show "bit (push_bit amnt (ucast a :: u64) AND ucast overflow) k = bit (0 :: u64) k"
      by (auto simp: bit_simps)
  qed
  then have "push_bit amnt (ucast a :: u64) OR ucast overflow = push_bit amnt (ucast a) + ucast overflow"
    by (simp add: disjunctive_add_eq_or)
  moreover have "unat a * 2 ^ amnt \<le> (2 ^ 32 - 1) * 2 ^ 31"
    using assms(1) unat_digit [of a] by (intro mult_le_mono power_increasing) simp_all
  moreover have "unat overflow < 2 ^ 32" by (rule unat_digit)
  moreover have "unat (push_bit amnt (ucast a :: u64)) = unat a * 2 ^ amnt"
    using calculation(2) by (subst unat_push_bit_small) (simp_all add: unat_ucast_up)
  ultimately show ?thesis by (simp add: unat_plus_small unat_ucast_up)
qed

lemma shl_digits_spec:
  assumes "shl_digits amnt overflow xs = (ds, c)" "amnt < 32" "unat overflow < 2 ^ amnt"
  shows "bigval ds + unat c * weight (length xs) = bigval xs * 2 ^ amnt + unat overflow
    \<and> length ds = length xs \<and> unat c < 2 ^ amnt"
  using assms
proof (induction xs arbitrary: overflow ds)
  case (Cons a xs)
  define w where "w = push_bit amnt (ucast a :: u64) OR ucast overflow"
  obtain ys where ys: "shl_digits amnt (ucast (drop_bit 32 w)) xs = (ys, c)" "ds = ucast w # ys"
    using Cons.prems(1) by (auto simp: w_def Let_def split: prod.splits)
  have w: "unat w = unat a * 2 ^ amnt + unat overflow" unfolding w_def by (rule window_value [OF Cons.prems(2,3)])
  define lo hi where "lo = unat w mod 2 ^ 32" and "hi = unat w div 2 ^ 32"
  have "unat w < 2 ^ 32 * 2 ^ amnt"
  proof -
    have "unat w < (unat a + 1) * 2 ^ amnt" using w Cons.prems(3) by simp
    also have "\<dots> \<le> 2 ^ 32 * 2 ^ amnt" using unat_digit [of a] by (intro mult_le_mono1) simp
    finally show ?thesis .
  qed
  then have hi: "hi < 2 ^ amnt" unfolding hi_def by (intro less_mult_imp_div_less) (simp add: mult.commute)
  moreover have "2 ^ amnt \<le> (2 :: nat) ^ 32" using Cons.prems(2) by (intro power_increasing) simp_all
  ultimately have un: "unat (ucast (drop_bit 32 w) :: u32) = hi" "unat (ucast w :: u32) = lo"
    by (simp_all add: unat_ucast_mod unat_drop_bit lo_def hi_def)
  have "bigval ys + unat c * weight (length xs) = bigval xs * 2 ^ amnt + hi" "length ys = length xs" "unat c < 2 ^ amnt"
    using Cons.IH [OF ys(1) Cons.prems(2)] hi un by simp_all
  moreover have "lo + 2 ^ 32 * hi = unat a * 2 ^ amnt + unat overflow" using w by (simp add: lo_def hi_def)
  ultimately show ?case using ys(2) un(2) by (auto simp: algebra_simps)
qed auto

lemma for_up_shl:
  assumes "i + n \<le> length (h dst)" "i + n \<le> length (h src)"
    "shl_digits amnt overflow (take n (drop i (h src))) = (ds, c)"
  shows "\<exists>h'. for_up i n (shl_digit dst src amnt) (h, overflow) = Some (h', c) \<and> written dst i n (\<lambda>j. ds ! (j - i)) h h'"
  using assms
proof (induction n arbitrary: i h overflow ds)
  case 0
  then show ?case by (simp add: written_refl)
next
  case (Suc n)
  have tk: "take (Suc n) (drop i (h src)) = h src ! i # take n (drop (i + 1) (h src))"
    using Suc.prems(2) by (simp add: Cons_nth_drop_Suc [symmetric])
  define w where "w = push_bit amnt (ucast (h src ! i) :: u64) OR ucast overflow"
  obtain ys where ys: "shl_digits amnt (ucast (drop_bit 32 w)) (take n (drop (i + 1) (h src))) = (ys, c)"
    "ds = ucast w # ys"
    using Suc.prems(3) unfolding tk by (auto simp: w_def Let_def split: prod.splits)
  obtain h1 where h1: "wr h dst i (ucast w) = Some h1" using Suc.prems(1) by (simp add: wr_def)
  note w1 = written_wr [OF h1]
  have step: "shl_digit dst src amnt i (h, overflow) = Some (h1, ucast (drop_bit 32 w))"
    using h1 Suc.prems(2) by (simp add: shl_digit_def rd_def w_def [symmetric] Let_def del: drop_bit_or)
  have len: "length (h1 p) = length (h p)" for p by (rule written_length [OF w1])
  have "drop (i + 1) (h1 src) = drop (i + 1) (h src)"
    using written_beyond [OF w1, of _ src] len by (intro nth_equalityI) simp_all
  with ys(1) have "shl_digits amnt (ucast (drop_bit 32 w)) (take n (drop (i + 1) (h1 src))) = (ys, c)" by simp
  with Suc.IH [of "i + 1" h1 "ucast (drop_bit 32 w)" ys] Suc.prems(1,2) len
  obtain h' where h': "for_up (i + 1) n (shl_digit dst src amnt) (h1, ucast (drop_bit 32 w)) = Some (h', c)"
    "written dst (i + 1) n (\<lambda>j. ys ! (j - (i + 1))) h1 h'"
    by auto
  have "written dst i (1 + n) (\<lambda>j. if j < i + 1 then ucast w else ys ! (j - (i + 1))) h h'"
    by (rule written_join [OF w1 h'(2)])
  then have "written dst i (1 + n) (\<lambda>j. ds ! (j - i)) h h'"
    by (rule written_cong) (auto simp: ys(2) nth_Cons' Suc_diff_Suc)
  then show ?case using step h'(1) by auto
qed

lemma written_join_down:
  assumes "written dst (i + n) m g h h1" "written dst i n f h1 h2"
  shows "written dst i (n + m) (\<lambda>j. if j < i + n then f j else g j) h h2"
  using assms by (auto simp: written_def)

lemma for_down_written:
  assumes "i + n \<le> length (h dst)"
    and "\<And>j g h'. i \<le> j \<Longrightarrow> j < i + n \<Longrightarrow> written dst (j + 1) (i + n - (j + 1)) g h h' \<Longrightarrow> body j h' = wr h' dst j (f j)"
  shows "\<exists>h'. for_down i n body h = Some h' \<and> written dst i n f h h'"
  using assms
proof (induction n arbitrary: h)
  case 0
  then show ?case by (simp add: written_refl)
next
  case (Suc n)
  have first: "body (i + n) h = wr h dst (i + n) (f (i + n))" using Suc.prems(2) [of "i + n"] written_refl by simp
  then obtain h1 where h1: "body (i + n) h = Some h1" "wr h dst (i + n) (f (i + n)) = Some h1"
    using Suc.prems(1) by (auto simp: wr_def)
  note w1 = written_wr [OF h1(2)]
  have "\<exists>h'. for_down i n body h1 = Some h' \<and> written dst i n f h1 h'"
  proof (rule Suc.IH)
    show "i + n \<le> length (h1 dst)" using Suc.prems(1) written_length [OF w1] by simp
    fix j g h'
    assume j: "i \<le> j" "j < i + n" "written dst (j + 1) (i + n - (j + 1)) g h1 h'"
    have e: "j + 1 + (i + n - (j + 1)) = i + n" "i + n - (j + 1) + 1 = i + Suc n - (j + 1)" using j(1,2) by simp_all
    have "\<exists>g. written dst (j + 1) (i + Suc n - (j + 1)) g h h'"
      using written_join_down [of dst "j + 1" "i + n - (j + 1)" 1 _ h h1 g h'] w1 j(3) unfolding e by metis
    then show "body j h' = wr h' dst j (f j)" using Suc.prems(2) j by auto
  qed
  then obtain h' where h': "for_down i n body h1 = Some h'" "written dst i n f h1 h'" by blast
  have "written dst i (n + 1) (\<lambda>j. if j < i + n then f j else f (i + n)) h h'" by (rule written_join_down [OF w1 h'(2)])
  then have "written dst i (Suc n) f h h'"
    by (simp, elim written_cong) (auto simp: not_less less_Suc_eq_le dest: le_antisym)
  with h1 h' show ?case by auto
qed

text \<open>The loops of \<open>BigIntShL\<close>: the digits are moved up, shifted, and zeros fill the low ones.\<close>

definition shl_loops :: "nat \<Rightarrow> nat \<Rightarrow> nat \<Rightarrow> nat \<Rightarrow> nat \<Rightarrow> arrays \<Rightarrow> (arrays \<times> u32) option" where
  "shl_loops dst src m sd r h =
     (if m \<noteq> 0
      then do {
        h1 \<leftarrow> for_down m (sd - m) (\<lambda>i h. do { a \<leftarrow> rd h src (i - m); wr h dst i a }) h;
        (h2, overflow) \<leftarrow> for_up m (sd - m) (shl_digit dst src r) (h1, 0);
        h3 \<leftarrow> memset_0 dst 0 m h2;
        Some (h3, overflow)
      }
      else for_up 0 sd (shl_digit dst src r) (h, 0))"

lemma take_written:
  assumes "written dst i n (\<lambda>j. ds ! (j - i)) h h'" "length ds = n" "i + n \<le> length (h dst)"
  shows "take n (drop i (h' dst)) = ds"
  using assms written_length [OF assms(1), of dst]
  by (intro nth_equalityI) (auto simp: written_nth)

lemma shl_loops_spec:
  assumes "dst = src \<or> m = 0" "m \<le> sd" "sd \<le> length (h dst)" "sd - m \<le> length (h src)"
    "shl_digits r 0 (take (sd - m) (h src)) = (ds, c)" "length ds = sd - m"
  shows "\<exists>h'. shl_loops dst src m sd r h = Some (h', c) \<and> take sd (h' dst) = replicate m 0 @ ds
    \<and> length (h' dst) = length (h dst) \<and> (\<forall>p. p \<noteq> dst \<longrightarrow> h' p = h p)"
proof (cases "m = 0")
  case True
  then obtain h' where h': "for_up 0 sd (shl_digit dst src r) (h, 0) = Some (h', c)"
    "written dst 0 sd (\<lambda>j. ds ! (j - 0)) h h'"
    using for_up_shl [of 0 sd h dst src r 0 ds c] assms by auto
  then have "take sd (h' dst) = ds" using take_written [OF h'(2)] assms(3,6) True by simp
  then show ?thesis using True h'(1) written_other [OF h'(2)] written_length [OF h'(2)] by (simp add: shl_loops_def)
next
  case False
  then have src: "src = dst" using assms(1) by simp
  let ?k = "sd - m"
  have mk: "m + ?k = sd" using assms(2) by simp
  have "\<exists>h1. for_down m ?k (\<lambda>i h. do { a \<leftarrow> rd h src (i - m); wr h dst i a }) h = Some h1
      \<and> written dst m ?k (\<lambda>j. h dst ! (j - m)) h h1"
  proof (rule for_down_written)
    fix j g h'
    assume j: "m \<le> j" "j < m + ?k" "written dst (j + 1) (m + ?k - (j + 1)) g h h'"
    have "j - m < length (h dst)" "j - m < j + 1" using j(1,2) assms(3) mk False by simp_all
    then have "rd h' src (j - m) = Some (h dst ! (j - m))"
      using written_length [OF j(3), of dst] written_beyond [OF j(3), of "j - m" dst] by (simp add: src rd_def)
    then show "(do { a \<leftarrow> rd h' src (j - m); wr h' dst j a }) = wr h' dst j (h dst ! (j - m))" by simp
  qed (use assms(3) mk in simp)
  then obtain h1 where h1: "for_down m ?k (\<lambda>i h. do { a \<leftarrow> rd h src (i - m); wr h dst i a }) h = Some h1"
    "written dst m ?k (\<lambda>j. h dst ! (j - m)) h h1" by blast
  have len1: "length (h1 dst) = length (h dst)" by (rule written_length [OF h1(2)])
  have "take ?k (drop m (h1 dst)) = take ?k (h dst)"
    using len1 assms(2,3) by (intro nth_equalityI) (auto simp: written_nth [OF h1(2)])
  then have "shl_digits r 0 (take ?k (drop m (h1 src))) = (ds, c)" using assms(5) by (simp add: src)
  then obtain h2 where h2: "for_up m ?k (shl_digit dst src r) (h1, 0) = Some (h2, c)"
    "written dst m ?k (\<lambda>j. ds ! (j - m)) h1 h2"
    using for_up_shl [of m ?k h1 dst src r 0 ds c] assms(3) len1 mk by (auto simp: src)
  have len2: "length (h2 dst) = length (h1 dst)" by (rule written_length [OF h2(2)])
  obtain h3 where h3: "memset_0 dst 0 m h2 = Some h3" "written dst 0 m (\<lambda>_. 0) h2 h3"
    using memset_0_written [of 0 m h2 dst] len1 len2 assms(2,3) by auto
  have low: "take m (h3 dst) = replicate m 0"
    using len1 len2 written_length [OF h3(2), of dst] assms(2,3) by (intro nth_equalityI) (auto simp: written_nth [OF h3(2)])
  have "drop m (h3 dst) = drop m (h2 dst)"
    using written_length [OF h3(2), of dst] by (intro nth_equalityI) (auto simp: written_beyond [OF h3(2)])
  moreover have "take ?k (drop m (h2 dst)) = ds" using take_written [OF h2(2) assms(6)] len1 mk assms(3) by simp
  ultimately have "take sd (h3 dst) = replicate m 0 @ ds"
    using low take_add [of m ?k "h3 dst"] mk by simp
  then show ?thesis
    using False h1 h2 h3 len1 len2 written_length [OF h3(2), of dst] written_other [OF h1(2)] written_other [OF h2(2)]
      written_other [OF h3(2)]
    by (simp add: shl_loops_def)
qed

lemma BigIntShL_eq:
  "BigIntShL dst sizeD src sizeS sizeM amnt h =
     (let m = unat amnt div 32; r = unat amnt mod 32; sd = min sizeM (sizeS + m) in
      if sizeM \<le> m then do { h1 \<leftarrow> memset_0 dst 0 sizeM h; Some (True, sizeM, h1) }
      else do {
        (h1, overflow) \<leftarrow> shl_loops dst src m sd r h;
        if overflow \<noteq> 0
        then if sd < sizeM then do { h2 \<leftarrow> wr h1 dst sd overflow; Some (False, sd + 1, h2) }
             else Some (True, sd, h1)
        else Some (False, sd, h1)
      })"
proof -
  have "unat (drop_bit 5 amnt) = unat amnt div 32" by (simp add: unat_drop_bit)
  moreover have "unat (amnt AND 31) = unat amnt mod 32" using unat_and_mask [of amnt 5] by (simp add: mask_eq_exp_minus_1)
  ultimately show ?thesis by (simp add: BigIntShL_def shl_loops_def Let_def cong: if_cong)
qed

lemma bigval_take_split: "k \<le> length xs \<Longrightarrow> bigval xs = bigval (take k xs) + weight k * bigval (drop k xs)"
  using bigval_append [of "take k xs" "drop k xs"] by (simp add: min_absorb2)

lemma pow_shift: "(2 :: nat) ^ (32 * m + r) = weight m * 2 ^ r"
  by (simp add: power_add power_mult)

text \<open>The number below the limit that a shift by \<open>m\<close> digits and \<open>r\<close> bits leaves, with its overflow.\<close>

lemma shifted_value:
  assumes "shl_digits r 0 (take k xs) = (ds, c)" "r < 32" "k \<le> length xs"
  shows "bigval (replicate m 0 @ ds) + unat c * weight (m + k) = bigval (take k xs) * 2 ^ (32 * m + r)"
    "length ds = k" "unat c < 2 ^ r"
proof -
  have spec: "bigval ds + unat c * weight k = bigval (take k xs) * 2 ^ r" and "length ds = k" "unat c < 2 ^ r"
    using shl_digits_spec [OF assms(1,2)] assms(3) by (simp_all add: min_absorb2)
  then show "length ds = k" "unat c < 2 ^ r" by simp_all
  have "bigval (replicate m 0 @ ds) + unat c * weight (m + k) = weight m * (bigval ds + unat c * weight k)"
    by (simp add: bigval_append power_add algebra_simps)
  also have "\<dots> = bigval (take k xs) * 2 ^ (32 * m + r)"
    unfolding spec pow_shift by (simp add: algebra_simps)
  finally show "bigval (replicate m 0 @ ds) + unat c * weight (m + k) = bigval (take k xs) * 2 ^ (32 * m + r)" .
qed

lemma shift_truncated:
  assumes "k \<le> length xs"
  shows "(bigval xs * 2 ^ (32 * m + r)) mod weight (m + k) = (bigval (take k xs) * 2 ^ (32 * m + r)) mod weight (m + k)"
proof -
  have "bigval xs * 2 ^ (32 * m + r) = bigval (take k xs) * 2 ^ (32 * m + r) + weight (m + k) * (2 ^ r * bigval (drop k xs))"
    unfolding bigval_take_split [OF assms] pow_shift power_add [of "2 ^ 32" m k] by (simp add: algebra_simps)
  then show ?thesis by simp
qed

lemma BigIntShL_spec:
  assumes "dst = src \<or> unat amnt < 32" "sizeS \<le> length (h src)" "sizeM \<le> length (h dst)"
  defines "v \<equiv> bigval (take sizeS (h src)) * 2 ^ unat amnt"
  shows "\<exists>flag n h'. BigIntShL dst sizeD src sizeS sizeM amnt h = Some (flag, n, h')
    \<and> n \<le> sizeM \<and> (\<forall>p. p \<noteq> dst \<longrightarrow> h' p = h p) \<and> bigval (take n (h' dst)) = v mod weight sizeM
    \<and> (0 < sizeS \<and> sizeS + unat amnt div 32 \<le> sizeM \<longrightarrow> (flag \<longleftrightarrow> weight sizeM \<le> v))"
proof -
  define m r where "m = unat amnt div 32" and "r = unat amnt mod 32"
  define sd where "sd = min sizeM (sizeS + m)"
  define xs where "xs = take sizeS (h src)"
  have v: "v = bigval xs * 2 ^ (32 * m + r)" by (simp add: v_def xs_def m_def r_def)
  have eq: "BigIntShL dst sizeD src sizeS sizeM amnt h =
      (if sizeM \<le> m then do { h1 \<leftarrow> memset_0 dst 0 sizeM h; Some (True, sizeM, h1) }
       else do {
         (h1, overflow) \<leftarrow> shl_loops dst src m sd r h;
         if overflow \<noteq> 0
         then if sd < sizeM then do { h2 \<leftarrow> wr h1 dst sd overflow; Some (False, sd + 1, h2) }
              else Some (True, sd, h1)
         else Some (False, sd, h1)
       })"
    unfolding BigIntShL_eq Let_def m_def r_def sd_def ..
  show ?thesis
  proof (cases "sizeM \<le> m")
    case True
    then obtain h1 where h1: "memset_0 dst 0 sizeM h = Some h1" "written dst 0 sizeM (\<lambda>_. 0) h h1"
      using memset_0_written [of 0 sizeM h dst] assms(3) by auto
    have "take sizeM (h1 dst) = replicate sizeM 0"
      using written_length [OF h1(2), of dst] assms(3) by (intro nth_equalityI) (auto simp: written_nth [OF h1(2)])
    moreover have "v mod weight sizeM = 0"
    proof -
      have "weight m = weight (m - sizeM) * weight sizeM" using True by (simp flip: power_add)
      then have "v = bigval xs * 2 ^ r * weight (m - sizeM) * weight sizeM" unfolding v pow_shift by simp
      then show ?thesis by simp
    qed
    ultimately show ?thesis using eq True h1 written_other [OF h1(2)] by (auto simp: m_def)
  next
    case False
    let ?k = "sd - m"
    obtain ds c where ds: "shl_digits r 0 (take ?k xs) = (ds, c)" by fastforce
    have k: "m \<le> sd" "?k \<le> sizeS" "length xs = sizeS" "m + ?k = sd" "sd \<le> sizeM"
      using False assms(2) by (auto simp: sd_def xs_def)
    have r: "r < 32" by (simp add: r_def)
    have val: "bigval (replicate m 0 @ ds) + unat c * weight sd = bigval (take ?k xs) * 2 ^ (32 * m + r)" "length ds = ?k"
      using shifted_value(1) [OF ds r, of m] shifted_value(2) [OF ds r] k(2-4) by simp_all
    have "take ?k xs = take ?k (h src)" using k(2) by (simp add: xs_def min_absorb1)
    moreover have "dst = src \<or> m = 0" using assms(1) by (auto simp: m_def)
    ultimately obtain h1 where h1: "shl_loops dst src m sd r h = Some (h1, c)" "take sd (h1 dst) = replicate m 0 @ ds"
      "length (h1 dst) = length (h dst)" "\<forall>p. p \<noteq> dst \<longrightarrow> h1 p = h p"
      using shl_loops_spec [of dst src m sd h r ds c] k assms(2,3) ds val(2) by auto
    have less: "bigval (take sd (h1 dst)) < weight sd"
      using bigval_less [of "take sd (h1 dst)"] h1(3) k(5) assms(3) by (simp add: min_absorb2)
    have wide: "weight sd \<le> weight sizeM" using k(5) by (intro power_increasing) simp_all
    have all: "bigval (take sd (h1 dst)) + unat c * weight sd = v" if "sizeS + m \<le> sizeM"
    proof -
      have "take ?k xs = xs" using that k(3) by (simp add: sd_def)
      then show ?thesis using val(1) unfolding h1(2) v by simp
    qed
    have full: "bigval (take sd (h1 dst)) = v mod weight sizeM" if "sd = sizeM"
    proof -
      have "bigval (take sd (h1 dst)) = (bigval (take ?k xs) * 2 ^ (32 * m + r)) mod weight sd"
        using val(1) less by (intro value_mod) (simp_all add: h1(2))
      then show ?thesis using shift_truncated [of ?k xs m r] k that by (simp add: v)
    qed
    show ?thesis
    proof (cases "sd < sizeM \<and> c \<noteq> 0")
      case True
      then have room: "sizeS + m \<le> sizeM" by (auto simp: sd_def)
      obtain h2 where h2: "wr h1 dst sd c = Some h2" using True assms(3) h1(3) by (simp add: wr_def)
      then have "take (sd + 1) (h2 dst) = take sd (h1 dst) @ [c]"
        using True assms(3) h1(3) by (auto simp: wr_def take_Suc_conv_app_nth split: if_splits)
      then have "bigval (take (sd + 1) (h2 dst)) = v"
        using all [OF room] h1(3) k(5) assms(3) by (simp add: bigval_append min_absorb2 mult.commute)
      moreover have "v < weight sizeM"
      proof -
        have "bigval (take (sd + 1) (h2 dst)) < weight (length (take (sd + 1) (h2 dst)))" by (rule bigval_less)
        also have "\<dots> \<le> weight sizeM" using True by (intro power_increasing) auto
        finally show ?thesis using \<open>bigval (take (sd + 1) (h2 dst)) = v\<close> by simp
      qed
      moreover have "\<forall>p. p \<noteq> dst \<longrightarrow> h2 p = h p" using h2 h1(4) by (auto simp: wr_def split: if_splits)
      ultimately show ?thesis using eq False h1(1) h2 True by (auto simp: m_def)
    next
      case small: False
      have res: "BigIntShL dst sizeD src sizeS sizeM amnt h = Some (c \<noteq> 0, sd, h1)"
        using eq False h1(1) small k(5) by auto
      have val_sd: "bigval (take sd (h1 dst)) = v mod weight sizeM"
      proof (cases "sd = sizeM")
        case False
        with small k(5) have c: "c = 0" "sizeS + m \<le> sizeM" by (auto simp: sd_def)
        show ?thesis using all [OF c(2)] less_le_trans [OF less wide] c(1) by simp
      qed (rule full)
      have "c \<noteq> 0 \<longleftrightarrow> weight sizeM \<le> v" if "sizeS + m \<le> sizeM"
      proof (cases "c = 0")
        case True
        then show ?thesis using all [OF that] less_le_trans [OF less wide] by simp
      next
        case False
        then have "sd = sizeM" "1 \<le> unat c" using small k(5) by (auto simp: unat_eq_0 Suc_le_eq unat_gt_0)
        then have "1 * weight sd \<le> unat c * weight sd" by (intro mult_le_mono1)
        then have "weight sd \<le> v" using all [OF that] by linarith
        then show ?thesis using False \<open>sd = sizeM\<close> by blast
      qed
      then show ?thesis using res val_sd k(5) h1(4) by (auto simp: m_def)
    qed
  qed
qed

section \<open>Right shift\<close>

lemma or_disjoint_add:
  fixes a b :: u32
  assumes "unat a < 2 ^ s" "2 ^ s dvd unat b" "unat a + unat b < 2 ^ 32"
  shows "unat (a OR b) = unat a + unat b"
proof -
  have "a AND b = 0"
  proof (rule bit_word_eqI)
    fix k
    have "\<not> bit a k" if "s \<le> k"
    proof -
      have "unat a = take_bit s (unat a)" using assms(1) by (simp add: take_bit_nat_eq_self)
      then have "\<not> bit (unat a) k" using that by (metis bit_take_bit_iff linorder_not_less)
      then show ?thesis using bit_imp_le_length [of a k] by (auto simp: bit_unsigned_iff)
    qed
    moreover have "\<not> bit b k" if "k < s"
    proof -
      obtain c where "unat b = push_bit s c" using assms(2) by (auto simp: push_bit_eq_mult mult.commute)
      then have "\<not> bit (unat b) k" using that by (simp add: bit_push_bit_iff_nat)
      then show ?thesis using bit_imp_le_length [of b k] by (auto simp: bit_unsigned_iff)
    qed
    ultimately show "bit (a AND b) k = bit (0 :: u32) k" by (auto simp: bit_simps) (meson linorder_not_less)
  qed
  then have "a OR b = a + b" by (simp add: disjunctive_add_eq_or)
  then show ?thesis using assms(3) by (simp add: unat_plus_small)
qed

lemma shr_digit_spec:
  assumes "s \<le> 32" "2 ^ s dvd unat u" "i + m < length src" "i < length dst"
  shows "\<exists>high u1. shr_digit src m s i (dst, u) = Some (dst[i := high], u1) \<and> 2 ^ s dvd unat u1
    \<and> unat high * 2 ^ 32 + unat u1 = unat (src ! (i + m)) * 2 ^ s + unat u * 2 ^ 32"
proof -
  define x where "x = src ! (i + m)"
  define w where "w = push_bit s (ucast x :: u64)"
  have "unat x * 2 ^ s \<le> (2 ^ 32 - 1) * 2 ^ 32"
    using assms(1) unat_digit [of x] by (intro mult_le_mono power_increasing) simp_all
  then have w: "unat w = unat x * 2 ^ s"
    unfolding w_def by (subst unat_push_bit_small) (simp_all add: unat_ucast_up)
  define lo hi where "lo = unat w mod 2 ^ 32" and "hi = unat w div 2 ^ 32"
  have dvd: "(2 :: nat) ^ s dvd 2 ^ 32" using assms(1) by (rule le_imp_power_dvd)
  have "unat w < 2 ^ s * 2 ^ 32" using w unat_digit [of x] by (simp add: mult.commute)
  then have hi: "hi < 2 ^ s" unfolding hi_def by (rule less_mult_imp_div_less)
  have un: "unat (ucast (drop_bit 32 w) :: u32) = hi" "unat (ucast w :: u32) = lo"
    using unat_lt_exp [of w] by (simp_all add: unat_ucast_mod unat_drop_bit lo_def hi_def less_mult_imp_div_less)
  have "2 ^ s dvd lo" unfolding lo_def w using dvd by (simp add: dvd_mod)
  moreover have sum: "hi + unat u < 2 ^ 32"
  proof -
    obtain c where c: "2 ^ 32 = (2 :: nat) ^ s * c" using dvd by (auto elim: dvdE)
    obtain d where d: "unat u = 2 ^ s * d" using assms(2) by (auto elim: dvdE)
    have "d < c" using unat_digit [of u] unfolding c d by simp
    then have "2 ^ s * (d + 1) \<le> (2 :: nat) ^ s * c" by (intro mult_le_mono2) simp
    then show ?thesis unfolding c d using hi by simp
  qed
  moreover have "unat (ucast (drop_bit 32 w) OR u :: u32) = hi + unat u"
    using or_disjoint_add [of "ucast (drop_bit 32 w)" s u] un hi assms(2) sum by simp
  moreover have "hi * 2 ^ 32 + lo = unat x * 2 ^ s" using w by (simp add: lo_def hi_def)
  moreover have "shr_digit src m s i (dst, u) = Some (dst[i := ucast (drop_bit 32 w) OR u], ucast w)"
    using assms(3,4) by (simp add: shr_digit_def w_def x_def Let_def)
  ultimately show ?thesis using un(2) by (auto simp: x_def algebra_simps intro!: exI)
qed

lemma for_down_shr:
  assumes "s \<le> 32" "2 ^ s dvd unat u" "n + m \<le> length src" "n \<le> length dst"
  shows "\<exists>dst' uf. for_down 0 n (shr_digit src m s) (dst, u) = Some (dst', uf) \<and> length dst' = length dst
    \<and> drop n dst' = drop n dst
    \<and> bigval (take n dst') * 2 ^ 32 + unat uf = bigval (take n (drop m src)) * 2 ^ s + unat u * weight n"
  using assms
proof (induction n arbitrary: dst u)
  case (Suc n)
  obtain high u1 where d: "shr_digit src m s n (dst, u) = Some (dst[n := high], u1)" "2 ^ s dvd unat u1"
    "unat high * 2 ^ 32 + unat u1 = unat (src ! (n + m)) * 2 ^ s + unat u * 2 ^ 32"
    using shr_digit_spec [OF Suc.prems(1,2), of n m src dst] Suc.prems(3,4) by auto
  obtain dst' uf where IH: "for_down 0 n (shr_digit src m s) (dst[n := high], u1) = Some (dst', uf)"
    "length dst' = length dst" "drop n dst' = drop n (dst[n := high])"
    "bigval (take n dst') * 2 ^ 32 + unat uf = bigval (take n (drop m src)) * 2 ^ s + unat u1 * weight n"
    using Suc.IH [OF Suc.prems(1) d(2), of "dst[n := high]"] Suc.prems(3,4) by auto
  have "drop (Suc n) dst' = drop (Suc n) dst"
    using arg_cong [OF IH(3), of "drop 1"] by (simp add: drop_update_cancel)
  moreover have "dst' ! n = high" using arg_cong [OF IH(3), of hd] Suc.prems(4) IH(2) by (simp add: hd_drop_conv_nth)
  then have "bigval (take (Suc n) dst') = bigval (take n dst') + weight n * unat high"
    using Suc.prems(4) IH(2) by (simp add: take_Suc_conv_app_nth bigval_append)
  moreover have "bigval (take (Suc n) (drop m src)) = bigval (take n (drop m src)) + weight n * unat (src ! (n + m))"
    using Suc.prems(3) by (simp add: take_Suc_conv_app_nth bigval_append add.commute)
  moreover have "bigval (take n dst') * 2 ^ 32 + unat uf + weight n * (unat high * 2 ^ 32 + unat u1)
      = bigval (take n (drop m src)) * 2 ^ s + unat u1 * weight n + weight n * (unat (src ! (n + m)) * 2 ^ s + unat u * 2 ^ 32)"
    using IH(4) d(3) by simp
  ultimately show ?case using d(1) IH(1,2) by (auto simp: algebra_simps)
qed simp

lemma trim_spec:
  assumes "n \<le> length dst"
  shows "if bigval (take n dst) = 0 then trim dst n = None
    else \<exists>k. trim dst n = Some k \<and> 0 < k \<and> dst ! (k - 1) \<noteq> 0 \<and> bigval (take k dst) = bigval (take n dst)"
  using assms
proof (induction n)
  case (Suc n)
  have split: "bigval (take (Suc n) dst) = bigval (take n dst) + weight n * unat (dst ! n)"
    using Suc.prems by (simp add: take_Suc_conv_app_nth bigval_append)
  show ?case
  proof (cases "dst ! n = 0")
    case True
    then have "bigval (take (Suc n) dst) = bigval (take n dst)" "trim dst (Suc n) = trim dst n"
      using split Suc.prems by simp_all
    then show ?thesis using Suc.IH Suc.prems by (auto simp del: trim.simps split: if_splits)
  next
    case False
    then have "bigval (take (Suc n) dst) \<noteq> 0" using split by (simp add: unat_eq_0)
    then show ?thesis using False Suc.prems by simp
  qed
qed simp

lemma BigIntShR_spec:
  assumes "length src \<le> sizeD" "length src \<le> length dst" "unat amnt div 32 < length src"
  shows "if bigval src div 2 ^ unat amnt = 0 then BigIntShR dst sizeD src amnt = None
    else \<exists>flag n dst'. BigIntShR dst sizeD src amnt = Some (flag, n, dst') \<and> 0 < n \<and> dst' ! (n - 1) \<noteq> 0
      \<and> bigval (take n dst') = bigval src div 2 ^ unat amnt
      \<and> (flag \<longleftrightarrow> bigval (drop (unat amnt div 32) src) mod 2 ^ (unat amnt mod 32) \<noteq> 0)"
proof -
  define m r where "m = unat amnt div 32" and "r = unat amnt mod 32"
  define n where "n = length src - m"
  have amnt: "unat (drop_bit 5 amnt) = m" "unat (amnt AND 31) = r"
    using unat_and_mask [of amnt 5] by (simp_all add: unat_drop_bit m_def r_def mask_eq_exp_minus_1)
  have m: "m < length src" and r: "r < 32" using assms(3) by (simp_all add: m_def r_def)
  have "n \<le> length dst" "n + m \<le> length src" using m assms(2) by (simp_all add: n_def)
  then obtain dst' uf where d: "for_down 0 n (shr_digit src m (32 - r)) (dst, 0) = Some (dst', uf)" "length dst' = length dst"
    "bigval (take n dst') * 2 ^ 32 + unat uf = bigval (drop m src) * 2 ^ (32 - r)"
    using for_down_shr [of "32 - r" 0 n m src dst] by (auto simp: n_def)
  have pow: "(2 :: nat) ^ 32 = 2 ^ r * 2 ^ (32 - r)" using r by (simp flip: power_add)
  define X where "X = bigval (drop m src)"
  have q: "bigval (take n dst') = X div 2 ^ r"
  proof -
    have "bigval (take n dst') = X * 2 ^ (32 - r) div 2 ^ 32"
      using d(3) unat_digit [of uf] by (metis X_def add.commute div_less div_mult_self1 add.right_neutral power_not_zero zero_neq_numeral mult.commute add_0)
    then show ?thesis unfolding pow by simp
  qed
  have "unat uf = (X * 2 ^ (32 - r)) mod 2 ^ 32"
    using d(3) unat_digit [of uf] unfolding X_def by (metis add.commute mod_less mod_mult_self3)
  then have uf: "uf \<noteq> 0 \<longleftrightarrow> X mod 2 ^ r \<noteq> 0"
    unfolding pow by (auto simp: mult_mod_left [symmetric] unat_eq_0 simp flip: unat_eq_0)
  have "bigval src div 2 ^ unat amnt = X div 2 ^ r"
  proof -
    have "unat amnt = 32 * m + r" by (simp add: m_def r_def)
    then have "bigval src div 2 ^ unat amnt = bigval src div weight m div 2 ^ r"
      by (simp only: pow_shift div_mult2_eq)
    moreover have "bigval src div weight m = X"
      using bigval_take_split [of m src] bigval_less [of "take m src"] m by (simp add: X_def min_absorb2)
    ultimately show ?thesis by simp
  qed
  note quot = this
  have newD: "(if m \<noteq> 0 then min (length src) sizeD - m else if length src < sizeD then length src else sizeD) = n"
    using assms(1) by (auto simp: n_def)
  have eq: "BigIntShR dst sizeD src amnt = do { k \<leftarrow> trim dst' n; Some (uf \<noteq> 0, k, dst') }"
    unfolding BigIntShR_def Let_def amnt newD using m assms(1) d(1) by (simp add: min_absorb1)
  have "n \<le> length dst'" using d(2) assms(2) by (simp add: n_def)
  note t = trim_spec [OF this, unfolded q]
  show ?thesis
    unfolding quot m_def [symmetric] r_def [symmetric] X_def [symmetric] eq using t uf q by auto
qed

end
