(* ===== verification/Bigint_Theorems.thy ===== *)
theory Bigint_Theorems
  imports Bigint_Shift
begin

text \<open>What the operations on big integers compute, as statements on the numbers their arrays denote.\<close>

text \<open>
  C25. Multiplication: the destination holds, in as many digits as the two numbers have together or
  as the caller allows, the product plus the carry, modulo the capacity of these digits; nothing
  beyond them is written. The result that should tell whether digits were lost is always false.
\<close>

theorem BigIntMul_correct:
  assumes "length src1 + length src2 < 2 ^ 32" "limit = min (length src1 + length src2) (unat maxSize)"
    "limit \<le> length dst" "0 < limit"
  shows "\<exists>dst'. BigIntMul dst src1 src2 maxSize cin = Some (False, dst', limit)
    \<and> bigval (take limit dst') = (bigval src1 * bigval src2 + of_bool cin) mod 2 ^ (32 * limit)
    \<and> drop limit dst' = drop limit dst"
  using BigIntMul_spec [OF assms(1-3), of cin] assms(3,4) by (fastforce simp: power_mult)

theorem BigIntMul_correct_witness:
  "\<exists>dst'. BigIntMul [9, 9, 9] [0xFFFFFFFF] [0xFFFFFFFF] 1 False = Some (False, dst', 1)
    \<and> bigval (take 1 dst') = 0xFFFFFFFE00000001 mod 2 ^ 32 \<and> drop 1 dst' = [9, 9]"
  using BigIntMul_correct [of "[0xFFFFFFFF]" "[0xFFFFFFFF]" 1 1 "[9, 9, 9]" False] by simp

text \<open>
  Comparison: numbers of any lengths are compared by value, whether their arrays are the same
  or not.
\<close>

theorem BigIntCmp_correct:
  assumes "same \<Longrightarrow> take (length srcR) srcL = take (length srcL) srcR"
  shows "BigIntCmp same srcL srcR =
    (if bigval srcR < bigval srcL then 1 else if bigval srcL < bigval srcR then - 1 else 0)"
proof -
  define n where "n = min (length srcL) (length srcR)"
  have less: "bigval (take n srcL) < weight n" "bigval (take n srcR) < weight n"
    using bigval_less [of "take n srcL"] bigval_less [of "take n srcR"] by (simp_all add: n_def)
  have tail: "BigIntCmp same srcL srcR = compare_nat (bigval srcL) (bigval srcR)"
    if "\<not> list_ex (\<lambda>d. d \<noteq> 0) (drop n srcL)" "\<not> list_ex (\<lambda>d. d \<noteq> 0) (drop n srcR)"
  proof -
    have v: "bigval (take n srcL) = bigval srcL" "bigval (take n srcR) = bigval srcR"
      using bigval_no_extra that by blast+
    have "bigval srcL = bigval srcR" if same
      using assms [OF that] v by (auto simp: n_def min_def split: if_splits)
    moreover have "n = 0 \<Longrightarrow> bigval srcL = bigval srcR" using v by simp
    moreover have "cmp_loop srcL srcR n = compare_nat (bigval srcL) (bigval srcR)"
      using cmp_loop_spec [of n srcL srcR] v by (simp add: n_def)
    moreover have "(if length srcR < length srcL then length srcR else length srcL) = n" by (simp add: n_def)
    moreover have "\<not> (length srcR < length srcL \<and> list_ex (\<lambda>d. d \<noteq> 0) (drop (length srcR) srcL))"
      "\<not> (length srcL < length srcR \<and> list_ex (\<lambda>d. d \<noteq> 0) (drop (length srcL) srcR))"
      using that by (auto simp: n_def min_def split: if_splits)
    ultimately show ?thesis by (auto simp: BigIntCmp_def Let_def compare_nat_def simp del: list_ex_iff)
  qed
  consider "length srcR < length srcL" "list_ex (\<lambda>d. d \<noteq> 0) (drop (length srcR) srcL)"
    | "length srcL < length srcR" "list_ex (\<lambda>d. d \<noteq> 0) (drop (length srcL) srcR)"
    | "\<not> list_ex (\<lambda>d. d \<noteq> 0) (drop n srcL)" "\<not> list_ex (\<lambda>d. d \<noteq> 0) (drop n srcR)"
    unfolding n_def min_def by (cases "length srcL < length srcR"; cases "length srcR < length srcL") auto
  then show ?thesis
  proof cases
    case 1
    then have "bigval srcR < bigval srcL" using bigval_extra [OF 1] bigval_less [of srcR] by linarith
    then show ?thesis using 1 by (simp add: BigIntCmp_def Let_def)
  next
    case 2
    then have "bigval srcL < bigval srcR" using bigval_extra [OF 2] bigval_less [of srcL] by linarith
    then show ?thesis using 2 by (simp add: BigIntCmp_def Let_def)
  next
    case 3
    then show ?thesis using tail by (simp add: compare_nat_def)
  qed
qed

theorem BigIntCmp_correct_witness: "BigIntCmp False [5, 1] [7] = 1"
  using BigIntCmp_correct [of False "[7]" "[5, 1]"] by simp

text \<open>
  Powers of ten: for every exponent below 512 the digits written denote ten to that exponent,
  modulo the capacity of the digits allowed; other exponents are refused.
\<close>

theorem BigIntGetPow10_correct:
  assumes "unat sizeM \<le> length dst" "unat sizeM < 2 ^ 31"
  shows "if unat exponent < 512 \<and> 0 < unat sizeM
    then \<exists>dst' n. BigIntGetPow10 dst sizeD sizeM exponent = Some (True, dst', n) \<and> 0 < n \<and> n \<le> unat sizeM
      \<and> bigval (take n dst') = 10 ^ unat exponent mod 2 ^ (32 * unat sizeM)
    else BigIntGetPow10 dst sizeD sizeM exponent = Some (False, dst, sizeD)"
proof (cases "unat exponent < 512 \<and> 0 < unat sizeM")
  case True
  define dst1 where "dst1 = PowersOf10_Small ! unat (exponent AND 7) # replicate (unat sizeM - 1) 0 @ drop (unat sizeM) dst"
  have small: "unat (exponent AND 7) = unat exponent mod 8"
    using unat_and_mask [of exponent 3] by (simp add: mask_eq_exp_minus_1)
  have "bigval (take 1 dst1) = 10 ^ (unat exponent mod 8)"
    unfolding dst1_def using PowersOf10_Small_spec [of "unat exponent mod 8"] by (simp add: small)
  moreover have "bigval (take 1 dst1) < weight (unat sizeM)"
  proof -
    have "weight (length (take 1 dst1)) \<le> weight (unat sizeM)" using True by (intro power_increasing) (auto simp: Suc_le_eq)
    with bigval_less [of "take 1 dst1"] show ?thesis by linarith
  qed
  ultimately have v: "bigval (take 1 dst1) = 10 ^ (unat exponent mod 8) mod weight (unat sizeM)" by simp
  have big: "unat (drop_bit 3 exponent) = unat exponent div 8" by (simp add: unat_drop_bit)
  have "unat exponent div 8 < 64" using True by (simp add: less_mult_imp_div_less)
  moreover have "length dst1 = length dst" using True assms(1) by (auto simp: dst1_def)
  moreover have "8 * 2 ^ 0 * (unat exponent div 8) + unat exponent mod 8 = unat exponent" by simp
  ultimately obtain dst' n where "pow10_loop (drop_bit 3 exponent) 0 sizeM dst1 1 = Some (dst', n)" "0 < n" "n \<le> unat sizeM"
    "bigval (take n dst') = 10 ^ unat exponent mod weight (unat sizeM)"
    using pow10_loop_spec [of "drop_bit 3 exponent" 0 1 sizeM dst1 "10 ^ (unat exponent mod 8)"] v big True assms
    by (auto simp flip: power_add simp: add.commute)
  moreover have "\<not> 512 \<le> exponent" "\<not> sizeM < 1" using True by (auto simp: word_le_nat_alt word_less_nat_alt)
  ultimately show ?thesis using True assms(1) by (auto simp: BigIntGetPow10_def dst1_def Let_def power_mult)
next
  case False
  then have "512 \<le> exponent \<or> sizeM < 1" by (auto simp: word_le_nat_alt word_less_nat_alt)
  with False show ?thesis by (simp add: BigIntGetPow10_def)
qed

theorem BigIntGetPow10_correct_witness:
  "\<exists>dst' n. BigIntGetPow10 (replicate 60 7) 0 54 511 = Some (True, dst', n) \<and> 0 < n \<and> n \<le> 54
    \<and> bigval (take n dst') = 10 ^ 511"
  using BigIntGetPow10_correct [of 54 "replicate 60 7" 511 0] by simp

text \<open>
  A number of \<open>n\<close> digits is stored in an array, and nothing else is touched.
\<close>

definition stores :: "nat \<Rightarrow> nat \<Rightarrow> nat \<Rightarrow> arrays \<Rightarrow> arrays \<Rightarrow> bool" where
  "stores dst n v h h' \<longleftrightarrow> bigval (take n (h' dst)) = v \<and> drop n (h' dst) = drop n (h dst)
     \<and> (\<forall>p. p \<noteq> dst \<longrightarrow> h' p = h p)"

lemma written_stores:
  assumes "written dst 0 n f h h'" "n \<le> length (h dst)"
    and "\<And>k. bit v k \<longleftrightarrow> k div 32 < n \<and> bit (f (k div 32)) (k mod 32)"
  shows "stores dst n v h h'"
proof -
  have "bigval (take n (h' dst)) = v"
    by (rule bit_eqI) (simp only: bit_written [OF assms(1,2)] assms(3))
  moreover have "drop n (h' dst) = drop n (h dst)"
    using written_length [OF assms(1), of dst] by (intro nth_equalityI) (auto simp: written_beyond [OF assms(1)])
  ultimately show ?thesis using written_other [OF assms(1)] by (auto simp: stores_def)
qed

text \<open>
  Bitwise operations, for a destination that is none of the sources and at least as large: the
  result denotes the conjunction, disjunction or exclusive disjunction of the numbers, the shorter
  one extended by zeros; \<open>BigIntNot\<close> on numbers of the same size gives the complement. No other array
  and no digit beyond the destination changes.
\<close>

theorem BigInt_bitwise_correct:
  assumes "dst \<noteq> src1" "dst \<noteq> src2" "size1 \<le> sizeD" "size2 \<le> sizeD"
    "sizeD \<le> length (h dst)" "size1 \<le> length (h src1)" "size2 \<le> length (h src2)"
  defines "a \<equiv> bigval (take size1 (h src1))" and "b \<equiv> bigval (take size2 (h src2))"
  shows "(\<exists>h'. BigIntAnd dst sizeD src1 size1 src2 size2 h = Some h' \<and> stores dst sizeD (a AND b) h h')
    \<and> (\<exists>h'. BigIntOr dst sizeD src1 size1 src2 size2 h = Some h' \<and> stores dst sizeD (a OR b) h h')
    \<and> (\<exists>h'. BigIntXor dst sizeD src1 size1 src2 size2 h = Some h' \<and> stores dst sizeD (a XOR b) h h')
    \<and> (\<exists>h'. BigIntNot dst size1 src1 size1 h = Some h' \<and> stores dst size1 (2 ^ (32 * size1) - 1 - a) h h')"
proof (intro conjI)
  let ?a = "digit h src1 size1" and ?b = "digit h src2 size2"
  have ab: "bit a k \<longleftrightarrow> bit (?a (k div 32)) (k mod 32)" "bit b k \<longleftrightarrow> bit (?b (k div 32)) (k mod 32)" for k
    unfolding a_def b_def
    using bit_operand [of size1 h src1 k] bit_operand [of size2 h src2 k] assms(6,7) by simp_all
  have out: "bit (?a j) i \<Longrightarrow> j < sizeD" "bit (?b j) i \<Longrightarrow> j < sizeD" for i j
    using assms(3,4) by (auto simp: digit_def split: if_splits)
  have sizes: "max sizeD (min size1 size2) = sizeD" using assms(3) by auto
  obtain h1 where "BigIntAnd dst sizeD src1 size1 src2 size2 h = Some h1"
    "written dst 0 sizeD (\<lambda>j. ?a j AND ?b j) h h1"
    using BigIntAnd_written [OF assms(1,2) _ assms(6,7), of sizeD] assms(5) unfolding sizes by blast
  moreover have "stores dst sizeD (a AND b) h h1"
    by (rule written_stores [OF calculation(2) assms(5)]) (auto simp: ab dest: out simp: bit_and_iff)
  ultimately show "\<exists>h'. BigIntAnd dst sizeD src1 size1 src2 size2 h = Some h' \<and> stores dst sizeD (a AND b) h h'" by blast
  obtain h2 where "BigIntOr dst sizeD src1 size1 src2 size2 h = Some h2" "written dst 0 sizeD (\<lambda>j. ?a j OR ?b j) h h2"
    using merge_written [of "(OR)", OF _ _ assms(1,2,5-7)] by (auto simp: BigIntOr_def)
  moreover have "stores dst sizeD (a OR b) h h2"
    by (rule written_stores [OF calculation(2) assms(5)]) (auto simp: ab dest: out simp: bit_or_iff)
  ultimately show "\<exists>h'. BigIntOr dst sizeD src1 size1 src2 size2 h = Some h' \<and> stores dst sizeD (a OR b) h h'" by blast
  obtain h3 where "BigIntXor dst sizeD src1 size1 src2 size2 h = Some h3" "written dst 0 sizeD (\<lambda>j. ?a j XOR ?b j) h h3"
    using merge_written [of "(XOR)", OF _ _ assms(1,2,5-7)] by (auto simp: BigIntXor_def)
  moreover have "stores dst sizeD (a XOR b) h h3"
    by (rule written_stores [OF calculation(2) assms(5)]) (auto simp: ab dest: out simp: bit_xor_iff)
  ultimately show "\<exists>h'. BigIntXor dst sizeD src1 size1 src2 size2 h = Some h' \<and> stores dst sizeD (a XOR b) h h'" by blast
  obtain h4 where h4: "BigIntNot dst size1 src1 size1 h = Some h4" "written dst 0 size1 (\<lambda>j. NOT (h src1 ! j)) h h4"
    using BigIntNot_written [of size1 h dst size1 src1] assms(3,5,6) by auto
  have len: "size1 \<le> length (h dst)" using assms(3,5) by simp
  have sum: "bigval (map NOT xs) + bigval xs + 1 = weight (length xs)" for xs
  proof (induction xs)
    case (Cons d xs)
    have "NOT d = - 1 - d" by (simp add: not_eq_complement)
    moreover have "unat (- 1 :: u32) = 2 ^ 32 - 1" by (simp add: unsigned_minus_1_eq_mask mask_eq_exp_minus_1)
    ultimately have "unat (NOT d) + unat d = 2 ^ 32 - 1"
      using unat_digit [of d] by (simp add: unat_sub)
    then have "bigval (map NOT (d # xs)) + bigval (d # xs) + 1 = 2 ^ 32 * (bigval (map NOT xs) + bigval xs + 1)"
      by (simp add: algebra_simps)
    then show ?case using Cons.IH by simp
  qed simp
  have "take size1 (h4 dst) = map NOT (take size1 (h src1))"
    using assms(6) len written_length [OF h4(2), of dst] by (intro nth_equalityI) (auto simp: written_nth [OF h4(2)])
  then have "bigval (take size1 (h4 dst)) + a + 1 = 2 ^ (32 * size1)"
    using sum [of "take size1 (h src1)"] assms(6) by (simp add: a_def min_absorb2 power_mult)
  then have "stores dst size1 (2 ^ (32 * size1) - 1 - a) h h4"
    using written_length [OF h4(2), of dst] written_other [OF h4(2)]
    by (auto simp: stores_def intro!: nth_equalityI written_beyond [OF h4(2)])
  with h4(1) show "\<exists>h'. BigIntNot dst size1 src1 size1 h = Some h' \<and> stores dst size1 (2 ^ (32 * size1) - 1 - a) h h'"
    by blast
qed

definition demo_store :: arrays where
  "demo_store = (\<lambda>_. [])(0 := [7, 7, 7], 1 := [12, 1], 2 := [10])"

theorem BigInt_bitwise_correct_witness:
  "\<exists>h'. BigIntAnd 0 2 1 2 2 1 demo_store = Some h' \<and> stores 0 2 8 demo_store h'"
  using BigInt_bitwise_correct [of 0 1 2 2 2 1 demo_store] by (simp add: demo_store_def)

text \<open>
  Left shift in place, or by less than a digit: the digits written denote the number times two
  to the amount, modulo the capacity of the digits allowed, and when these have room for the
  digits moved up the result tells whether bits were lost.
\<close>

theorem BigIntShL_correct:
  assumes "dst = src \<or> unat amnt < 32" "sizeS \<le> length (h src)" "sizeM \<le> length (h dst)"
  defines "v \<equiv> bigval (take sizeS (h src)) * 2 ^ unat amnt"
  shows "\<exists>flag n h'. BigIntShL dst sizeD src sizeS sizeM amnt h = Some (flag, n, h') \<and> n \<le> sizeM
    \<and> (\<forall>p. p \<noteq> dst \<longrightarrow> h' p = h p) \<and> bigval (take n (h' dst)) = v mod 2 ^ (32 * sizeM)
    \<and> (0 < sizeS \<and> sizeS + unat amnt div 32 \<le> sizeM \<longrightarrow> (flag \<longleftrightarrow> 2 ^ (32 * sizeM) \<le> v))"
  using BigIntShL_spec [OF assms(1-3), of sizeD] unfolding v_def power_mult .

theorem BigIntShL_correct_witness:
  "\<exists>flag n h'. BigIntShL 1 0 1 2 3 33 (demo_store(1 := [12, 1, 0])) = Some (flag, n, h')
    \<and> bigval (take n (h' 1)) = (12 + 2 ^ 32) * 2 ^ 33 \<and> \<not> flag"
proof -
  let ?h = "demo_store(1 := [12, 1, 0])"
  have "bigval (take 2 (?h 1)) = 12 + 2 ^ 32" by simp
  then show ?thesis using BigIntShL_correct [of 1 1 33 2 ?h 3 0] by fastforce
qed

text \<open>
  Right shift of a number into a destination of its size: the digits left denote the number
  divided by two to the amount, without leading zeros, and the result tells whether the division
  of the digits kept has a remainder. If the quotient is zero the code reads before its array.
\<close>

theorem BigIntShR_correct:
  assumes "length src \<le> sizeD" "length src \<le> length dst" "unat amnt div 32 < length src"
  shows "if bigval src div 2 ^ unat amnt = 0 then BigIntShR dst sizeD src amnt = None
    else \<exists>flag n dst'. BigIntShR dst sizeD src amnt = Some (flag, n, dst') \<and> 0 < n \<and> dst' ! (n - 1) \<noteq> 0
      \<and> bigval (take n dst') = bigval src div 2 ^ unat amnt
      \<and> (flag \<longleftrightarrow> bigval (drop (unat amnt div 32) src) mod 2 ^ (unat amnt mod 32) \<noteq> 0)"
  using assms by (rule BigIntShR_spec)

theorem BigIntShR_correct_witness:
  "(\<exists>flag n dst'. BigIntShR [0, 0] 2 [0, 6] 33 = Some (flag, n, dst') \<and> bigval (take n dst') = 3)
   \<and> BigIntShR [0] 1 [1] 1 = None"
  using BigIntShR_correct [of "[0, 6]" 2 "[0, 0]" 33] BigIntShR_correct [of "[1]" 1 "[0]" 1] by fastforce

section \<open>Deviations\<close>

text \<open>
  A left shift by whole digits into another array shifts the digits of the source where they are
  and not the ones it has moved up: 1 shifted by 32 becomes 7 times \<open>2 ^ 32\<close> when the source has a 7
  behind its single digit.
\<close>

theorem BigIntShL_distinct_wrong:
  "map_option (\<lambda>(flag, n, h'). (flag, n, h' 0)) (BigIntShL 0 0 1 1 2 32 ((\<lambda>_. [])(0 := [0, 0], 1 := [1, 7])))
     = Some (False, 2, [0, 7])"
  by code_simp

text \<open>\<open>BigIntAnd\<close> into another array writes as many digits as the shorter source has, beyond the destination's size.\<close>

theorem BigIntAnd_writes_beyond:
  "map_option (\<lambda>h'. h' 0) (BigIntAnd 0 1 1 2 2 2 ((\<lambda>_. [])(0 := [0, 99], 1 := [1, 3], 2 := [1, 5])))
     = Some [1, 1]"
  by code_simp

end
