(* ===== verification/Obj_Pool.thy ===== *)
theory Obj_Pool
  imports Regions
begin

text \<open>
  \<^verbatim>\<open>sysheaders/common/memory/object_allocator_pools.hpp\<close> and
  \<^verbatim>\<open>beelzebub/src/memory/object_allocator_pools_heap.cpp\<close>: pools of objects of one size and the
  functions that acquire, enlarge and release a pool in the kernel heap.

  The free objects of a pool form a stack threaded through their own memory. Of that memory the
  model has what the code accesses: the field \<open>Next\<close> of the \<open>FreeObject\<close> at an address and the busy
  bit of the object at an address. \<open>Pages\<close> is the state of the manager of virtual memory, whose
  functions \<open>AllocatePages\<close> and \<open>FreePages\<close> are arguments. A dereferenced null pointer and a failed
  assertion (which stops a debug build and is unreachable code in a release build) are \<open>None\<close>.
\<close>

section \<open>Pools\<close>

definition obj_ind_invalid :: u32 where
  "obj_ind_invalid = 0xFFFFFFFF"

record ObjectPoolBase =
  PoolAddress :: uintptr
  pool_FreeCount :: u32
  pool_Capacity :: u32
  FirstFreeObject :: u32
  LastFreeObject :: u32

definition ObjectPoolBase_new :: "uintptr \<Rightarrow> ObjectPoolBase" where
  "ObjectPoolBase_new this = \<lparr>PoolAddress = this, pool_FreeCount = 0, pool_Capacity = 0,
     FirstFreeObject = obj_ind_invalid, LastFreeObject = obj_ind_invalid\<rparr>"

record 'e obj_memory =
  FreeNext :: "uintptr \<Rightarrow> u32"
  BusyBits :: "uintptr \<Rightarrow> bool"
  Pages :: 'e

text \<open>Four indices and the pointer to the next pool.\<close>

definition sizeof_ObjectPoolBase :: u64 where
  "sizeof_ObjectPoolBase = 24"

definition object_addr :: "u64 \<Rightarrow> u64 \<Rightarrow> ObjectPoolBase \<Rightarrow> u32 \<Rightarrow> uintptr" where
  "object_addr objectSize headerSize this i = PoolAddress this + headerSize + ucast i * objectSize"

definition GetFirstFreeObject :: "u64 \<Rightarrow> u64 \<Rightarrow> ObjectPoolBase \<Rightarrow> uintptr" where
  "GetFirstFreeObject objectSize headerSize this =
     object_addr objectSize headerSize this (FirstFreeObject this)"

definition GetLastFreeObject :: "u64 \<Rightarrow> u64 \<Rightarrow> ObjectPoolBase \<Rightarrow> uintptr" where
  "GetLastFreeObject objectSize headerSize this =
     object_addr objectSize headerSize this (LastFreeObject this)"

definition pool_Contains :: "uintptr \<Rightarrow> u64 \<Rightarrow> u64 \<Rightarrow> ObjectPoolBase \<Rightarrow> bool" where
  "pool_Contains object objectSize headerSize this =
     (let start = PoolAddress this + headerSize
      in start \<le> object \<and> object \<le> start + ucast (pool_Capacity this - 1) * objectSize)"

text \<open>The overload that also returns the index: \<open>None\<close> for false, the index then being invalid.\<close>

definition pool_Contains_ind :: "uintptr \<Rightarrow> u64 \<Rightarrow> u64 \<Rightarrow> ObjectPoolBase \<Rightarrow> u32 option" where
  "pool_Contains_ind object objectSize headerSize this =
     (let start = PoolAddress this + headerSize in
      if start \<le> object then
        (let offset = (object - start) div objectSize in
         if offset < ucast (pool_Capacity this) then Some (ucast offset) else None)
      else None)"

definition IndexOf :: "uintptr \<Rightarrow> u64 \<Rightarrow> u64 \<Rightarrow> ObjectPoolBase \<Rightarrow> u32" where
  "IndexOf object objectSize headerSize this =
     ucast ((object - headerSize - PoolAddress this) div objectSize)"

section \<open>Pools in the kernel heap\<close>

text \<open>
  The loop that links the objects \<open>i\<close> to \<open>n - 1\<close>, common to \<open>FillPool\<close> and \<open>EnlargePoolInKernelHeap\<close>:
  \<open>last0\<close> (\<open>last\<close> in the code) is the object linked before, null for none.
\<close>

function link_loop :: "u64 \<Rightarrow> u32 \<Rightarrow> u32 \<Rightarrow> uintptr \<Rightarrow> uintptr option \<Rightarrow> ObjectPoolBase \<Rightarrow> 'e obj_memory
    \<Rightarrow> uintptr option \<times> ObjectPoolBase \<times> 'e obj_memory" where
  "link_loop objectSize i n cursor last0 pool m =
     (if i < n then
        (case last0 of
           None \<Rightarrow> link_loop objectSize (i + 1) n (cursor + objectSize) (Some cursor)
                     (pool\<lparr>FirstFreeObject := i\<rparr>) m
         | Some l \<Rightarrow> link_loop objectSize (i + 1) n (cursor + objectSize) (Some cursor) pool
                     (m\<lparr>FreeNext := (FreeNext m)(l := i)\<rparr>))
      else (last0, pool, m))"
  by pat_completeness auto
termination
proof (relation "measure (\<lambda>(objectSize, i, n, cursor, last, pool, m). unat n - unat i)")
  fix i n :: u32
  assume "i < n"
  then have "unat (i + 1) = unat i + 1" "unat i < unat n"
    using plus_one_small [of i] unat_lt_exp [of n] by (auto simp: word_less_nat_alt)
  then show "((os, i + 1, n, c, l, p, m), (os, i, n, c', l', p', m'))
      \<in> measure (\<lambda>(objectSize, i, n, cursor, last, pool, m). unat n - unat i)"
    for os :: u64 and c c' :: uintptr and l l' :: "uintptr option" and p p' :: ObjectPoolBase
      and m m' :: "'a obj_memory"
    by simp
  then show "((os, i + 1, n, c, l, p, m), (os, i, n, c', l', p', m'))
      \<in> measure (\<lambda>(objectSize, i, n, cursor, last, pool, m). unat n - unat i)"
    for os :: u64 and c c' :: uintptr and l l' :: "uintptr option" and p p' :: ObjectPoolBase
      and m m' :: "'a obj_memory" .
qed simp

declare link_loop.simps [simp del]

text \<open>What follows the loop: the last object linked ends the stack.\<close>

definition finish_links :: "u32 \<Rightarrow> uintptr option \<times> ObjectPoolBase \<times> 'e obj_memory
    \<Rightarrow> (ObjectPoolBase \<times> 'e obj_memory) option" where
  "finish_links n = (\<lambda>(last, pool, m). case last of
       None \<Rightarrow> None
     | Some l \<Rightarrow> Some (pool\<lparr>LastFreeObject := n - 1\<rparr>,
         m\<lparr>FreeNext := (FreeNext m)(l := obj_ind_invalid)\<rparr>))"

definition FillPool :: "ObjectPoolBase \<Rightarrow> u64 \<Rightarrow> u64 \<Rightarrow> u32 \<Rightarrow> 'e obj_memory
    \<Rightarrow> (ObjectPoolBase \<times> 'e obj_memory) option" where
  "FillPool pool objectSize headerSize objectCount m =
     finish_links objectCount
       (link_loop objectSize 0 objectCount (PoolAddress pool + headerSize) None
          (pool\<lparr>pool_Capacity := objectCount, pool_FreeCount := objectCount\<rparr>) m)"

type_synonym 'e page_alloc = "vsize \<Rightarrow> vaddr \<Rightarrow> 'e \<Rightarrow> HandleResult \<times> vaddr \<times> 'e"
type_synonym 'e page_free = "vaddr \<Rightarrow> vsize \<Rightarrow> 'e \<Rightarrow> HandleResult \<times> 'e"

text \<open>The type of the pool functions: a pool comes with the memory they have changed.\<close>

type_synonym 'e pool_result = "(HandleResult \<times> ObjectPoolBase \<times> 'e obj_memory) option"

definition AcquirePoolInKernelHeap :: "'e page_alloc \<Rightarrow> u64 \<Rightarrow> u64 \<Rightarrow> u64 \<Rightarrow> 'e obj_memory
    \<Rightarrow> (HandleResult \<times> ObjectPoolBase option \<times> 'e obj_memory) option" where
  "AcquirePoolInKernelHeap AllocatePages objectSize headerSize minimumObjects m =
     (if headerSize < sizeof_ObjectPoolBase then None
      else let sz = RoundUp (objectSize * minimumObjects + headerSize) PageSize;
          (res, addr, e) = AllocatePages sz 0 (Pages m);
          m = m\<lparr>Pages := e\<rparr>
      in if res \<noteq> Okay then Some (res, None, m)
         else map_option (\<lambda>(pool, m). (Okay, Some pool, m))
           (FillPool (ObjectPoolBase_new addr) objectSize headerSize
              (ucast ((sz - headerSize) div objectSize)) m))"

definition EnlargePoolInKernelHeap :: "'e page_alloc \<Rightarrow> u64 \<Rightarrow> u64 \<Rightarrow> u64 \<Rightarrow> ObjectPoolBase \<Rightarrow> 'e obj_memory
    \<Rightarrow> 'e pool_result" where
  "EnlargePoolInKernelHeap AllocatePages objectSize headerSize minimumExtraObjects pool m =
     (let oldSize = RoundUp (objectSize * ucast (pool_Capacity pool) + headerSize) PageSize;
          newSize = RoundUp (objectSize * (ucast (pool_Capacity pool) + minimumExtraObjects) + headerSize) PageSize
      in if \<not> newSize > oldSize then None
         else
           let oldEnd = PoolAddress pool + oldSize;
               (res, vaddr, e) = AllocatePages (newSize - oldSize) oldEnd (Pages m);
               m = m\<lparr>Pages := e\<rparr>
           in if res \<noteq> Okay then Some (res, pool, m)
              else if vaddr \<noteq> oldEnd then None
              else
                let oldObjectCount = pool_Capacity pool;
                    newObjectCount = ucast ((newSize - headerSize) div objectSize);
                    last = (if pool_FreeCount pool > 0 then Some (GetLastFreeObject objectSize headerSize pool)
                            else None)
                in map_option (\<lambda>(pool, m). (Okay,
                       pool\<lparr>pool_Capacity := newObjectCount,
                            pool_FreeCount := pool_FreeCount pool + (newObjectCount - oldObjectCount)\<rparr>, m))
                     (finish_links newObjectCount
                        (link_loop objectSize oldObjectCount newObjectCount
                           (object_addr objectSize headerSize pool oldObjectCount) last pool m)))"

definition ReleasePoolFromKernelHeap :: "'e page_free \<Rightarrow> u64 \<Rightarrow> u64 \<Rightarrow> ObjectPoolBase \<Rightarrow> 'e obj_memory
    \<Rightarrow> 'e pool_result" where
  "ReleasePoolFromKernelHeap FreePages objectSize headerSize pool m =
     (let (res, e) = FreePages (PoolAddress pool)
            (RoundUp (objectSize * ucast (pool_Capacity pool) + headerSize) PageSize) (Pages m)
      in if res \<noteq> Okay then None else Some (res, pool, m\<lparr>Pages := e\<rparr>))"

end
