(* ===== verification/Obj_Alloc.thy ===== *)
theory Obj_Alloc
  imports Obj_Pool
begin

text \<open>
  \<^verbatim>\<open>sysheaders/common/memory/object_allocator_hbase.inc\<close> and \<^verbatim>\<open>object_allocator_cbase.inc\<close> as
  \<open>ObjectAllocator\<close> includes them: the allocator for a single consumer, without its own locks, that
  an address space takes the descriptors of its regions from.

  The chain of pools is a list. The three functions an allocator is given are the record
  \<open>pool_funcs\<close>. \<open>Mem\<close> is the memory of the objects, which the allocator writes its links to.
\<close>

datatype PoolReleaseOptions = ReleaseAll | KeepOne | NoRelease

record 'e pool_funcs =
  AcquirePool :: "u64 \<Rightarrow> u64 \<Rightarrow> u64 \<Rightarrow> 'e obj_memory \<Rightarrow> (HandleResult \<times> ObjectPoolBase option \<times> 'e obj_memory) option"
  EnlargePool :: "(u64 \<Rightarrow> u64 \<Rightarrow> u64 \<Rightarrow> ObjectPoolBase \<Rightarrow> 'e obj_memory \<Rightarrow> 'e pool_result) option"
  ReleasePool :: "u64 \<Rightarrow> u64 \<Rightarrow> ObjectPoolBase \<Rightarrow> 'e obj_memory \<Rightarrow> 'e pool_result"

record 'e ObjectAllocator =
  PoolFuncs :: "'e pool_funcs option"
  ObjectSize :: u64
  HeaderSize :: u64
  Pools :: "ObjectPoolBase list"
  alloc_Capacity :: u64
  alloc_FreeCount :: u64
  PoolCount :: u64
  ReleaseOptions :: PoolReleaseOptions
  BusyBit :: u64
  BusyCount :: u64
  Quota :: u64
  Mem :: "'e obj_memory"

definition SIZE_MAX :: u64 where
  "SIZE_MAX = - 1"

definition sizeof_FreeObject :: u64 where
  "sizeof_FreeObject = 8"

definition ObjectAllocator_new :: "u64 \<Rightarrow> u64 \<Rightarrow> 'e pool_funcs \<Rightarrow> PoolReleaseOptions \<Rightarrow> u64 \<Rightarrow> u64
    \<Rightarrow> 'e obj_memory \<Rightarrow> 'e ObjectAllocator" where
  "ObjectAllocator_new objectSize objectAlignment funcs releaseOptions busyBit quota m =
     (let os = RoundUp (max objectSize sizeof_FreeObject) objectAlignment
      in \<lparr>PoolFuncs = Some funcs, ObjectSize = os, HeaderSize = RoundUp sizeof_ObjectPoolBase os,
          Pools = [], alloc_Capacity = 0, alloc_FreeCount = 0, PoolCount = 0,
          ReleaseOptions = releaseOptions, BusyBit = busyBit, BusyCount = 0, Quota = quota, Mem = m\<rparr>)"

definition GetClearance :: "'e ObjectAllocator \<Rightarrow> u64" where
  "GetClearance a = (if BusyCount a \<le> Quota a then Quota a - BusyCount a else 0)"

section \<open>Allocation\<close>

definition set_busy :: "uintptr \<Rightarrow> 'e ObjectAllocator \<Rightarrow> 'e ObjectAllocator" where
  "set_busy obj a =
     (if BusyBit a < SIZE_MAX
      then a\<lparr>Mem := (Mem a)\<lparr>BusyBits := (BusyBits (Mem a))(obj := True)\<rparr>\<rparr> else a)"

text \<open>The acquisition of a pool for the chain, with its place in the chain left to the caller.\<close>

definition acquire_first :: "'e pool_funcs \<Rightarrow> u64 \<Rightarrow> 'e ObjectAllocator \<Rightarrow> (HandleResult \<times> 'e ObjectAllocator) option" where
  "acquire_first funcs estimatedLeft a =
     (if Pools a \<noteq> [] then Some (Okay, a)
      else case AcquirePool funcs (ObjectSize a) (HeaderSize a) (min estimatedLeft 2) (Mem a) of
        None \<Rightarrow> None
      | Some (res, justAllocated, m) \<Rightarrow>
          if res \<noteq> Okay then Some (res, a\<lparr>Mem := m\<rparr>)
          else map_option (\<lambda>pool. (Okay,
                 a\<lparr>Mem := m, PoolCount := PoolCount a + 1,
                   alloc_Capacity := alloc_Capacity a + ucast (pool_Capacity pool),
                   alloc_FreeCount := alloc_FreeCount a + ucast (pool_FreeCount pool),
                   Pools := [pool]\<rparr>)) justAllocated)"

text \<open>The pools before the first one that has a free object, that pool, and the rest.\<close>

fun find_free :: "ObjectPoolBase list \<Rightarrow> (ObjectPoolBase list \<times> ObjectPoolBase \<times> ObjectPoolBase list) option" where
  "find_free [] = None"
| "find_free (pool # pools) =
     (if pool_FreeCount pool = 0
      then map_option (\<lambda>(before, current, after). (pool # before, current, after)) (find_free pools)
      else Some ([], pool, pools))"

text \<open>Taking the first free object of \<open>current\<close>, which is enlarged if that was the last one.\<close>

definition take_object :: "'e pool_funcs \<Rightarrow> u64 \<Rightarrow> ObjectPoolBase list \<Rightarrow> ObjectPoolBase \<Rightarrow> ObjectPoolBase list
    \<Rightarrow> 'e ObjectAllocator \<Rightarrow> (HandleResult \<times> uintptr option \<times> 'e ObjectAllocator) option" where
  "take_object funcs estimatedLeft before current after a =
     (let freeCount = pool_FreeCount current - 1;
          obj = GetFirstFreeObject (ObjectSize a) (HeaderSize a) current;
          taken = current\<lparr>pool_FreeCount := freeCount, FirstFreeObject := FreeNext (Mem a) obj\<rparr>;
          enlarged =
            (if freeCount = 0
             then (let emptied = taken\<lparr>LastFreeObject := obj_ind_invalid\<rparr> in
                   case EnlargePool funcs of
                     None \<Rightarrow> Some (emptied, a)
                   | Some enlarge \<Rightarrow>
                       map_option (\<lambda>(res, pool, m).
                           (pool, if pool_Capacity pool \<noteq> pool_Capacity emptied
                                  then a\<lparr>Mem := m,
                                    alloc_Capacity := alloc_Capacity a + ucast (pool_Capacity pool - pool_Capacity emptied),
                                    alloc_FreeCount := alloc_FreeCount a + ucast (pool_FreeCount pool)\<rparr>
                                  else a\<lparr>Mem := m\<rparr>))
                         (enlarge (ObjectSize a) (HeaderSize a) estimatedLeft emptied (Mem a)))
             else Some (taken, a))
      in map_option (\<lambda>(pool, a). let a = set_busy obj a in
             (Okay, Some obj, a\<lparr>Pools := before @ pool # after, alloc_FreeCount := alloc_FreeCount a - 1\<rparr>))
           enlarged)"

text \<open>No pool has a free object: another pool is put at the end of the chain and its first object taken.\<close>

definition take_from_new :: "'e pool_funcs \<Rightarrow> u64 \<Rightarrow> 'e ObjectAllocator
    \<Rightarrow> (HandleResult \<times> uintptr option \<times> 'e ObjectAllocator) option" where
  "take_from_new funcs estimatedLeft a =
     (case AcquirePool funcs (ObjectSize a) (HeaderSize a) (min estimatedLeft 2) (Mem a) of
        None \<Rightarrow> None
      | Some (res, justAllocated, m) \<Rightarrow>
          if res \<noteq> Okay
          then Some (ObjaPoolsExhausted, None, a\<lparr>Mem := m, BusyCount := BusyCount a - 1\<rparr>)
          else map_option (\<lambda>pool.
                 let obj = GetFirstFreeObject (ObjectSize a) (HeaderSize a) pool;
                     taken = pool\<lparr>FirstFreeObject := FreeNext m obj, pool_FreeCount := pool_FreeCount pool - 1\<rparr>
                 in (Okay, Some obj, set_busy obj
                      (a\<lparr>Mem := m, PoolCount := PoolCount a + 1,
                         alloc_Capacity := alloc_Capacity a + ucast (pool_Capacity pool),
                         alloc_FreeCount := alloc_FreeCount a + ucast (pool_FreeCount taken),
                         Pools := Pools a @ [taken]\<rparr>))) justAllocated)"

text \<open>
  \<open>AllocateObject\<close>. A prepended result becomes the result of a handle, so an acquisition that fails
  with pools in the chain is answered \<open>ObjaPoolsExhausted\<close>.
\<close>

definition AllocateObject :: "u64 \<Rightarrow> 'e ObjectAllocator \<Rightarrow> (HandleResult \<times> uintptr option \<times> 'e ObjectAllocator) option" where
  "AllocateObject estimatedLeft a =
     (if BusyCount a \<ge> Quota a then Some (ObjaMaximumCapacity, None, a)
      else
        let a = a\<lparr>BusyCount := BusyCount a + 1\<rparr> in
        case PoolFuncs a of
          None \<Rightarrow> Some (ObjectDisposed, None, a)
        | Some funcs \<Rightarrow>
            (case acquire_first funcs estimatedLeft a of
               None \<Rightarrow> None
             | Some (res, a) \<Rightarrow>
                 if res \<noteq> Okay then Some (res, None, a)
                 else case find_free (Pools a) of
                   Some (before, current, after) \<Rightarrow> take_object funcs estimatedLeft before current after a
                 | None \<Rightarrow> take_from_new funcs estimatedLeft a))"

section \<open>Deallocation\<close>

fun find_containing :: "uintptr \<Rightarrow> u64 \<Rightarrow> u64 \<Rightarrow> ObjectPoolBase list
    \<Rightarrow> (ObjectPoolBase list \<times> ObjectPoolBase \<times> u32 \<times> ObjectPoolBase list) option" where
  "find_containing object os hs [] = None"
| "find_containing object os hs (pool # pools) =
     (case pool_Contains_ind object os hs pool of
        Some ind \<Rightarrow> Some ([], pool, ind, pools)
      | None \<Rightarrow> map_option (\<lambda>(before, current, ind, after). (pool # before, current, ind, after))
                  (find_containing object os hs pools))"

definition can_release :: "ObjectPoolBase \<Rightarrow> 'e ObjectAllocator \<Rightarrow> bool" where
  "can_release current a \<longleftrightarrow> pool_Capacity current - pool_FreeCount current = 1
     \<and> (ReleaseOptions a = ReleaseAll \<or> PoolCount a > 1 \<and> ReleaseOptions a = KeepOne)"

text \<open>
  Releasing a pool whose last busy object is freed. If that fails the pool stays as the function left
  it; the differences are those of the unsigned fields.
\<close>

definition release_pool :: "'e pool_funcs \<Rightarrow> ObjectPoolBase list \<Rightarrow> ObjectPoolBase \<Rightarrow> ObjectPoolBase list
    \<Rightarrow> 'e ObjectAllocator \<Rightarrow> (HandleResult \<times> 'e ObjectAllocator) option" where
  "release_pool funcs before current after a =
     map_option (\<lambda>(res, pool, m).
         if res = Okay
         then (Okay, a\<lparr>Mem := m, Pools := before @ after, PoolCount := PoolCount a - 1,
                alloc_Capacity := alloc_Capacity a - ucast (pool_Capacity current),
                alloc_FreeCount := alloc_FreeCount a - ucast (pool_FreeCount current)\<rparr>)
         else (Okay, a\<lparr>Mem := m, Pools := before @ pool # after,
                alloc_Capacity := alloc_Capacity a - ucast (pool_Capacity current - pool_Capacity pool),
                alloc_FreeCount := alloc_FreeCount a - (ucast (pool_FreeCount current) - ucast (pool_FreeCount pool))\<rparr>))
       (ReleasePool funcs (ObjectSize a) (HeaderSize a) current (Mem a))"

definition put_object :: "uintptr \<Rightarrow> ObjectPoolBase list \<Rightarrow> ObjectPoolBase \<Rightarrow> u32 \<Rightarrow> ObjectPoolBase list
    \<Rightarrow> 'e ObjectAllocator \<Rightarrow> 'e ObjectAllocator" where
  "put_object object before current ind after a =
     (let m = Mem a;
          m1 = (if BusyBit a < SIZE_MAX then m\<lparr>BusyBits := (BusyBits m)(object := False)\<rparr> else m)
      in a\<lparr>Mem := m1\<lparr>FreeNext := (FreeNext m1)(object := FirstFreeObject current)\<rparr>,
           Pools := before @ current\<lparr>FirstFreeObject := ind, pool_FreeCount := pool_FreeCount current + 1\<rparr> # after,
           alloc_FreeCount := alloc_FreeCount a + 1\<rparr>)"

definition DeallocateObject :: "uintptr \<Rightarrow> 'e ObjectAllocator \<Rightarrow> (HandleResult \<times> 'e ObjectAllocator) option" where
  "DeallocateObject object a =
     (if BusyBit a < SIZE_MAX \<and> \<not> BusyBits (Mem a) object then Some (ObjaAlreadyFree, a)
      else case PoolFuncs a of
        None \<Rightarrow> Some (ObjectDisposed, a)
      | Some funcs \<Rightarrow>
          (case find_containing object (ObjectSize a) (HeaderSize a) (Pools a) of
             None \<Rightarrow> Some (ArgumentOutOfRange, a)
           | Some (before, current, ind, after) \<Rightarrow>
               let a = a\<lparr>BusyCount := BusyCount a - 1\<rparr> in
               if can_release current a then release_pool funcs before current after a
               else Some (Okay, put_object object before current ind after a)))"

section \<open>Expansion\<close>

definition ForceExpand :: "u64 \<Rightarrow> 'e ObjectAllocator \<Rightarrow> (HandleResult \<times> 'e ObjectAllocator) option" where
  "ForceExpand estimate a =
     (if BusyCount a \<ge> Quota a then Some (ObjaMaximumCapacity, a)
      else case PoolFuncs a of
        None \<Rightarrow> Some (ObjectDisposed, a)
      | Some funcs \<Rightarrow>
          (case AcquirePool funcs (ObjectSize a) (HeaderSize a) (min estimate 1) (Mem a) of
             None \<Rightarrow> None
           | Some (res, justAllocated, m) \<Rightarrow>
               if res \<noteq> Okay then Some (res, a\<lparr>Mem := m\<rparr>)
               else map_option (\<lambda>pool. (res,
                      a\<lparr>Mem := m, PoolCount := PoolCount a + 1,
                        alloc_Capacity := alloc_Capacity a + ucast (pool_Capacity pool),
                        alloc_FreeCount := alloc_FreeCount a + ucast (pool_FreeCount pool),
                        Pools := pool # Pools a\<rparr>)) justAllocated))"

end
