(* ===== verification/Obj_Pool_Props.thy ===== *)
theory Obj_Pool_Props
  imports Obj_Alloc
begin

text \<open>
  The stack of free objects of a pool, what the functions of the kernel heap make of it, and the
  contract of pool functions that the object allocator relies on.
\<close>

section \<open>Addresses of objects\<close>

definition sizes_ok :: "u64 \<Rightarrow> u64 \<Rightarrow> bool" where
  "sizes_ok os hs \<longleftrightarrow> 8 \<le> unat os \<and> unat os < 2 ^ 20 \<and> 24 \<le> unat hs \<and> unat hs < 2 ^ 20"

lemma unat_ucast32 [simp]: "unat (ucast (i :: u32) :: u64) = unat i"
  using unat_lt_exp [of i] by (simp add: unat_ucast_mod)

lemma unat_object_mult:
  assumes "sizes_ok os hs"
  shows "unat (ucast (i :: u32) * os) = unat i * unat os"
proof -
  have "unat i * unat os < 2 ^ 32 * 2 ^ 20"
    using assms unat_lt_exp [of i] by (intro mult_strict_mono) (auto simp: sizes_ok_def)
  then show ?thesis
    by (subst unat_mult_small) simp_all
qed

lemma object_addr_inj:
  assumes "sizes_ok os hs"
  shows "object_addr os hs p i = object_addr os hs p j \<longleftrightarrow> i = j"
proof -
  have "object_addr os hs p i = object_addr os hs p j \<longleftrightarrow> unat (ucast i * os) = unat (ucast j * os)"
    by (simp add: object_addr_def unat_inject)
  also have "\<dots> \<longleftrightarrow> i = j"
    unfolding unat_object_mult [OF assms] using assms by (auto simp: sizes_ok_def unat_inject)
  finally show ?thesis .
qed

lemma object_addr_Suc:
  assumes "i < n"
  shows "object_addr os hs p i + os = object_addr os hs p (i + 1)"
proof -
  have "unat (i + 1) = unat i + 1"
    using assms plus_one_small [of i] unat_lt_exp [of n] by (simp add: word_less_nat_alt)
  then have "ucast (i + 1) = (ucast i + 1 :: u64)"
    by (simp add: unat_inject [symmetric] unat_ucast_mod unat_word_ariths)
  then show ?thesis
    by (simp add: object_addr_def algebra_simps)
qed

lemma object_addr_0 [simp]: "object_addr os hs p 0 = PoolAddress p + hs"
  by (simp add: object_addr_def)

lemma object_addr_cong: "PoolAddress p = PoolAddress q \<Longrightarrow> object_addr os hs p = object_addr os hs q"
  by (simp add: object_addr_def fun_eq_iff)

lemma object_addr_update [simp]:
  "object_addr os hs (p\<lparr>FirstFreeObject := i\<rparr>) = object_addr os hs p"
  "object_addr os hs (p\<lparr>LastFreeObject := i\<rparr>) = object_addr os hs p"
  "object_addr os hs (p\<lparr>pool_FreeCount := i\<rparr>) = object_addr os hs p"
  "object_addr os hs (p\<lparr>pool_Capacity := i\<rparr>) = object_addr os hs p"
  by (simp_all add: object_addr_def fun_eq_iff)

section \<open>The stack of free objects\<close>

definition push_object :: "u64 \<Rightarrow> u64 \<Rightarrow> u32 \<Rightarrow> ObjectPoolBase \<times> (uintptr \<Rightarrow> u32) \<Rightarrow> ObjectPoolBase \<times> (uintptr \<Rightarrow> u32)" where
  "push_object os hs i = (\<lambda>(p, nx). (p\<lparr>FirstFreeObject := i\<rparr>, nx(object_addr os hs p i := FirstFreeObject p)))"

definition pop_object :: "u64 \<Rightarrow> u64 \<Rightarrow> ObjectPoolBase \<times> (uintptr \<Rightarrow> u32) \<Rightarrow> ObjectPoolBase \<times> (uintptr \<Rightarrow> u32)" where
  "pop_object os hs = (\<lambda>(p, nx). (p\<lparr>FirstFreeObject := nx (GetFirstFreeObject os hs p)\<rparr>, nx))"

interpretation objects: index_stack
  "\<lambda>(p, nx). FirstFreeObject p" "\<lambda>(p, nx) i. nx (object_addr os hs p i)" obj_ind_invalid
  "\<lambda>s i. sizes_ok os hs" "push_object os hs" "pop_object os hs" for os hs
proof
  fix i j and s :: "ObjectPoolBase \<times> (uintptr \<Rightarrow> u32)"
  obtain p nx where s: "s = (p, nx)" by (cases s)
  show "(case push_object os hs i s of (p, nx) \<Rightarrow> FirstFreeObject p) = i"
    by (simp add: s push_object_def)
  show "(case push_object os hs i s of (p, nx) \<Rightarrow> \<lambda>i. nx (object_addr os hs p i)) j =
      (if j = i then case s of (p, nx) \<Rightarrow> FirstFreeObject p
       else (case s of (p, nx) \<Rightarrow> \<lambda>i. nx (object_addr os hs p i)) j)" if "sizes_ok os hs"
    using that by (simp add: s push_object_def object_addr_inj)
  show "(case pop_object os hs s of (p, nx) \<Rightarrow> FirstFreeObject p) =
      (case s of (p, nx) \<Rightarrow> \<lambda>i. nx (object_addr os hs p i)) (case s of (p, nx) \<Rightarrow> FirstFreeObject p)"
    by (simp add: s pop_object_def GetFirstFreeObject_def)
  show "(case pop_object os hs s of (p, nx) \<Rightarrow> \<lambda>i. nx (object_addr os hs p i)) j =
      (case s of (p, nx) \<Rightarrow> \<lambda>i. nx (object_addr os hs p i)) j"
    by (simp add: s pop_object_def)
qed

abbreviation free_stack :: "u64 \<Rightarrow> u64 \<Rightarrow> ObjectPoolBase \<Rightarrow> (uintptr \<Rightarrow> u32) \<Rightarrow> u32 list \<Rightarrow> bool" where
  "free_stack os hs p nx fs \<equiv> objects.stack os hs (p, nx) fs"

lemma free_stack_def:
  "free_stack os hs p nx fs \<longleftrightarrow>
     seg (\<lambda>i. nx (object_addr os hs p i)) obj_ind_invalid (FirstFreeObject p) fs obj_ind_invalid"
  by (simp add: objects.stack_def)

lemma free_stack_cong:
  assumes "PoolAddress p = PoolAddress q" "FirstFreeObject p = FirstFreeObject q"
    and "\<And>i. i \<in> set fs \<Longrightarrow> nx (object_addr os hs p i) = nx' (object_addr os hs p i)"
  shows "free_stack os hs p nx fs \<longleftrightarrow> free_stack os hs q nx' fs"
  unfolding free_stack_def assms(2)
  using seg_cong [of fs "\<lambda>i. nx (object_addr os hs p i)" "\<lambda>i. nx' (object_addr os hs q i)"] assms(3)
  by (simp add: object_addr_cong [OF assms(1)])

section \<open>Linking objects\<close>

lemma link_loop_spec:
  assumes "link_loop os i n (object_addr os hs pool i) last0 pool m = (last', pool', m')"
    and "sizes_ok os hs" "i \<le> n"
    and "\<And>l j. last0 = Some l \<Longrightarrow> i \<le> j \<Longrightarrow> l \<noteq> object_addr os hs pool j"
  shows "pool' = (if i < n \<and> last0 = None then pool\<lparr>FirstFreeObject := i\<rparr> else pool)
    \<and> last' = (if i < n then Some (object_addr os hs pool (n - 1)) else last0)
    \<and> (\<forall>j. i \<le> j \<longrightarrow> j < n - 1 \<longrightarrow> i < n \<longrightarrow> FreeNext m' (object_addr os hs pool j) = j + 1)
    \<and> (\<forall>l. last0 = Some l \<longrightarrow> i < n \<longrightarrow> FreeNext m' l = i)
    \<and> (\<forall>a. last0 \<noteq> Some a \<longrightarrow> (\<forall>j. i \<le> j \<longrightarrow> j < n \<longrightarrow> a \<noteq> object_addr os hs pool j)
         \<longrightarrow> FreeNext m' a = FreeNext m a)
    \<and> BusyBits m' = BusyBits m \<and> Pages m' = Pages m"
  using assms
proof (induction "unat n - unat i" arbitrary: i last0 pool m)
  case 0
  then have "\<not> i < n" by (simp add: word_less_nat_alt)
  with 0 show ?case by (auto simp: link_loop.simps [of os i])
next
  case (Suc k)
  note eq = Suc.prems(1) and sz = Suc.prems(2) and last_new = Suc.prems(4)
  from Suc.hyps(2) have less: "i < n" by (simp add: word_less_nat_alt)
  have "unat (i + 1) = unat i + 1" "unat i < unat n" "unat (n - 1) = unat n - 1"
    using less plus_one_small [of i] unat_lt_exp [of n]
    by (auto simp: word_less_nat_alt unat_sub_if_size word_size)
  then have w: "i + 1 \<le> n" "i + 1 < n \<longleftrightarrow> i < n - 1" "i + 1 < n \<or> n - 1 = i"
    "\<And>j. i \<le> j \<Longrightarrow> j \<noteq> i \<Longrightarrow> i + 1 \<le> j" "\<And>j. i + 1 \<le> j \<Longrightarrow> i \<le> j \<and> i \<noteq> j"
    "k = unat n - unat (i + 1)" "\<And>j. i + 1 \<le> j \<Longrightarrow> j < n - 1 \<Longrightarrow> i + 1 < n"
    using Suc.hyps(2) by (auto simp: word_less_nat_alt word_le_nat_alt unat_inject [symmetric])
  define pool1 where "pool1 = (if last0 = None then pool\<lparr>FirstFreeObject := i\<rparr> else pool)"
  define m1 where "m1 = (case last0 of None \<Rightarrow> m | Some l \<Rightarrow> m\<lparr>FreeNext := (FreeNext m)(l := i)\<rparr>)"
  have addr: "object_addr os hs pool1 = object_addr os hs pool"
    by (simp add: pool1_def)
  have eq1: "link_loop os (i + 1) n (object_addr os hs pool1 (i + 1)) (Some (object_addr os hs pool i)) pool1 m1
      = (last', pool', m')"
    using eq less object_addr_Suc [OF less]
    by (simp add: link_loop.simps [of os i] pool1_def m1_def split: option.splits)
  have ne: "object_addr os hs pool i \<noteq> object_addr os hs pool1 j" if "i + 1 \<le> j" for j
    using w(5) [OF that] sz by (auto simp: addr object_addr_inj)
  have "l \<noteq> object_addr os hs pool1 j" if "Some (object_addr os hs pool i) = Some l" "i + 1 \<le> j" for l j
    using ne that by blast
  note IH = Suc.hyps(1) [OF w(6) eq1 sz w(1) this, unfolded addr]
  have m1: "BusyBits m1 = BusyBits m" "Pages m1 = Pages m" "last0 \<noteq> Some a \<Longrightarrow> FreeNext m1 a = FreeNext m a"
    "last0 = Some l \<Longrightarrow> FreeNext m1 l = i" for a l
    by (auto simp: m1_def split: option.splits)
  have R: "pool' = pool1" "last' = Some (object_addr os hs pool (n - 1))"
    "\<And>j. i + 1 \<le> j \<Longrightarrow> j < n - 1 \<Longrightarrow> FreeNext m' (object_addr os hs pool j) = j + 1"
    "i < n - 1 \<Longrightarrow> FreeNext m' (object_addr os hs pool i) = i + 1"
    "\<And>a. a \<noteq> object_addr os hs pool i \<Longrightarrow> (\<forall>j. i + 1 \<le> j \<longrightarrow> j < n \<longrightarrow> a \<noteq> object_addr os hs pool j)
       \<Longrightarrow> FreeNext m' a = FreeNext m1 a"
    "BusyBits m' = BusyBits m1" "Pages m' = Pages m1"
    using IH w(2,3,7) by auto
  have links: "FreeNext m' (object_addr os hs pool j) = j + 1" if "i \<le> j" "j < n - 1" for j
    using that R(3,4) w(4) by (cases "j = i") auto
  have frame: "FreeNext m' a = FreeNext m1 a" if "\<forall>j. i \<le> j \<longrightarrow> j < n \<longrightarrow> a \<noteq> object_addr os hs pool j" for a
    using that less w(5) by (intro R(5)) auto
  show ?case
    using R(1,2,6,7) links frame m1 less last_new by (auto simp: pool1_def)
qed

text \<open>The links between the objects \<open>k\<close> to \<open>n - 1\<close> as a stack.\<close>

lemma linked_stack:
  assumes "\<And>j. k \<le> j \<Longrightarrow> j < n - 1 \<Longrightarrow> nx (object_addr os hs p j) = j + 1"
    and "nx (object_addr os hs p (n - 1)) = obj_ind_invalid" "FirstFreeObject p = k" "k < n"
  shows "free_stack os hs p nx (map of_nat [unat k..<unat n])"
proof -
  have small: "unat (of_nat j :: u32) = j" if "j < unat n" for j
    using that unat_lt_exp [of n] by (simp add: unat_of_nat)
  have "seg (\<lambda>i. nx (object_addr os hs p i)) obj_ind_invalid (of_nat (unat k)) (map of_nat [unat k..<unat n]) obj_ind_invalid"
  proof (rule seg_upt)
    fix j
    assume j: "unat k \<le> j" "j < unat n"
    then show "of_nat j \<noteq> obj_ind_invalid"
      using small [of j] unat_lt_exp [of n] by (auto simp: obj_ind_invalid_def unat_inject [symmetric])
    have n1: "unat (n - 1) = unat n - 1"
      using assms(4) by (auto simp: word_less_nat_alt unat_sub_if_size word_size)
    show "nx (object_addr os hs p (of_nat j)) = (if j + 1 = unat n then obj_ind_invalid else of_nat (j + 1))"
    proof (cases "j + 1 = unat n")
      case True
      then have "of_nat j = n - 1" using n1 small [of j] j by (simp add: unat_inject [symmetric])
      with True assms(2) show ?thesis by simp
    next
      case False
      then have "k \<le> of_nat j" "of_nat j < n - 1"
        using j n1 small [of j] by (auto simp: word_le_nat_alt word_less_nat_alt)
      with False assms(1) [of "of_nat j"] show ?thesis by (simp add: add.commute)
    qed
  qed (use assms(4) in \<open>simp add: word_less_nat_alt\<close>)
  then show ?thesis
    using assms(3) by (simp add: free_stack_def)
qed

lemma set_stack_range: "set (map of_nat [unat k..<unat n]) = {i :: u32. k \<le> i \<and> i < n}"
proof (rule set_eqI)
  fix i :: u32
  have "i \<in> of_nat ` {unat k..<unat n} \<longleftrightarrow> unat i \<in> {unat k..<unat n}"
  proof
    assume "i \<in> of_nat ` {unat k..<unat n}"
    then obtain j where "i = of_nat j" "j \<in> {unat k..<unat n}" by blast
    then show "unat i \<in> {unat k..<unat n}"
      using unat_lt_exp [of n] by (simp add: unat_of_nat)
  next
    assume "unat i \<in> {unat k..<unat n}"
    then show "i \<in> of_nat ` {unat k..<unat n}"
      by (intro image_eqI [of _ _ "unat i"]) auto
  qed
  then show "i \<in> set (map of_nat [unat k..<unat n]) \<longleftrightarrow> i \<in> {i. k \<le> i \<and> i < n}"
    by (auto simp: word_le_nat_alt word_less_nat_alt)
qed

text \<open>
  Linking the objects from \<open>k\<close> on in a pool that has no free object: they become its stack, and no
  other link changes.
\<close>

lemma link_objects:
  assumes "sizes_ok os hs" "k < n"
  shows "\<exists>m'. finish_links n (link_loop os k n (object_addr os hs pool k) None pool m) =
       Some (pool\<lparr>FirstFreeObject := k, LastFreeObject := n - 1\<rparr>, m')
     \<and> free_stack os hs (pool\<lparr>FirstFreeObject := k, LastFreeObject := n - 1\<rparr>) (FreeNext m')
         (map of_nat [unat k..<unat n])
     \<and> (\<forall>a. (\<forall>j. k \<le> j \<longrightarrow> j < n \<longrightarrow> a \<noteq> object_addr os hs pool j) \<longrightarrow> FreeNext m' a = FreeNext m a)
     \<and> BusyBits m' = BusyBits m \<and> Pages m' = Pages m"
proof -
  obtain last' pool' m' where l: "link_loop os k n (object_addr os hs pool k) None pool m = (last', pool', m')"
    by (metis prod_cases3)
  from assms(2) have "k \<le> n" by simp
  note spec = link_loop_spec [OF l assms(1) this]
  have n1: "k \<le> n - 1" "n - 1 < n"
    using assms(2) by (auto simp: word_le_nat_alt word_less_nat_alt unat_sub_if_size word_size)
  define m2 where "m2 = m'\<lparr>FreeNext := (FreeNext m')(object_addr os hs pool (n - 1) := obj_ind_invalid)\<rparr>"
  have eq: "finish_links n (link_loop os k n (object_addr os hs pool k) None pool m) =
      Some (pool\<lparr>FirstFreeObject := k, LastFreeObject := n - 1\<rparr>, m2)"
    using spec assms(2) unfolding l by (simp add: finish_links_def m2_def)
  have "free_stack os hs (pool\<lparr>FirstFreeObject := k, LastFreeObject := n - 1\<rparr>) (FreeNext m2)
      (map of_nat [unat k..<unat n])"
    using spec assms by (intro linked_stack) (auto simp: m2_def object_addr_inj)
  moreover have "FreeNext m2 a = FreeNext m a"
    if "\<forall>j. k \<le> j \<longrightarrow> j < n \<longrightarrow> a \<noteq> object_addr os hs pool j" for a
    using spec that n1 by (auto simp: m2_def)
  moreover have "BusyBits m2 = BusyBits m" "Pages m2 = Pages m"
    using spec by (simp_all add: m2_def)
  ultimately show ?thesis using eq by blast
qed

section \<open>The layout of a pool\<close>

definition round_page :: "nat \<Rightarrow> nat" where
  "round_page n = (n + 4095) div 4096 * 4096"

lemma round_page_le: "n \<le> round_page n"
  unfolding round_page_def by linarith

lemma round_page_less: "round_page n < n + 4096"
  unfolding round_page_def by linarith

lemma round_page_mono: "m \<le> n \<Longrightarrow> round_page m \<le> round_page n"
  unfolding round_page_def by (intro mult_right_mono div_le_mono) simp_all

lemma round_page_idem [simp]: "round_page (round_page n) = round_page n"
  unfolding round_page_def by simp

lemma unat_RoundUp_page:
  assumes "unat v + 4095 < 2 ^ 64"
  shows "unat (RoundUp v PageSize) = round_page (unat v)"
proof -
  have "v + 4096 - 1 = v + 4095" by simp
  with assms have "unat (v + 4096 - 1) = unat v + 4095"
    by (simp only:) (subst unat_plus_small; simp)
  then have d: "unat ((v + 4096 - 1) div 4096) = (unat v + 4095) div 4096"
    by (simp add: unat_div)
  have "(unat v + 4095) div 4096 * 4096 < 2 ^ 64"
    using assms by linarith
  then have "unat ((v + 4096 - 1) div 4096 * 4096) = (unat v + 4095) div 4096 * 4096"
    using unat_mult_small [of "(v + 4096 - 1) div 4096" 4096] unfolding d by simp
  then show ?thesis by (simp add: RoundUp_def PageSize_def round_page_def)
qed

text \<open>The number of objects that fit the pages taken for \<open>n\<close> objects fills these pages.\<close>

lemma objects_that_fit:
  fixes os hs n :: nat
  assumes "0 < os" "c = (round_page (os * n + hs) - hs) div os"
  shows "n \<le> c" "os * c + hs \<le> round_page (os * n + hs)" "round_page (os * n + hs) < os * (c + 1) + hs"
    "round_page (os * c + hs) = round_page (os * n + hs)"
proof -
  define S where "S = round_page (os * n + hs)"
  have S: "os * n + hs \<le> S" unfolding S_def by (rule round_page_le)
  then have "os * n \<le> S - hs" by simp
  then have "os * n div os \<le> (S - hs) div os" by (rule div_le_mono)
  then show n: "n \<le> c" using assms by (simp add: S_def)
  have c: "c = (S - hs) div os" using assms(2) by (simp add: S_def)
  have "os * c \<le> S - hs" unfolding c by simp
  then show le: "os * c + hs \<le> round_page (os * n + hs)" using S unfolding S_def by linarith
  have "S - hs < os * (c + 1)"
    using assms(1) unfolding c by (metis add.commute dividend_less_times_div plus_1_eq_Suc mult_Suc_right)
  then show "round_page (os * n + hs) < os * (c + 1) + hs" unfolding S_def by linarith
  have "os * n + hs \<le> os * c + hs" using n by simp
  then have "S \<le> round_page (os * c + hs)" unfolding S_def by (rule round_page_mono)
  moreover have "round_page (os * c + hs) \<le> S"
    using round_page_mono [OF le] by (simp add: S_def)
  ultimately show "round_page (os * c + hs) = round_page (os * n + hs)" by (simp add: S_def)
qed

definition pool_bytes :: "u64 \<Rightarrow> u64 \<Rightarrow> ObjectPoolBase \<Rightarrow> nat" where
  "pool_bytes os hs p = round_page (unat os * unat (pool_Capacity p) + unat hs)"

definition pool_space :: "u64 \<Rightarrow> u64 \<Rightarrow> ObjectPoolBase \<Rightarrow> nat set" where
  "pool_space os hs p = {unat (PoolAddress p)..<unat (PoolAddress p) + pool_bytes os hs p}"

definition layout_ok :: "u64 \<Rightarrow> u64 \<Rightarrow> ObjectPoolBase \<Rightarrow> bool" where
  "layout_ok os hs p \<longleftrightarrow> sizes_ok os hs
     \<and> pool_bytes os hs p < unat os * (unat (pool_Capacity p) + 1) + unat hs
     \<and> unat (PoolAddress p) + pool_bytes os hs p < 2 ^ 64"

definition pool_ok :: "u64 \<Rightarrow> u64 \<Rightarrow> (uintptr \<Rightarrow> u32) \<Rightarrow> ObjectPoolBase \<Rightarrow> u32 list \<Rightarrow> bool" where
  "pool_ok os hs nx p fs \<longleftrightarrow> layout_ok os hs p \<and> free_stack os hs p nx fs
     \<and> set fs \<subseteq> {i. i < pool_Capacity p} \<and> length fs = unat (pool_FreeCount p)"

lemma bytes_word:
  assumes "sizes_ok os hs" "unat x < 2 ^ 33"
  shows "unat (RoundUp (os * x + hs) PageSize) = round_page (unat os * unat x + unat hs)"
    "unat (os * x + hs) = unat os * unat x + unat hs"
proof -
  have "unat os * unat x < 2 ^ 20 * 2 ^ 33"
    using assms by (intro mult_strict_mono) (auto simp: sizes_ok_def)
  then have "unat (os * x) = unat os * unat x" "unat os * unat x < 2 ^ 53"
    using unat_mult_small [of os x] by simp_all
  moreover from this have sum: "unat (os * x + hs) = unat os * unat x + unat hs"
    using assms by (subst unat_plus_small) (simp_all add: sizes_ok_def)
  ultimately show "unat (RoundUp (os * x + hs) PageSize) = round_page (unat os * unat x + unat hs)"
    "unat (os * x + hs) = unat os * unat x + unat hs"
    using assms by (simp_all add: unat_RoundUp_page sizes_ok_def)
qed

lemma object_in_space:
  assumes "layout_ok os hs p" "i < pool_Capacity p"
  shows "unat (object_addr os hs p i) = unat (PoolAddress p) + unat hs + unat i * unat os"
    "unat (object_addr os hs p i) \<in> pool_space os hs p"
    "{unat (object_addr os hs p i)..<unat (object_addr os hs p i) + unat os} \<subseteq> pool_space os hs p"
proof -
  have sz: "sizes_ok os hs" using assms(1) by (simp add: layout_ok_def)
  have "(unat i + 1) * unat os \<le> unat (pool_Capacity p) * unat os"
    using assms(2) by (intro mult_right_mono) (simp_all add: word_less_nat_alt)
  then have le: "unat i * unat os + unat os + unat hs \<le> pool_bytes os hs p"
    using round_page_le [of "unat os * unat (pool_Capacity p) + unat hs"]
    by (simp add: pool_bytes_def algebra_simps)
  have top: "unat (PoolAddress p) + pool_bytes os hs p < 2 ^ 64"
    using assms(1) by (simp add: layout_ok_def)
  have "unat (PoolAddress p + hs) = unat (PoolAddress p) + unat hs"
    using le top by (intro unat_plus_small) simp
  then show eq: "unat (object_addr os hs p i) = unat (PoolAddress p) + unat hs + unat i * unat os"
    unfolding object_addr_def
    using le top by (subst unat_plus_small) (simp_all add: unat_object_mult [OF sz])
  show "unat (object_addr os hs p i) \<in> pool_space os hs p"
    unfolding pool_space_def eq using le sz by (simp add: sizes_ok_def)
  show "{unat (object_addr os hs p i)..<unat (object_addr os hs p i) + unat os} \<subseteq> pool_space os hs p"
    unfolding pool_space_def eq using le by auto
qed

section \<open>The contract of pool functions\<close>

text \<open>
  \<open>Owned\<close> is the memory the provider of pages has handed out. A pool that is acquired lies in memory
  that was not handed out before and all its objects are free; enlarging a pool that has no free
  object extends it by free objects in such memory, or fails and leaves it as it is; a pool that was
  handed out can be released. None of them changes a link of another pool.
\<close>

type_synonym 'e owned = "'e \<Rightarrow> nat set"

definition keeps :: "nat set \<Rightarrow> 'e obj_memory \<Rightarrow> 'e obj_memory \<Rightarrow> bool" where
  "keeps S m m' \<longleftrightarrow> (\<forall>a. unat a \<in> S \<longrightarrow> FreeNext m' a = FreeNext m a \<and> BusyBits m' a = BusyBits m a)"

definition acquired :: "u64 \<Rightarrow> u64 \<Rightarrow> 'e owned \<Rightarrow> 'e obj_memory \<Rightarrow> HandleResult \<times> ObjectPoolBase option \<times> 'e obj_memory \<Rightarrow> bool" where
  "acquired os hs Owned m = (\<lambda>(res, po, m'). keeps (Owned (Pages m)) m m' \<and>
     (if res = Okay
      then \<exists>p fs. po = Some p \<and> 0 < pool_Capacity p \<and> pool_ok os hs (FreeNext m') p fs
        \<and> set fs = {i. i < pool_Capacity p} \<and> pool_space os hs p \<inter> Owned (Pages m) = {}
        \<and> Owned (Pages m') = Owned (Pages m) \<union> pool_space os hs p
      else Owned (Pages m') = Owned (Pages m)))"

definition enlarged :: "u64 \<Rightarrow> u64 \<Rightarrow> 'e owned \<Rightarrow> ObjectPoolBase \<Rightarrow> 'e obj_memory \<Rightarrow> HandleResult \<times> ObjectPoolBase \<times> 'e obj_memory \<Rightarrow> bool" where
  "enlarged os hs Owned p m = (\<lambda>(res, p', m').
     keeps (Owned (Pages m) - {unat (object_addr os hs p j) |j. pool_Capacity p \<le> j \<and> j < pool_Capacity p'}) m m' \<and>
     (if res = Okay
      then PoolAddress p' = PoolAddress p \<and> pool_Capacity p < pool_Capacity p'
        \<and> (\<exists>fs. pool_ok os hs (FreeNext m') p' fs \<and> set fs = {i. pool_Capacity p \<le> i \<and> i < pool_Capacity p'})
        \<and> pool_space os hs p \<subseteq> pool_space os hs p'
        \<and> (pool_space os hs p' - pool_space os hs p) \<inter> Owned (Pages m) = {}
        \<and> Owned (Pages m') = Owned (Pages m) \<union> pool_space os hs p'
      else p' = p \<and> Owned (Pages m') = Owned (Pages m)))"

definition released :: "u64 \<Rightarrow> u64 \<Rightarrow> 'e owned \<Rightarrow> ObjectPoolBase \<Rightarrow> 'e obj_memory \<Rightarrow> HandleResult \<times> ObjectPoolBase \<times> 'e obj_memory \<Rightarrow> bool" where
  "released os hs Owned p m = (\<lambda>(res, p', m'). res = Okay \<and> keeps (Owned (Pages m) - pool_space os hs p) m m'
     \<and> Owned (Pages m') = Owned (Pages m) - pool_space os hs p)"

definition pool_funcs_ok :: "u64 \<Rightarrow> u64 \<Rightarrow> 'e owned \<Rightarrow> 'e pool_funcs \<Rightarrow> bool" where
  "pool_funcs_ok os hs Owned F \<longleftrightarrow>
     (\<forall>n m. 0 < n \<longrightarrow> n \<le> 2 \<longrightarrow> (\<exists>r. AcquirePool F os hs n m = Some r \<and> acquired os hs Owned m r))
     \<and> (\<forall>enlarge n p m. EnlargePool F = Some enlarge \<longrightarrow> 0 < n \<longrightarrow> unat n < 2 ^ 32 \<longrightarrow> layout_ok os hs p
          \<longrightarrow> pool_FreeCount p = 0 \<longrightarrow> pool_space os hs p \<subseteq> Owned (Pages m)
          \<longrightarrow> (\<exists>r. enlarge os hs n p m = Some r \<and> enlarged os hs Owned p m r))
     \<and> (\<forall>p m. layout_ok os hs p \<longrightarrow> pool_space os hs p \<subseteq> Owned (Pages m)
          \<longrightarrow> (\<exists>r. ReleasePool F os hs p m = Some r \<and> released os hs Owned p m r))"

section \<open>Pools in the kernel heap\<close>

text \<open>
  What \<open>Vmm::AllocatePages\<close> and \<open>Vmm::FreePages\<close> promise for the kernel heap, a window of the address
  space of less than 16 GiB here: memory granted was not handed out and lies at the address asked for,
  if one is given; memory handed out can be freed.
\<close>

definition pages_ok :: "'e owned \<Rightarrow> 'e page_alloc \<Rightarrow> 'e page_free \<Rightarrow> bool" where
  "pages_ok Owned AllocatePages FreePages \<longleftrightarrow>
     (\<exists>lo. lo + 2 ^ 34 < 2 ^ 64 \<and> (\<forall>e. Owned e \<subseteq> {lo..<lo + 2 ^ 34}))
     \<and> (\<forall>sz a e. case AllocatePages sz a e of (res, v, e') \<Rightarrow>
          if res = Okay
          then {unat v..<unat v + unat sz} \<inter> Owned e = {} \<and> Owned e' = Owned e \<union> {unat v..<unat v + unat sz}
            \<and> (a \<noteq> 0 \<longrightarrow> v = a)
          else Owned e' = Owned e)
     \<and> (\<forall>v sz e. {unat v..<unat v + unat sz} \<subseteq> Owned e \<longrightarrow> (case FreePages v sz e of (res, e') \<Rightarrow>
          res = Okay \<and> Owned e' = Owned e - {unat v..<unat v + unat sz}))"

lemma pages_alloc:
  assumes "pages_ok Owned al fr" "al sz a e = (res, v, e')"
  shows "res = Okay \<Longrightarrow> {unat v..<unat v + unat sz} \<inter> Owned e = {}"
    "res = Okay \<Longrightarrow> Owned e' = Owned e \<union> {unat v..<unat v + unat sz}"
    "res = Okay \<Longrightarrow> a \<noteq> 0 \<Longrightarrow> v = a" "res \<noteq> Okay \<Longrightarrow> Owned e' = Owned e"
  using assms(1) [unfolded pages_ok_def, THEN conjunct2, THEN conjunct1, THEN spec, of sz, THEN spec, of a,
      THEN spec, of e, unfolded assms(2)] by simp_all

lemma pages_window:
  assumes "pages_ok Owned al fr" "{a..<a + s} \<subseteq> Owned e" "0 < s"
  shows "s \<le> 2 ^ 34" "a + s < 2 ^ 64"
proof -
  obtain lo where lo: "lo + 2 ^ 34 < (2 :: nat) ^ 64" "Owned e \<subseteq> {lo..<lo + 2 ^ 34}"
    using assms(1) unfolding pages_ok_def by blast
  have "a \<in> {a..<a + s}" "a + s - 1 \<in> {a..<a + s}"
    using assms(3) by auto
  then have "a \<in> {lo..<lo + 2 ^ 34}" "a + s - 1 \<in> {lo..<lo + 2 ^ 34}"
    using assms(2) lo(2) by blast+
  then have "lo \<le> a" "a + s - 1 < lo + 2 ^ 34" by simp_all
  with lo(1) assms(3) show "s \<le> 2 ^ 34" "a + s < 2 ^ 64" by linarith+
qed

lemma count_word:
  assumes "sizes_ok os hs" "unat S = s" "unat hs \<le> s" "s \<le> 2 ^ 34"
  shows "unat (ucast ((S - hs) div os) :: u32) = (s - unat hs) div unat os"
proof -
  have "unat ((S - hs) div os) = (s - unat hs) div unat os"
    using assms by (simp add: unat_div unat_minus_le word_le_nat_alt)
  moreover have "(s - unat hs) div unat os \<le> (s - unat hs) div 8"
    using assms(1) by (intro div_le_mono2) (auto simp: sizes_ok_def)
  moreover have "(s - unat hs) div 8 \<le> 2 ^ 34 div 8"
    using assms(4) by (intro div_le_mono) simp
  ultimately show ?thesis by (simp add: unat_ucast_mod)
qed

lemma fresh_pool_layout:
  assumes "sizes_ok os hs" "unat (pool_Capacity p) = (round_page (unat os * n + unat hs) - unat hs) div unat os"
    and "unat (PoolAddress p) + round_page (unat os * n + unat hs) < 2 ^ 64"
  shows "layout_ok os hs p" "pool_bytes os hs p = round_page (unat os * n + unat hs)"
proof -
  note fit = objects_that_fit [OF _ assms(2)]
  have os: "0 < unat os" using assms(1) by (auto simp: sizes_ok_def)
  show bytes: "pool_bytes os hs p = round_page (unat os * n + unat hs)"
    unfolding pool_bytes_def by (rule fit(4) [OF os])
  show "layout_ok os hs p"
    unfolding layout_ok_def bytes using fit(3) [OF os] assms(1,3) by simp
qed

lemma AcquirePoolInKernelHeap_ok:
  assumes "pages_ok Owned al fr" "sizes_ok os hs" "0 < n" "n \<le> 2"
  shows "\<exists>r. AcquirePoolInKernelHeap al os hs n m = Some r \<and> acquired os hs Owned m r"
proof -
  define S where "S = round_page (unat os * unat n + unat hs)"
  define sz where "sz = RoundUp (os * n + hs) PageSize"
  have n: "0 < unat n" "unat n \<le> 2"
    using assms(3,4) by (auto simp: word_less_nat_alt word_le_nat_alt)
  then have sz: "unat sz = S"
    using bytes_word(1) [OF assms(2), of n] by (simp add: sz_def S_def)
  have S: "unat hs \<le> S" "0 < S"
    using round_page_le [of "unat os * unat n + unat hs"] assms(2) by (auto simp: S_def sizes_ok_def)
  obtain res v e where al: "al sz 0 (Pages m) = (res, v, e)" by (metis prod_cases3)
  have hs: "\<not> hs < sizeof_ObjectPoolBase"
    using assms(2) by (simp add: sizes_ok_def sizeof_ObjectPoolBase_def word_less_nat_alt)
  note pg = pages_alloc [OF assms(1) al, unfolded sz]
  show ?thesis
  proof (cases "res = Okay")
    case False
    with pg(4) hs al show ?thesis
      by (simp add: AcquirePoolInKernelHeap_def sz_def [symmetric] acquired_def keeps_def)
  next
    case True
    note own = pg(1,2) [OF True]
    have win: "S \<le> 2 ^ 34" "unat v + S < 2 ^ 64"
      using pages_window [OF assms(1), of "unat v" S e] own(2) S(2) by auto
    define c :: u32 where "c = ucast ((sz - hs) div os)"
    have c: "unat c = (round_page (unat os * unat n + unat hs) - unat hs) div unat os"
      using count_word [OF assms(2) sz S(1) win(1)] by (simp add: c_def S_def)
    have c0: "0 < c"
      using objects_that_fit(1) [OF _ c] assms(2) n by (simp add: word_less_nat_alt sizes_ok_def)
    define p0 where "p0 = (ObjectPoolBase_new v)\<lparr>pool_Capacity := c, pool_FreeCount := c\<rparr>"
    define p where "p = p0\<lparr>FirstFreeObject := 0, LastFreeObject := c - 1\<rparr>"
    have pf: "PoolAddress p = v" "pool_Capacity p = c" "pool_FreeCount p = c" "PoolAddress p0 = v"
      by (simp_all add: p_def p0_def ObjectPoolBase_new_def)
    have lay: "layout_ok os hs p" "pool_bytes os hs p = S"
      using fresh_pool_layout [OF assms(2), of p "unat n"] c win(2) unfolding pf S_def by simp_all
    obtain m' where m': "FillPool (ObjectPoolBase_new v) os hs c (m\<lparr>Pages := e\<rparr>) = Some (p, m')"
      "free_stack os hs p (FreeNext m') (map of_nat [0..<unat c])"
      "\<And>a. (\<And>j. j < c \<Longrightarrow> a \<noteq> object_addr os hs p j) \<Longrightarrow> FreeNext m' a = FreeNext m a"
      "BusyBits m' = BusyBits m" "Pages m' = e"
    proof -
      have "FillPool (ObjectPoolBase_new v) os hs c (m\<lparr>Pages := e\<rparr>) =
          finish_links c (link_loop os 0 c (object_addr os hs p0 0) None p0 (m\<lparr>Pages := e\<rparr>))"
        by (simp add: FillPool_def p0_def [symmetric] pf(4)) (simp add: ObjectPoolBase_new_def)
      with link_objects [OF assms(2) c0, of p0 "m\<lparr>Pages := e\<rparr>"] that show thesis
        unfolding p_def [symmetric] by (auto simp: p_def)
    qed
    have "AcquirePoolInKernelHeap al os hs n m = Some (Okay, Some p, m')"
      using hs al True m'(1) by (simp add: AcquirePoolInKernelHeap_def sz_def [symmetric] c_def)
    moreover have "pool_ok os hs (FreeNext m') p (map of_nat [0..<unat c])"
      "set (map of_nat [0..<unat c]) = {i. i < pool_Capacity p}"
      using set_stack_range [of 0 c] lay m'(2) by (simp_all add: pool_ok_def pf)
    moreover have "keeps (Owned (Pages m)) m m'"
    proof -
      have "a \<noteq> object_addr os hs p j" if "unat a \<in> Owned (Pages m)" "j < c" for a j
        using object_in_space(2) [OF lay(1), of j] that own(1) pf lay(2) by (auto simp: pool_space_def)
      then show ?thesis using m'(3,4) by (simp add: keeps_def)
    qed
    ultimately show ?thesis
      using own lay(2) c0 m'(5) by (auto simp: acquired_def pool_space_def pf)
  qed
qed

text \<open>
  The assertion of \<open>EnlargePoolInKernelHeap\<close>: more objects than the pool has never fit its pages.
\<close>

lemma enlarge_sizes:
  assumes "layout_ok os hs p" "0 < n" "unat n < 2 ^ 32"
  defines "c \<equiv> unat (pool_Capacity p)"
  defines "old \<equiv> RoundUp (os * ucast (pool_Capacity p) + hs) PageSize"
    and "new \<equiv> RoundUp (os * (ucast (pool_Capacity p) + n) + hs) PageSize"
  shows "unat old = pool_bytes os hs p" "unat new = round_page (unat os * (c + unat n) + unat hs)"
    "old < new" "unat (PoolAddress p + old) = unat (PoolAddress p) + pool_bytes os hs p"
    "PoolAddress p + old \<noteq> 0" "0 < pool_bytes os hs p"
proof -
  have sz: "sizes_ok os hs" using assms(1) by (simp add: layout_ok_def)
  have cn: "unat (ucast (pool_Capacity p) + n) = c + unat n"
    using unat_lt_exp [of "pool_Capacity p"] assms(3) by (subst unat_plus_small) (simp_all add: c_def)
  show old: "unat old = pool_bytes os hs p"
    using bytes_word(1) [OF sz, of "ucast (pool_Capacity p)"] unat_lt_exp [of "pool_Capacity p"]
    by (simp add: old_def pool_bytes_def)
  show new: "unat new = round_page (unat os * (c + unat n) + unat hs)"
    using bytes_word(1) [OF sz, of "ucast (pool_Capacity p) + n"] cn unat_lt_exp [of "pool_Capacity p"] assms(3)
    by (simp add: new_def c_def)
  have "unat os * (c + 1) \<le> unat os * (c + unat n)"
    using assms(2) by (intro mult_left_mono) (simp_all add: word_less_nat_alt Suc_le_eq)
  then have "pool_bytes os hs p < unat os * (c + unat n) + unat hs"
    using assms(1) unfolding layout_ok_def c_def by linarith
  also have "\<dots> \<le> unat new" unfolding new by (rule round_page_le)
  finally show "old < new" by (simp add: word_less_nat_alt old)
  show pos: "0 < pool_bytes os hs p"
    using round_page_le [of "unat os * unat (pool_Capacity p) + unat hs"] sz
    by (simp add: pool_bytes_def sizes_ok_def)
  show e: "unat (PoolAddress p + old) = unat (PoolAddress p) + pool_bytes os hs p"
    using assms(1) old by (subst unat_plus_small) (simp_all add: layout_ok_def)
  show "PoolAddress p + old \<noteq> 0" using e pos by (metis add_is_0 less_irrefl unat_0)
qed

lemma EnlargePoolInKernelHeap_ok:
  assumes "pages_ok Owned al fr" "layout_ok os hs p" "0 < n" "unat n < 2 ^ 32" "pool_FreeCount p = 0"
    and "pool_space os hs p \<subseteq> Owned (Pages m)"
  shows "\<exists>r. EnlargePoolInKernelHeap al os hs n p m = Some r \<and> enlarged os hs Owned p m r"
proof -
  define old new where "old = RoundUp (os * ucast (pool_Capacity p) + hs) PageSize"
    and "new = RoundUp (os * (ucast (pool_Capacity p) + n) + hs) PageSize"
  define S where "S = round_page (unat os * (unat (pool_Capacity p) + unat n) + unat hs)"
  note sizes = enlarge_sizes [OF assms(2-4), folded old_def new_def S_def]
  have sz: "sizes_ok os hs" using assms(2) by (simp add: layout_ok_def)
  have diff: "unat (new - old) = S - pool_bytes os hs p" "pool_bytes os hs p < S"
    using sizes(1-3) unat_minus_le [OF less_imp_le [OF sizes(3)]] by (simp_all add: word_less_nat_alt)
  obtain res v e where al: "al (new - old) (PoolAddress p + old) (Pages m) = (res, v, e)" by (metis prod_cases3)
  note pg = pages_alloc [OF assms(1) al, unfolded diff(1)]
  show ?thesis
  proof (cases "res = Okay")
    case False
    with pg(4) sizes(3) al show ?thesis
      by (simp add: EnlargePoolInKernelHeap_def old_def [symmetric] new_def [symmetric] enlarged_def keeps_def)
  next
    case True
    have v: "v = PoolAddress p + old" using pg(3) [OF True sizes(5)] .
    then have uv: "unat v = unat (PoolAddress p) + pool_bytes os hs p" using sizes(4) by simp
    have own: "{unat (PoolAddress p) + pool_bytes os hs p..<unat (PoolAddress p) + S} \<inter> Owned (Pages m) = {}"
      "Owned e = Owned (Pages m) \<union> {unat (PoolAddress p) + pool_bytes os hs p..<unat (PoolAddress p) + S}"
      using pg(1,2) [OF True] diff(2) unfolding uv by simp_all
    have space: "{unat (PoolAddress p)..<unat (PoolAddress p) + S} \<subseteq> Owned e"
      using assms(6) unfolding own(2) pool_space_def by auto
    have win: "S \<le> 2 ^ 34" "unat (PoolAddress p) + S < 2 ^ 64"
      using pages_window [OF assms(1) space] diff(2) by auto
    have hS: "unat hs \<le> S"
      using round_page_le [of "unat os * (unat (pool_Capacity p) + unat n) + unat hs"] by (simp add: S_def)
    define c :: u32 where "c = ucast ((new - hs) div os)"
    have c: "unat c = (round_page (unat os * (unat (pool_Capacity p) + unat n) + unat hs) - unat hs) div unat os"
      using count_word [OF sz sizes(2) hS win(1)] by (simp add: c_def S_def)
    have less: "pool_Capacity p < c"
      using objects_that_fit(1) [OF _ c] sz assms(3) by (simp add: word_less_nat_alt sizes_ok_def)
    define p1 where "p1 = p\<lparr>FirstFreeObject := pool_Capacity p, LastFreeObject := c - 1\<rparr>"
    define p' where "p' = p1\<lparr>pool_Capacity := c, pool_FreeCount := c - pool_Capacity p\<rparr>"
    have pf: "PoolAddress p' = PoolAddress p" "pool_Capacity p' = c" "pool_FreeCount p' = c - pool_Capacity p"
      by (simp_all add: p'_def p1_def)
    have lay: "layout_ok os hs p'" "pool_bytes os hs p' = S"
      using fresh_pool_layout [OF sz, of p' "unat (pool_Capacity p) + unat n"] c win(2)
      unfolding pf S_def by simp_all
    obtain m' where m': "finish_links c (link_loop os (pool_Capacity p) c (object_addr os hs p (pool_Capacity p)) None p
        (m\<lparr>Pages := e\<rparr>)) = Some (p1, m')"
      "free_stack os hs p1 (FreeNext m') (map of_nat [unat (pool_Capacity p)..<unat c])"
      "\<And>a. (\<And>j. pool_Capacity p \<le> j \<Longrightarrow> j < c \<Longrightarrow> a \<noteq> object_addr os hs p j) \<Longrightarrow> FreeNext m' a = FreeNext m a"
      "BusyBits m' = BusyBits m" "Pages m' = e"
      using link_objects [OF sz less, of p "m\<lparr>Pages := e\<rparr>"] unfolding p1_def by auto
    have "EnlargePoolInKernelHeap al os hs n p m = Some (Okay, p', m')"
      using sizes(3) al True v m'(1) assms(5)
      by (simp add: EnlargePoolInKernelHeap_def old_def [symmetric] new_def [symmetric] c_def [symmetric] p'_def p1_def Let_def)
    moreover have "free_stack os hs p' (FreeNext m') (map of_nat [unat (pool_Capacity p)..<unat c])"
      using m'(2) free_stack_cong [of p' p1 _ "FreeNext m'" os hs "FreeNext m'"] by (simp add: p'_def)
    then have "pool_ok os hs (FreeNext m') p' (map of_nat [unat (pool_Capacity p)..<unat c])"
      using set_stack_range [of "pool_Capacity p" c] lay(1) less
      by (auto simp: pool_ok_def pf unat_minus_le)
    moreover have "keeps (Owned (Pages m) - {unat (object_addr os hs p j) |j. pool_Capacity p \<le> j \<and> j < c}) m m'"
      using m'(3,4) by (force simp: keeps_def)
    moreover have "pool_space os hs p \<subseteq> pool_space os hs p'"
      "(pool_space os hs p' - pool_space os hs p) \<inter> Owned (Pages m) = {}"
      "Owned e = Owned (Pages m) \<union> pool_space os hs p'"
    proof -
      have whole: "pool_space os hs p' = pool_space os hs p
          \<union> {unat (PoolAddress p) + pool_bytes os hs p..<unat (PoolAddress p) + S}"
        using diff(2) unfolding pool_space_def lay(2) pf(1) by auto
      then show "pool_space os hs p \<subseteq> pool_space os hs p'"
        "(pool_space os hs p' - pool_space os hs p) \<inter> Owned (Pages m) = {}"
        "Owned e = Owned (Pages m) \<union> pool_space os hs p'"
        using own assms(6) by blast+
    qed
    ultimately show ?thesis
      using less m'(5) set_stack_range [of "pool_Capacity p" c]
      by (auto simp: enlarged_def pf)
  qed
qed

lemma ReleasePoolFromKernelHeap_ok:
  assumes "pages_ok Owned al fr" "layout_ok os hs p" "pool_space os hs p \<subseteq> Owned (Pages m)"
  shows "\<exists>r. ReleasePoolFromKernelHeap fr os hs p m = Some r \<and> released os hs Owned p m r"
proof -
  define old where "old = RoundUp (os * ucast (pool_Capacity p) + hs) PageSize"
  have old: "unat old = pool_bytes os hs p"
    using enlarge_sizes(1) [OF assms(2), of 1] by (simp add: old_def)
  obtain res e where fr: "fr (PoolAddress p) old (Pages m) = (res, e)" by (metis surj_pair)
  have "res = Okay \<and> Owned e = Owned (Pages m) - pool_space os hs p"
    using assms(1) [unfolded pages_ok_def, THEN conjunct2, THEN conjunct2, THEN spec, of "PoolAddress p", THEN spec, of old,
        THEN spec, of "Pages m"] assms(3) unfolding fr by (simp add: pool_space_def old)
  then show ?thesis
    using fr by (auto simp: ReleasePoolFromKernelHeap_def old_def [symmetric] released_def keeps_def)
qed

definition kernel_heap_funcs :: "'e page_alloc \<Rightarrow> 'e page_free \<Rightarrow> 'e pool_funcs" where
  "kernel_heap_funcs al fr = \<lparr>AcquirePool = AcquirePoolInKernelHeap al,
     EnlargePool = Some (EnlargePoolInKernelHeap al), ReleasePool = ReleasePoolFromKernelHeap fr\<rparr>"

end
