(* ===== verification/Obj_Alloc_Props.thy ===== *)
theory Obj_Alloc_Props
  imports Obj_Pool_Props
begin

text \<open>
  The invariant of an object allocator and the objects in use, with what the steps of allocation and
  deallocation do to them. An object is in use when it is one of its pool and not on the pool's stack.
\<close>

section \<open>Objects in use\<close>

definition busy_objects :: "u64 \<Rightarrow> u64 \<Rightarrow> (uintptr \<Rightarrow> u32) \<Rightarrow> ObjectPoolBase \<Rightarrow> uintptr set" where
  "busy_objects os hs nx p =
     {object_addr os hs p i |i. i < pool_Capacity p \<and> (\<forall>fs. free_stack os hs p nx fs \<longrightarrow> i \<notin> set fs)}"

definition live_in :: "u64 \<Rightarrow> u64 \<Rightarrow> (uintptr \<Rightarrow> u32) \<Rightarrow> ObjectPoolBase list \<Rightarrow> uintptr set" where
  "live_in os hs nx ps = (\<Union>p \<in> set ps. busy_objects os hs nx p)"

lemma busy_objects_eq:
  assumes "pool_ok os hs nx p fs"
  shows "busy_objects os hs nx p = {object_addr os hs p i |i. i < pool_Capacity p \<and> i \<notin> set fs}"
  using assms objects.stack_unique [of os hs "(p, nx)" fs] unfolding busy_objects_def pool_ok_def by blast

lemma busy_objects_space: "layout_ok os hs p \<Longrightarrow> o' \<in> busy_objects os hs nx p \<Longrightarrow> unat o' \<in> pool_space os hs p"
  unfolding busy_objects_def using object_in_space(2) by blast

lemma pool_ok_frame:
  assumes "pool_ok os hs nx p fs" "\<And>i. i < pool_Capacity p \<Longrightarrow> nx' (object_addr os hs p i) = nx (object_addr os hs p i)"
  shows "pool_ok os hs nx' p fs" "busy_objects os hs nx' p = busy_objects os hs nx p"
proof -
  have "nx (object_addr os hs p i) = nx' (object_addr os hs p i)" if "i \<in> set fs" for i
    using that assms by (auto simp: pool_ok_def)
  then have "free_stack os hs p nx' fs"
    using free_stack_cong [of p p fs nx os hs nx'] assms(1) by (simp add: pool_ok_def)
  then show ok: "pool_ok os hs nx' p fs"
    using assms(1) by (simp add: pool_ok_def)
  show "busy_objects os hs nx' p = busy_objects os hs nx p"
    unfolding busy_objects_eq [OF ok] busy_objects_eq [OF assms(1)] ..
qed

section \<open>Chains of pools\<close>

definition apart :: "u64 \<Rightarrow> u64 \<Rightarrow> ObjectPoolBase \<Rightarrow> ObjectPoolBase \<Rightarrow> bool" where
  "apart os hs p q \<longleftrightarrow> pool_space os hs p \<inter> pool_space os hs q = {}"

definition pools_inv :: "u64 \<Rightarrow> u64 \<Rightarrow> 'e owned \<Rightarrow> 'e obj_memory \<Rightarrow> ObjectPoolBase list \<Rightarrow> bool" where
  "pools_inv os hs Owned m ps \<longleftrightarrow>
     (\<forall>p \<in> set ps. (\<exists>fs. pool_ok os hs (FreeNext m) p fs) \<and> pool_space os hs p \<subseteq> Owned (Pages m))
     \<and> sorted_wrt (apart os hs) ps"

lemma apart_sym: "apart os hs p q \<Longrightarrow> apart os hs q p"
  unfolding apart_def by blast

lemma keeps_mono: "keeps S m m' \<Longrightarrow> T \<subseteq> S \<Longrightarrow> keeps T m m'"
  unfolding keeps_def by blast

lemma pools_change:
  assumes "pools_inv os hs Owned m ps"
    and "\<And>q. q \<in> set ps \<Longrightarrow> keeps (pool_space os hs q) m m'"
    and "\<And>q. q \<in> set ps \<Longrightarrow> pool_space os hs q \<subseteq> Owned (Pages m')"
  shows "pools_inv os hs Owned m' ps" "live_in os hs (FreeNext m') ps = live_in os hs (FreeNext m) ps"
proof -
  have fr: "FreeNext m' (object_addr os hs q i) = FreeNext m (object_addr os hs q i)"
    if "q \<in> set ps" "pool_ok os hs (FreeNext m) q fs" "i < pool_Capacity q" for q fs i
  proof -
    from that(2) have "layout_ok os hs q" by (simp add: pool_ok_def)
    from object_in_space(2) [OF this that(3)] assms(2) [OF that(1)] show ?thesis
      by (simp add: keeps_def)
  qed
  have each: "(\<exists>fs. pool_ok os hs (FreeNext m') q fs)
      \<and> busy_objects os hs (FreeNext m') q = busy_objects os hs (FreeNext m) q" if q: "q \<in> set ps" for q
  proof -
    from assms(1) q obtain fs where fs: "pool_ok os hs (FreeNext m) q fs"
      unfolding pools_inv_def by blast
    from pool_ok_frame [OF fs fr [OF q fs]] show ?thesis by blast
  qed
  with assms(1,3) show "pools_inv os hs Owned m' ps" unfolding pools_inv_def by blast
  from each show "live_in os hs (FreeNext m') ps = live_in os hs (FreeNext m) ps"
    unfolding live_in_def by simp
qed

lemma pools_insert:
  assumes "pools_inv os hs Owned m (before @ after)" "pool_ok os hs (FreeNext m) p fs"
    and "pool_space os hs p \<subseteq> Owned (Pages m)" "\<And>q. q \<in> set (before @ after) \<Longrightarrow> apart os hs p q"
  shows "pools_inv os hs Owned m (before @ p # after)"
  using assms apart_sym [of os hs p] unfolding pools_inv_def by (auto simp: sorted_wrt_append)

lemma pools_delete:
  assumes "pools_inv os hs Owned m (before @ p # after)"
  shows "pools_inv os hs Owned m (before @ after)" "\<And>q. q \<in> set (before @ after) \<Longrightarrow> apart os hs p q"
    "pool_space os hs p \<subseteq> Owned (Pages m)" "\<exists>fs. pool_ok os hs (FreeNext m) p fs"
  using assms apart_sym [of os hs _ p] unfolding pools_inv_def by (auto simp: sorted_wrt_append)

lemma live_in_insert:
  "live_in os hs nx (before @ p # after) = busy_objects os hs nx p \<union> live_in os hs nx (before @ after)"
  unfolding live_in_def by auto

lemma space_apart:
  assumes "pools_inv os hs Owned m ps" "\<And>q. q \<in> set ps \<Longrightarrow> apart os hs p q" "unat x \<in> pool_space os hs p"
  shows "x \<notin> live_in os hs (FreeNext m) ps"
proof
  assume "x \<in> live_in os hs (FreeNext m) ps"
  then obtain q where q: "q \<in> set ps" "x \<in> busy_objects os hs (FreeNext m) q" unfolding live_in_def by blast
  with assms(1) have "layout_ok os hs q" unfolding pools_inv_def pool_ok_def by blast
  from busy_objects_space [OF this q(2)] assms(2) [OF q(1)] assms(3) show False unfolding apart_def by blast
qed

lemma pools_replace:
  assumes "pools_inv os hs Owned m (before @ p # after)"
    and "keeps (Owned (Pages m) - pool_space os hs p') m m'"
    and "pool_ok os hs (FreeNext m') p' fs'"
    and "pool_space os hs p \<subseteq> pool_space os hs p'"
    and "(pool_space os hs p' - pool_space os hs p) \<inter> Owned (Pages m) = {}"
    and "Owned (Pages m') = Owned (Pages m) \<union> pool_space os hs p'"
  shows "pools_inv os hs Owned m' (before @ p' # after)"
    "live_in os hs (FreeNext m') (before @ p' # after) =
       busy_objects os hs (FreeNext m') p' \<union> live_in os hs (FreeNext m) (before @ after)"
    "\<And>x. unat x \<in> pool_space os hs p' \<Longrightarrow> x \<notin> live_in os hs (FreeNext m) (before @ after)"
proof -
  note rest = pools_delete [OF assms(1)]
  have others: "apart os hs p' q" "pool_space os hs q \<subseteq> Owned (Pages m)" if "q \<in> set (before @ after)" for q
    using rest(1) rest(2) [OF that] that assms(5) unfolding pools_inv_def apart_def by blast+
  have "keeps (pool_space os hs q) m m'" if "q \<in> set (before @ after)" for q
    using others [OF that] by (intro keeps_mono [OF assms(2)]) (auto simp: apart_def)
  note kept = pools_change [OF rest(1) this]
  show "pools_inv os hs Owned m' (before @ p' # after)"
    using others assms(3,6) by (intro pools_insert kept) auto
  show "live_in os hs (FreeNext m') (before @ p' # after) =
      busy_objects os hs (FreeNext m') p' \<union> live_in os hs (FreeNext m) (before @ after)"
    unfolding live_in_insert using others(2) assms(6) by (subst kept(2)) auto
  show "x \<notin> live_in os hs (FreeNext m) (before @ after)" if "unat x \<in> pool_space os hs p'" for x
    using space_apart [OF rest(1) others(1) that] .
qed

section \<open>The invariant\<close>

definition live :: "'e ObjectAllocator \<Rightarrow> uintptr set" where
  "live a = live_in (ObjectSize a) (HeaderSize a) (FreeNext (Mem a)) (Pools a)"

definition totals_ok :: "'e ObjectAllocator \<Rightarrow> bool" where
  "totals_ok a \<longleftrightarrow> PoolCount a = of_nat (length (Pools a))
     \<and> alloc_Capacity a = (\<Sum>p\<leftarrow>Pools a. ucast (pool_Capacity p))
     \<and> alloc_FreeCount a = (\<Sum>p\<leftarrow>Pools a. ucast (pool_FreeCount p))"

definition busy_marked :: "'e ObjectAllocator \<Rightarrow> bool" where
  "busy_marked a \<longleftrightarrow> (BusyBit a < SIZE_MAX \<longrightarrow> (\<forall>x \<in> live a. BusyBits (Mem a) x))"

definition alloc_inv :: "'e owned \<Rightarrow> 'e ObjectAllocator \<Rightarrow> bool" where
  "alloc_inv Owned a \<longleftrightarrow> sizes_ok (ObjectSize a) (HeaderSize a)
     \<and> (\<forall>F. PoolFuncs a = Some F \<longrightarrow> pool_funcs_ok (ObjectSize a) (HeaderSize a) Owned F)
     \<and> pools_inv (ObjectSize a) (HeaderSize a) Owned (Mem a) (Pools a) \<and> totals_ok a \<and> busy_marked a"

definition same_config :: "'e ObjectAllocator \<Rightarrow> 'e ObjectAllocator \<Rightarrow> bool" where
  "same_config a b \<longleftrightarrow> ObjectSize b = ObjectSize a \<and> HeaderSize b = HeaderSize a \<and> PoolFuncs b = PoolFuncs a
     \<and> BusyBit b = BusyBit a \<and> Quota b = Quota a \<and> ReleaseOptions b = ReleaseOptions a"

lemma alloc_inv_cong:
  assumes "alloc_inv Owned a" "same_config a b" "Mem b = Mem a" "Pools b = Pools a" "PoolCount b = PoolCount a"
    "alloc_Capacity b = alloc_Capacity a" "alloc_FreeCount b = alloc_FreeCount a"
  shows "alloc_inv Owned b" "live b = live a"
  using assms by (simp_all add: alloc_inv_def live_def totals_ok_def busy_marked_def same_config_def)

section \<open>Taking an object\<close>

lemma pool_pop:
  assumes "pool_ok os hs nx p fs" "pool_FreeCount p \<noteq> 0"
  defines "obj \<equiv> GetFirstFreeObject os hs p"
  defines "p' \<equiv> p\<lparr>pool_FreeCount := pool_FreeCount p - 1, FirstFreeObject := nx obj\<rparr>"
  shows "\<exists>fs'. pool_ok os hs nx p' fs'" "busy_objects os hs nx p' = insert obj (busy_objects os hs nx p)"
    "obj \<notin> busy_objects os hs nx p" "unat obj \<in> pool_space os hs p"
    "pool_FreeCount p = 1 \<Longrightarrow> busy_objects os hs nx p' = {object_addr os hs p i |i. i < pool_Capacity p}"
proof -
  have sz: "sizes_ok os hs" "layout_ok os hs p" using assms(1) by (simp_all add: pool_ok_def layout_ok_def)
  have len: "unat (pool_FreeCount p) \<noteq> 0" using assms(2) by (simp add: unat_eq_0)
  then obtain x xs where fs: "fs = x # xs" using assms(1) by (cases fs) (auto simp: pool_ok_def)
  then have st: "free_stack os hs p nx (x # xs)" "x < pool_Capacity p" using assms(1) by (auto simp: pool_ok_def)
  have x: "FirstFreeObject p = x" "obj = object_addr os hs p x"
    using objects.stack_pop(2) [OF st(1) sz(1)] by (simp_all add: obj_def GetFirstFreeObject_def)
  have "free_stack os hs (p\<lparr>FirstFreeObject := nx obj\<rparr>) nx xs"
    using objects.stack_pop(1) [OF st(1) sz(1)] by (simp add: pop_object_def obj_def)
  then have "free_stack os hs p' nx xs"
    using free_stack_cong [of p' "p\<lparr>FirstFreeObject := nx obj\<rparr>" xs nx os hs nx] by (simp add: p'_def)
  then have ok: "pool_ok os hs nx p' xs"
    using assms(1) fs len
    by (auto simp: pool_ok_def p'_def layout_ok_def pool_bytes_def unat_sub_if_size word_size word_le_nat_alt
        split: if_splits)
  then show "\<exists>fs'. pool_ok os hs nx p' fs'" by blast
  have "x \<notin> set xs" using objects.stack_distinct [OF st(1)] by simp
  have b: "busy_objects os hs nx p' = {object_addr os hs p i |i. i < pool_Capacity p \<and> i \<notin> set xs}"
    unfolding busy_objects_eq [OF ok] by (simp add: p'_def)
  show "busy_objects os hs nx p' = insert obj (busy_objects os hs nx p)"
    unfolding b busy_objects_eq [OF assms(1)] using fs \<open>x \<notin> set xs\<close> st(2) x(2) by auto
  show "obj \<notin> busy_objects os hs nx p"
    unfolding busy_objects_eq [OF assms(1)] using fs x(2) sz(1) by (auto simp: object_addr_inj)
  show "unat obj \<in> pool_space os hs p"
    unfolding x(2) by (rule object_in_space(2) [OF sz(2) st(2)])
  show "busy_objects os hs nx p' = {object_addr os hs p i |i. i < pool_Capacity p}" if "pool_FreeCount p = 1"
    using that assms(1) fs b by (simp add: pool_ok_def)
qed

lemma set_busy_simps [simp]:
  "ObjectSize (set_busy x a) = ObjectSize a" "HeaderSize (set_busy x a) = HeaderSize a"
  "PoolFuncs (set_busy x a) = PoolFuncs a" "BusyBit (set_busy x a) = BusyBit a" "Quota (set_busy x a) = Quota a"
  "ReleaseOptions (set_busy x a) = ReleaseOptions a" "FreeNext (Mem (set_busy x a)) = FreeNext (Mem a)"
  "Pages (Mem (set_busy x a)) = Pages (Mem a)" "Pools (set_busy x a) = Pools a"
  "PoolCount (set_busy x a) = PoolCount a" "alloc_Capacity (set_busy x a) = alloc_Capacity a"
  "alloc_FreeCount (set_busy x a) = alloc_FreeCount a" "BusyCount (set_busy x a) = BusyCount a"
  by (simp_all add: set_busy_def)

lemma set_busy_bits: "BusyBit a < SIZE_MAX \<Longrightarrow> BusyBits (Mem (set_busy x a)) = (BusyBits (Mem a))(x := True)"
  by (simp add: set_busy_def)

text \<open>The state after an object \<open>obj\<close> was taken, on all the paths that lead to it.\<close>

definition took :: "'e owned \<Rightarrow> 'e ObjectAllocator \<Rightarrow> uintptr \<Rightarrow> 'e ObjectAllocator \<Rightarrow> bool" where
  "took Owned a obj a' \<longleftrightarrow> alloc_inv Owned a' \<and> obj \<notin> live a \<and> live a' = insert obj (live a) \<and> same_config a a'"

lemma took_intro:
  assumes "alloc_inv Owned a" "same_config a a'" "totals_ok a'"
    and "pools_inv (ObjectSize a) (HeaderSize a) Owned (Mem a') (Pools a')"
    and "obj \<notin> live a" "live a' = insert obj (live a)"
    and "BusyBit a < SIZE_MAX \<Longrightarrow> BusyBits (Mem a') obj"
    and "\<And>x. BusyBit a < SIZE_MAX \<Longrightarrow> x \<in> live a \<Longrightarrow> x \<noteq> obj \<Longrightarrow> BusyBits (Mem a') x = BusyBits (Mem a) x"
  shows "took Owned a obj a'"
proof -
  have "busy_marked a'"
    using assms unfolding busy_marked_def alloc_inv_def same_config_def by auto
  with assms show ?thesis unfolding took_def alloc_inv_def same_config_def by auto
qed

lemma took_from_pool:
  fixes a :: "'e ObjectAllocator"
  assumes inv: "alloc_inv Owned a" and pools: "Pools a = before @ current # after"
    and free: "pool_FreeCount current \<noteq> 0"
    and obj: "obj = GetFirstFreeObject (ObjectSize a) (HeaderSize a) current"
    and keeps: "keeps (Owned (Pages (Mem a)) - pool_space (ObjectSize a) (HeaderSize a) pool) (Mem a) m"
    and ok: "pool_ok (ObjectSize a) (HeaderSize a) (FreeNext m) pool fs"
    and space: "pool_space (ObjectSize a) (HeaderSize a) current \<subseteq> pool_space (ObjectSize a) (HeaderSize a) pool"
      "(pool_space (ObjectSize a) (HeaderSize a) pool - pool_space (ObjectSize a) (HeaderSize a) current)
         \<inter> Owned (Pages (Mem a)) = {}"
      "Owned (Pages m) = Owned (Pages (Mem a)) \<union> pool_space (ObjectSize a) (HeaderSize a) pool"
    and busy: "busy_objects (ObjectSize a) (HeaderSize a) (FreeNext m) pool =
       insert obj (busy_objects (ObjectSize a) (HeaderSize a) (FreeNext (Mem a)) current)"
    and bits: "\<And>x. x \<in> busy_objects (ObjectSize a) (HeaderSize a) (FreeNext (Mem a)) current \<Longrightarrow> BusyBits m x = BusyBits (Mem a) x"
    and cap: "cap = alloc_Capacity a + (ucast (pool_Capacity pool) - ucast (pool_Capacity current))"
    and cnt: "cnt = alloc_FreeCount a + 1 + (ucast (pool_FreeCount pool) - ucast (pool_FreeCount current))"
  shows "took Owned a obj (let b = set_busy obj (a\<lparr>Mem := m, alloc_Capacity := cap, alloc_FreeCount := cnt\<rparr>)
       in b\<lparr>Pools := before @ pool # after, alloc_FreeCount := alloc_FreeCount b - 1\<rparr>)"
    (is "took Owned a obj ?a'")
proof -
  define os hs nx where "os = ObjectSize a" and "hs = HeaderSize a" and "nx = FreeNext (Mem a)"
  note defs = os_def [symmetric] hs_def [symmetric] nx_def [symmetric]
  from inv have pinv: "pools_inv os hs Owned (Mem a) (before @ current # after)"
    by (simp add: alloc_inv_def defs pools)
  note rep = pools_replace [OF pinv keeps [unfolded defs] ok [unfolded defs] space [unfolded defs]]
  obtain fs0 where cur: "pool_ok os hs nx current fs0"
    using pools_delete(4) [OF pinv] by (auto simp: defs)
  note pop = pool_pop [OF cur free, folded obj [unfolded defs]]
  have live: "live a = busy_objects os hs nx current \<union> live_in os hs nx (before @ after)"
    by (simp add: live_def defs pools live_in_insert)
  show ?thesis
  proof (rule took_intro [OF inv])
    show "same_config a ?a'" by (simp add: same_config_def Let_def)
    have cap': "alloc_Capacity a = (\<Sum>p\<leftarrow>before @ current # after. ucast (pool_Capacity p))"
      and cnt': "alloc_FreeCount a = (\<Sum>p\<leftarrow>before @ current # after. ucast (pool_FreeCount p))"
      using inv by (simp_all add: alloc_inv_def totals_ok_def pools)
    show "totals_ok ?a'"
      using inv unfolding cap cnt cap' cnt' by (simp add: totals_ok_def Let_def alloc_inv_def pools)
    show "pools_inv (ObjectSize a) (HeaderSize a) Owned (Mem ?a') (Pools ?a')"
      using rep(1) by (simp add: Let_def defs pools_inv_def)
    have "unat obj \<in> pool_space os hs pool" using pop(4) space(1) by (auto simp: defs)
    from rep(3) [OF this] show "obj \<notin> live a" unfolding live using pop(3) by (auto simp: defs)
    show "live ?a' = insert obj (live a)"
      using rep(2) busy unfolding live by (simp add: live_def Let_def defs)
    show "BusyBits (Mem ?a') obj" if "BusyBit a < SIZE_MAX"
      using that by (simp add: Let_def set_busy_bits)
    show "BusyBits (Mem ?a') x = BusyBits (Mem a) x" if "BusyBit a < SIZE_MAX" "x \<in> live a" "x \<noteq> obj" for x
    proof -
      have "BusyBits m x = BusyBits (Mem a) x"
      proof (cases "x \<in> busy_objects os hs nx current")
        case True
        then show ?thesis using bits by (simp add: defs)
      next
        case False
        with that(2) have rest: "x \<in> live_in os hs nx (before @ after)" unfolding live by blast
        then have "unat x \<notin> pool_space os hs pool" using rep(3) by (auto simp: defs)
        moreover from rest obtain q where q: "q \<in> set (before @ after)" "x \<in> busy_objects os hs nx q"
          unfolding live_in_def by blast
        then have "unat x \<in> Owned (Pages (Mem a))"
          using pools_delete(1) [OF pinv] busy_objects_space [of os hs q x nx]
          unfolding pools_inv_def pool_ok_def by blast
        ultimately show ?thesis using keeps by (simp add: keeps_def defs)
      qed
      with that show ?thesis by (simp add: Let_def set_busy_bits)
    qed
  qed
qed

lemma pool_space_update [simp]:
  "pool_space os hs (p\<lparr>FirstFreeObject := i\<rparr>) = pool_space os hs p"
  "pool_space os hs (p\<lparr>LastFreeObject := i\<rparr>) = pool_space os hs p"
  "pool_space os hs (p\<lparr>pool_FreeCount := i\<rparr>) = pool_space os hs p"
  "layout_ok os hs (p\<lparr>FirstFreeObject := i\<rparr>) = layout_ok os hs p"
  "layout_ok os hs (p\<lparr>LastFreeObject := i\<rparr>) = layout_ok os hs p"
  "layout_ok os hs (p\<lparr>pool_FreeCount := i\<rparr>) = layout_ok os hs p"
  by (simp_all add: pool_space_def pool_bytes_def layout_ok_def)

lemma pool_ok_last [simp]: "pool_ok os hs nx (p\<lparr>LastFreeObject := i\<rparr>) fs = pool_ok os hs nx p fs"
  using free_stack_cong [of "p\<lparr>LastFreeObject := i\<rparr>" p fs nx os hs nx] by (simp add: pool_ok_def)

lemma busy_objects_last [simp]: "busy_objects os hs nx (p\<lparr>LastFreeObject := i\<rparr>) = busy_objects os hs nx p"
  using free_stack_cong [of "p\<lparr>LastFreeObject := i\<rparr>" p _ nx os hs nx] by (simp add: busy_objects_def)

lemma keeps_refl [simp]: "keeps S m m"
  by (simp add: keeps_def)

lemma enlarged_bits:
  assumes "enlarged os hs Owned p m (res, p', m')" "layout_ok os hs p" "pool_space os hs p \<subseteq> Owned (Pages m)"
    and "i < pool_Capacity p"
  shows "BusyBits m' (object_addr os hs p i) = BusyBits m (object_addr os hs p i)"
proof -
  have "sizes_ok os hs" using assms(2) by (simp add: layout_ok_def)
  then have "object_addr os hs p i \<noteq> object_addr os hs p j" if "pool_Capacity p \<le> j" for j
    using that assms(4) by (auto simp: object_addr_inj)
  then have "unat (object_addr os hs p i) \<in> Owned (Pages m)
      - {unat (object_addr os hs p j) |j. pool_Capacity p \<le> j \<and> j < pool_Capacity p'}"
    using object_in_space(2) [OF assms(2,4)] assms(3) by (auto simp: unat_inject)
  with assms(1) show ?thesis unfolding enlarged_def keeps_def by blast
qed

text \<open>
  Enlarging a pool all of whose objects are in use, whether it succeeds or not: the same objects are in
  use, and nothing else changes.
\<close>

lemma enlarged_pool:
  assumes "enlarged os hs Owned p m (res, p', m')" "pool_ok os hs (FreeNext m) p []"
    and "pool_space os hs p \<subseteq> Owned (Pages m)"
  shows "(\<exists>fs. pool_ok os hs (FreeNext m') p' fs)
    \<and> keeps (Owned (Pages m) - pool_space os hs p') m m'
    \<and> busy_objects os hs (FreeNext m') p' = busy_objects os hs (FreeNext m) p
    \<and> pool_space os hs p \<subseteq> pool_space os hs p'
    \<and> (pool_space os hs p' - pool_space os hs p) \<inter> Owned (Pages m) = {}
    \<and> Owned (Pages m') = Owned (Pages m) \<union> pool_space os hs p'
    \<and> (pool_Capacity p' \<noteq> pool_Capacity p \<or> res \<noteq> Okay \<and> p' = p)"
proof -
  have busy: "busy_objects os hs (FreeNext m) p = {object_addr os hs p i |i. i < pool_Capacity p}"
    unfolding busy_objects_eq [OF assms(2)] by simp
  have lay: "layout_ok os hs p" using assms(2) by (simp add: pool_ok_def)
  consider "res \<noteq> Okay" "p' = p" "Owned (Pages m') = Owned (Pages m)"
      "keeps (Owned (Pages m) - {unat (object_addr os hs p j) |j. pool_Capacity p \<le> j \<and> j < pool_Capacity p}) m m'"
    | fs where "res = Okay" "PoolAddress p' = PoolAddress p" "pool_Capacity p < pool_Capacity p'"
      "pool_ok os hs (FreeNext m') p' fs" "set fs = {i. pool_Capacity p \<le> i \<and> i < pool_Capacity p'}"
      "pool_space os hs p \<subseteq> pool_space os hs p'"
      "(pool_space os hs p' - pool_space os hs p) \<inter> Owned (Pages m) = {}"
      "Owned (Pages m') = Owned (Pages m) \<union> pool_space os hs p'"
      "keeps (Owned (Pages m) - {unat (object_addr os hs p j) |j. pool_Capacity p \<le> j \<and> j < pool_Capacity p'}) m m'"
    using assms(1) unfolding enlarged_def by (auto split: if_splits)
  then show ?thesis
  proof cases
    case 1
    have k: "keeps (Owned (Pages m)) m m'" by (rule keeps_mono [OF 1(4)]) auto
    have "FreeNext m' (object_addr os hs p i) = FreeNext m (object_addr os hs p i)" if "i < pool_Capacity p" for i
      using object_in_space(2) [OF lay that] assms(3) k by (auto simp: keeps_def)
    from pool_ok_frame [OF assms(2) this] show ?thesis
      using 1(1-3) assms(3) keeps_mono [OF k] by auto
  next
    case (2 fs)
    have "busy_objects os hs (FreeNext m') p' = {object_addr os hs p i |i. i < pool_Capacity p}"
      unfolding busy_objects_eq [OF 2(4)] 2(5) object_addr_cong [OF 2(2)] using 2(3) by fastforce
    moreover have "keeps (Owned (Pages m) - pool_space os hs p') m m'"
    proof (rule keeps_mono [OF 2(9)])
      have lay': "layout_ok os hs p'" using 2(4) by (simp add: pool_ok_def)
      have "unat (object_addr os hs p j) \<in> pool_space os hs p'" if "j < pool_Capacity p'" for j
        using object_in_space(2) [OF lay' that] unfolding object_addr_cong [OF 2(2)] .
      then show "Owned (Pages m) - pool_space os hs p' \<subseteq> Owned (Pages m)
          - {unat (object_addr os hs p j) |j. pool_Capacity p \<le> j \<and> j < pool_Capacity p'}" by blast
    qed
    ultimately show ?thesis using 2 busy by auto
  qed
qed

lemma ucast32_minus: "b \<le> a \<Longrightarrow> (ucast (a - b :: u32) :: u64) = ucast a - ucast b"
  by (simp add: unat_inject [symmetric] unat_minus_le word_le_nat_alt)

lemma ucast32_minus_1: "a \<noteq> 0 \<Longrightarrow> (ucast (a - 1 :: u32) :: u64) = ucast a - 1"
  using ucast32_minus [of 1 a] by (simp add: word_le_nat_alt unat_gt_0 Suc_le_eq)

lemma alloc_update_same:
  "a\<lparr>Mem := m, alloc_Capacity := alloc_Capacity a, alloc_FreeCount := alloc_FreeCount a\<rparr> = a\<lparr>Mem := m\<rparr>"
  "a\<lparr>Mem := Mem a\<rparr> = a"
  by simp_all

lemma pool_update_swap:
  "p\<lparr>FirstFreeObject := i, pool_FreeCount := n\<rparr> = p\<lparr>pool_FreeCount := n, FirstFreeObject := i\<rparr>"
  by simp

lemma take_object_ok:
  fixes a :: "'e ObjectAllocator"
  assumes inv: "alloc_inv Owned a" and F: "PoolFuncs a = Some F" and pools: "Pools a = before @ current # after"
    and free: "pool_FreeCount current \<noteq> 0" and est: "0 < est" "unat est < 2 ^ 32"
  shows "\<exists>obj a'. take_object F est before current after a = Some (Okay, Some obj, a') \<and> took Owned a obj a'"
proof -
  define os hs m where "os = ObjectSize a" and "hs = HeaderSize a" and "m = Mem a"
  note defs = os_def [symmetric] hs_def [symmetric] m_def [symmetric]
  define obj where "obj = GetFirstFreeObject os hs current"
  define taken where "taken = current\<lparr>pool_FreeCount := pool_FreeCount current - 1, FirstFreeObject := FreeNext m obj\<rparr>"
  have pinv: "pools_inv os hs Owned m (before @ current # after)"
    using inv by (simp add: alloc_inv_def defs pools)
  obtain fs where cur: "pool_ok os hs (FreeNext m) current fs" using pools_delete(4) [OF pinv] by blast
  have own: "pool_space os hs current \<subseteq> Owned (Pages m)" by (rule pools_delete(3) [OF pinv])
  note pop = pool_pop [OF cur free, folded obj_def, folded taken_def]
  have tf: "pool_space os hs taken = pool_space os hs current" "pool_Capacity taken = pool_Capacity current"
    "pool_FreeCount taken = pool_FreeCount current - 1" by (simp_all add: taken_def)
  note finish = took_from_pool [OF inv pools free, unfolded defs, OF obj_def]
  have plain: "took Owned a obj (let b = set_busy obj a in b\<lparr>Pools := before @ p # after, alloc_FreeCount := alloc_FreeCount b - 1\<rparr>)"
    if "p = taken \<or> p = taken\<lparr>LastFreeObject := obj_ind_invalid\<rparr>" for p
  proof -
    have p: "\<exists>fs. pool_ok os hs (FreeNext m) p fs" "pool_space os hs p = pool_space os hs current"
      "pool_Capacity p = pool_Capacity current" "pool_FreeCount p = pool_FreeCount current - 1"
      "busy_objects os hs (FreeNext m) p = insert obj (busy_objects os hs (FreeNext m) current)"
      using that pop(1,2) tf by auto
    then obtain fs' where fs': "pool_ok os hs (FreeNext m) p fs'" by blast
    have "took Owned a obj (let b = set_busy obj (a\<lparr>Mem := m, alloc_Capacity := alloc_Capacity a, alloc_FreeCount := alloc_FreeCount a\<rparr>)
        in b\<lparr>Pools := before @ p # after, alloc_FreeCount := alloc_FreeCount b - 1\<rparr>)"
    proof (rule finish [OF keeps_refl fs' _ _ _ p(5) refl])
      show "Owned (Pages m) = Owned (Pages m) \<union> pool_space os hs p" using own p(2) by blast
    qed (simp_all add: p(2,3,4) ucast32_minus_1 [OF free])
    then show ?thesis unfolding alloc_update_same(1) unfolding m_def alloc_update_same(2) .
  qed
  show ?thesis
  proof (cases "pool_FreeCount current - 1 = 0")
    case False
    with plain [of taken] show ?thesis
      by (simp add: take_object_def defs obj_def [symmetric] taken_def [symmetric] Let_def)
  next
    case True
    then have one: "pool_FreeCount current = 1" by simp
    define emptied where "emptied = taken\<lparr>LastFreeObject := obj_ind_invalid\<rparr>"
    show ?thesis
    proof (cases "EnlargePool F")
      case None
      with True plain [of emptied] show ?thesis
        by (simp add: take_object_def defs obj_def [symmetric] taken_def [symmetric] emptied_def [symmetric] Let_def)
           (simp add: emptied_def taken_def)
    next
      case (Some enlarge)
      have ef: "pool_ok os hs (FreeNext m) emptied []" "pool_FreeCount emptied = 0"
        "pool_Capacity emptied = pool_Capacity current" "pool_space os hs emptied = pool_space os hs current"
        "busy_objects os hs (FreeNext m) emptied = insert obj (busy_objects os hs (FreeNext m) current)"
      proof -
        from pop(1) obtain fs' where "pool_ok os hs (FreeNext m) taken fs'" by blast
        moreover from this have "fs' = []" using one tf(3) by (simp add: pool_ok_def)
        ultimately show "pool_ok os hs (FreeNext m) emptied []" by (simp add: emptied_def)
      qed (use pop(2) one tf in \<open>simp_all add: emptied_def\<close>)
      have lay: "layout_ok os hs emptied" using ef(1) by (simp add: pool_ok_def)
      have "pool_funcs_ok os hs Owned F" using inv F by (simp add: alloc_inv_def defs)
      then obtain res p' m' where enl: "enlarge os hs est emptied m = Some (res, p', m')"
        "enlarged os hs Owned emptied m (res, p', m')"
        using Some est lay ef(2,4) own unfolding pool_funcs_ok_def by (metis prod_cases3)
      note ep = enlarged_pool [OF enl(2) ef(1), unfolded ef(3-5), OF own]
      then obtain fs' where p': "pool_ok os hs (FreeNext m') p' fs'" by blast
      have bits: "BusyBits m' x = BusyBits m x" if "x \<in> busy_objects os hs (FreeNext m) current" for x
      proof -
        from that obtain i where "x = object_addr os hs emptied i" "i < pool_Capacity emptied"
          unfolding busy_objects_def ef(3) by (auto simp: emptied_def taken_def)
        with enlarged_bits [OF enl(2) lay] own ef(4) show ?thesis by simp
      qed
      have fin: "took Owned a obj (let b = set_busy obj (a\<lparr>Mem := m', alloc_Capacity := cap, alloc_FreeCount := cnt\<rparr>)
          in b\<lparr>Pools := before @ p' # after, alloc_FreeCount := alloc_FreeCount b - 1\<rparr>)"
        if "cap = alloc_Capacity a + (ucast (pool_Capacity p') - ucast (pool_Capacity current))"
          "cnt = alloc_FreeCount a + 1 + (ucast (pool_FreeCount p') - ucast (pool_FreeCount current))" for cap cnt
        by (rule finish [OF _ p' _ _ _ _ bits that]) (use ep in simp_all)
      have eq: "take_object F est before current after a = Some (Okay, Some obj,
          (let b = set_busy obj (if pool_Capacity p' \<noteq> pool_Capacity current
               then a\<lparr>Mem := m', alloc_Capacity := alloc_Capacity a + ucast (pool_Capacity p' - pool_Capacity current),
                      alloc_FreeCount := alloc_FreeCount a + ucast (pool_FreeCount p')\<rparr> else a\<lparr>Mem := m'\<rparr>)
           in b\<lparr>Pools := before @ p' # after, alloc_FreeCount := alloc_FreeCount b - 1\<rparr>))"
        using Some enl(1) one unfolding take_object_def emptied_def taken_def
        by (simp add: defs obj_def [symmetric] Let_def)
      show ?thesis
      proof (cases "pool_Capacity p' = pool_Capacity current")
        case False
        then have "pool_Capacity current \<le> pool_Capacity p'"
          using enl(2) by (auto simp: enlarged_def ef(3) split: if_splits)
        from eq fin [OF _ refl, unfolded one] False ucast32_minus [OF this] show ?thesis
          by (simp add: Let_def)
      next
        case True
        with ep have "p' = emptied" by simp
        from eq fin [OF _ _, of "alloc_Capacity a" "alloc_FreeCount a"] True ef(2) show ?thesis
          unfolding one \<open>p' = emptied\<close> alloc_update_same(1) by simp
      qed
    qed
  qed
qed

section \<open>Adding a pool\<close>

lemma keeps_live:
  assumes "alloc_inv Owned a" "keeps (Owned (Pages (Mem a))) (Mem a) m" "Owned (Pages (Mem a)) \<subseteq> Owned (Pages m)"
  shows "pools_inv (ObjectSize a) (HeaderSize a) Owned m (Pools a)"
    "live_in (ObjectSize a) (HeaderSize a) (FreeNext m) (Pools a) = live a"
    "x \<in> live a \<Longrightarrow> BusyBits m x = BusyBits (Mem a) x"
proof -
  have p: "pools_inv (ObjectSize a) (HeaderSize a) Owned (Mem a) (Pools a)"
    using assms(1) by (simp add: alloc_inv_def)
  then have sub: "pool_space (ObjectSize a) (HeaderSize a) q \<subseteq> Owned (Pages (Mem a))" if "q \<in> set (Pools a)" for q
    using that by (auto simp: pools_inv_def)
  note ch = pools_change [OF p keeps_mono [OF assms(2) sub] subset_trans [OF sub assms(3)]]
  show "pools_inv (ObjectSize a) (HeaderSize a) Owned m (Pools a)" by (rule ch(1))
  show "live_in (ObjectSize a) (HeaderSize a) (FreeNext m) (Pools a) = live a"
    using ch(2) by (simp add: live_def)
  assume "x \<in> live a"
  then obtain q where q: "q \<in> set (Pools a)" "x \<in> busy_objects (ObjectSize a) (HeaderSize a) (FreeNext (Mem a)) q"
    by (auto simp: live_def live_in_def)
  with p have "layout_ok (ObjectSize a) (HeaderSize a) q" by (auto simp: pools_inv_def pool_ok_def)
  from busy_objects_space [OF this q(2)] sub [OF q(1)] assms(2)
  show "BusyBits m x = BusyBits (Mem a) x" by (auto simp: keeps_def)
qed

lemma acquire_failed:
  assumes "alloc_inv Owned a" "acquired (ObjectSize a) (HeaderSize a) Owned (Mem a) (res, po, m)" "res \<noteq> Okay"
  shows "alloc_inv Owned (a\<lparr>Mem := m\<rparr>)" "live (a\<lparr>Mem := m\<rparr>) = live a"
proof -
  have "keeps (Owned (Pages (Mem a))) (Mem a) m" "Owned (Pages m) = Owned (Pages (Mem a))"
    using assms(2,3) by (auto simp: acquired_def)
  note kl = keeps_live [OF assms(1) this(1)] and eq = this(2)
  show l: "live (a\<lparr>Mem := m\<rparr>) = live a" using kl(2) eq by (simp add: live_def)
  show "alloc_inv Owned (a\<lparr>Mem := m\<rparr>)"
    using assms(1) kl(1,3) eq l by (simp add: alloc_inv_def busy_marked_def totals_ok_def)
qed

lemma add_pool:
  assumes inv: "alloc_inv Owned a" and pools: "Pools a = before @ after"
    and acq: "acquired (ObjectSize a) (HeaderSize a) Owned (Mem a) (Okay, Some p, m)"
  defines "b \<equiv> a\<lparr>Mem := m, PoolCount := PoolCount a + 1, alloc_Capacity := alloc_Capacity a + ucast (pool_Capacity p),
      alloc_FreeCount := alloc_FreeCount a + ucast (pool_FreeCount p), Pools := before @ p # after\<rparr>"
  shows "alloc_inv Owned b" "live b = live a" "pool_FreeCount p \<noteq> 0" "same_config a b"
proof -
  define os hs where "os = ObjectSize a" and "hs = HeaderSize a"
  note defs = os_def [symmetric] hs_def [symmetric]
  obtain fs where p: "0 < pool_Capacity p" "pool_ok os hs (FreeNext m) p fs" "set fs = {i. i < pool_Capacity p}"
    "pool_space os hs p \<inter> Owned (Pages (Mem a)) = {}" "Owned (Pages m) = Owned (Pages (Mem a)) \<union> pool_space os hs p"
    "keeps (Owned (Pages (Mem a))) (Mem a) m"
    using acq by (auto simp: acquired_def defs)
  note kl = keeps_live [OF inv p(6), unfolded defs]
  have none: "busy_objects os hs (FreeNext m) p = {}"
    unfolding busy_objects_eq [OF p(2)] p(3) by simp
  have apart: "apart os hs p q" if "q \<in> set (before @ after)" for q
  proof -
    have "pool_space os hs q \<subseteq> Owned (Pages (Mem a))"
      using inv that unfolding alloc_inv_def pools_inv_def defs pools by blast
    with p(4) show ?thesis unfolding apart_def by blast
  qed
  have pinv: "pools_inv os hs Owned m (before @ p # after)"
    using pools_insert [OF _ p(2) _ apart] kl(1) p(5) by (simp add: pools)
  show cfg: "same_config a b" by (simp add: same_config_def b_def)
  have l: "live_in os hs (FreeNext m) (before @ p # after) = live a"
    unfolding live_in_insert none using kl(2) p(5) by (simp add: pools)
  then show live: "live b = live a" by (simp add: live_def b_def defs)
  show "alloc_inv Owned b"
    using inv pinv live kl(3) p(5)
    by (simp add: alloc_inv_def busy_marked_def totals_ok_def b_def defs pools)
  have "0 \<in> set fs" unfolding p(3) using p(1) by simp
  then have "fs \<noteq> []" by (cases fs) simp_all
  then show "pool_FreeCount p \<noteq> 0" using p(2) by (auto simp: pool_ok_def)
qed

section \<open>Allocation\<close>

lemma acquire_pool:
  assumes "alloc_inv Owned a" "PoolFuncs a = Some F" "0 < est" "n = 1 \<or> n = 2"
  shows "\<exists>res po m. AcquirePool F (ObjectSize a) (HeaderSize a) (min est n) (Mem a) = Some (res, po, m)
    \<and> acquired (ObjectSize a) (HeaderSize a) Owned (Mem a) (res, po, m) \<and> (res = Okay \<longrightarrow> po \<noteq> None)"
proof -
  have "0 < min est n" "min est n \<le> 2"
    using assms(3,4) by (auto simp: min_def word_le_nat_alt)
  moreover have "pool_funcs_ok (ObjectSize a) (HeaderSize a) Owned F"
    using assms(1,2) by (simp add: alloc_inv_def)
  ultimately obtain r where "AcquirePool F (ObjectSize a) (HeaderSize a) (min est n) (Mem a) = Some r"
    "acquired (ObjectSize a) (HeaderSize a) Owned (Mem a) r"
    unfolding pool_funcs_ok_def by blast
  then show ?thesis by (cases r) (auto simp: acquired_def split: if_splits)
qed

lemma find_free_Some:
  "find_free ps = Some (before, p, after) \<Longrightarrow> ps = before @ p # after \<and> pool_FreeCount p \<noteq> 0"
  by (induction ps arbitrary: before) (auto split: if_splits)

lemma acquire_first_ok:
  assumes "alloc_inv Owned a" "PoolFuncs a = Some F" "0 < est"
  shows "\<exists>res b. acquire_first F est a = Some (res, b) \<and> alloc_inv Owned b \<and> live b = live a \<and> same_config a b"
proof (cases "Pools a = []")
  case False
  with assms show ?thesis by (simp add: acquire_first_def same_config_def)
next
  case True
  from acquire_pool [OF assms, of 2] obtain res po m where
    acq: "AcquirePool F (ObjectSize a) (HeaderSize a) (min est 2) (Mem a) = Some (res, po, m)"
      "acquired (ObjectSize a) (HeaderSize a) Owned (Mem a) (res, po, m)" "res = Okay \<longrightarrow> po \<noteq> None" by blast
  show ?thesis
  proof (cases "res = Okay")
    case False
    with True acq acquire_failed [OF assms(1) acq(2)] show ?thesis
      by (simp add: acquire_first_def same_config_def)
  next
    case okay: True
    with acq(3) obtain p where p: "po = Some p" by blast
    from add_pool [OF assms(1), of "[]" "[]"] acq True okay p show ?thesis
      by (simp add: acquire_first_def)
  qed
qed

lemma take_from_new_ok:
  assumes "alloc_inv Owned a" "PoolFuncs a = Some F" "0 < est"
  shows "\<exists>res obj b. take_from_new F est a = Some (res, obj, b) \<and>
     (if res = Okay then \<exists>x. obj = Some x \<and> took Owned a x b
      else res = ObjaPoolsExhausted \<and> obj = None \<and> alloc_inv Owned b \<and> live b = live a \<and> same_config a b)"
proof -
  from acquire_pool [OF assms, of 2] obtain res po m where
    acq: "AcquirePool F (ObjectSize a) (HeaderSize a) (min est 2) (Mem a) = Some (res, po, m)"
      "acquired (ObjectSize a) (HeaderSize a) Owned (Mem a) (res, po, m)" "res = Okay \<longrightarrow> po \<noteq> None" by blast
  show ?thesis
  proof (cases "res = Okay")
    case False
    note af = acquire_failed [OF assms(1) acq(2) False]
    have "alloc_inv Owned (a\<lparr>Mem := m, BusyCount := BusyCount a - 1\<rparr>)
        \<and> live (a\<lparr>Mem := m, BusyCount := BusyCount a - 1\<rparr>) = live a
        \<and> same_config a (a\<lparr>Mem := m, BusyCount := BusyCount a - 1\<rparr>)"
      using alloc_inv_cong [OF af(1), of "a\<lparr>Mem := m, BusyCount := BusyCount a - 1\<rparr>"] af(2)
      by (simp add: same_config_def)
    with False acq show ?thesis by (simp add: take_from_new_def)
  next
    case True
    with acq(3) obtain p where p: "po = Some p" by blast
    define a1 where "a1 = a\<lparr>Mem := m, PoolCount := PoolCount a + 1, alloc_Capacity := alloc_Capacity a + ucast (pool_Capacity p),
        alloc_FreeCount := alloc_FreeCount a + ucast (pool_FreeCount p), Pools := Pools a @ [p]\<rparr>"
    note ap = add_pool [OF assms(1) _ acq(2) [unfolded True p], of "Pools a" "[]", simplified, folded a1_def]
    define obj where "obj = GetFirstFreeObject (ObjectSize a) (HeaderSize a) p"
    define taken where "taken = p\<lparr>pool_FreeCount := pool_FreeCount p - 1, FirstFreeObject := FreeNext m obj\<rparr>"
    have sel: "ObjectSize a1 = ObjectSize a" "HeaderSize a1 = HeaderSize a" "Mem a1 = m"
      "Pools a1 = Pools a @ p # []" by (simp_all add: a1_def)
    have pinv: "pools_inv (ObjectSize a) (HeaderSize a) Owned m (Pools a @ p # [])"
      using ap(1) by (simp add: alloc_inv_def sel)
    obtain fs where ok: "pool_ok (ObjectSize a) (HeaderSize a) (FreeNext m) p fs" using pools_delete(4) [OF pinv] by blast
    note pop = pool_pop [OF ok ap(3), folded obj_def, folded taken_def]
    then obtain fs' where ok': "pool_ok (ObjectSize a) (HeaderSize a) (FreeNext m) taken fs'" by blast
    have "took Owned a1 obj (let b = set_busy obj (a1\<lparr>Mem := m, alloc_Capacity := alloc_Capacity a1, alloc_FreeCount := alloc_FreeCount a1\<rparr>)
        in b\<lparr>Pools := Pools a @ taken # [], alloc_FreeCount := alloc_FreeCount b - 1\<rparr>)"
    proof (rule took_from_pool [OF ap(1) sel(4) ap(3), unfolded sel, OF obj_def keeps_refl ok' _ _ _ pop(2) refl])
      show "Owned (Pages m) = Owned (Pages m) \<union> pool_space (ObjectSize a) (HeaderSize a) taken"
        using pools_delete(3) [OF pinv] by (auto simp: taken_def)
    qed (simp_all add: taken_def ucast32_minus_1 [OF ap(3)])
    note taken_new = this
    have "took Owned a obj (set_busy obj (a\<lparr>Mem := m, PoolCount := PoolCount a + 1,
          alloc_Capacity := alloc_Capacity a + ucast (pool_Capacity p),
          alloc_FreeCount := alloc_FreeCount a + ucast (pool_FreeCount taken), Pools := Pools a @ [taken]\<rparr>))"
    proof -
      have "(let b = set_busy obj a1 in b\<lparr>Pools := Pools a @ taken # [], alloc_FreeCount := alloc_FreeCount b - 1\<rparr>) =
        set_busy obj (a\<lparr>Mem := m, PoolCount := PoolCount a + 1,
          alloc_Capacity := alloc_Capacity a + ucast (pool_Capacity p),
          alloc_FreeCount := alloc_FreeCount a + ucast (pool_FreeCount taken), Pools := Pools a @ [taken]\<rparr>)"
        by (simp add: a1_def set_busy_def taken_def ucast32_minus_1 [OF ap(3)] Let_def)
      then show ?thesis
        using taken_new ap(2,4) unfolding sel(3) [symmetric] alloc_update_same by (simp add: took_def same_config_def)
    qed
    with True acq(1) p show ?thesis
      by (simp add: take_from_new_def obj_def [symmetric] Let_def pool_update_swap) (simp add: taken_def)
  qed
qed

lemma alloc_inv_BusyCount [simp]:
  "alloc_inv Owned (a\<lparr>BusyCount := n\<rparr>) = alloc_inv Owned a" "live (a\<lparr>BusyCount := n\<rparr>) = live a"
  by (simp_all add: alloc_inv_def live_def totals_ok_def busy_marked_def)

lemma AllocateObject_outcome:
  assumes "alloc_inv Owned a" "0 < est" "unat est < 2 ^ 32"
  shows "\<exists>res obj a'. AllocateObject est a = Some (res, obj, a') \<and> alloc_inv Owned a' \<and> PoolFuncs a' = PoolFuncs a \<and>
     (if res = Okay then \<exists>x. obj = Some x \<and> x \<notin> live a \<and> live a' = insert x (live a)
      else obj = None \<and> live a' = live a)"
proof (cases "BusyCount a \<ge> Quota a")
  case True
  with assms show ?thesis by (simp add: AllocateObject_def)
next
  case False
  define a0 where "a0 = a\<lparr>BusyCount := BusyCount a + 1\<rparr>"
  have a0: "alloc_inv Owned a0" "live a0 = live a" "PoolFuncs a0 = PoolFuncs a"
    using assms(1) by (simp_all add: a0_def)
  show ?thesis
  proof (cases "PoolFuncs a")
    case None
    with False a0 show ?thesis by (simp add: AllocateObject_def a0_def [symmetric] Let_def)
  next
    case (Some F)
    with a0 have F: "PoolFuncs a0 = Some F" by simp
    obtain res b where af: "acquire_first F est a0 = Some (res, b)" "alloc_inv Owned b" "live b = live a0" "same_config a0 b"
      using acquire_first_ok [OF a0(1) F assms(2)] by blast
    then have Fb: "PoolFuncs b = Some F" using F by (simp add: same_config_def)
    have eq: "AllocateObject est a = (if res \<noteq> Okay then Some (res, None, b) else
        case find_free (Pools b) of Some (before, current, after) \<Rightarrow> take_object F est before current after b
        | None \<Rightarrow> take_from_new F est b)"
      using False F af(1) by (simp add: AllocateObject_def a0_def [symmetric] Let_def)
    show ?thesis
    proof (cases "res = Okay")
      case False
      with eq af a0 Fb Some show ?thesis by simp
    next
      case True
      show ?thesis
      proof (cases "find_free (Pools b)")
        case None
        from take_from_new_ok [OF af(2) Fb assms(2)] eq True None af(3) a0(2,3) show ?thesis
          by (auto simp: took_def same_config_def Fb Some split: if_splits)
      next
        case (Some r)
        then obtain before p after where r: "find_free (Pools b) = Some (before, p, after)" by (cases r) auto
        with find_free_Some have ps: "Pools b = before @ p # after" "pool_FreeCount p \<noteq> 0" by blast+
        from take_object_ok [OF af(2) Fb ps assms(2,3)] eq True r af(3) a0(2) Fb F a0(3) show ?thesis
          by (auto simp: took_def same_config_def)
      qed
    qed
  qed
qed

section \<open>Deallocation\<close>

lemma Contains_ind_space:
  assumes "layout_ok os hs p" "pool_Contains_ind x os hs p = Some i"
  shows "unat x \<in> pool_space os hs p"
proof -
  have sz: "sizes_ok os hs" using assms(1) by (simp add: layout_ok_def)
  have le: "unat os * unat (pool_Capacity p) + unat hs \<le> pool_bytes os hs p"
    unfolding pool_bytes_def by (rule round_page_le)
  then have st: "unat (PoolAddress p + hs) = unat (PoolAddress p) + unat hs"
    using assms(1) by (intro unat_plus_small) (simp add: layout_ok_def)
  from assms(2) have s: "PoolAddress p + hs \<le> x" "(x - (PoolAddress p + hs)) div os < ucast (pool_Capacity p)"
    by (auto simp: pool_Contains_ind_def Let_def split: if_splits)
  then have "(unat x - unat (PoolAddress p + hs)) div unat os < unat (pool_Capacity p)"
    by (simp add: word_less_nat_alt unat_div unat_minus_le)
  then have "unat x - unat (PoolAddress p + hs) < unat (pool_Capacity p) * unat os"
    using sz by (simp add: div_less_iff_less_mult sizes_ok_def)
  then show ?thesis
    using le s(1) sz unfolding st pool_space_def by (simp add: word_le_nat_alt st mult.commute)
qed

lemma Contains_ind_object:
  assumes "layout_ok os hs p" "i < pool_Capacity p"
  shows "pool_Contains_ind (object_addr os hs p i) os hs p = Some i"
proof -
  have sz: "sizes_ok os hs" using assms(1) by (simp add: layout_ok_def)
  define start where "start = PoolAddress p + hs"
  have d: "object_addr os hs p i - start = ucast i * os" by (simp add: object_addr_def start_def)
  have u: "unat (object_addr os hs p i) = unat start + unat i * unat os"
    using object_in_space(1) [OF assms] object_in_space(1) [OF assms(1), of 0] assms(2)
    by (simp add: start_def word_less_nat_alt)
  have q: "(object_addr os hs p i - start) div os = ucast i"
    using sz unfolding d
    by (simp add: unat_inject [symmetric] unat_div unat_object_mult [OF sz]) (simp add: sizes_ok_def)
  have "start \<le> object_addr os hs p i" by (simp add: word_le_nat_alt u)
  moreover have "ucast (ucast i :: u64) = i" using unat_lt_exp [of i] by (simp add: unat_inject [symmetric] unat_ucast_mod)
  ultimately show ?thesis
    using assms(2) by (simp add: pool_Contains_ind_def start_def [symmetric] q word_less_nat_alt)
qed

lemma find_containing_object:
  assumes "pools_inv os hs Owned m (before @ p # after)" "i < pool_Capacity p"
  shows "find_containing (object_addr os hs p i) os hs (before @ p # after) = Some (before, p, i, after)"
  using assms
proof (induction before)
  case Nil
  then have "layout_ok os hs p" by (auto simp: pools_inv_def pool_ok_def)
  with Nil show ?case by (simp add: Contains_ind_object)
next
  case (Cons q before)
  have lay: "layout_ok os hs p" "layout_ok os hs q" "apart os hs q p"
    using Cons.prems(1) by (auto simp: pools_inv_def pool_ok_def)
  have "pool_Contains_ind (object_addr os hs p i) os hs q = None"
    using Contains_ind_space [OF lay(2)] object_in_space(2) [OF lay(1) Cons.prems(2)] lay(3)
    by (cases "pool_Contains_ind (object_addr os hs p i) os hs q") (auto simp: apart_def)
  moreover have "pools_inv os hs Owned m (before @ p # after)"
    using Cons.prems(1) by (simp add: pools_inv_def)
  ultimately show ?case using Cons by simp
qed

lemma find_containing_none:
  assumes "pools_inv os hs Owned m ps" "\<And>p. p \<in> set ps \<Longrightarrow> unat x \<notin> pool_space os hs p"
  shows "find_containing x os hs ps = None"
  using assms
proof (induction ps)
  case (Cons p ps)
  have "layout_ok os hs p" using Cons.prems(1) by (auto simp: pools_inv_def pool_ok_def)
  with Contains_ind_space [OF this] Cons.prems(2) have "pool_Contains_ind x os hs p = None"
    by (cases "pool_Contains_ind x os hs p") auto
  moreover have "pools_inv os hs Owned m ps" using Cons.prems(1) by (simp add: pools_inv_def)
  ultimately show ?case using Cons by simp
qed simp

lemma card_indices: "card {i :: u32. i < n} = unat n"
proof -
  have "distinct (map of_nat [unat (0 :: u32)..<unat n] :: u32 list)"
    using unat_lt_exp [of n]
    by (auto simp: distinct_map inj_on_def unat_inject [symmetric] unat_of_nat)
  from distinct_card [OF this] show ?thesis
    unfolding set_stack_range by simp
qed

text \<open>An object in use is not on the stack, so there is room for it and it is put back as the first one.\<close>

lemma pool_push:
  assumes "pool_ok os hs nx p fs" "i < pool_Capacity p" "i \<notin> set fs"
  defines "x \<equiv> object_addr os hs p i"
  defines "p' \<equiv> p\<lparr>FirstFreeObject := i, pool_FreeCount := pool_FreeCount p + 1\<rparr>"
  shows "pool_ok os hs (nx(x := FirstFreeObject p)) p' (i # fs)"
    "busy_objects os hs (nx(x := FirstFreeObject p)) p' = busy_objects os hs nx p - {x}"
    "unat (pool_FreeCount p) + 1 \<le> unat (pool_Capacity p)"
    "pool_Capacity p - pool_FreeCount p = 1 \<Longrightarrow> busy_objects os hs nx p = {x}"
proof -
  have sz: "sizes_ok os hs" "layout_ok os hs p" using assms(1) by (simp_all add: pool_ok_def layout_ok_def)
  have st: "free_stack os hs p nx fs" "set fs \<subseteq> {i. i < pool_Capacity p}" "length fs = unat (pool_FreeCount p)"
    using assms(1) by (simp_all add: pool_ok_def)
  have "distinct (i # fs)" using objects.stack_distinct [OF st(1)] assms(3) by simp
  from distinct_card [OF this] have card: "card (set (i # fs)) = unat (pool_FreeCount p) + 1" using st(3) by simp
  have fin: "finite {i. i < pool_Capacity p}" by simp
  have sub: "set (i # fs) \<subseteq> {i. i < pool_Capacity p}" using st(2) assms(2) by simp
  from card_mono [OF fin this] show le: "unat (pool_FreeCount p) + 1 \<le> unat (pool_Capacity p)"
    unfolding card card_indices .
  then have cnt: "unat (pool_FreeCount p + 1) = unat (pool_FreeCount p) + 1"
    using unat_lt_exp [of "pool_Capacity p"] by (intro plus_one_small) simp
  have "i \<noteq> obj_ind_invalid"
  proof -
    have "unat i < unat (pool_Capacity p)" "unat (pool_Capacity p) < 2 ^ 32"
      using assms(2) unat_lt_exp [of "pool_Capacity p"] by (simp_all add: word_less_nat_alt)
    then show ?thesis by (auto simp: obj_ind_invalid_def)
  qed
  then have "free_stack os hs (p\<lparr>FirstFreeObject := i\<rparr>) (nx(x := FirstFreeObject p)) (i # fs)"
    using objects.stack_push [OF st(1) sz(1) _ assms(3)] by (simp add: push_object_def x_def)
  then have "free_stack os hs p' (nx(x := FirstFreeObject p)) (i # fs)"
    using free_stack_cong [of p' "p\<lparr>FirstFreeObject := i\<rparr>" "i # fs" "nx(x := FirstFreeObject p)" os hs
        "nx(x := FirstFreeObject p)"] by (simp add: p'_def del: fun_upd_apply)
  then show ok: "pool_ok os hs (nx(x := FirstFreeObject p)) p' (i # fs)"
    using sz(2) sub st(3) cnt by (simp add: pool_ok_def p'_def)
  show "busy_objects os hs (nx(x := FirstFreeObject p)) p' = busy_objects os hs nx p - {x}"
    unfolding busy_objects_eq [OF ok] busy_objects_eq [OF assms(1)]
    using object_addr_inj [OF sz(1), of p] unfolding x_def p'_def by auto
  assume "pool_Capacity p - pool_FreeCount p = 1"
  then have "pool_Capacity p = pool_FreeCount p + 1" by (metis add.commute diff_add_cancel)
  then have "card (set (i # fs)) = card {i. i < pool_Capacity p}" unfolding card card_indices using cnt by simp
  from card_subset_eq [OF fin sub this] have "{i. i < pool_Capacity p} = insert i (set fs)" by simp
  then have "j < pool_Capacity p \<and> j \<notin> set fs \<longleftrightarrow> j = i" for j using assms(2,3) by blast
  then show "busy_objects os hs nx p = {x}" unfolding busy_objects_eq [OF assms(1)] x_def by simp
qed

lemma live_object:
  assumes "alloc_inv Owned a" "x \<in> live a"
  shows "\<exists>before p after i fs. Pools a = before @ p # after \<and> i < pool_Capacity p
     \<and> x = object_addr (ObjectSize a) (HeaderSize a) p i \<and> i \<notin> set fs
     \<and> pool_ok (ObjectSize a) (HeaderSize a) (FreeNext (Mem a)) p fs"
proof -
  from assms(2) obtain p where p: "p \<in> set (Pools a)"
    "x \<in> busy_objects (ObjectSize a) (HeaderSize a) (FreeNext (Mem a)) p" by (auto simp: live_def live_in_def)
  then obtain before after where "Pools a = before @ p # after" by (meson split_list)
  moreover from p(1) assms(1) obtain fs where "pool_ok (ObjectSize a) (HeaderSize a) (FreeNext (Mem a)) p fs"
    by (auto simp: alloc_inv_def pools_inv_def)
  ultimately show ?thesis using p(2) busy_objects_eq by blast
qed

lemma put_object_ok:
  assumes inv: "alloc_inv Owned a" and pools: "Pools a = before @ p # after"
    and i: "i < pool_Capacity p" "i \<notin> set fs" "pool_ok (ObjectSize a) (HeaderSize a) (FreeNext (Mem a)) p fs"
    and x: "x = object_addr (ObjectSize a) (HeaderSize a) p i"
  shows "alloc_inv Owned (put_object x before p i after a)" "live (put_object x before p i after a) = live a - {x}"
proof -
  define os hs m where "os = ObjectSize a" and "hs = HeaderSize a" and "m = Mem a"
  note defs = os_def [symmetric] hs_def [symmetric] m_def [symmetric]
  define b where "b = put_object x before p i after a"
  define p' where "p' = p\<lparr>FirstFreeObject := i, pool_FreeCount := pool_FreeCount p + 1\<rparr>"
  note push = pool_push [OF i(3,1,2), folded x, unfolded defs, folded p'_def]
  have sel: "Pools b = before @ p' # after" "FreeNext (Mem b) = (FreeNext m)(x := FirstFreeObject p)"
    "Pages (Mem b) = Pages m" "ObjectSize b = os" "HeaderSize b = hs" "BusyBit b = BusyBit a"
    "\<And>y. y \<noteq> x \<Longrightarrow> BusyBits (Mem b) y = BusyBits m y"
    "PoolFuncs b = PoolFuncs a" "PoolCount b = PoolCount a" "alloc_Capacity b = alloc_Capacity a"
    "alloc_FreeCount b = alloc_FreeCount a + 1"
    by (simp_all add: b_def put_object_def Let_def p'_def defs)
  have lay: "layout_ok os hs p" using i(3) by (simp add: pool_ok_def defs)
  have xs: "unat x \<in> pool_space os hs p" unfolding x defs by (rule object_in_space(2) [OF lay i(1)])
  have pinv: "pools_inv os hs Owned m (before @ p # after)" using inv by (simp add: alloc_inv_def defs pools)
  have sp: "pool_space os hs p' = pool_space os hs p" by (simp add: p'_def)
  have kept: "keeps (Owned (Pages m) - pool_space os hs p') m (Mem b)"
    using xs sel(2,7) unfolding sp keeps_def by auto
  have ok': "pool_ok os hs (FreeNext (Mem b)) p' (i # fs)" unfolding sel(2) by (rule push(1))
  have own: "Owned (Pages (Mem b)) = Owned (Pages m) \<union> pool_space os hs p'"
    using pools_delete(3) [OF pinv] unfolding sel(3) sp by blast
  note rep = pools_replace [OF pinv kept ok' _ _ own, unfolded sp, OF subset_refl]
  have "x \<in> busy_objects os hs (FreeNext m) p"
    unfolding busy_objects_eq [OF i(3) [unfolded defs]] using i(1,2) x by (auto simp: defs)
  have la: "live a = busy_objects os hs (FreeNext m) p \<union> live_in os hs (FreeNext m) (before @ after)"
    by (simp add: live_def pools live_in_insert defs)
  have "x \<notin> live_in os hs (FreeNext m) (before @ after)" using rep(3) xs by simp
  moreover have "live b = busy_objects os hs (FreeNext (Mem b)) p' \<union> live_in os hs (FreeNext m) (before @ after)"
    using rep(2) by (simp add: live_def sel(1,4,5))
  ultimately show lb: "live (put_object x before p i after a) = live a - {x}"
    unfolding b_def [symmetric] la using push(2) unfolding sel(2) by blast
  have cnt: "(ucast (pool_FreeCount p') :: u64) = ucast (pool_FreeCount p) + 1"
    using push(3) unat_lt_exp [of "pool_Capacity p"] plus_one_small [of "pool_FreeCount p"]
    by (simp add: p'_def unat_inject [symmetric] unat_plus_small)
  have "totals_ok b"
    using inv by (simp add: alloc_inv_def totals_ok_def sel pools cnt) (simp add: p'_def)
  moreover have "busy_marked b"
    using inv lb sel(6,7) by (simp add: alloc_inv_def busy_marked_def b_def [symmetric] defs)
  ultimately show "alloc_inv Owned (put_object x before p i after a)"
    using inv rep(1) unfolding b_def [symmetric] by (simp add: alloc_inv_def sel defs)
qed

lemma release_pool_ok:
  assumes inv: "alloc_inv Owned a" and F: "PoolFuncs a = Some F" and pools: "Pools a = before @ p # after"
    and i: "i < pool_Capacity p" "i \<notin> set fs" "pool_ok (ObjectSize a) (HeaderSize a) (FreeNext (Mem a)) p fs"
    and x: "x = object_addr (ObjectSize a) (HeaderSize a) p i"
    and one: "pool_Capacity p - pool_FreeCount p = 1"
  shows "\<exists>b. release_pool F before p after a = Some (Okay, b) \<and> alloc_inv Owned b \<and> live b = live a - {x}
    \<and> PoolFuncs b = PoolFuncs a"
proof -
  define os hs m where "os = ObjectSize a" and "hs = HeaderSize a" and "m = Mem a"
  note defs = os_def [symmetric] hs_def [symmetric] m_def [symmetric]
  have lay: "layout_ok os hs p" using i(3) by (simp add: pool_ok_def defs)
  have pinv: "pools_inv os hs Owned m (before @ p # after)" using inv by (simp add: alloc_inv_def defs pools)
  note rest = pools_delete [OF pinv]
  have "pool_funcs_ok os hs Owned F" using inv F by (simp add: alloc_inv_def defs)
  then obtain res p' m' where rel: "ReleasePool F os hs p m = Some (res, p', m')" "released os hs Owned p m (res, p', m')"
    using lay rest(3) unfolding pool_funcs_ok_def by (metis prod_cases3)
  then have r: "res = Okay" "keeps (Owned (Pages m) - pool_space os hs p) m m'"
    "Owned (Pages m') = Owned (Pages m) - pool_space os hs p" by (simp_all add: released_def)
  have sub: "pool_space os hs q \<subseteq> Owned (Pages m) - pool_space os hs p" if "q \<in> set (before @ after)" for q
    using rest(1) rest(2) [OF that] that unfolding pools_inv_def apart_def by blast
  note kept = pools_change [OF rest(1) keeps_mono [OF r(2) sub] sub [folded r(3)]]
  define b where "b = a\<lparr>Mem := m', Pools := before @ after, PoolCount := PoolCount a - 1,
      alloc_Capacity := alloc_Capacity a - ucast (pool_Capacity p),
      alloc_FreeCount := alloc_FreeCount a - ucast (pool_FreeCount p)\<rparr>"
  have eq: "release_pool F before p after a = Some (Okay, b)"
    using rel(1) r(1) by (simp add: release_pool_def b_def defs)
  have xs: "unat x \<in> pool_space os hs p" unfolding x defs by (rule object_in_space(2) [OF lay i(1)])
  have "live a = {x} \<union> live_in os hs (FreeNext m) (before @ after)"
    using pool_push(4) [OF i(3,1,2) one] by (simp add: live_def pools live_in_insert x defs)
  moreover have "x \<notin> live_in os hs (FreeNext m) (before @ after)"
    by (rule space_apart [OF rest(1,2) xs])
  moreover have "live b = live_in os hs (FreeNext m) (before @ after)"
    using kept(2) by (simp add: live_def b_def defs)
  ultimately have lb: "live b = live a - {x}" by blast
  have bits: "BusyBits m' y = BusyBits m y" if "y \<in> live b" for y
  proof -
    have "y \<in> live_in os hs (FreeNext m) (before @ after)" using that kept(2) by (simp add: live_def b_def defs)
    then obtain q where q: "q \<in> set (before @ after)" "y \<in> busy_objects os hs (FreeNext m) q" by (auto simp: live_in_def)
    then have "layout_ok os hs q" using rest(1) unfolding pools_inv_def pool_ok_def by blast
    from busy_objects_space [OF this q(2)] sub [OF q(1)] r(2) show ?thesis by (auto simp: keeps_def)
  qed
  have "totals_ok b" using inv by (simp add: alloc_inv_def totals_ok_def b_def pools)
  moreover have "busy_marked b"
    using inv bits lb by (simp add: alloc_inv_def busy_marked_def b_def defs)
  ultimately have "alloc_inv Owned b"
    using inv kept(1) by (simp add: alloc_inv_def b_def defs)
  moreover have "PoolFuncs b = PoolFuncs a" by (simp add: b_def)
  ultimately show ?thesis using eq lb by blast
qed

end
