(* ===== verification/Obj_Alloc_Theorems.thy ===== *)
theory Obj_Alloc_Theorems
  imports Obj_Alloc_Props
begin

text \<open>
  The properties of the object allocator, over the pools of the kernel heap: what an allocation and a
  deallocation do to the objects in use, that objects in use do not overlap, and that the functions of
  the kernel heap meet the contract of pool functions.
\<close>

section \<open>An example provider of pages\<close>

text \<open>
  A provider that hands out ascending ranges of a window and takes them back; it refuses to place a
  range. It shows that the contract of pages can be met.
\<close>

definition window :: nat where
  "window = 0x10000000"

definition example_owned :: "nat \<times> nat set \<Rightarrow> nat set" where
  "example_owned = (\<lambda>(next, S). S \<inter> {window..<window + 2 ^ 34})"

definition example_AllocatePages :: "(nat \<times> nat set) page_alloc" where
  "example_AllocatePages sz a = (\<lambda>(next, S).
     if a = 0 \<and> next + unat sz \<le> 2 ^ 34 \<and> {window + next..<window + next + unat sz} \<inter> S = {}
     then (Okay, of_nat (window + next), (next + unat sz, S \<union> {window + next..<window + next + unat sz}))
     else (OutOfMemory, 0, (next, S)))"

definition example_FreePages :: "(nat \<times> nat set) page_free" where
  "example_FreePages a sz = (\<lambda>(next, S). (Okay, (next, S - {unat a..<unat a + unat sz})))"

lemma example_pages_ok: "pages_ok example_owned example_AllocatePages example_FreePages"
  unfolding pages_ok_def
proof (intro conjI allI impI)
  show "\<exists>lo. lo + 2 ^ 34 < (2 :: nat) ^ 64 \<and> (\<forall>e. example_owned e \<subseteq> {lo..<lo + 2 ^ 34})"
    by (rule exI [of _ window]) (auto simp: example_owned_def window_def)
next
  fix sz a and e :: "nat \<times> nat set"
  obtain k S where e: "e = (k, S)" by (cases e)
  show "case example_AllocatePages sz a e of (res, v, e') \<Rightarrow> if res = Okay
      then {unat v..<unat v + unat sz} \<inter> example_owned e = {}
        \<and> example_owned e' = example_owned e \<union> {unat v..<unat v + unat sz} \<and> (a \<noteq> 0 \<longrightarrow> v = a)
      else example_owned e' = example_owned e"
  proof (cases "a = 0 \<and> k + unat sz \<le> 2 ^ 34 \<and> {window + k..<window + k + unat sz} \<inter> S = {}")
    case True
    then have "window + k < 2 ^ 64" by (simp add: window_def)
    then have "unat (of_nat (window + k) :: u64) = window + k" by (simp add: unat_of_nat del: of_nat_add)
    moreover have "{window + k..<window + k + unat sz} \<subseteq> {window..<window + 2 ^ 34}" using True by auto
    ultimately show ?thesis
      using True by (auto simp: e example_AllocatePages_def example_owned_def)
  next
    case False
    then show ?thesis by (auto simp: e example_AllocatePages_def)
  qed
next
  fix v sz and e :: "nat \<times> nat set"
  show "case example_FreePages v sz e of (res, e') \<Rightarrow>
      res = Okay \<and> example_owned e' = example_owned e - {unat v..<unat v + unat sz}"
    by (cases e) (auto simp: example_FreePages_def example_owned_def)
qed

section \<open>The contract of the kernel heap\<close>

lemma kernel_heap_funcs_ok:
  assumes "pages_ok Owned al fr" "sizes_ok os hs"
  shows "pool_funcs_ok os hs Owned (kernel_heap_funcs al fr)"
  unfolding pool_funcs_ok_def kernel_heap_funcs_def
  using AcquirePoolInKernelHeap_ok [OF assms] EnlargePoolInKernelHeap_ok [OF assms(1)]
    ReleasePoolFromKernelHeap_ok [OF assms(1)] by simp

text \<open>
  Over a provider of pages that keeps its contract, the three functions of the kernel heap keep theirs:
  an acquired pool fills its pages with free objects linked in order, an enlarged pool is extended by
  free objects in pages directly behind it, and no assertion of these functions fails (in particular,
  more objects than a pool has never fit the pages it has, so that enlarging it always takes pages).
\<close>

theorem kernel_heap_provides:
  assumes "pages_ok Owned AllocatePages FreePages" "sizes_ok os hs"
  shows "pool_funcs_ok os hs Owned (kernel_heap_funcs AllocatePages FreePages)"
  using assms by (rule kernel_heap_funcs_ok)

theorem kernel_heap_provides_witness:
  "pool_funcs_ok 72 72 example_owned (kernel_heap_funcs example_AllocatePages example_FreePages)"
  by (rule kernel_heap_provides [OF example_pages_ok]) (simp add: sizes_ok_def)

section \<open>Construction\<close>

lemma ObjectAllocator_new_inv:
  assumes "sizes_ok (RoundUp (max objectSize sizeof_FreeObject) align)
       (RoundUp sizeof_ObjectPoolBase (RoundUp (max objectSize sizeof_FreeObject) align))"
    and "pages_ok Owned al fr"
  shows "alloc_inv Owned (ObjectAllocator_new objectSize align (kernel_heap_funcs al fr) opts busy quota m)"
    "live (ObjectAllocator_new objectSize align (kernel_heap_funcs al fr) opts busy quota m) = {}"
proof -
  show "live (ObjectAllocator_new objectSize align (kernel_heap_funcs al fr) opts busy quota m) = {}"
    by (simp add: live_def live_in_def ObjectAllocator_new_def Let_def)
  then show "alloc_inv Owned (ObjectAllocator_new objectSize align (kernel_heap_funcs al fr) opts busy quota m)"
    using assms(1) kernel_heap_funcs_ok [OF assms(2,1)]
    by (simp add: alloc_inv_def busy_marked_def totals_ok_def pools_inv_def ObjectAllocator_new_def Let_def)
qed

definition example_allocator :: "(nat \<times> nat set) ObjectAllocator" where
  "example_allocator = ObjectAllocator_new 72 8 (kernel_heap_funcs example_AllocatePages example_FreePages)
     ReleaseAll SIZE_MAX SIZE_MAX \<lparr>FreeNext = \<lambda>_. 0, BusyBits = \<lambda>_. False, Pages = (0, {})\<rparr>"

lemma example_allocator_inv: "alloc_inv example_owned example_allocator" "live example_allocator = {}"
  unfolding example_allocator_def
  by (rule ObjectAllocator_new_inv [OF _ example_pages_ok];
      simp add: sizes_ok_def RoundUp_def sizeof_FreeObject_def sizeof_ObjectPoolBase_def max_def)+

section \<open>Allocation and deallocation\<close>

text \<open>
  C27. Allocation from an allocator in order: it always answers; if the answer is \<open>Okay\<close> the object handed out
  was not in use and is now, the others in use stay so, and otherwise no object is handed out and none
  is lost. The allocator stays in order: the stacks of its pools, the memory its pools lie in and its
  totals of pools, objects and free objects. At the quota the allocation is refused and nothing changes.
\<close>

theorem AllocateObject_correct:
  assumes "alloc_inv Owned a" "0 < est" "unat est < 2 ^ 32"
  shows "\<exists>res obj a'. AllocateObject est a = Some (res, obj, a') \<and> alloc_inv Owned a' \<and> PoolFuncs a' = PoolFuncs a \<and>
     (if res = Okay then \<exists>x. obj = Some x \<and> x \<notin> live a \<and> live a' = insert x (live a)
      else obj = None \<and> live a' = live a)
     \<and> (Quota a \<le> BusyCount a \<longrightarrow> res = ObjaMaximumCapacity \<and> a' = a)"
proof (cases "Quota a \<le> BusyCount a")
  case True
  with assms(1) show ?thesis by (simp add: AllocateObject_def)
next
  case False
  with AllocateObject_outcome [OF assms] show ?thesis by blast
qed

theorem AllocateObject_correct_witness:
  "\<exists>res obj a'. AllocateObject 1 example_allocator = Some (res, obj, a') \<and> alloc_inv example_owned a'
     \<and> (if res = Okay then \<exists>x. obj = Some x \<and> live a' = {x} else obj = None \<and> live a' = {})"
  using AllocateObject_correct [OF example_allocator_inv(1), of 1] unfolding example_allocator_inv(2)
  by (auto split: if_splits)

lemma DeallocateObject_live:
  assumes "alloc_inv Owned a" "x \<in> live a" "PoolFuncs a \<noteq> None"
  shows "\<exists>a'. DeallocateObject x a = Some (Okay, a') \<and> alloc_inv Owned a' \<and> live a' = live a - {x}
    \<and> PoolFuncs a' = PoolFuncs a"
proof -
  obtain F where F: "PoolFuncs a = Some F" using assms(3) by blast
  obtain before p after i fs where p: "Pools a = before @ p # after" "i < pool_Capacity p"
    "x = object_addr (ObjectSize a) (HeaderSize a) p i" "i \<notin> set fs"
    "pool_ok (ObjectSize a) (HeaderSize a) (FreeNext (Mem a)) p fs"
    using live_object [OF assms(1,2)] by blast
  define b where "b = a\<lparr>BusyCount := BusyCount a - 1\<rparr>"
  have b: "alloc_inv Owned b" "live b = live a" "PoolFuncs b = Some F" "Pools b = before @ p # after"
    "ObjectSize b = ObjectSize a" "HeaderSize b = HeaderSize a" "Mem b = Mem a"
    using assms(1) F p(1) by (simp_all add: b_def)
  have "find_containing x (ObjectSize a) (HeaderSize a) (Pools a) = Some (before, p, i, after)"
    using find_containing_object [of "ObjectSize a" "HeaderSize a" Owned "Mem a"] assms(1) p(1-3)
    by (simp add: alloc_inv_def)
  moreover have "\<not> (BusyBit a < SIZE_MAX \<and> \<not> BusyBits (Mem a) x)"
    using assms(1,2) by (simp add: alloc_inv_def busy_marked_def)
  ultimately have eq: "DeallocateObject x a = (if can_release p b then release_pool F before p after b
      else Some (Okay, put_object x before p i after b))"
    using F by (auto simp: DeallocateObject_def b_def [symmetric] Let_def)
  note put = put_object_ok [OF b(1) b(4) p(2,4), unfolded b(5-7), OF p(5,3)]
  note rel = release_pool_ok [OF b(1,3,4) p(2,4), unfolded b(5-7), OF p(5,3)]
  show ?thesis
  proof (cases "can_release p b")
    case True
    with rel eq b(2,3) F show ?thesis by (auto simp: can_release_def)
  next
    case False
    moreover have "PoolFuncs (put_object x before p i after b) = PoolFuncs b" by (simp add: put_object_def Let_def)
    ultimately show ?thesis using put eq b(2,3) F by simp
  qed
qed

text \<open>
  C28. Deallocating an object in use succeeds, takes exactly that object out of those in use and keeps the
  allocator in order, whether the object is put back on the stack of its pool or its pool, now without
  an object in use, is released. An address outside of every pool is refused without a change.
\<close>

theorem DeallocateObject_correct:
  assumes "alloc_inv Owned a" "PoolFuncs a \<noteq> None"
  shows "(x \<in> live a \<longrightarrow> (\<exists>a'. DeallocateObject x a = Some (Okay, a') \<and> alloc_inv Owned a' \<and> live a' = live a - {x}))
    \<and> ((\<forall>p \<in> set (Pools a). unat x \<notin> pool_space (ObjectSize a) (HeaderSize a) p) \<longrightarrow>
         DeallocateObject x a = Some (if BusyBit a < SIZE_MAX \<and> \<not> BusyBits (Mem a) x then ObjaAlreadyFree
                                      else ArgumentOutOfRange, a))"
proof (intro conjI impI)
  show "\<exists>a'. DeallocateObject x a = Some (Okay, a') \<and> alloc_inv Owned a' \<and> live a' = live a - {x}" if "x \<in> live a"
    using DeallocateObject_live [OF assms(1) that assms(2)] by blast
  assume "\<forall>p \<in> set (Pools a). unat x \<notin> pool_space (ObjectSize a) (HeaderSize a) p"
  then have "find_containing x (ObjectSize a) (HeaderSize a) (Pools a) = None"
    using find_containing_none [of "ObjectSize a" "HeaderSize a" Owned "Mem a" "Pools a" x] assms(1)
    by (simp add: alloc_inv_def)
  then show "DeallocateObject x a = Some (if BusyBit a < SIZE_MAX \<and> \<not> BusyBits (Mem a) x then ObjaAlreadyFree
      else ArgumentOutOfRange, a)"
    using assms(2) by (auto simp: DeallocateObject_def)
qed

lemma example_acquire:
  "\<exists>p m. AcquirePoolInKernelHeap example_AllocatePages 72 72 1 (Mem example_allocator) = Some (Okay, Some p, m)
     \<and> acquired 72 72 example_owned (Mem example_allocator) (Okay, Some p, m)"
proof -
  have "example_AllocatePages 4096 0 (Pages (Mem example_allocator)) = (Okay, of_nat window, (4096, {window..<window + 4096}))"
    by (simp add: example_AllocatePages_def example_allocator_def ObjectAllocator_new_def Let_def)
  then have "AcquirePoolInKernelHeap example_AllocatePages 72 72 1 (Mem example_allocator) = Some r \<Longrightarrow> fst r = Okay" for r
    by (auto simp: AcquirePoolInKernelHeap_def RoundUp_def PageSize_def sizeof_ObjectPoolBase_def split: option.splits)
  moreover obtain r where "AcquirePoolInKernelHeap example_AllocatePages 72 72 1 (Mem example_allocator) = Some r"
    "acquired 72 72 example_owned (Mem example_allocator) r"
    using AcquirePoolInKernelHeap_ok [OF example_pages_ok, of 72 72 1 "Mem example_allocator"] by (auto simp: sizes_ok_def)
  ultimately show ?thesis by (cases r) (auto simp: acquired_def split: if_splits)
qed

lemma example_allocation:
  "\<exists>x a. AllocateObject 1 example_allocator = Some (Okay, Some x, a) \<and> alloc_inv example_owned a
     \<and> live a = {x} \<and> PoolFuncs a \<noteq> None"
proof -
  define F where "F = kernel_heap_funcs example_AllocatePages example_FreePages"
  define a0 where "a0 = example_allocator\<lparr>BusyCount := 1\<rparr>"
  have sel: "ObjectSize a0 = 72" "HeaderSize a0 = 72" "Pools a0 = [] @ []" "PoolFuncs a0 = Some F" "Mem a0 = Mem example_allocator"
    "BusyCount example_allocator = 0" "Quota example_allocator = SIZE_MAX" "PoolFuncs example_allocator = Some F"
    by (simp_all add: a0_def example_allocator_def ObjectAllocator_new_def Let_def RoundUp_def max_def F_def
        sizeof_FreeObject_def sizeof_ObjectPoolBase_def)
  have inv: "alloc_inv example_owned a0" "live a0 = {}"
    using example_allocator_inv by (simp_all add: a0_def)
  obtain p m where acq: "AcquirePoolInKernelHeap example_AllocatePages 72 72 1 (Mem a0) = Some (Okay, Some p, m)"
    "acquired 72 72 example_owned (Mem a0) (Okay, Some p, m)"
    using example_acquire unfolding sel(5) by blast
  define b where "b = a0\<lparr>Mem := m, PoolCount := PoolCount a0 + 1, alloc_Capacity := alloc_Capacity a0 + ucast (pool_Capacity p),
      alloc_FreeCount := alloc_FreeCount a0 + ucast (pool_FreeCount p), Pools := [] @ p # []\<rparr>"
  note ap = add_pool [OF inv(1) sel(3), unfolded sel(1,2), OF acq(2), folded b_def]
  have "AcquirePool F 72 72 (min 1 2) (Mem a0) = Some (Okay, Some p, m)"
    using acq(1) by (simp add: F_def kernel_heap_funcs_def min_def)
  then have "acquire_first F 1 a0 = Some (Okay, b)"
    by (simp add: acquire_first_def sel(1-3) b_def)
  moreover have "find_free (Pools b) = Some ([], p, [])" using ap(3) by (simp add: b_def)
  ultimately have eq: "AllocateObject 1 example_allocator = take_object F 1 [] p [] b"
    by (simp add: AllocateObject_def sel(6-8) SIZE_MAX_def a0_def [symmetric] sel(4) Let_def)
  obtain x a where "take_object F 1 [] p [] b = Some (Okay, Some x, a)" "took example_owned b x a"
    using take_object_ok [OF ap(1) _ _ ap(3), of F "[]" "[]" 1] ap(4) sel(4) by (auto simp: same_config_def b_def)
  with eq ap(2,4) inv(2) sel(4) show ?thesis by (auto simp: took_def same_config_def)
qed

theorem DeallocateObject_correct_witness:
  "\<exists>x a b. AllocateObject 1 example_allocator = Some (Okay, Some x, a)
     \<and> DeallocateObject x a = Some (Okay, b) \<and> alloc_inv example_owned b \<and> live b = {}"
proof -
  obtain x a where a: "AllocateObject 1 example_allocator = Some (Okay, Some x, a)" "alloc_inv example_owned a"
    "live a = {x}" "PoolFuncs a \<noteq> None"
    using example_allocation by blast
  with DeallocateObject_correct [OF a(2,4), of x] show ?thesis by auto
qed

section \<open>Objects in use do not overlap\<close>

lemma pools_apart:
  assumes "sorted_wrt (apart os hs) ps" "p \<in> set ps" "q \<in> set ps" "p \<noteq> q"
  shows "apart os hs p q"
  using assms
proof (induction ps)
  case (Cons r ps)
  then show ?case using apart_sym [of os hs r] by auto
qed simp

lemma live_place:
  assumes "alloc_inv Owned a" "x \<in> live a"
  obtains p i where "p \<in> set (Pools a)" "i < pool_Capacity p" "x = object_addr (ObjectSize a) (HeaderSize a) p i"
    "layout_ok (ObjectSize a) (HeaderSize a) p"
  using live_object [OF assms] unfolding pool_ok_def by (metis in_set_conv_decomp)

text \<open>Two objects in use are at least the size of an object apart.\<close>

lemma live_apart:
  assumes inv: "alloc_inv Owned a" "x \<in> live a" "y \<in> live a" and less: "unat x < unat y"
  shows "unat x + unat (ObjectSize a) \<le> unat y"
proof -
  define os hs where "os = ObjectSize a" and "hs = HeaderSize a"
  note defs = os_def [symmetric] hs_def [symmetric]
  from inv(1,2) obtain p i where
    p: "p \<in> set (Pools a)" "i < pool_Capacity p" "x = object_addr os hs p i" "layout_ok os hs p" unfolding os_def hs_def by (rule live_place)
  from inv(1,3) obtain q j where
    q: "q \<in> set (Pools a)" "j < pool_Capacity q" "y = object_addr os hs q j" "layout_ok os hs q" unfolding os_def hs_def by (rule live_place)
  have "sorted_wrt (apart os hs) (Pools a)" using inv(1) by (simp add: alloc_inv_def pools_inv_def defs)
  note xs = object_in_space [OF p(4,2), folded p(3)] and ys = object_in_space [OF q(4,2), folded q(3)]
    and pools = pools_apart [OF this p(1) q(1)]
  show ?thesis unfolding defs
  proof (cases "p = q")
    case True
    with less xs(1) ys(1) have "unat i < unat j" by (simp add: mult_less_cancel2)
    then have "unat i * unat os + unat os \<le> unat j * unat os"
      by (metis Suc_leI add.commute mult_Suc mult_le_mono1)
    with xs(1) ys(1) True show "unat x + unat os \<le> unat y" by simp
  next
    case False
    with pools ys(2) have "unat y \<notin> pool_space os hs p" by (auto simp: apart_def)
    with xs(3) less show "unat x + unat os \<le> unat y" by (meson atLeastLessThan_iff less_imp_le not_le subsetD)
  qed
qed

text \<open>An object in use lies in memory that was handed out, and meets the header of no pool.\<close>

lemma live_inside:
  assumes inv: "alloc_inv Owned a" "x \<in> live a"
  shows "{unat x..<unat x + unat (ObjectSize a)} \<subseteq> Owned (Pages (Mem a))"
    "q \<in> set (Pools a) \<Longrightarrow> {unat x..<unat x + unat (ObjectSize a)} \<inter> {unat (PoolAddress q)..<unat (PoolAddress q) + unat (HeaderSize a)} = {}"
proof -
  define os hs where "os = ObjectSize a" and "hs = HeaderSize a"
  note defs = os_def [symmetric] hs_def [symmetric]
  from inv obtain p i where
    p: "p \<in> set (Pools a)" "i < pool_Capacity p" "x = object_addr os hs p i" "layout_ok os hs p" unfolding os_def hs_def by (rule live_place)
  note xs = object_in_space [OF p(4,2), folded p(3)]
  have own: "pool_space os hs p \<subseteq> Owned (Pages (Mem a))" and sorted: "sorted_wrt (apart os hs) (Pools a)"
    using inv(1) p(1) by (auto simp: alloc_inv_def pools_inv_def defs)
  show "{unat x..<unat x + unat (ObjectSize a)} \<subseteq> Owned (Pages (Mem a))" using xs(3) own by (auto simp: defs)
  assume q: "q \<in> set (Pools a)"
  show "{unat x..<unat x + unat (ObjectSize a)} \<inter> {unat (PoolAddress q)..<unat (PoolAddress q) + unat (HeaderSize a)} = {}"
  proof (cases "p = q")
    case True
    with xs(1) show ?thesis by (auto simp: defs)
  next
    case False
    have "unat hs \<le> pool_bytes os hs q"
      using round_page_le [of "unat os * unat (pool_Capacity q) + unat hs"] by (simp add: pool_bytes_def)
    then have "{unat (PoolAddress q)..<unat (PoolAddress q) + unat hs} \<subseteq> pool_space os hs q" by (auto simp: pool_space_def)
    with pools_apart [OF sorted p(1) q False] xs(3) show ?thesis unfolding apart_def defs by blast
  qed
qed

section \<open>Clients\<close>

text \<open>
  What a client of a new allocator can do: ask for objects, whether it gets them or not, and give back objects it holds. The
  second component of a state is what it holds.
\<close>

inductive obj_run :: "'e ObjectAllocator \<Rightarrow> 'e ObjectAllocator \<times> uintptr set \<Rightarrow> bool" for a0 where
  start: "obj_run a0 (a0, {})"
| allocate: "obj_run a0 (a, held) \<Longrightarrow> 0 < est \<Longrightarrow> unat est < 2 ^ 32 \<Longrightarrow> AllocateObject est a = Some (res, obj, a')
    \<Longrightarrow> obj_run a0 (a', held \<union> set_option obj)"
| deallocate: "obj_run a0 (a, held) \<Longrightarrow> x \<in> held \<Longrightarrow> DeallocateObject x a = Some (res, a')
    \<Longrightarrow> obj_run a0 (a', held - {x})"

lemma acquire_first_config: "acquire_first F est a = Some (res, a') \<Longrightarrow> same_config a a'"
  by (auto simp: acquire_first_def same_config_def split: if_splits option.splits prod.splits)

lemma take_from_new_config: "take_from_new F est a = Some (res, obj, a') \<Longrightarrow> same_config a a'"
  by (auto simp: take_from_new_def same_config_def Let_def split: if_splits option.splits prod.splits)

lemma take_object_config: "take_object F est before p after a = Some (res, obj, a') \<Longrightarrow> same_config a a'"
  by (auto simp: take_object_def same_config_def Let_def split: if_splits option.splits prod.splits)

lemma same_config_refl [simp]: "same_config a a"
  by (simp add: same_config_def)

lemma same_config_trans: "same_config a b \<Longrightarrow> same_config b c \<Longrightarrow> same_config a c"
  by (simp add: same_config_def)

lemma AllocateObject_config:
  assumes "AllocateObject est a = Some (res, obj, a')"
  shows "same_config a a'"
proof -
  have count: "same_config a (a\<lparr>BusyCount := BusyCount a + 1\<rparr>)" by (simp add: same_config_def)
  from assms show ?thesis unfolding AllocateObject_def Let_def
    by (auto split: if_splits option.splits prod.splits intro: count same_config_trans [OF count]
        dest!: acquire_first_config take_from_new_config take_object_config dest: same_config_trans)
qed

lemma DeallocateObject_config: "DeallocateObject x a = Some (res, a') \<Longrightarrow> same_config a a'"
  by (auto simp: DeallocateObject_def release_pool_def put_object_def same_config_def Let_def
      split: if_splits option.splits prod.splits bind_splits)

lemma obj_run_inv:
  assumes "obj_run a0 s" "alloc_inv Owned a0" "live a0 = {}" "PoolFuncs a0 \<noteq> None"
  shows "alloc_inv Owned (fst s) \<and> live (fst s) = snd s \<and> same_config a0 (fst s)"
  using assms(1)
proof induction
  case start
  with assms(2,3) show ?case by (simp add: same_config_def)
next
  case (allocate a held est res obj a')
  then have "alloc_inv Owned a" "live a = held" "same_config a0 a" by simp_all
  with AllocateObject_outcome [OF this(1) allocate(2,3)] AllocateObject_config [OF allocate(4)] allocate(4) show ?case
    by (auto simp: same_config_def split: if_splits)
next
  case (deallocate a held x res a')
  then have "alloc_inv Owned a" "live a = held" "same_config a0 a" "PoolFuncs a \<noteq> None"
    using assms(4) by (simp_all add: same_config_def)
  with DeallocateObject_live [OF this(1) _ this(4), of x] DeallocateObject_config [OF deallocate(3)] deallocate(2,3) show ?case
    by (auto simp: same_config_def)
qed

lemma unat_RoundUp_bounds:
  fixes v s :: u64
  assumes "0 < unat s" "unat v + unat s < 2 ^ 64"
  shows "unat v \<le> unat (RoundUp v s)" "unat (RoundUp v s) < unat v + unat s"
proof -
  define n where "n = unat v + unat s - 1"
  have "unat (v + s - 1) = n" unfolding n_def using assms by (subst unat_minus_le) (simp_all add: unat_plus_small word_le_nat_alt)
  then have q: "unat ((v + s - 1) div s) = n div unat s" by (simp add: unat_div)
  have le: "n div unat s * unat s \<le> n" "n < 2 ^ 64" using assms(2) by (simp_all add: n_def)
  then have "n div unat s * unat s < 2 ^ 64" by linarith
  then have "unat (RoundUp v s) = n div unat s * unat s" unfolding RoundUp_def by (subst unat_mult_small) (simp_all add: q)
  moreover have "n < n div unat s * unat s + unat s"
    using div_mult_mod_eq [of n "unat s"] mod_less_divisor [OF assms(1), of n] by linarith
  ultimately show "unat v \<le> unat (RoundUp v s)" "unat (RoundUp v s) < unat v + unat s"
    using le assms(1) n_def by linarith+
qed

text \<open>The sizes a new allocator works with are large enough for an object and for the header of a pool.\<close>

lemma new_sizes:
  assumes "0 < align" "unat objectSize + unat align \<le> 2 ^ 19" and a0_def: "a0 = ObjectAllocator_new objectSize align F opts busy quota m"
  shows "unat objectSize \<le> unat (ObjectSize a0)" "unat sizeof_ObjectPoolBase \<le> unat (HeaderSize a0)"
    "sizes_ok (ObjectSize a0) (HeaderSize a0)"
proof -
  define v where "v = max objectSize sizeof_FreeObject"
  have v: "unat objectSize \<le> unat v" "8 \<le> unat v" "unat v \<le> unat objectSize + 8"
    by (auto simp: v_def max_def sizeof_FreeObject_def word_le_nat_alt)
  have "0 < unat align" using assms(1) by (simp add: word_less_nat_alt)
  from unat_RoundUp_bounds [OF this, of v] v assms(2)
  have os: "unat v \<le> unat (ObjectSize a0)" "unat (ObjectSize a0) < unat v + unat align"
    by (simp_all add: a0_def ObjectAllocator_new_def Let_def v_def [symmetric])
  have hs: "HeaderSize a0 = RoundUp sizeof_ObjectPoolBase (ObjectSize a0)" by (simp add: a0_def ObjectAllocator_new_def Let_def)
  from unat_RoundUp_bounds [of "ObjectSize a0" sizeof_ObjectPoolBase] os v assms(2)
  have "unat sizeof_ObjectPoolBase \<le> unat (HeaderSize a0)" "unat (HeaderSize a0) < unat sizeof_ObjectPoolBase + unat (ObjectSize a0)"
    by (simp_all add: hs sizeof_ObjectPoolBase_def)
  with os v assms(2) show "unat objectSize \<le> unat (ObjectSize a0)" "unat sizeof_ObjectPoolBase \<le> unat (HeaderSize a0)"
    "sizes_ok (ObjectSize a0) (HeaderSize a0)"
    by (simp_all add: sizes_ok_def sizeof_ObjectPoolBase_def)
qed

text \<open>
  C29. What a client holds is its own. However it allocates from a new allocator over the kernel heap and gives back what it
  holds, the objects it holds are pairwise disjoint blocks of the requested size, each in memory the provider of
  pages has handed out and has not taken back, and none of them meets the header of a pool.
  Each can be given back.
\<close>

theorem held_objects_disjoint:
  assumes "pages_ok Owned AllocatePages FreePages" "0 < align" "unat objectSize + unat align \<le> 2 ^ 19"
    and "obj_run (ObjectAllocator_new objectSize align (kernel_heap_funcs AllocatePages FreePages) opts busy quota m) (a, held)"
  shows "(\<forall>x \<in> held. \<forall>y \<in> held. x \<noteq> y \<longrightarrow> {unat x..<unat x + unat objectSize} \<inter> {unat y..<unat y + unat objectSize} = {})
     \<and> (\<forall>x \<in> held. {unat x..<unat x + unat objectSize} \<subseteq> Owned (Pages (Mem a))
          \<and> (\<forall>p \<in> set (Pools a). {unat x..<unat x + unat objectSize}
               \<inter> {unat (PoolAddress p)..<unat (PoolAddress p) + unat sizeof_ObjectPoolBase} = {})
          \<and> (\<exists>a'. DeallocateObject x a = Some (Okay, a')))"
proof -
  define a0 where "a0 = ObjectAllocator_new objectSize align (kernel_heap_funcs AllocatePages FreePages) opts busy quota m"
  note sizes = new_sizes [OF assms(2,3) a0_def]
  have a0: "ObjectSize a0 = RoundUp (max objectSize sizeof_FreeObject) align"
    "HeaderSize a0 = RoundUp sizeof_ObjectPoolBase (RoundUp (max objectSize sizeof_FreeObject) align)" "PoolFuncs a0 \<noteq> None"
    by (simp_all add: a0_def ObjectAllocator_new_def Let_def)
  have "alloc_inv Owned a0" "live a0 = {}"
    unfolding a0_def using ObjectAllocator_new_inv [OF _ assms(1)] sizes(3) unfolding a0 by blast+
  from obj_run_inv [OF assms(4) [folded a0_def] this a0(3)]
  have inv: "alloc_inv Owned a" "live a = held" and cfg: "ObjectSize a = ObjectSize a0" "HeaderSize a = HeaderSize a0" "PoolFuncs a \<noteq> None"
    using a0(3) by (auto simp: same_config_def)
  have in_os: "{unat x..<unat x + unat objectSize} \<subseteq> {unat x..<unat x + unat (ObjectSize a)}" for x :: u64
    using sizes(1) cfg(1) by auto
  have in_hs: "{unat x..<unat x + unat sizeof_ObjectPoolBase} \<subseteq> {unat x..<unat x + unat (HeaderSize a)}" for x :: u64
    using sizes(2) cfg(2) by auto
  have "{unat x..<unat x + unat objectSize} \<inter> {unat y..<unat y + unat objectSize} = {}" if "x \<in> held" "y \<in> held" "x \<noteq> y" for x y
  proof -
    have "unat x < unat y \<or> unat y < unat x" using that(3) unat_inject [of x y] by linarith
    with live_apart [OF inv(1), of x y] live_apart [OF inv(1), of y x] that inv(2) sizes(1) cfg(1) show ?thesis by auto
  qed
  moreover have "\<exists>a'. DeallocateObject x a = Some (Okay, a')" if "x \<in> held" for x
    using DeallocateObject_live [OF inv(1) _ cfg(3), of x] that inv(2) by blast
  moreover have "{unat x..<unat x + unat objectSize} \<subseteq> Owned (Pages (Mem a))" if "x \<in> held" for x
    using live_inside(1) [OF inv(1), of x] in_os that inv(2) by blast
  moreover have "{unat x..<unat x + unat objectSize} \<inter> {unat (PoolAddress p)..<unat (PoolAddress p) + unat sizeof_ObjectPoolBase} = {}"
    if "x \<in> held" "p \<in> set (Pools a)" for x p
    using live_inside(2) [OF inv(1), of x p] in_os [of x] in_hs [of "PoolAddress p"] that inv(2) by blast
  ultimately show ?thesis by blast
qed

theorem held_objects_disjoint_witness:
  "\<exists>x a. obj_run example_allocator (a, {x}) \<and> {unat x..<unat x + 72} \<subseteq> example_owned (Pages (Mem a))"
proof -
  obtain x a where a: "AllocateObject 1 example_allocator = Some (Okay, Some x, a)"
    using example_allocation by blast
  have run: "obj_run example_allocator (a, {x})"
    using obj_run.allocate [OF obj_run.start _ _ a] by simp
  with held_objects_disjoint [OF example_pages_ok, of 8 72, OF _ _ run [unfolded example_allocator_def]] show ?thesis by auto
qed

section \<open>The quota\<close>

text \<open>
  An allocation that fails because the first pool cannot be acquired is counted nevertheless: each
  failure takes one object of the quota for good.
\<close>

theorem AllocateObject_leaks_quota:
  assumes "PoolFuncs a = Some F" "Pools a = []" "BusyCount a < Quota a"
    and "AcquirePool F (ObjectSize a) (HeaderSize a) (min est 2) (Mem a) = Some (res, po, m)" "res \<noteq> Okay"
  shows "AllocateObject est a = Some (res, None, a\<lparr>BusyCount := BusyCount a + 1, Mem := m\<rparr>)"
  using assms by (simp add: AllocateObject_def acquire_first_def Let_def not_le [symmetric])

end
