(* ===== verification/Vas_Model.thy ===== *)
theory Vas_Model
  imports Obj_Alloc_Theorems "HOL-Library.Monad_Syntax"
begin

text \<open>
  \<^verbatim>\<open>beelzebub/src/memory/vas.cpp\<close>, \<^verbatim>\<open>beelzebub/inc/memory/vas.hpp\<close>: a virtual address space, divided
  without gaps into regions that are nodes of an AVL tree ordered by address and of a doubly linked
  list.

  A pointer to a region is the number of its node (its address), the memory of the nodes is \<open>Heap\<close>.
  The tree is a tree of node numbers, compared through the memory. Following a null pointer, or one to
  a node that was given back, is \<open>None\<close>. The allocator of nodes is the record \<open>node_funcs\<close> of functions on the
  state the tree's cookie leads to; \<open>vas_nodes\<close> are those of an object allocator. Locks and the state of
  interrupts are left out, and so are the hooks \<open>PreOp\<close> and \<open>PostOp\<close>, which a plain \<open>Vas\<close> does not have.
\<close>

section \<open>State\<close>

record 'c node_funcs =
  AllocateNode :: "'c \<Rightarrow> HandleResult \<times> 'c"
  NodeAddress :: "'c \<Rightarrow> nat"
  RemoveNode :: "nat \<Rightarrow> 'c \<Rightarrow> HandleResult \<times> 'c"

record 'c Vas =
  First :: "nat option"
  LastSearched :: "nat option"
  Heap :: "nat \<rightharpoonup> MemoryRegion"
  Tree :: "(nat, 'c) avl_tree"

text \<open>
  The functions of an object allocator: \<open>NodeAddress\<close> is the address \<open>AllocateObject\<close> returns in a state. An
  allocator whose behaviour is undefined has an unspecified result.
\<close>

definition vas_nodes :: "'e ObjectAllocator node_funcs" where
  "vas_nodes =
     \<lparr>AllocateNode = (\<lambda>c. case the (AllocateObject 1 c) of (res, obj, c') \<Rightarrow> (res, c')),
      NodeAddress = (\<lambda>c. case the (AllocateObject 1 c) of (res, obj, c') \<Rightarrow> unat (the obj)),
      RemoveNode = (\<lambda>n c. the (DeallocateObject (of_nat n) c))\<rparr>"

definition region :: "'c Vas \<Rightarrow> nat \<Rightarrow> MemoryRegion" where
  "region vas n = the (Heap vas n)"

definition deref :: "'c Vas \<Rightarrow> nat option \<Rightarrow> MemoryRegion option" where
  "deref vas ptr = Option.bind ptr (Heap vas)"

text \<open>A write to the region a pointer leads to.\<close>

definition update :: "nat option \<Rightarrow> (MemoryRegion \<Rightarrow> MemoryRegion) \<Rightarrow> 'c Vas \<Rightarrow> 'c Vas option" where
  "update ptr f vas = do {
     n \<leftarrow> ptr;
     reg \<leftarrow> Heap vas n;
     Some (vas\<lparr>Heap := (Heap vas)(n \<mapsto> f reg)\<rparr>) }"

definition new_region :: "vaddr \<Rightarrow> vaddr \<Rightarrow> u8 \<Rightarrow> MemoryContent \<Rightarrow> u32 \<Rightarrow> nat option \<Rightarrow> nat option \<Rightarrow> MemoryRegion" where
  "new_region start fin flags content type prev next =
     \<lparr>Range = \<lparr>Start = start, End = fin\<rparr>, Flags = flags, Type = type, Content = content, Next = next, Prev = prev\<rparr>"

definition set_Start :: "vaddr \<Rightarrow> MemoryRegion \<Rightarrow> MemoryRegion" where
  "set_Start a reg = reg\<lparr>Range := (Range reg)\<lparr>Start := a\<rparr>\<rparr>"

definition set_End :: "vaddr \<Rightarrow> MemoryRegion \<Rightarrow> MemoryRegion" where
  "set_End a reg = reg\<lparr>Range := (Range reg)\<lparr>End := a\<rparr>\<rparr>"

section \<open>Operations of the tree\<close>

text \<open>A node that is inserted is compared as the region it is to hold; it holds it if it was allocated.\<close>

definition vas_Insert :: "'c node_funcs \<Rightarrow> MemoryRegion \<Rightarrow> 'c Vas \<Rightarrow> (HandleResult \<times> nat option \<times> 'c Vas) option" where
  "vas_Insert N reg vas = do {
     let n = NodeAddress N (Cookie (Tree vas));
     (res, ptr, t) \<leftarrow> tree_Insert (\<lambda>a _. Compare_region (region vas a) reg) (AllocateNode N) n (Tree vas);
     Some (res, ptr, vas\<lparr>Tree := t, Heap := (if res = Okay then (Heap vas)(n \<mapsto> reg) else Heap vas)\<rparr>) }"

text \<open>The memory of a node that was removed is gone.\<close>

definition vas_Remove :: "'c node_funcs \<Rightarrow> vaddr \<Rightarrow> 'c Vas \<Rightarrow> (HandleResult \<times> 'c Vas) option" where
  "vas_Remove N vaddr vas = do {
     (res, ptr, t) \<leftarrow> tree_Remove (\<lambda>a k. Compare_region_vaddr (region vas a) k) (RemoveNode N) vaddr (Tree vas);
     Some (res, vas\<lparr>Tree := t, Heap := (case ptr of None \<Rightarrow> Heap vas | Some n \<Rightarrow> (Heap vas)(n := None))\<rparr>) }"

definition FindRegion :: "vaddr \<Rightarrow> 'c Vas \<Rightarrow> nat option" where
  "FindRegion vaddr vas = tree_Find (\<lambda>a k. Compare_region_vaddr (region vas a) k) vaddr (Tree vas)"

section \<open>Operations on regions\<close>

definition MemoryContentsMergeable :: "MemoryContent \<Rightarrow> MemoryContent \<Rightarrow> bool" where
  "MemoryContentsMergeable a b \<longleftrightarrow> a = b \<and> a \<in> {MC_Generic, MC_CpuDatas, MC_VmmBootstrap, MC_Free}"

definition Permanent :: u32 where "Permanent = 0x00000001"
definition GuardHigh :: u32 where "GuardHigh = 0x00000002"
definition GuardLow :: u32 where "GuardLow = 0x00000004"
definition GuardFull :: u32 where "GuardFull = 0x00000006"

text \<open>The two subclasses of \<open>OperationParameters\<close>; \<open>Allocation\<close> is true of the first.\<close>

datatype Operation = AllocateOperation (op_Flags: u8) (op_Content: MemoryContent) (op_Type: u32) | FreeOperation

record OperationParameters =
  Operation :: Operation
  StartSize :: vsize
  Address :: vaddr
  Size :: vsize
  Sparse :: bool
  Tolerant :: bool

definition Allocation :: "OperationParameters \<Rightarrow> bool" where
  "Allocation op \<longleftrightarrow> Operation op \<noteq> FreeOperation"

text \<open>The fields after the first have no meaning, and are not read, unless it is true.\<close>

record DescriptorCheckResults =
  Accepted :: bool
  MeetsLeft :: bool
  MeetsRight :: bool
  LeftMergeable :: bool
  RightMergeable :: bool
  FailureResult :: HandleResult

definition Check_Allocate :: "u8 \<Rightarrow> MemoryContent \<Rightarrow> u32 \<Rightarrow> OperationParameters \<Rightarrow> 'c Vas \<Rightarrow> MemoryRegion
    \<Rightarrow> DescriptorCheckResults option" where
  "Check_Allocate flags content type op vas reg = do {
     let accepted = (Content reg = MC_Free);
     let left = (accepted \<and> Start (Range reg) = Address op);
     let right = (accepted \<and> End (Range reg) = Address op + Size op);
     let mergeable = (\<lambda>other theirs ours. theirs AND Type other = 0 \<and> ours AND type = 0 \<and> Flags other = flags
            \<and> MemoryContentsMergeable (Content other) content
            \<and> Type other AND NOT GuardFull = type AND NOT GuardFull);
     leftMergeable \<leftarrow> (if left \<and> Prev reg \<noteq> None then map_option (\<lambda>prev. mergeable prev GuardHigh GuardLow) (deref vas (Prev reg))
                      else Some False);
     rightMergeable \<leftarrow> (if right \<and> Next reg \<noteq> None then map_option (\<lambda>next. mergeable next GuardLow GuardHigh) (deref vas (Next reg))
                       else Some False);
     Some \<lparr>Accepted = accepted, MeetsLeft = left, MeetsRight = right, LeftMergeable = leftMergeable,
           RightMergeable = rightMergeable, FailureResult = PageFree\<rparr> }"

definition Check_Free :: "OperationParameters \<Rightarrow> 'c Vas \<Rightarrow> MemoryRegion \<Rightarrow> DescriptorCheckResults option" where
  "Check_Free op vas reg = do {
     let accepted = (Content reg \<noteq> MC_Free);
     let left = (accepted \<and> (Start (Range reg) = Address op
            \<or> GuardLow AND Type reg \<noteq> 0 \<and> Start (Range reg) = Address op - PageSize));
     let right = (accepted \<and> (End (Range reg) \<le> Address op + Size op
            \<or> GuardHigh AND Type reg \<noteq> 0 \<and> End (Range reg) = Address op + Size op + PageSize));
     leftMergeable \<leftarrow> (if left \<and> Prev reg \<noteq> None then map_option (\<lambda>prev. Content prev = MC_Free) (deref vas (Prev reg))
                      else Some False);
     rightMergeable \<leftarrow> (if right \<and> Next reg \<noteq> None then map_option (\<lambda>next. Content next = MC_Free) (deref vas (Next reg))
                       else Some False);
     Some \<lparr>Accepted = accepted, MeetsLeft = left, MeetsRight = right, LeftMergeable = leftMergeable,
           RightMergeable = rightMergeable, FailureResult = PageFree\<rparr> }"

fun Check :: "OperationParameters \<Rightarrow> 'c Vas \<Rightarrow> MemoryRegion \<Rightarrow> DescriptorCheckResults option" where
  "Check op vas reg = (case Operation op of
       AllocateOperation flags content type \<Rightarrow> Check_Allocate flags content type op vas reg
     | FreeOperation \<Rightarrow> Check_Free op vas reg)"

text \<open>The settings of a region that is repurposed or spawned.\<close>

fun settings :: "Operation \<Rightarrow> u8 \<times> MemoryContent \<times> u32" where
  "settings (AllocateOperation flags content type) = (flags, content, type)"
| "settings FreeOperation = (0, MC_Free, 0)"

definition Repurpose :: "OperationParameters \<Rightarrow> MemoryRegion \<Rightarrow> MemoryRegion" where
  "Repurpose op reg = (case settings (Operation op) of (flags, content, type) \<Rightarrow>
     reg\<lparr>Flags := flags, Content := content, Type := type\<rparr>)"

definition Spawn :: "'c node_funcs \<Rightarrow> OperationParameters \<Rightarrow> vaddr \<Rightarrow> vaddr \<Rightarrow> 'c Vas
    \<Rightarrow> (HandleResult \<times> nat option \<times> 'c Vas) option" where
  "Spawn N op start fin vas = (case settings (Operation op) of (flags, content, type) \<Rightarrow>
     vas_Insert N (new_region start fin flags content type None None) vas)"

section \<open>The cases\<close>

text \<open>
  The region \<open>reg\<close> (node \<open>r\<close>) is covered by the operation. Its neighbour to the left can be extended over
  it, and over the neighbour to the right if that can be merged as well.
\<close>

definition whole_left :: "'c node_funcs \<Rightarrow> vaddr \<Rightarrow> bool \<Rightarrow> MemoryRegion \<Rightarrow> 'c Vas \<Rightarrow> (HandleResult \<times> 'c Vas) option" where
  "whole_left N vaddr rightMergeable reg vas = do {
     (res, newEnd, next, vas) \<leftarrow>
       (if rightMergeable then do {
          right \<leftarrow> deref vas (Next reg);
          (res, vas) \<leftarrow> vas_Remove N (End (Range right) - 1) vas;
          Some (res, End (Range right), Next right, vas) }
        else Some (Okay, End (Range reg), Next reg, vas));
     if res \<noteq> Okay then Some (res, vas)
     else do {
       (res, vas) \<leftarrow> vas_Remove N vaddr vas;
       if res \<noteq> Okay then Some (res, vas)
       else do {
         vas \<leftarrow> update (Prev reg) (set_End newEnd) vas;
         vas \<leftarrow> update (Prev reg) (Next_update (\<lambda>_. next)) vas;
         vas \<leftarrow> (if next \<noteq> None then update next (Prev_update (\<lambda>_. Prev reg)) vas else Some vas);
         Some (Okay, vas) } } }"

definition whole_right :: "'c node_funcs \<Rightarrow> vaddr \<Rightarrow> MemoryRegion \<Rightarrow> 'c Vas \<Rightarrow> (HandleResult \<times> 'c Vas) option" where
  "whole_right N vaddr reg vas = do {
     (res, vas) \<leftarrow> vas_Remove N vaddr vas;
     if res \<noteq> Okay then Some (res, vas)
     else do {
       vas \<leftarrow> update (Next reg) (set_Start (Start (Range reg))) vas;
       vas \<leftarrow> update (Next reg) (Prev_update (\<lambda>_. Prev reg)) vas;
       vas \<leftarrow> (if Prev reg \<noteq> None then update (Prev reg) (Next_update (\<lambda>_. Next reg)) vas
               else Some (vas\<lparr>First := Next reg\<rparr>));
       Some (Okay, vas) } }"

text \<open>The operation covers the beginning of the region.\<close>

definition at_start :: "'c node_funcs \<Rightarrow> OperationParameters \<Rightarrow> vaddr \<Rightarrow> bool \<Rightarrow> nat \<Rightarrow> MemoryRegion \<Rightarrow> 'c Vas
    \<Rightarrow> (HandleResult \<times> 'c Vas) option" where
  "at_start N op endAddr leftMergeable r reg vas = do {
     vas \<leftarrow> update (Some r) (set_Start endAddr) vas;
     vas \<leftarrow> update (Some r) (Type_update (\<lambda>t. t AND NOT GuardLow)) vas;
     if leftMergeable then do {
       vas \<leftarrow> update (Prev reg) (set_End endAddr) vas;
       Some (Okay, vas) }
     else do {
       (res, newReg, vas) \<leftarrow> Spawn N op (Start (Range reg)) endAddr vas;
       if res \<noteq> Okay then Some (res, vas)
       else do {
         vas \<leftarrow> update newReg (Next_update (\<lambda>_. Some r)) vas;
         vas \<leftarrow> update newReg (Prev_update (\<lambda>_. Prev reg)) vas;
         vas \<leftarrow> (if Prev reg \<noteq> None then update (Prev reg) (Next_update (\<lambda>_. newReg)) vas
                 else Some (vas\<lparr>First := newReg\<rparr>));
         vas \<leftarrow> update (Some r) (Prev_update (\<lambda>_. newReg)) vas;
         Some (Okay, vas) } } }"

text \<open>The operation covers the end of the region.\<close>

definition at_end :: "'c node_funcs \<Rightarrow> OperationParameters \<Rightarrow> vaddr \<Rightarrow> bool \<Rightarrow> nat \<Rightarrow> MemoryRegion \<Rightarrow> 'c Vas
    \<Rightarrow> (HandleResult \<times> 'c Vas) option" where
  "at_end N op vaddr rightMergeable r reg vas = do {
     vas \<leftarrow> update (Some r) (set_End vaddr) vas;
     vas \<leftarrow> update (Some r) (Type_update (\<lambda>t. t AND NOT GuardHigh)) vas;
     if rightMergeable then do {
       vas \<leftarrow> update (Next reg) (set_Start vaddr) vas;
       Some (Okay, vas) }
     else do {
       (res, newReg, vas) \<leftarrow> Spawn N op vaddr (End (Range reg)) vas;
       if res \<noteq> Okay then Some (res, vas)
       else do {
         vas \<leftarrow> update newReg (Prev_update (\<lambda>_. Some r)) vas;
         vas \<leftarrow> update newReg (Next_update (\<lambda>_. Next reg)) vas;
         vas \<leftarrow> (if Next reg \<noteq> None then update (Next reg) (Prev_update (\<lambda>_. newReg)) vas else Some vas);
         vas \<leftarrow> update (Some r) (Next_update (\<lambda>_. newReg)) vas;
         Some (Okay, vas) } } }"

text \<open>The operation covers neither end: the region is split in three.\<close>

definition inside :: "'c node_funcs \<Rightarrow> OperationParameters \<Rightarrow> vaddr \<Rightarrow> vaddr \<Rightarrow> nat \<Rightarrow> MemoryRegion \<Rightarrow> 'c Vas
    \<Rightarrow> (HandleResult \<times> 'c Vas) option" where
  "inside N op vaddr endAddr r reg vas = do {
     let oldHighGuard = Type reg AND GuardHigh;
     vas \<leftarrow> update (Some r) (Type_update (\<lambda>t. t AND NOT GuardHigh)) vas;
     vas \<leftarrow> update (Some r) (set_End vaddr) vas;
     (res, newMidReg, vas) \<leftarrow> Spawn N op vaddr endAddr vas;
     if res \<noteq> Okay then Some (res, vas)
     else do {
       now \<leftarrow> deref vas (Some r);
       (res, newEndReg, vas) \<leftarrow> vas_Insert N (new_region endAddr (End (Range reg)) (Flags now) (Content now)
          ((Type now AND NOT GuardLow) OR oldHighGuard) newMidReg (Next now)) vas;
       if res \<noteq> Okay then Some (res, vas)
       else do {
         vas \<leftarrow> update newMidReg (Next_update (\<lambda>_. newEndReg)) vas;
         vas \<leftarrow> update newMidReg (Prev_update (\<lambda>_. Some r)) vas;
         vas \<leftarrow> update (Some r) (Next_update (\<lambda>_. newMidReg)) vas;
         fin \<leftarrow> deref vas newEndReg;
         vas \<leftarrow> (if Next fin \<noteq> None then update (Next fin) (Prev_update (\<lambda>_. newEndReg)) vas else Some vas);
         Some (Okay, vas) } } }"

section \<open>Execute\<close>

text \<open>One descriptor: the result, the address to continue at (null for none) and the new state.\<close>

definition operate :: "'c node_funcs \<Rightarrow> OperationParameters \<Rightarrow> 'c Vas \<Rightarrow> (HandleResult \<times> vaddr \<times> 'c Vas) option" where
  "operate N op vas =
     (let vaddr = Address op; endAddr = vaddr + Size op in
      case FindRegion vaddr vas of
        None \<Rightarrow> Some (ArgumentOutOfRange, 0, vas)
      | Some r \<Rightarrow> do {
          reg \<leftarrow> Heap vas r;
          let vas = (if LastSearched vas = Some r then vas\<lparr>LastSearched := None\<rparr> else vas);
          if endAddr > End (Range reg) \<and> \<not> Sparse op then Some (ArgumentOutOfRange, 0, vas)
          else do {
            let continuation = (if endAddr > End (Range reg) then End (Range reg) else 0);
            dcr \<leftarrow> Check op vas reg;
            if Accepted dcr then
              (if Type reg AND Permanent \<noteq> 0 then Some (Failed, continuation, vas)
               else do {
                 (res, vas) \<leftarrow>
                   (if MeetsLeft dcr then
                      (if MeetsRight dcr then
                         (if LeftMergeable dcr then whole_left N vaddr (RightMergeable dcr) reg vas
                          else if RightMergeable dcr then whole_right N vaddr reg vas
                          else map_option (\<lambda>vas. (Okay, vas)) (update (Some r) (Repurpose op) vas))
                       else at_start N op endAddr (LeftMergeable dcr) r reg vas)
                    else if MeetsRight dcr then at_end N op vaddr (RightMergeable dcr) r reg vas
                    else inside N op vaddr endAddr r reg vas);
                 Some (res, continuation, vas) })
            else if \<not> Tolerant op then Some (FailureResult dcr, continuation, vas)
            else Some (Okay, continuation, vas) } })"

text \<open>
  The search of an anonymous allocation along the list: the address it is to be placed at, at the end
  of the first free region that is large enough. The list is followed for at most \<open>k\<close> regions.
\<close>

fun search :: "nat \<Rightarrow> OperationParameters \<Rightarrow> 'c Vas \<Rightarrow> nat option \<Rightarrow> vaddr option option" where
  "search 0 op vas ptr = None"
| "search (Suc k) op vas ptr = do {
     reg \<leftarrow> deref vas ptr;
     if Content reg = MC_Free \<and> range_GetSize (Range reg) \<ge> StartSize op
     then Some (Some (End (Range reg) - StartSize op))
     else if Next reg = None then Some None
     else search k op vas (Next reg) }"

fun Execute :: "nat \<Rightarrow> 'c node_funcs \<Rightarrow> OperationParameters \<Rightarrow> 'c Vas
    \<Rightarrow> (HandleResult \<times> OperationParameters \<times> 'c Vas) option" where
  "Execute 0 N op vas = None"
| "Execute (Suc k) N op vas =
     (if First vas = None then Some (ObjectDisposed, op, vas)
      else if Allocation op \<and> Address op = 0 then do {
        found \<leftarrow> search k op vas (First vas);
        case found of
          None \<Rightarrow> Some (OutOfMemory, op, vas)
        | Some a \<Rightarrow> Execute k N (op\<lparr>Address := a\<rparr>) vas }
      else do {
        (res, continuation, vas) \<leftarrow> operate N op vas;
        if res \<noteq> Okay then Some (res, op, vas)
        else if continuation \<noteq> 0
        then Execute k N (op\<lparr>Address := continuation, Size := Size op - (continuation - Address op)\<rparr>) vas
        else Some (res, op, vas) })"

section \<open>The operations of an address space\<close>

definition Vas_new :: "'c \<Rightarrow> 'c Vas" where
  "Vas_new cookie = \<lparr>First = None, LastSearched = None, Heap = (\<lambda>_. None),
     Tree = \<lparr>Root = Nullptr, NodeCount = 0, Cookie = cookie\<rparr>\<rparr>"

definition Initialize :: "'c node_funcs \<Rightarrow> vaddr \<Rightarrow> vaddr \<Rightarrow> 'c \<Rightarrow> 'c Vas \<Rightarrow> (HandleResult \<times> 'c Vas) option" where
  "Initialize N start fin cookie vas = do {
     let vas = vas\<lparr>Tree := (Tree vas)\<lparr>Cookie := cookie\<rparr>\<rparr>;
     (res, ptr, vas) \<leftarrow> vas_Insert N (new_region start fin 0 MC_Free 0 None None) vas;
     Some (res, vas\<lparr>First := ptr\<rparr>) }"

text \<open>\<open>Allocate\<close> also returns the address it writes to its parameter \<open>vaddr\<close>.\<close>

definition Allocate :: "nat \<Rightarrow> 'c node_funcs \<Rightarrow> vaddr \<Rightarrow> vsize \<Rightarrow> u8 \<Rightarrow> MemoryContent \<Rightarrow> u32 \<Rightarrow> 'c Vas
    \<Rightarrow> (HandleResult \<times> vaddr \<times> 'c Vas) option" where
  "Allocate k N vaddr sz flags content type vas =
     (if First vas = None then Some (ObjectDisposed, vaddr, vas)
      else do {
        let lowOffset = (if type AND GuardLow \<noteq> 0 then PageSize else 0);
        let highOffset = (if type AND GuardHigh \<noteq> 0 then PageSize else 0);
        let effectiveAddress = (if vaddr = 0 then 0 else vaddr - lowOffset);
        let effectiveSize = sz + lowOffset + highOffset;
        (res, op, vas) \<leftarrow> Execute k N \<lparr>Operation = AllocateOperation flags content type, StartSize = effectiveSize,
           Address = effectiveAddress, Size = effectiveSize, Sparse = False, Tolerant = False\<rparr> vas;
        Some (res, Address op + lowOffset, vas) })"

definition Free :: "nat \<Rightarrow> 'c node_funcs \<Rightarrow> vaddr \<Rightarrow> vsize \<Rightarrow> bool \<Rightarrow> bool \<Rightarrow> 'c Vas
    \<Rightarrow> (HandleResult \<times> 'c Vas) option" where
  "Free k N vaddr sz sparse tolerant vas = do {
     (res, op, vas) \<leftarrow> Execute k N \<lparr>Operation = FreeOperation, StartSize = sz, Address = vaddr, Size = sz,
        Sparse = sparse, Tolerant = tolerant\<rparr> vas;
     Some (res, vas) }"

text \<open>\<open>Modify\<close> has no effect yet.\<close>

definition Modify :: "vaddr \<Rightarrow> vsize \<Rightarrow> u8 \<Rightarrow> 'c Vas \<Rightarrow> HandleResult \<times> 'c Vas" where
  "Modify vaddr sz flags vas = (if First vas = None then ObjectDisposed else Okay, vas)"

end
