(* ===== verification/Vas_Inv.thy ===== *)
theory Vas_Inv
  imports Vas_Model
begin

text \<open>
  The structure of an address space: its nodes form a doubly linked list of regions without gaps, which
  is also the sequence of the tree. The contract of a source of nodes is the locale \<open>node_source\<close>; object
  allocators are an interpretation of it.
\<close>

section \<open>Lists of regions\<close>

interpretation vas_tree: avl_unique_key
  "\<lambda>a b. Compare_region (f a) (f b)" "\<lambda>a. region_ok (f a)" "\<lambda>a k. Compare_region_vaddr (f a) k" "\<lambda>_. True"
  for f :: "nat \<Rightarrow> MemoryRegion"
  by unfold_locales
     (fact region_tree.Compare_flip region_tree.Compare_trans region_tree.key_before region_tree.key_after
        region_tree.key_once)+

fun hd_ptr :: "nat list \<Rightarrow> nat option \<Rightarrow> nat option" where
  "hd_ptr [] n = n"
| "hd_ptr (j # js) n = Some j"

fun last_ptr :: "nat option \<Rightarrow> nat list \<Rightarrow> nat option" where
  "last_ptr p [] = p"
| "last_ptr p (j # js) = last_ptr (Some j) js"

lemma hd_ptr_append: "hd_ptr (xs @ ys) n = hd_ptr xs (hd_ptr ys n)"
  by (cases xs) auto

lemma last_ptr_append: "last_ptr p (xs @ ys) = last_ptr (last_ptr p xs) ys"
  by (induction xs arbitrary: p) auto

lemma last_ptr_eq: "last_ptr p xs = (if xs = [] then p else Some (last xs))"
  by (induction xs arbitrary: p) auto

text \<open>
  \<open>regs h p s xs n e\<close>: the nodes \<open>xs\<close> are linked in this order between \<open>p\<close> and \<open>n\<close>, and their regions
  divide the addresses from \<open>s\<close> to \<open>e\<close>.
\<close>

fun regs :: "(nat \<rightharpoonup> MemoryRegion) \<Rightarrow> nat option \<Rightarrow> vaddr \<Rightarrow> nat list \<Rightarrow> nat option \<Rightarrow> vaddr \<Rightarrow> bool" where
  "regs h p s [] n e \<longleftrightarrow> s = e"
| "regs h p s (i # xs) n e \<longleftrightarrow> (\<exists>r. h i = Some r \<and> Prev r = p \<and> Next r = hd_ptr xs n \<and> Start (Range r) = s
     \<and> s < End (Range r) \<and> regs h (Some i) (End (Range r)) xs n e)"

lemma regs_append:
  "regs h p s (xs @ ys) n e \<longleftrightarrow> (\<exists>m. regs h p s xs (hd_ptr ys n) m \<and> regs h (last_ptr p xs) m ys n e)"
  by (induction xs arbitrary: p s) (auto simp: hd_ptr_append)

lemma regs_frame:
  assumes "\<And>i. i \<in> set xs \<Longrightarrow> h' i = h i"
  shows "regs h' p s xs n e \<longleftrightarrow> regs h p s xs n e"
  using assms by (induction xs arbitrary: p s) auto

lemma regs_ConsE:
  assumes "regs h p s (i # xs) n e"
  obtains r where "h i = Some r" "Prev r = p" "Next r = hd_ptr xs n" "Start (Range r) = s" "s < End (Range r)"
    "regs h (Some i) (End (Range r)) xs n e"
  using assms unfolding regs.simps by blast

lemma regs_le: "regs h p s xs n e \<Longrightarrow> s \<le> e"
proof (induction xs arbitrary: p s)
  case (Cons i xs)
  from Cons.prems obtain r where r: "s < End (Range r)" "regs h (Some i) (End (Range r)) xs n e" "h i = Some r"
    by (rule regs_ConsE)
  from r(1) Cons.IH [OF r(2)] show ?case by (rule order.trans [OF less_imp_le])
qed simp

lemma regs_in:
  assumes "regs h p s xs n e" "i \<in> set xs"
  shows "\<exists>r. h i = Some r \<and> s \<le> Start (Range r) \<and> Start (Range r) < End (Range r) \<and> End (Range r) \<le> e"
  using assms
proof (induction xs arbitrary: p s)
  case (Cons j xs)
  from Cons.prems(1) obtain r where r: "h j = Some r" "Start (Range r) = s" "s < End (Range r)"
    "regs h (Some j) (End (Range r)) xs n e" by (rule regs_ConsE)
  show ?case
  proof (cases "i = j")
    case True
    with r regs_le [OF r(4)] show ?thesis by simp
  next
    case False
    with Cons.prems(2) Cons.IH [OF r(4)] obtain q where q: "h i = Some q" "End (Range r) \<le> Start (Range q)"
      "Start (Range q) < End (Range q)" "End (Range q) \<le> e" by auto
    have "s \<le> Start (Range q)" by (rule order.trans [OF less_imp_le [OF r(3)] q(2)])
    with q show ?thesis by blast
  qed
qed simp

text \<open>What insertion into the tree and removal from it need: valid regions in order, gaps allowed.\<close>

definition lined :: "(nat \<rightharpoonup> MemoryRegion) \<Rightarrow> nat list \<Rightarrow> bool" where
  "lined h ids \<longleftrightarrow> (\<forall>i \<in> set ids. \<exists>r. h i = Some r \<and> region_ok r)
     \<and> sorted_wrt (\<lambda>a b. End (Range (the (h a))) \<le> Start (Range (the (h b)))) ids"

lemma regs_lined: "regs h p s xs n e \<Longrightarrow> lined h xs"
proof (induction xs arbitrary: p s)
  case (Cons i xs)
  from Cons.prems obtain r where r: "h i = Some r" "s < End (Range r)" "Start (Range r) = s" "regs h (Some i) (End (Range r)) xs n e" by auto
  have "End (Range r) \<le> Start (Range (the (h j)))" if "j \<in> set xs" for j
    using regs_in [OF r(4) that] by auto
  with Cons.IH [OF r(4)] r show ?case by (auto simp: lined_def region_ok_def)
qed (simp add: lined_def)

lemma lined_distinct: "lined h ids \<Longrightarrow> distinct ids"
proof (induction ids)
  case (Cons i ids)
  then have "region_ok (the (h i))" "\<forall>b \<in> set ids. End (Range (the (h i))) \<le> Start (Range (the (h b)))"
    by (auto simp: lined_def)
  then have "i \<notin> set ids" by (auto simp: region_ok_def)
  with Cons show ?case by (simp add: lined_def)
qed simp

lemma lined_tree:
  assumes "lined h ids"
  shows "sorted_wrt (\<lambda>a b. Compare_region (the (h a)) (the (h b)) < 0) ids" "\<forall>i \<in> set ids. region_ok (the (h i))"
  using assms unfolding lined_def
  by (auto elim!: sorted_wrt_mono_rel [rotated] simp: Compare_region_def Compare_range_def)

section \<open>Patching links\<close>

lemma regs_set_next:
  assumes "regs h p s xs n e" "distinct xs"
    and "\<And>i. i \<in> set xs \<Longrightarrow> Some i \<noteq> last_ptr None xs \<Longrightarrow> h' i = h i"
    and "\<And>i r. last_ptr None xs = Some i \<Longrightarrow> h i = Some r \<Longrightarrow> h' i = Some (r\<lparr>Next := n'\<rparr>)"
  shows "regs h' p s xs n' e"
  using assms
proof (induction xs arbitrary: p s)
  case (Cons i xs)
  from Cons.prems obtain r where r: "h i = Some r" "Prev r = p" "Next r = hd_ptr xs n" "Start (Range r) = s"
    "s < End (Range r)" "regs h (Some i) (End (Range r)) xs n e" by auto
  show ?case
  proof (cases xs)
    case Nil
    with r Cons.prems(4) [of i r] show ?thesis by auto
  next
    case (Cons j ys)
    then have lp: "last_ptr None (i # xs) = last_ptr None xs" "last_ptr None xs = Some (last xs)"
      by (simp_all add: last_ptr_eq)
    then have "Some i \<noteq> last_ptr None (i # xs)" using Cons.prems(2) local.Cons by auto
    then have "h' i = h i" using Cons.prems(3) by simp
    moreover have "regs h' (Some i) (End (Range r)) xs n' e"
      using Cons.prems(2-4) lp by (intro Cons.IH [OF r(6)]) auto
    ultimately show ?thesis using r local.Cons by auto
  qed
qed simp

lemma regs_set_prev:
  assumes "regs h p s xs n e" "distinct xs"
    and "\<And>i. i \<in> set xs \<Longrightarrow> Some i \<noteq> hd_ptr xs None \<Longrightarrow> h' i = h i"
    and "\<And>i r. hd_ptr xs None = Some i \<Longrightarrow> h i = Some r \<Longrightarrow> h' i = Some (r\<lparr>Prev := p'\<rparr>)"
  shows "regs h' p' s xs n e"
proof (cases xs)
  case Nil
  with assms(1) show ?thesis by simp
next
  case (Cons i ys)
  with assms(1) obtain r where r: "h i = Some r" "Prev r = p" "Next r = hd_ptr ys n" "Start (Range r) = s"
    "s < End (Range r)" "regs h (Some i) (End (Range r)) ys n e" by auto
  moreover have "regs h' (Some i) (End (Range r)) ys n e"
    using r(6) assms(2,3) Cons by (subst regs_frame [of ys h' h]) auto
  ultimately show ?thesis using assms(4) [of i r] Cons by simp
qed

section \<open>Sources of nodes\<close>

locale node_source =
  fixes N :: "'c node_funcs" and ok :: "'c \<Rightarrow> bool" and used :: "'c \<Rightarrow> nat set"
  assumes alloc_okay: "ok c \<Longrightarrow> AllocateNode N c = (Okay, c') \<Longrightarrow>
      ok c' \<and> NodeAddress N c \<notin> used c \<and> used c' = insert (NodeAddress N c) (used c)"
    and alloc_fails: "ok c \<Longrightarrow> AllocateNode N c = (res, c') \<Longrightarrow> res \<noteq> Okay \<Longrightarrow> ok c' \<and> used c' = used c"
    and remove_okay: "ok c \<Longrightarrow> n \<in> used c \<Longrightarrow> \<exists>c'. RemoveNode N n c = (Okay, c') \<and> ok c' \<and> used c' = used c - {n}"

text \<open>The nodes of an object allocator are its objects in use.\<close>

interpretation obj_nodes: node_source
  vas_nodes "\<lambda>c. alloc_inv Owned c \<and> PoolFuncs c \<noteq> None" "\<lambda>c. unat ` live c" for Owned
proof
  fix c c' :: "'a ObjectAllocator" and res n
  assume inv: "alloc_inv Owned c \<and> PoolFuncs c \<noteq> None"
  have outcome: "\<exists>res obj a'. AllocateObject 1 c = Some (res, obj, a') \<and> alloc_inv Owned a' \<and> PoolFuncs a' = PoolFuncs c \<and>
     (if res = Okay then \<exists>x. obj = Some x \<and> x \<notin> live c \<and> live a' = insert x (live c)
      else obj = None \<and> live a' = live c)"
    using inv by (intro AllocateObject_outcome) auto
  show "(alloc_inv Owned c' \<and> PoolFuncs c' \<noteq> None) \<and> NodeAddress vas_nodes c \<notin> unat ` live c
      \<and> unat ` live c' = insert (NodeAddress vas_nodes c) (unat ` live c)"
    if "AllocateNode vas_nodes c = (Okay, c')"
    using outcome that inv by (auto simp: vas_nodes_def unat_inject)
  show "(alloc_inv Owned c' \<and> PoolFuncs c' \<noteq> None) \<and> unat ` live c' = unat ` live c"
    if "AllocateNode vas_nodes c = (res, c')" "res \<noteq> Okay"
    using outcome that inv by (auto simp: vas_nodes_def)
  show "\<exists>c'. RemoveNode vas_nodes n c = (Okay, c') \<and> (alloc_inv Owned c' \<and> PoolFuncs c' \<noteq> None)
      \<and> unat ` live c' = unat ` live c - {n}" if "n \<in> unat ` live c"
  proof -
    from that obtain x where x: "x \<in> live c" "n = unat x" by blast
    with DeallocateObject_live [of Owned c x] inv obtain a' where
      a': "DeallocateObject x c = Some (Okay, a')" "alloc_inv Owned a'" "live a' = live c - {x}" "PoolFuncs a' = PoolFuncs c"
      by blast
    have "unat ` (live c - {x}) = unat ` live c - {n}" unfolding x(2) by (auto simp: unat_inject)
    with a' x inv show ?thesis by (simp add: vas_nodes_def)
  qed
qed

section \<open>The tree of an address space\<close>

definition tree_inv :: "(nat, 'c) avl_tree \<Rightarrow> nat list \<Rightarrow> bool" where
  "tree_inv t ids \<longleftrightarrow> inorder (Root t) = ids \<and> avl (Root t) \<and> NodeCount t = of_nat (length ids)"

lemma tree_inv_ok:
  assumes "tree_inv t ids" "lined h ids"
  shows "tree_ok (\<lambda>a b. Compare_region (the (h a)) (the (h b))) (\<lambda>a. region_ok (the (h a))) t"
  using assms(1) lined_tree [OF assms(2)] by (simp add: tree_inv_def tree_ok_def ordered_def)

lemma Insert_cong:
  assumes "\<And>q. q \<in> set (inorder t) \<Longrightarrow> C q p = C' q p"
  shows "Insert C al p t c = Insert C' al p t c"
  using assms
proof (induction t arbitrary: c)
  case (AvlTreeNode l r h q)
  have "Insert C al p l c = Insert C' al p l c" "Insert C al p r c = Insert C' al p r c" "C q p = C' q p"
    using AvlTreeNode.prems by (auto intro!: AvlTreeNode.IH)
  then show ?case by (simp add: Let_def)
qed simp

lemma find_region:
  assumes "tree_inv (Tree vas) ids" "lined (Heap vas) ids"
  shows "case FindRegion a vas of
      None \<Rightarrow> \<forall>i \<in> set ids. \<not> region_Contains (region vas i) a
    | Some r \<Rightarrow> r \<in> set ids \<and> region_Contains (region vas r) a"
proof -
  have c: "Compare_region_vaddr q a = 0 \<longleftrightarrow> region_Contains q a" for q
    by (auto simp: Compare_region_vaddr_def Compare_range_vaddr_def region_Contains_def range_Contains_def)
  note ok = tree_inv_ok [OF assms]
  show ?thesis
    using vas_tree.Find_in_tree [of "region vas" a "Root (Tree vas)"]
      vas_tree.Find_none [of "region vas" "Root (Tree vas)" a] ok assms(1)
    by (auto simp: FindRegion_def tree_Find_def tree_ok_def tree_inv_def c region_def split: option.split)
qed

lemma find_region_unique:
  assumes "lined h ids" "i \<in> set ids" "j \<in> set ids" "region_Contains (the (h i)) a" "region_Contains (the (h j)) a"
  shows "i = j"
proof (rule ccontr)
  assume "i \<noteq> j"
  with assms(2,3) obtain k l where kl: "k < length ids" "l < length ids" "ids ! k = i" "ids ! l = j" "k \<noteq> l"
    by (metis in_set_conv_nth)
  with assms(1) have "End (Range (the (h i))) \<le> Start (Range (the (h j))) \<or> End (Range (the (h j))) \<le> Start (Range (the (h i)))"
    unfolding lined_def by (metis linorder_neqE_nat sorted_wrt_nth_less)
  with assms(4,5) show False by (auto simp: region_Contains_def range_Contains_def)
qed

lemma find_hit:
  assumes "tree_inv (Tree vas) ids" "lined (Heap vas) ids" "r \<in> set ids" "region_Contains (region vas r) a"
  shows "FindRegion a vas = Some r"
proof (cases "FindRegion a vas")
  case None
  with find_region [OF assms(1,2), of a] assms(3,4) show ?thesis by auto
next
  case (Some q)
  with find_region [OF assms(1,2), of a] have "q \<in> set ids" "region_Contains (region vas q) a" by simp_all
  with find_region_unique [OF assms(2) this(1) assms(3)] assms(4) Some show ?thesis by (simp add: region_def)
qed

lemma insert_region:
  assumes tree: "tree_inv (Tree vas) (xs @ ys)" and lined: "lined (Heap vas) (xs @ ys)" and reg: "region_ok reg"
    and before: "\<And>x. x \<in> set xs \<Longrightarrow> End (Range (region vas x)) \<le> Start (Range reg)"
    and after: "\<And>y. y \<in> set ys \<Longrightarrow> End (Range reg) \<le> Start (Range (region vas y))"
    and al: "AllocateNode N (Cookie (Tree vas)) = (Okay, c)" and new: "n = NodeAddress N (Cookie (Tree vas))" "n \<notin> set (xs @ ys)"
  shows "\<exists>t. vas_Insert N reg vas = Some (Okay, Some n, vas\<lparr>Tree := t, Heap := (Heap vas)(n \<mapsto> reg)\<rparr>)
     \<and> tree_inv t (xs @ n # ys) \<and> Cookie t = c"
proof -
  define f where "f = (region vas)(n := reg)"
  define C where "C = (\<lambda>a b. Compare_region (f a) (f b))"
  have C: "C q n = Compare_region (region vas q) reg" if "q \<in> set (xs @ ys)" for q
    using that new(2) by (auto simp: C_def f_def)
  have inord: "inorder (Root (Tree vas)) = xs @ ys" and avl: "avl (Root (Tree vas))"
    using tree by (simp_all add: tree_inv_def)
  have fv: "\<forall>x \<in> set (xs @ ys). region_ok (f x)" "region_ok (f n)"
    using lined_tree(2) [OF lined] new(2) reg by (simp_all add: f_def region_def ball_Un)
  have neg: "Compare_region (region vas q) reg < 0" if "q \<in> set xs" for q
    using before [OF that] by (simp add: Compare_region_def Compare_range_def)
  have pos: "0 < Compare_region (region vas q) reg" if "q \<in> set ys" for q
  proof -
    have "region_ok (region vas q)" using lined_tree(2) [OF lined] that by (simp add: region_def)
    with after [OF that] reg show ?thesis by (auto simp: Compare_region_def Compare_range_def region_ok_def)
  qed
  have sorted: "sorted_wrt (\<lambda>a b. C a b < 0) (xs @ ys)"
    using lined_tree(1) [OF lined] new(2)
    by (elim sorted_wrt_mono_rel [rotated]) (auto simp: C_def f_def region_def)
  have ne: "\<forall>x \<in> set (inorder (Root (Tree vas))). C x n \<noteq> 0"
    unfolding inord using C neg pos by fastforce
  obtain t' where t': "Insert C (AllocateNode N) n (Root (Tree vas)) (Cookie (Tree vas)) = Some (Okay, t', c)" "avl t'"
    "inorder t' = insert_sorted C n (xs @ ys)"
    using vas_tree.Insert_okay [of "Root (Tree vas)" f n "AllocateNode N" "Cookie (Tree vas)" c] avl sorted fv ne al
    unfolding ordered_def inord C_def by blast
  have "insert_sorted C n (xs @ ys) = xs @ n # ys"
  proof -
    have "takeWhile (\<lambda>q. C q n < 0) (xs @ ys) = xs" "dropWhile (\<lambda>q. C q n < 0) (xs @ ys) = ys"
    proof -
      have "\<forall>x \<in> set xs. C x n < 0" using C neg by auto
      moreover have "\<not> C (hd ys) n < 0" if "ys \<noteq> []" using C [of "hd ys"] pos [of "hd ys"] that by auto
      ultimately show "takeWhile (\<lambda>q. C q n < 0) (xs @ ys) = xs" "dropWhile (\<lambda>q. C q n < 0) (xs @ ys) = ys"
        by (cases ys; simp add: takeWhile_append2 dropWhile_append2)+
    qed
    then show ?thesis by (simp add: insert_sorted_def)
  qed
  moreover have "Insert (\<lambda>a _. Compare_region (region vas a) reg) (AllocateNode N) n (Root (Tree vas)) (Cookie (Tree vas))
      = Some (Okay, t', c)"
    using t'(1) Insert_cong [of "Root (Tree vas)" C n "\<lambda>a _. Compare_region (region vas a) reg" "AllocateNode N"] C
    unfolding inord by metis
  ultimately have "vas_Insert N reg vas = Some (Okay, Some n, vas\<lparr>Tree := (Tree vas)\<lparr>Root := t', Cookie := c,
       NodeCount := NodeCount (Tree vas) + 1\<rparr>, Heap := (Heap vas)(n \<mapsto> reg)\<rparr>)" "inorder t' = xs @ n # ys"
    using t'(3) new(1) by (simp_all add: vas_Insert_def tree_Insert_def Let_def)
  with t'(2) tree show ?thesis by (intro exI conjI) (auto simp: tree_inv_def)
qed

lemma tree_Remove_fields:
  assumes "tree_Remove cmp dealloc k t = Some (res, Some p, t')"
  shows "NodeCount t' = NodeCount t - 1" "Cookie t' = snd (dealloc p (Cookie t))"
proof -
  from assms obtain root where "Remove cmp k (Root t) = Some (Some p, root)"
    "t' = t\<lparr>Root := root, NodeCount := NodeCount t - 1, Cookie := snd (dealloc p (Cookie t))\<rparr>"
    unfolding tree_Remove_def
    by (cases "Remove cmp k (Root t)"; cases "fst (the (Remove cmp k (Root t)))")
       (simp_all add: case_prod_beta Let_def prod_eq_iff)
  then show "NodeCount t' = NodeCount t - 1" "Cookie t' = snd (dealloc p (Cookie t))" by simp_all
qed

lemma remove_region:
  assumes tree: "tree_inv (Tree vas) (xs @ r # ys)" and lined: "lined (Heap vas) (xs @ r # ys)"
    and a: "region_Contains (region vas r) a" and rm: "RemoveNode N r (Cookie (Tree vas)) = (Okay, c)"
  shows "\<exists>t. vas_Remove N a vas = Some (Okay, vas\<lparr>Tree := t, Heap := (Heap vas)(r := None)\<rparr>)
     \<and> tree_inv t (xs @ ys) \<and> Cookie t = c"
proof -
  let ?key = "\<lambda>a k. Compare_region_vaddr (region vas a) k"
  note ok = tree_inv_ok [OF tree lined]
  have zero: "Compare_region_vaddr q a = 0 \<longleftrightarrow> region_Contains q a" for q
    by (auto simp: Compare_region_vaddr_def Compare_range_vaddr_def region_Contains_def range_Contains_def)
  have found: "tree_Find ?key a (Tree vas) = Some r"
    using find_hit [OF tree lined _ a] by (simp add: FindRegion_def)
  obtain pl t xs' ys' where t: "tree_Remove ?key (RemoveNode N) a (Tree vas) = Some (Okay, Some r, t)"
    "tree_ok (\<lambda>a b. Compare_region (region vas a) (region vas b)) (\<lambda>a. region_ok (region vas a)) t"
    "xs @ r # ys = xs' @ r # ys'" "inorder (Root t) = xs' @ ys'"
    using vas_tree.tree_Remove_spec [of "region vas" "Tree vas" "RemoveNode N" a, OF _ TrueI] ok tree found rm
    by (auto simp: region_def [abs_def] tree_inv_def)
  have "xs' = xs" "ys' = ys"
    using lined_distinct [OF lined] t(3) by (auto simp: append_eq_append_conv2 append_eq_Cons_conv Cons_eq_append_conv)
  with t have "tree_inv t (xs @ ys) \<and> Cookie t = c"
    using tree_Remove_fields [OF t(1)] rm tree by (auto simp: tree_inv_def tree_ok_def)
  with t(1) show ?thesis by (intro exI [of _ t]) (simp add: vas_Remove_def)
qed

end
