(* ===== verification/Vas_Splice.thy ===== *)
theory Vas_Splice
  imports Vas_Inv
begin

text \<open>
  The invariant of an address space, what its addresses are used for, and the replacement of some
  neighbouring regions by others that divide the same addresses: all that the cases of \<open>Execute\<close> do.
\<close>

section \<open>The invariant and the use of addresses\<close>

definition vas_inv :: "('c \<Rightarrow> bool) \<Rightarrow> ('c \<Rightarrow> nat set) \<Rightarrow> vaddr \<Rightarrow> vaddr \<Rightarrow> 'c Vas \<Rightarrow> bool" where
  "vas_inv ok used s e vas \<longleftrightarrow> (let ids = inorder (Root (Tree vas)) in
     ids \<noteq> [] \<and> First vas = hd_ptr ids None \<and> regs (Heap vas) None s ids None e \<and> tree_inv (Tree vas) ids
     \<and> ok (Cookie (Tree vas)) \<and> set ids \<subseteq> used (Cookie (Tree vas)))"

text \<open>What a region says about its addresses. The flags and the type of a free region have no meaning, and guards only concern its ends.\<close>

definition tag_of :: "MemoryRegion \<Rightarrow> MemoryContent \<times> u8 \<times> u32" where
  "tag_of reg = (if Content reg = MC_Free then (MC_Free, 0, 0) else (Content reg, Flags reg, Type reg AND NOT GuardFull))"

definition op_tag :: "Operation \<Rightarrow> MemoryContent \<times> u8 \<times> u32" where
  "op_tag op = (case settings op of (flags, content, type) \<Rightarrow>
     if content = MC_Free then (MC_Free, 0, 0) else (content, flags, type AND NOT GuardFull))"

definition view :: "'c Vas \<Rightarrow> vaddr \<Rightarrow> (MemoryContent \<times> u8 \<times> u32) option" where
  "view vas a = map_option (\<lambda>r. tag_of (region vas r)) (FindRegion a vas)"

text \<open>All that is recorded of the region an address belongs to: its range, and its flags, content and type with the guards.\<close>

definition settings_of :: "MemoryRegion \<Rightarrow> u8 \<times> MemoryContent \<times> u32" where
  "settings_of reg = (Flags reg, Content reg, Type reg)"

definition region_at :: "'c Vas \<Rightarrow> vaddr \<Rightarrow> (MemoryRange \<times> u8 \<times> MemoryContent \<times> u32) option" where
  "region_at vas a = map_option (\<lambda>r. (Range (region vas r), settings_of (region vas r))) (FindRegion a vas)"

definition covers :: "(nat \<rightharpoonup> MemoryRegion) \<Rightarrow> nat list \<Rightarrow> vaddr \<Rightarrow> MemoryContent \<times> u8 \<times> u32 \<Rightarrow> bool" where
  "covers h ids a tag \<longleftrightarrow> (\<exists>i \<in> set ids. \<exists>r. h i = Some r \<and> Start (Range r) \<le> a \<and> a < End (Range r) \<and> tag_of r = tag)"

lemma covers_simps [simp]:
  "\<not> covers h [] a tag"
  "covers h (i # ids) a tag \<longleftrightarrow> (\<exists>r. h i = Some r \<and> Start (Range r) \<le> a \<and> a < End (Range r) \<and> tag_of r = tag) \<or> covers h ids a tag"
  "covers h (xs @ ys) a tag \<longleftrightarrow> covers h xs a tag \<or> covers h ys a tag"
  by (auto simp: covers_def)

lemma view_covers:
  assumes "tree_inv (Tree vas) ids" "regs (Heap vas) None s ids None e"
  shows "view vas a = Some tag \<longleftrightarrow> covers (Heap vas) ids a tag"
proof
  note lined = regs_lined [OF assms(2)]
  assume "view vas a = Some tag"
  then obtain r where r: "FindRegion a vas = Some r" "tag = tag_of (region vas r)" by (auto simp: view_def)
  with find_region [OF assms(1) lined, of a] have "r \<in> set ids" "region_Contains (region vas r) a" by simp_all
  with regs_in [OF assms(2) this(1)] r(2) show "covers (Heap vas) ids a tag"
    by (auto simp: covers_def region_def region_Contains_def range_Contains_def intro!: bexI [of _ r])
next
  note lined = regs_lined [OF assms(2)]
  assume "covers (Heap vas) ids a tag"
  then obtain r reg where r: "r \<in> set ids" "Heap vas r = Some reg" "Start (Range reg) \<le> a" "a < End (Range reg)" "tag_of reg = tag"
    by (auto simp: covers_def)
  with find_hit [OF assms(1) lined r(1), of a] show "view vas a = Some tag"
    by (simp add: view_def region_def region_Contains_def range_Contains_def)
qed

section \<open>Replacing neighbouring regions\<close>

text \<open>The links the regions around a replacement need, and nothing else of them, are changed.\<close>

definition outside :: "(nat \<rightharpoonup> MemoryRegion) \<Rightarrow> (nat \<rightharpoonup> MemoryRegion) \<Rightarrow> nat list \<Rightarrow> nat list \<Rightarrow> nat list \<Rightarrow> bool" where
  "outside h h' pre mid post \<longleftrightarrow>
     (\<forall>i \<in> set pre. h' i = (if last_ptr None pre = Some i then map_option (Next_update (\<lambda>_. hd_ptr mid None)) (h i) else h i))
   \<and> (\<forall>i \<in> set post. h' i = (if hd_ptr post None = Some i then map_option (Prev_update (\<lambda>_. last_ptr None mid)) (h i) else h i))"

lemma tag_of_links [simp]: "tag_of (r\<lparr>Next := n\<rparr>) = tag_of r" "tag_of (r\<lparr>Prev := p\<rparr>) = tag_of r"
  by (simp_all add: tag_of_def)

lemma covers_outside:
  assumes "outside h h' pre mid post"
  shows "covers h' pre a tag \<longleftrightarrow> covers h pre a tag" "covers h' post a tag \<longleftrightarrow> covers h post a tag"
proof -
  have "(\<exists>r. h' i = Some r \<and> Start (Range r) \<le> a \<and> a < End (Range r) \<and> tag_of r = tag)
      \<longleftrightarrow> (\<exists>r. h i = Some r \<and> Start (Range r) \<le> a \<and> a < End (Range r) \<and> tag_of r = tag)" if "i \<in> set pre \<union> set post" for i
  proof -
    from assms that obtain n p where "h' i = h i \<or> h' i = map_option (Next_update (\<lambda>_. n)) (h i)
        \<or> h' i = map_option (Prev_update (\<lambda>_. p)) (h i)"
      unfolding outside_def by (metis Un_iff)
    then show ?thesis by (cases "h i") auto
  qed
  then show "covers h' pre a tag \<longleftrightarrow> covers h pre a tag" "covers h' post a tag \<longleftrightarrow> covers h post a tag"
    unfolding covers_def by (meson UnI1, meson UnI2)
qed

lemma covers_bounds: "regs h p s xs n e \<Longrightarrow> covers h xs a tag \<Longrightarrow> s \<le> a \<and> a < e"
  unfolding covers_def using regs_in by fastforce

lemma last_ptr_ne: "xs \<noteq> [] \<Longrightarrow> last_ptr p xs = last_ptr None xs"
  by (simp add: last_ptr_eq)

lemma hd_ptr_ne: "xs \<noteq> [] \<Longrightarrow> hd_ptr xs n = hd_ptr xs None"
  by (cases xs) auto

text \<open>The neighbouring regions \<open>mid\<close> divide the addresses from \<open>a\<close> to \<open>b\<close>.\<close>

definition segment :: "(nat \<rightharpoonup> MemoryRegion) \<Rightarrow> vaddr \<Rightarrow> vaddr \<Rightarrow> nat list \<Rightarrow> nat list \<Rightarrow> nat list \<Rightarrow> vaddr \<Rightarrow> vaddr \<Rightarrow> bool" where
  "segment h s e pre mid post a b \<longleftrightarrow> mid \<noteq> [] \<and> distinct (pre @ mid @ post)
     \<and> regs h None s pre (hd_ptr mid None) a \<and> regs h (last_ptr None pre) a mid (hd_ptr post None) b
     \<and> regs h (last_ptr None mid) b post None e"

lemma segment_regs:
  assumes "regs h None s (pre @ mid @ post) None e" "mid \<noteq> []"
  shows "\<exists>a b. segment h s e pre mid post a b"
  using assms lined_distinct [OF regs_lined [OF assms(1)]]
  by (auto simp: segment_def regs_append last_ptr_ne [of mid "last_ptr None pre"] hd_ptr_ne [of mid "hd_ptr post None"] hd_ptr_append [of mid post])

lemma regs_segment: "segment h s e pre mid post a b \<Longrightarrow> regs h None s (pre @ mid @ post) None e"
  by (auto simp: segment_def regs_append last_ptr_ne [of mid "last_ptr None pre"] hd_ptr_ne [of mid "hd_ptr post None"] hd_ptr_append [of mid post])

lemma segment_splice:
  assumes seg: "segment h s e pre mid post a b" and out: "outside h h' pre mid' post"
    and mid': "mid' \<noteq> []" "distinct mid'" "set mid' \<inter> (set pre \<union> set post) = {}"
    and regs': "regs h' (last_ptr None pre) a mid' (hd_ptr post None) b"
  shows "segment h' s e pre mid' post a b"
proof -
  from seg have old: "regs h None s pre (hd_ptr mid None) a" "regs h (last_ptr None mid) b post None e"
    "distinct pre" "distinct post" by (auto simp: segment_def)
  have "regs h' None s pre (hd_ptr mid' None) a"
  proof (rule regs_set_next [OF old(1,3)])
    show "h' i = h i" if "i \<in> set pre" "Some i \<noteq> last_ptr None pre" for i
      using out that unfolding outside_def by metis
    show "h' i = Some (r\<lparr>Next := hd_ptr mid' None\<rparr>)" if "last_ptr None pre = Some i" "h i = Some r" for i r
      using out that by (auto simp: outside_def last_ptr_eq split: if_splits)
  qed
  moreover have "regs h' (last_ptr None mid') b post None e"
  proof (rule regs_set_prev [OF old(2,4)])
    show "h' i = h i" if "i \<in> set post" "Some i \<noteq> hd_ptr post None" for i
      using out that unfolding outside_def by metis
    show "h' i = Some (r\<lparr>Prev := last_ptr None mid'\<rparr>)" if "hd_ptr post None = Some i" "h i = Some r" for i r
      using out that by (cases post) (auto simp: outside_def)
  qed
  ultimately show ?thesis using mid' regs' seg by (auto simp: segment_def)
qed

lemma splice_covers:
  assumes seg: "segment h s e pre mid post a b" and out: "outside h h' pre mid' post"
    and lohi: "a \<le> lo" "hi \<le> b"
    and paint: "\<And>x tag. covers h' mid' x tag \<longleftrightarrow> (if lo \<le> x \<and> x < hi then tag = new else covers h mid x tag)"
  shows "covers h' (pre @ mid' @ post) x tag \<longleftrightarrow> (if lo \<le> x \<and> x < hi then tag = new else covers h (pre @ mid @ post) x tag)"
proof -
  have "\<not> (lo \<le> x \<and> x < hi)" if "covers h pre x tag \<or> covers h post x tag"
    using that covers_bounds [of h None s pre _ a x tag] covers_bounds [of h _ b post None e x tag] seg lohi
    unfolding segment_def by (meson leD order.strict_trans2 order.trans)
  with covers_outside [OF out] paint [of x tag] show ?thesis by auto
qed

section \<open>Writes to the neighbours\<close>

definition patch :: "nat option \<Rightarrow> (MemoryRegion \<Rightarrow> MemoryRegion) \<Rightarrow> (nat \<rightharpoonup> MemoryRegion) \<Rightarrow> nat \<rightharpoonup> MemoryRegion" where
  "patch ptr f h = (case ptr of None \<Rightarrow> h | Some i \<Rightarrow> h(i := map_option f (h i)))"

lemma patch_other: "ptr \<noteq> Some i \<Longrightarrow> patch ptr f h i = h i"
  by (auto simp: patch_def split: option.split)

lemma patch_at: "patch (Some i) f h i = map_option f (h i)"
  by (simp add: patch_def)

lemma update_Some: "Heap vas n = Some reg \<Longrightarrow> update (Some n) f vas = Some (vas\<lparr>Heap := (Heap vas)(n \<mapsto> f reg)\<rparr>)"
  by (simp add: update_def)

lemma update_patch:
  assumes "\<And>i. ptr = Some i \<Longrightarrow> Heap vas i \<noteq> None"
  shows "(if ptr \<noteq> None then update ptr f vas else Some (g vas)) =
    Some (if ptr = None then g vas else vas\<lparr>Heap := patch ptr f (Heap vas)\<rparr>)"
  using assms by (cases ptr) (auto simp: update_def patch_def)

lemma regs_last_next: "regs h p s xs n e \<Longrightarrow> last_ptr None xs = Some i \<Longrightarrow> \<exists>r. h i = Some r \<and> Next r = n"
proof (induction xs arbitrary: p s)
  case (Cons j xs)
  from Cons.prems(1) obtain r where "h j = Some r" "Next r = hd_ptr xs n" "regs h (Some j) (End (Range r)) xs n e"
    by (rule regs_ConsE)
  with Cons show ?case by (cases xs) (auto simp: last_ptr_eq simp del: regs.simps)
qed simp

lemma regs_hd_prev: "regs h p s xs n e \<Longrightarrow> hd_ptr xs None = Some i \<Longrightarrow> \<exists>r. h i = Some r \<and> Prev r = p"
  by (cases xs) auto

lemma outsideI:
  assumes seg: "segment h s e pre mid post a b"
    and pre: "hd_ptr mid' None = hd_ptr mid None \<and> (\<forall>i \<in> set pre. h' i = h i)
       \<or> (\<forall>i \<in> set pre. h' i = patch (last_ptr None pre) (Next_update (\<lambda>_. hd_ptr mid' None)) h i)"
    and post: "last_ptr None mid' = last_ptr None mid \<and> (\<forall>i \<in> set post. h' i = h i)
       \<or> (\<forall>i \<in> set post. h' i = patch (hd_ptr post None) (Prev_update (\<lambda>_. last_ptr None mid')) h i)"
  shows "outside h h' pre mid' post"
proof -
  from seg have s: "regs h None s pre (hd_ptr mid None) a" "regs h (last_ptr None mid) b post None e" by (auto simp: segment_def)
  have "h' i = (if last_ptr None pre = Some i then map_option (Next_update (\<lambda>_. hd_ptr mid' None)) (h i) else h i)"
    if "i \<in> set pre" for i
    using pre that regs_last_next [OF s(1), of i] by (cases "last_ptr None pre = Some i") (auto simp: patch_at patch_other)
  moreover have "h' i = (if hd_ptr post None = Some i then map_option (Prev_update (\<lambda>_. last_ptr None mid')) (h i) else h i)"
    if "i \<in> set post" for i
    using post that regs_hd_prev [OF s(2), of i] by (cases "hd_ptr post None = Some i") (auto simp: patch_at patch_other)
  ultimately show ?thesis by (simp add: outside_def)
qed

section \<open>The result of a case\<close>

definition repainted :: "('c \<Rightarrow> bool) \<Rightarrow> ('c \<Rightarrow> nat set) \<Rightarrow> vaddr \<Rightarrow> vaddr \<Rightarrow> vaddr \<Rightarrow> vaddr \<Rightarrow> MemoryContent \<times> u8 \<times> u32
    \<Rightarrow> 'c Vas \<Rightarrow> 'c Vas \<Rightarrow> bool" where
  "repainted ok used s e lo hi tag vas vas' \<longleftrightarrow> vas_inv ok used s e vas'
     \<and> (\<forall>x. view vas' x = (if lo \<le> x \<and> x < hi then Some tag else view vas x))"

lemma repaint:
  assumes inv: "vas_inv ok used s e vas" and ids: "inorder (Root (Tree vas)) = pre @ mid @ post"
    and seg: "segment (Heap vas) s e pre mid post a b"
    and tree: "tree_inv (Tree vas') (pre @ mid' @ post)" and First: "First vas' = (if pre = [] then hd_ptr mid' None else First vas)"
    and ck: "ok (Cookie (Tree vas'))" "set (pre @ mid' @ post) \<subseteq> used (Cookie (Tree vas'))"
    and out: "outside (Heap vas) (Heap vas') pre mid' post"
    and mid': "mid' \<noteq> []" "distinct mid'" "set mid' \<inter> (set pre \<union> set post) = {}"
    and regs': "regs (Heap vas') (last_ptr None pre) a mid' (hd_ptr post None) b"
    and lohi: "a \<le> lo" "hi \<le> b"
    and paint: "\<And>x tag. covers (Heap vas') mid' x tag \<longleftrightarrow> (if lo \<le> x \<and> x < hi then tag = new else covers (Heap vas) mid x tag)"
  shows "repainted ok used s e lo hi new vas vas'"
proof -
  have regs: "regs (Heap vas') None s (pre @ mid' @ post) None e"
    by (rule regs_segment [OF segment_splice [OF seg out mid' regs']])
  have in': "inorder (Root (Tree vas')) = pre @ mid' @ post" using tree by (simp add: tree_inv_def)
  have "vas_inv ok used s e vas'"
    unfolding vas_inv_def Let_def in' using tree First ck mid'(1) regs inv
    by (cases pre; cases mid') (auto simp: vas_inv_def ids Let_def)
  moreover have "view vas' x = (if lo \<le> x \<and> x < hi then Some new else view vas x)" for x
  proof -
    from inv have old: "tree_inv (Tree vas) (pre @ mid @ post)" "regs (Heap vas) None s (pre @ mid @ post) None e"
      by (simp_all add: vas_inv_def ids Let_def)
    have "view vas' x = Some t \<longleftrightarrow> (if lo \<le> x \<and> x < hi then Some new else view vas x) = Some t" for t
      unfolding view_covers [OF tree regs] splice_covers [OF seg out lohi paint] using view_covers [OF old] by auto
    then show ?thesis by (metis option.exhaust)
  qed
  ultimately show ?thesis by (simp add: repainted_def)
qed

lemma gapless:
  assumes "tree_inv (Tree vas) ids" "regs (Heap vas) None s ids None e"
  shows "FindRegion x vas = None \<longleftrightarrow> \<not> (s \<le> x \<and> x < e)"
proof -
  have "(\<exists>i \<in> set ids. region_Contains (the (h i)) x) \<longleftrightarrow> s \<le> x \<and> x < e" if "regs h p s ids n e" for h p n
    using that
  proof (induction ids arbitrary: p s)
    case (Cons i ids)
    from Cons.prems obtain r where r: "h i = Some r" "Start (Range r) = s" "s < End (Range r)" "regs h (Some i) (End (Range r)) ids n e"
      by (rule regs_ConsE)
    have "End (Range r) \<le> e" using r(4) by (rule regs_le)
    with r Cons.IH [OF r(4)] show ?case
      by (auto simp: region_Contains_def range_Contains_def not_less intro: order.trans [OF less_imp_le] order.strict_trans2)
  qed auto
  from this [OF assms(2)] find_region [OF assms(1) regs_lined [OF assms(2)], of x] show ?thesis
    by (cases "FindRegion x vas") (auto simp: region_def)
qed

text \<open>
  The addresses from \<open>lo\<close> to \<open>hi\<close> are a region of their own with the given settings, and every region but the node \<open>r\<close> it
  was taken from has the range and the settings it had.
\<close>

definition placed :: "vaddr \<Rightarrow> vaddr \<Rightarrow> u8 \<times> MemoryContent \<times> u32 \<Rightarrow> nat \<Rightarrow> 'c Vas \<Rightarrow> 'c Vas \<Rightarrow> bool" where
  "placed lo hi st r vas vas' \<longleftrightarrow>
     (\<forall>x. lo \<le> x \<and> x < hi \<longrightarrow> region_at vas' x = Some (\<lparr>Start = lo, End = hi\<rparr>, st))
   \<and> (\<forall>x. FindRegion x vas \<noteq> Some r \<longrightarrow> region_at vas' x = region_at vas x)"

lemma region_at_hit:
  assumes "tree_inv (Tree vas) ids" "lined (Heap vas) ids" "i \<in> set ids" "Heap vas i = Some reg" "Start (Range reg) \<le> x" "x < End (Range reg)"
  shows "region_at vas x = Some (Range reg, settings_of reg)"
  using find_hit [OF assms(1-3), of x] assms(4-6) by (simp add: region_at_def region_def region_Contains_def range_Contains_def)

lemma outside_kept:
  assumes "outside h h' pre mid post" "i \<in> set (pre @ post)" "h i = Some reg"
  obtains reg' where "h' i = Some reg'" "Range reg' = Range reg" "settings_of reg' = settings_of reg"
proof -
  from assms(1,2) obtain n p where "h' i = h i \<or> h' i = map_option (Next_update (\<lambda>_. n)) (h i) \<or> h' i = map_option (Prev_update (\<lambda>_. p)) (h i)"
    unfolding outside_def set_append by (metis Un_iff)
  with assms(3) that show thesis by (auto simp: settings_of_def)
qed

lemma place:
  assumes inv: "vas_inv ok used s e vas" "vas_inv ok used s e vas'"
    and ids: "inorder (Root (Tree vas)) = pre @ [r] @ post" "inorder (Root (Tree vas')) = pre @ mid' @ post"
    and out: "outside (Heap vas) (Heap vas') pre mid' post"
    and n: "n \<in> set mid'" "Heap vas' n = Some new" "Range new = \<lparr>Start = lo, End = hi\<rparr>" "settings_of new = st"
  shows "placed lo hi st r vas vas'"
  unfolding placed_def
proof (intro conjI allI impI)
  have t: "tree_inv (Tree vas) (pre @ [r] @ post)" "regs (Heap vas) None s (pre @ [r] @ post) None e"
    and t': "tree_inv (Tree vas') (pre @ mid' @ post)" "regs (Heap vas') None s (pre @ mid' @ post) None e"
    using inv by (simp_all add: vas_inv_def ids Let_def)
  note l = regs_lined [OF t(2)] and l' = regs_lined [OF t'(2)]
  show "region_at vas' x = Some (\<lparr>Start = lo, End = hi\<rparr>, st)" if "lo \<le> x \<and> x < hi" for x
    using region_at_hit [OF t'(1) l' _ n(2), of x] n that by simp
  fix x assume r: "FindRegion x vas \<noteq> Some r"
  show "region_at vas' x = region_at vas x"
  proof (cases "FindRegion x vas")
    case None
    have "\<not> (s \<le> x \<and> x < e)" using None gapless [OF t] by auto
    then have "FindRegion x vas' = None" using gapless [OF t'] by auto
    with None show ?thesis by (simp add: region_at_def)
  next
    case (Some i)
    with find_region [OF t(1) l, of x] r have i: "i \<in> set (pre @ post)" "region_Contains (region vas i) x" by auto
    then obtain reg where reg: "Heap vas i = Some reg" using regs_in [OF t(2), of i] by auto
    from out i(1) reg obtain reg' where reg': "Heap vas' i = Some reg'" "Range reg' = Range reg" "settings_of reg' = settings_of reg"
      by (rule outside_kept)
    have "Start (Range reg) \<le> x" "x < End (Range reg)" using i(2) reg by (simp_all add: region_def region_Contains_def range_Contains_def)
    with region_at_hit [OF t'(1) l' _ reg'(1), of x] region_at_hit [OF t(1) l _ reg, of x] i(1) reg' show ?thesis by auto
  qed
qed

text \<open>The same for the region \<open>r\<close> that is replaced by \<open>mid'\<close>, one of which is the new region.\<close>

lemma repaint_placed:
  assumes "vas_inv ok used s e vas" "inorder (Root (Tree vas)) = pre @ [r] @ post"
    "segment (Heap vas) s e pre [r] post a b"
    and "tree_inv (Tree vas') (pre @ mid' @ post)" "First vas' = (if pre = [] then hd_ptr mid' None else First vas)"
    "ok (Cookie (Tree vas'))" "set (pre @ mid' @ post) \<subseteq> used (Cookie (Tree vas'))"
    "outside (Heap vas) (Heap vas') pre mid' post"
    "mid' \<noteq> []" "distinct mid'" "set mid' \<inter> (set pre \<union> set post) = {}"
    "regs (Heap vas') (last_ptr None pre) a mid' (hd_ptr post None) b" "a \<le> lo" "hi \<le> b"
    "\<And>x tag. covers (Heap vas') mid' x tag \<longleftrightarrow> (if lo \<le> x \<and> x < hi then tag = new_tag else covers (Heap vas) [r] x tag)"
    and "n \<in> set mid'" "\<exists>new. Heap vas' n = Some new \<and> Range new = \<lparr>Start = lo, End = hi\<rparr> \<and> settings_of new = st"
  shows "repainted ok used s e lo hi new_tag vas vas' \<and> placed lo hi st r vas vas'"
proof -
  have rep: "repainted ok used s e lo hi new_tag vas vas'" by (rule repaint [OF assms(1-15)])
  moreover obtain new where new: "Heap vas' n = Some new" "Range new = \<lparr>Start = lo, End = hi\<rparr>" "settings_of new = st" using assms(17) by blast
  have "vas_inv ok used s e vas'" using rep by (simp add: repainted_def)
  moreover have "inorder (Root (Tree vas')) = pre @ mid' @ post" using assms(4) by (simp add: tree_inv_def)
  ultimately show ?thesis using place [OF assms(1) _ assms(2) _ assms(8,16) new] by blast
qed

section \<open>Nodes taken and given back\<close>

context node_source
begin

definition inserted :: "'c Vas \<Rightarrow> nat list \<Rightarrow> nat list \<Rightarrow> MemoryRegion \<Rightarrow> HandleResult \<Rightarrow> nat option \<Rightarrow> 'c Vas \<Rightarrow> bool" where
  "inserted vas xs ys reg res ptr vas' \<longleftrightarrow> res = fst (AllocateNode N (Cookie (Tree vas)))
     \<and> (res = Okay \<longrightarrow> (\<exists>n t. n \<notin> used (Cookie (Tree vas)) \<and> ptr = Some n \<and> vas' = vas\<lparr>Tree := t, Heap := (Heap vas)(n \<mapsto> reg)\<rparr>
          \<and> tree_inv t (xs @ n # ys) \<and> ok (Cookie t) \<and> used (Cookie t) = insert n (used (Cookie (Tree vas)))))"

lemma inserted_OkayE:
  assumes "inserted vas xs ys reg Okay ptr vas'" "set (xs @ ys) \<subseteq> used (Cookie (Tree vas))"
  obtains n t where "n \<notin> set (xs @ ys)" "ptr = Some n" "vas' = vas\<lparr>Tree := t, Heap := (Heap vas)(n \<mapsto> reg)\<rparr>"
    "tree_inv t (xs @ n # ys)" "ok (Cookie t)" "set (xs @ n # ys) \<subseteq> used (Cookie t)"
proof -
  from assms(1) obtain n t where n: "n \<notin> used (Cookie (Tree vas))" "ptr = Some n" "vas' = vas\<lparr>Tree := t, Heap := (Heap vas)(n \<mapsto> reg)\<rparr>"
    "tree_inv t (xs @ n # ys)" "ok (Cookie t)" "used (Cookie t) = insert n (used (Cookie (Tree vas)))"
    unfolding inserted_def by blast
  moreover have "n \<notin> set (xs @ ys)" "set (xs @ n # ys) \<subseteq> used (Cookie t)" using assms(2) n by auto
  ultimately show thesis using that by blast
qed

lemma insert_outcome:
  assumes tree: "tree_inv (Tree vas) (xs @ ys)" and lined: "lined (Heap vas) (xs @ ys)" and reg: "region_ok reg"
    and before: "\<And>x. x \<in> set xs \<Longrightarrow> End (Range (region vas x)) \<le> Start (Range reg)"
    and after: "\<And>y. y \<in> set ys \<Longrightarrow> End (Range reg) \<le> Start (Range (region vas y))"
    and c: "ok (Cookie (Tree vas))" "set (xs @ ys) \<subseteq> used (Cookie (Tree vas))"
  shows "\<exists>res ptr vas'. vas_Insert N reg vas = Some (res, ptr, vas') \<and> inserted vas xs ys reg res ptr vas'"
proof -
  obtain res c' where al: "AllocateNode N (Cookie (Tree vas)) = (res, c')" by fastforce
  show ?thesis
  proof (cases "res = Okay")
    case True
    with alloc_okay [OF c(1), of c'] al have new: "ok c'" "NodeAddress N (Cookie (Tree vas)) \<notin> used (Cookie (Tree vas))"
      "used c' = insert (NodeAddress N (Cookie (Tree vas))) (used (Cookie (Tree vas)))" by auto
    with insert_region [OF tree lined reg before after, of N c', OF _ _ _ refl] al True c(2) show ?thesis
      unfolding inserted_def by fastforce
  next
    case False
    have "Compare_region (region vas q) reg \<noteq> 0" if "q \<in> set (xs @ ys)" for q
    proof -
      have "region_ok (region vas q)" using lined_tree(2) [OF lined] that by (simp add: region_def)
      with before [of q] after [of q] that reg show ?thesis
        by (auto simp: Compare_region_def Compare_range_def region_ok_def)
    qed
    with tree al False have "Insert (\<lambda>a _. Compare_region (region vas a) reg) (AllocateNode N) (NodeAddress N (Cookie (Tree vas)))
        (Root (Tree vas)) (Cookie (Tree vas)) = Some (res, Root (Tree vas), c')"
      by (intro Insert_no_memory) (auto simp: tree_inv_def)
    with al False show ?thesis by (simp add: vas_Insert_def tree_Insert_def Let_def inserted_def)
  qed
qed

lemma remove_outcome:
  assumes tree: "tree_inv (Tree vas) (xs @ r # ys)" and lined: "lined (Heap vas) (xs @ r # ys)"
    and reg: "Heap vas r = Some reg" "Start (Range reg) \<le> a" "a < End (Range reg)"
    and c: "ok (Cookie (Tree vas))" "set (xs @ r # ys) \<subseteq> used (Cookie (Tree vas))"
  shows "\<exists>t. vas_Remove N a vas = Some (Okay, vas\<lparr>Tree := t, Heap := (Heap vas)(r := None)\<rparr>)
     \<and> tree_inv t (xs @ ys) \<and> ok (Cookie t) \<and> set (xs @ ys) \<subseteq> used (Cookie t)"
proof -
  from c obtain c' where c': "RemoveNode N r (Cookie (Tree vas)) = (Okay, c')" "ok c'" "used c' = used (Cookie (Tree vas)) - {r}"
    using remove_okay [of "Cookie (Tree vas)" r] by auto
  have "region_Contains (region vas r) a" using reg by (simp add: region_def region_Contains_def range_Contains_def)
  from remove_region [OF tree lined this c'(1)] c' c(2) lined_distinct [OF lined] show ?thesis by fastforce
qed

end

end
