(* ===== verification/Vas_Cases.thy ===== *)
theory Vas_Cases
  imports Vas_Splice
begin

text \<open>
  The cases of \<open>Execute\<close>: each keeps the invariant of the address space and changes what exactly the
  addresses it covers are used for, whatever the source of nodes is.
\<close>

section \<open>Shared facts\<close>

lemma hd_ptr_in: "hd_ptr xs None = Some i \<Longrightarrow> i \<in> set xs"
  by (cases xs) auto

lemma last_ptr_in: "last_ptr None xs = Some i \<Longrightarrow> i \<in> set xs"
  by (auto simp: last_ptr_eq split: if_splits)

lemma ptr_out: "i \<notin> set xs \<Longrightarrow> last_ptr None xs \<noteq> Some i" "i \<notin> set xs \<Longrightarrow> hd_ptr xs None \<noteq> Some i"
  using hd_ptr_in last_ptr_in by blast+

lemma patch_cong: "h i = h' i \<Longrightarrow> patch ptr f h i = patch ptr f h' i"
  by (simp add: patch_def split: option.split)

lemma vas_inv_parts:
  assumes "vas_inv ok used s e vas" "inorder (Root (Tree vas)) = pre @ mid @ post" "mid \<noteq> []"
  shows "\<exists>a b. segment (Heap vas) s e pre mid post a b" "tree_inv (Tree vas) (pre @ mid @ post)" "lined (Heap vas) (pre @ mid @ post)"
    "ok (Cookie (Tree vas))" "set (pre @ mid @ post) \<subseteq> used (Cookie (Tree vas))" "pre = [] \<Longrightarrow> First vas = hd_ptr mid None"
proof -
  from assms have regs: "regs (Heap vas) None s (pre @ mid @ post) None e" by (simp add: vas_inv_def Let_def)
  show "\<exists>a b. segment (Heap vas) s e pre mid post a b" by (rule segment_regs [OF regs assms(3)])
  show "lined (Heap vas) (pre @ mid @ post)" by (rule regs_lined [OF regs])
  show "tree_inv (Tree vas) (pre @ mid @ post)" "ok (Cookie (Tree vas))" "set (pre @ mid @ post) \<subseteq> used (Cookie (Tree vas))"
    "pre = [] \<Longrightarrow> First vas = hd_ptr mid None"
    using assms by (auto simp: vas_inv_def Let_def hd_ptr_append hd_ptr_ne [of mid "hd_ptr post None"])
qed

lemma segment_neighbours:
  assumes "segment h s e pre mid post a b"
  shows "last_ptr None pre = Some i \<Longrightarrow> \<exists>q. h i = Some q" "hd_ptr post None = Some i \<Longrightarrow> \<exists>q. h i = Some q"
    "\<forall>i \<in> set pre. i \<notin> set post \<and> i \<notin> set mid" "\<forall>i \<in> set post. i \<notin> set pre \<and> i \<notin> set mid"
    "i \<in> set pre \<Longrightarrow> End (Range (the (h i))) \<le> a" "i \<in> set post \<Longrightarrow> b \<le> Start (Range (the (h i)))"
proof -
  from assms have s: "regs h None s pre (hd_ptr mid None) a" "regs h (last_ptr None mid) b post None e"
    and d: "distinct (pre @ mid @ post)" by (auto simp: segment_def)
  show "\<exists>q. h i = Some q" if "last_ptr None pre = Some i" using regs_last_next [OF s(1) that] by blast
  show "\<exists>q. h i = Some q" if "hd_ptr post None = Some i" using regs_hd_prev [OF s(2) that] by blast
  show "\<forall>i \<in> set pre. i \<notin> set post \<and> i \<notin> set mid" "\<forall>i \<in> set post. i \<notin> set pre \<and> i \<notin> set mid" using d by auto
  show "End (Range (the (h i))) \<le> a" if "i \<in> set pre" using regs_in [OF s(1) that] by auto
  show "b \<le> Start (Range (the (h i)))" if "i \<in> set post" using regs_in [OF s(2) that] by auto
qed

lemma lined_shrink:
  assumes "lined h ids" "h r = Some reg" "Start (Range reg) \<le> Start (Range reg')" "Start (Range reg') < End (Range reg')"
    "End (Range reg') \<le> End (Range reg)"
  shows "lined (h(r \<mapsto> reg')) ids"
proof -
  have "sorted_wrt (\<lambda>a b. End (Range (the (h a))) \<le> Start (Range (the (h b)))) ids"
    and ok: "\<forall>i \<in> set ids. \<exists>q. h i = Some q \<and> region_ok q" using assms(1) by (simp_all add: lined_def)
  then have "sorted_wrt (\<lambda>a b. End (Range (the ((h(r \<mapsto> reg')) a))) \<le> Start (Range (the ((h(r \<mapsto> reg')) b)))) ids"
    by (elim sorted_wrt_mono_rel [rotated]) (use assms(2-5) in \<open>auto intro: order.trans\<close>)
  with ok assms(4) show ?thesis by (auto simp: lined_def region_ok_def)
qed

lemma lined_removed:
  assumes "lined h (xs @ t # ys)" "t \<notin> set (xs @ ys)"
  shows "lined (h(t := None)) (xs @ ys)"
proof -
  have "sorted_wrt (\<lambda>a b. End (Range (the (h a))) \<le> Start (Range (the (h b)))) (xs @ ys)"
    using assms(1) by (auto simp: lined_def sorted_wrt_append)
  then have "sorted_wrt (\<lambda>a b. End (Range (the ((h(t := None)) a))) \<le> Start (Range (the ((h(t := None)) b)))) (xs @ ys)"
    by (elim sorted_wrt_mono_rel [rotated]) (use assms(2) in auto)
  with assms show ?thesis by (auto simp: lined_def)
qed

lemma lined_insert:
  assumes "lined h (xs @ ys)" "region_ok reg" "n \<notin> set (xs @ ys)"
    "\<And>x. x \<in> set xs \<Longrightarrow> End (Range (the (h x))) \<le> Start (Range reg)" "\<And>y. y \<in> set ys \<Longrightarrow> End (Range reg) \<le> Start (Range (the (h y)))"
  shows "lined (h(n \<mapsto> reg)) (xs @ n # ys)"
proof -
  have "sorted_wrt (\<lambda>a b. End (Range (the ((h(n \<mapsto> reg)) a))) \<le> Start (Range (the ((h(n \<mapsto> reg)) b)))) (xs @ ys)"
    using assms(1,3) unfolding lined_def by (auto elim!: sorted_wrt_mono_rel [rotated])
  with assms show ?thesis by (auto simp: lined_def sorted_wrt_append)
qed

lemma region_fields [simp]:
  "Start (Range (set_End x reg)) = Start (Range reg)" "End (Range (set_End x reg)) = x"
  "Start (Range (set_Start x reg)) = x" "End (Range (set_Start x reg)) = End (Range reg)"
  "Next (set_End x reg) = Next reg" "Prev (set_End x reg) = Prev reg"
  "Next (set_Start x reg) = Next reg" "Prev (set_Start x reg) = Prev reg"
  "Type (set_End x reg) = Type reg" "Type (set_Start x reg) = Type reg"
  "Content (set_End x reg) = Content reg" "Content (set_Start x reg) = Content reg"
  "Flags (set_End x reg) = Flags reg" "Flags (set_Start x reg) = Flags reg"
  "tag_of (set_End x reg) = tag_of reg" "tag_of (set_Start x reg) = tag_of reg"
  by (simp_all add: set_End_def set_Start_def tag_of_def)

lemma Repurpose_fields [simp]:
  "Range (Repurpose op reg) = Range reg" "Next (Repurpose op reg) = Next reg" "Prev (Repurpose op reg) = Prev reg"
  "tag_of (Repurpose op reg) = op_tag (Operation op)"
  by (auto simp: Repurpose_def tag_of_def op_tag_def split: prod.split)

lemma tag_of_guards [simp]:
  "tag_of (Type_update (\<lambda>t. t AND NOT GuardLow) reg) = tag_of reg"
  "tag_of (Type_update (\<lambda>t. t AND NOT GuardHigh) reg) = tag_of reg"
  by (simp_all add: tag_of_def and.assoc GuardLow_def GuardHigh_def GuardFull_def)

lemma new_region_fields [simp]:
  "Range (new_region lo hi fl co ty p n) = \<lparr>Start = lo, End = hi\<rparr>"
  "Next (new_region lo hi fl co ty p n) = n" "Prev (new_region lo hi fl co ty p n) = p"
  by (simp_all add: new_region_def)

lemma settings_of_simps [simp]:
  "settings_of (Repurpose op reg) = settings (Operation op)" "settings_of (new_region lo hi fl co ty p n) = (fl, co, ty)"
  "settings_of (reg\<lparr>Next := p\<rparr>) = settings_of reg" "settings_of (reg\<lparr>Prev := p\<rparr>) = settings_of reg"
  by (auto simp: settings_of_def Repurpose_def new_region_def split: prod.split)

lemma new_region_tag: "settings op = (fl, co, ty) \<Longrightarrow> tag_of (new_region lo hi fl co ty p n) = op_tag op"
  by (simp add: new_region_def tag_of_def op_tag_def)

text \<open>The type of the end of a region that is split: what the low and the high guard of it are does not matter to its addresses.\<close>

lemma end_type: "((t AND NOT GuardHigh) AND NOT GuardLow OR t AND GuardHigh) AND NOT GuardFull = t AND NOT GuardFull"
  by (simp add: GuardLow_def GuardHigh_def GuardFull_def bit.conj_disj_distrib2 and.assoc)

lemma repurpose_ok:
  assumes inv: "vas_inv ok used s e vas" and ids: "inorder (Root (Tree vas)) = pre @ [r] @ post" and reg: "Heap vas r = Some reg"
  shows "\<exists>vas'. update (Some r) (Repurpose op) vas = Some vas'
     \<and> repainted ok used s e (Start (Range reg)) (End (Range reg)) (op_tag (Operation op)) vas vas'
     \<and> placed (Start (Range reg)) (End (Range reg)) (settings (Operation op)) r vas vas'"
proof -
  note parts = vas_inv_parts [OF inv ids, simplified]
  from parts(1) obtain a b where seg: "segment (Heap vas) s e pre [r] post a b" by blast
  from seg have d: "r \<notin> set pre" "r \<notin> set post" by (auto simp: segment_def)
  let ?vas = "vas\<lparr>Heap := (Heap vas)(r \<mapsto> Repurpose op reg)\<rparr>"
  have "repainted ok used s e (Start (Range reg)) (End (Range reg)) (op_tag (Operation op)) vas ?vas
     \<and> placed (Start (Range reg)) (End (Range reg)) (settings (Operation op)) r vas ?vas"
  proof (rule repaint_placed [OF inv ids seg, where mid' = "[r]" and n = r])
    show "outside (Heap vas) (Heap ?vas) pre [r] post" using d by (intro outsideI [OF seg]) auto
  qed (use parts seg reg d in \<open>auto simp: segment_def\<close>)
  with update_Some [of vas r reg] reg show ?thesis by auto
qed

text \<open>The links \<open>inside\<close> sets once both nodes are there.\<close>

definition inside_links :: "nat \<Rightarrow> nat option \<Rightarrow> HandleResult \<Rightarrow> nat option \<Rightarrow> 'c Vas \<Rightarrow> (HandleResult \<times> 'c Vas) option" where
  "inside_links r newMidReg res newEndReg vas =
     (if res \<noteq> Okay then Some (res, vas)
      else do {
        vas \<leftarrow> update newMidReg (Next_update (\<lambda>_. newEndReg)) vas;
        vas \<leftarrow> update newMidReg (Prev_update (\<lambda>_. Some r)) vas;
        vas \<leftarrow> update (Some r) (Next_update (\<lambda>_. newMidReg)) vas;
        fin \<leftarrow> deref vas newEndReg;
        vas \<leftarrow> (if Next fin \<noteq> None then update (Next fin) (Prev_update (\<lambda>_. newEndReg)) vas else Some vas);
        Some (Okay, vas) })"

section \<open>The whole region\<close>

context node_source
begin

lemma whole_right_ok:
  assumes inv: "vas_inv ok used s e vas" and ids: "inorder (Root (Tree vas)) = pre @ [r, t] @ post"
    and reg: "Heap vas r = Some reg" "Heap vas t = Some treg" and at: "Start (Range reg) \<le> vaddr" "vaddr < End (Range reg)"
  shows "\<exists>vas'. whole_right N vaddr reg vas = Some (Okay, vas')
     \<and> repainted ok used s e (Start (Range reg)) (End (Range reg)) (tag_of treg) vas vas'"
proof -
  note parts = vas_inv_parts [OF inv ids, simplified]
  from parts(1) obtain a b where seg: "segment (Heap vas) s e pre [r, t] post a b" by blast
  then have d: "r \<notin> set pre" "r \<notin> set post" "t \<notin> set pre" "t \<notin> set post" "r \<noteq> t" "\<forall>i \<in> set pre. i \<notin> set post" "\<forall>i \<in> set post. i \<notin> set pre"
    and links: "Prev reg = last_ptr None pre" "Next reg = Some t" "Start (Range reg) = a" "End (Range reg) = Start (Range treg)"
      "Next treg = hd_ptr post None" "End (Range treg) = b" "a < Start (Range treg)" "Start (Range treg) < b"
    using reg by (auto simp: segment_def)
  have pre_in: "\<exists>q. Heap vas i = Some q" if "i \<in> set pre" for i
    using seg that regs_in [of "Heap vas" None s pre _ a i] by (auto simp: segment_def)
  obtain tr where rm: "vas_Remove N vaddr vas = Some (Okay, vas\<lparr>Tree := tr, Heap := (Heap vas)(r := None)\<rparr>)"
    "tree_inv tr (pre @ [t] @ post)" "ok (Cookie tr)" "set (pre @ [t] @ post) \<subseteq> used (Cookie tr)"
    using remove_outcome [of vas pre r "t # post" reg vaddr] parts reg at by auto
  define h where "h = (Heap vas)(r := None, t \<mapsto> (set_Start a treg)\<lparr>Prev := last_ptr None pre\<rparr>)"
  define vas' where "vas' = vas\<lparr>Tree := tr, First := (if pre = [] then Some t else First vas),
     Heap := patch (last_ptr None pre) (Next_update (\<lambda>_. Some t)) h\<rparr>"
  have "whole_right N vaddr reg vas = Some (Okay, vas')"
  proof (cases "last_ptr None pre")
    case None
    with rm(1) links reg d show ?thesis by (auto simp: whole_right_def update_def vas'_def h_def patch_def last_ptr_eq split: if_splits)
  next
    case (Some i)
    note i = last_ptr_in [OF Some]
    obtain q where "Heap vas i = Some q" using pre_in [OF i] by blast
    moreover have "i \<noteq> r" "i \<noteq> t" "pre \<noteq> []" using i d by auto
    ultimately show ?thesis using Some rm(1) links reg d by (simp add: whole_right_def update_def vas'_def h_def patch_def)
  qed
  moreover have "repainted ok used s e (Start (Range reg)) (End (Range reg)) (tag_of treg) vas vas'"
  proof (rule repaint [OF inv ids seg, where mid' = "[t]"])
    show "outside (Heap vas) (Heap vas') pre [t] post"
    proof (rule outsideI [OF seg disjI2 disjI1])
      show "\<forall>i \<in> set pre. Heap vas' i = patch (last_ptr None pre) (Next_update (\<lambda>_. hd_ptr [t] None)) (Heap vas) i"
        using d by (auto simp: vas'_def h_def intro!: patch_cong)
      show "last_ptr None [t] = last_ptr None [r, t] \<and> (\<forall>i \<in> set post. Heap vas' i = Heap vas i)"
        using d by (auto simp: vas'_def h_def patch_other ptr_out)
    qed
  qed (use parts rm links d reg in \<open>auto simp: vas'_def h_def patch_other ptr_out\<close>)
  ultimately show ?thesis by blast
qed

lemma whole_left_ok:
  assumes inv: "vas_inv ok used s e vas" and ids: "inorder (Root (Tree vas)) = pre @ [q, r] @ post"
    and reg: "Heap vas q = Some qreg" "Heap vas r = Some reg" and at: "Start (Range reg) \<le> vaddr" "vaddr < End (Range reg)"
  shows "\<exists>vas'. whole_left N vaddr False reg vas = Some (Okay, vas')
     \<and> repainted ok used s e (Start (Range reg)) (End (Range reg)) (tag_of qreg) vas vas'"
proof -
  note parts = vas_inv_parts [OF inv ids, simplified]
  from parts(1) obtain a b where seg: "segment (Heap vas) s e pre [q, r] post a b" by blast
  note near = segment_neighbours [OF seg]
  from seg have d: "r \<notin> set pre" "r \<notin> set post" "q \<notin> set pre" "q \<notin> set post" "q \<noteq> r"
    and links: "Prev qreg = last_ptr None pre" "Start (Range qreg) = a" "End (Range qreg) = Start (Range reg)" "Prev reg = Some q"
      "Next reg = hd_ptr post None" "End (Range reg) = b" "a < Start (Range reg)" "Start (Range reg) < b"
    using reg by (auto simp: segment_def)
  obtain tr where rm: "vas_Remove N vaddr vas = Some (Okay, vas\<lparr>Tree := tr, Heap := (Heap vas)(r := None)\<rparr>)"
    "tree_inv tr (pre @ [q] @ post)" "ok (Cookie tr)" "set (pre @ [q] @ post) \<subseteq> used (Cookie tr)"
    using remove_outcome [of vas "pre @ [q]" r post reg vaddr] parts reg at by auto
  define h where "h = (Heap vas)(r := None, q \<mapsto> (set_End b qreg)\<lparr>Next := hd_ptr post None\<rparr>)"
  define vas' where "vas' = vas\<lparr>Tree := tr, Heap := patch (hd_ptr post None) (Prev_update (\<lambda>_. Some q)) h\<rparr>"
  have "whole_left N vaddr False reg vas = Some (Okay, vas')"
  proof (cases "hd_ptr post None")
    case (Some i)
    with near(2) d ptr_out(2) [of _ post] obtain z where "Heap vas i = Some z" "i \<noteq> r" "i \<noteq> q" by blast
    with Some rm(1) links reg d show ?thesis by (simp add: whole_left_def update_def vas'_def h_def patch_def)
  qed (use rm(1) links reg d in \<open>simp add: whole_left_def update_def vas'_def h_def patch_def\<close>)
  moreover have "repainted ok used s e (Start (Range reg)) (End (Range reg)) (tag_of qreg) vas vas'"
  proof (rule repaint [OF inv ids seg, where mid' = "[q]"])
    show "outside (Heap vas) (Heap vas') pre [q] post"
    proof (rule outsideI [OF seg disjI1 disjI2])
      show "\<forall>i \<in> set post. Heap vas' i = patch (hd_ptr post None) (Prev_update (\<lambda>_. last_ptr None [q])) (Heap vas) i"
        using d by (auto simp: vas'_def h_def intro!: patch_cong)
      show "hd_ptr [q] None = hd_ptr [q, r] None \<and> (\<forall>i \<in> set pre. Heap vas' i = Heap vas i)"
        using d near(3) by (auto simp: vas'_def h_def patch_other ptr_out)
    qed
  qed (use parts rm links d reg in \<open>auto simp: vas'_def h_def patch_other ptr_out\<close>)
  ultimately show ?thesis by blast
qed

lemma whole_both_ok:
  assumes inv: "vas_inv ok used s e vas" and ids: "inorder (Root (Tree vas)) = pre @ [q, r, t] @ post"
    and reg: "Heap vas q = Some qreg" "Heap vas r = Some reg" "Heap vas t = Some treg" "tag_of treg = tag_of qreg"
    and at: "Start (Range reg) \<le> vaddr" "vaddr < End (Range reg)"
  shows "\<exists>vas'. whole_left N vaddr True reg vas = Some (Okay, vas')
     \<and> repainted ok used s e (Start (Range reg)) (End (Range reg)) (tag_of qreg) vas vas'"
proof -
  note parts = vas_inv_parts [OF inv ids, simplified]
  from parts(1) obtain a b where seg: "segment (Heap vas) s e pre [q, r, t] post a b" by blast
  note near = segment_neighbours [OF seg]
  from seg have d: "r \<notin> set pre" "r \<notin> set post" "q \<notin> set pre" "q \<notin> set post" "q \<noteq> r" "t \<notin> set pre" "t \<notin> set post" "r \<noteq> t" "q \<noteq> t"
    and links: "Prev qreg = last_ptr None pre" "Start (Range qreg) = a" "End (Range qreg) = Start (Range reg)" "Prev reg = Some q"
      "Next reg = Some t" "End (Range reg) = Start (Range treg)" "a < Start (Range reg)" "Start (Range reg) < End (Range reg)"
      "Next treg = hd_ptr post None" "End (Range treg) = b" "Start (Range treg) < b"
    using reg by (auto simp: segment_def)
  have last_at: "Start (Range treg) \<le> b - 1" "b - 1 < b"
    using links(11) by (simp_all add: word_le_sub1 unat_arith_simps)
  obtain t1 where rm1: "vas_Remove N (b - 1) vas = Some (Okay, vas\<lparr>Tree := t1, Heap := (Heap vas)(t := None)\<rparr>)"
    "tree_inv t1 (pre @ [q, r] @ post)" "ok (Cookie t1)" "set (pre @ [q, r] @ post) \<subseteq> used (Cookie t1)"
    using remove_outcome [of vas "pre @ [q, r]" t post treg "b - 1"] parts reg last_at links by auto
  have "lined ((Heap vas)(t := None)) (pre @ [q, r] @ post)"
    using lined_removed [of "Heap vas" "pre @ [q, r]" t post] parts(3) d by simp
  then obtain tr where rm: "vas_Remove N vaddr (vas\<lparr>Tree := t1, Heap := (Heap vas)(t := None)\<rparr>)
      = Some (Okay, vas\<lparr>Tree := tr, Heap := (Heap vas)(t := None, r := None)\<rparr>)"
    "tree_inv tr (pre @ [q] @ post)" "ok (Cookie tr)" "set (pre @ [q] @ post) \<subseteq> used (Cookie tr)"
    using remove_outcome [of "vas\<lparr>Tree := t1, Heap := (Heap vas)(t := None)\<rparr>" "pre @ [q]" r post reg vaddr] rm1 reg at d by auto
  define h where "h = (Heap vas)(t := None, r := None, q \<mapsto> (set_End b qreg)\<lparr>Next := hd_ptr post None\<rparr>)"
  define vas' where "vas' = vas\<lparr>Tree := tr, Heap := patch (hd_ptr post None) (Prev_update (\<lambda>_. Some q)) h\<rparr>"
  have "whole_left N vaddr True reg vas = Some (Okay, vas')"
  proof (cases "hd_ptr post None")
    case (Some i)
    with near(2) d ptr_out(2) [of _ post] obtain z where "Heap vas i = Some z" "i \<noteq> r" "i \<noteq> q" "i \<noteq> t" by blast
    with Some rm(1) rm1(1) links reg d show ?thesis by (simp add: whole_left_def update_def vas'_def h_def patch_def deref_def)
  qed (use rm(1) rm1(1) links reg d in \<open>simp add: whole_left_def update_def vas'_def h_def patch_def deref_def\<close>)
  moreover have "repainted ok used s e (Start (Range reg)) (End (Range reg)) (tag_of qreg) vas vas'"
  proof (rule repaint [OF inv ids seg, where mid' = "[q]"])
    show "outside (Heap vas) (Heap vas') pre [q] post"
    proof (rule outsideI [OF seg disjI1 disjI2])
      show "\<forall>i \<in> set post. Heap vas' i = patch (hd_ptr post None) (Prev_update (\<lambda>_. last_ptr None [q])) (Heap vas) i"
        using d by (auto simp: vas'_def h_def intro!: patch_cong)
      show "hd_ptr [q] None = hd_ptr [q, r, t] None \<and> (\<forall>i \<in> set pre. Heap vas' i = Heap vas i)"
        using d near(3) by (auto simp: vas'_def h_def patch_other ptr_out)
    qed
  qed (use parts rm links d reg in \<open>auto simp: vas'_def h_def patch_other ptr_out\<close>)
  ultimately show ?thesis by blast
qed

section \<open>Part of the region\<close>

lemma at_start_merge_ok:
  assumes inv: "vas_inv ok used s e vas" and ids: "inorder (Root (Tree vas)) = pre @ [q, r] @ post"
    and reg: "Heap vas q = Some qreg" "Heap vas r = Some reg" and at: "Start (Range reg) < endAddr" "endAddr < End (Range reg)"
  shows "\<exists>vas'. at_start N op endAddr True r reg vas = Some (Okay, vas')
     \<and> repainted ok used s e (Start (Range reg)) endAddr (tag_of qreg) vas vas'"
proof -
  note parts = vas_inv_parts [OF inv ids, simplified]
  from parts(1) obtain a b where seg: "segment (Heap vas) s e pre [q, r] post a b" by blast
  from seg have d: "r \<notin> set pre" "r \<notin> set post" "q \<notin> set pre" "q \<notin> set post" "q \<noteq> r"
    and links: "Prev qreg = last_ptr None pre" "Start (Range qreg) = a" "End (Range qreg) = Start (Range reg)" "Prev reg = Some q"
      "Next reg = hd_ptr post None" "End (Range reg) = b" "a < Start (Range reg)" "Start (Range reg) < b" "Next qreg = Some r"
    using reg by (auto simp: segment_def)
  let ?reg = "Type_update (\<lambda>t. t AND NOT GuardLow) (set_Start endAddr reg)"
  define vas' where "vas' = vas\<lparr>Heap := (Heap vas)(r \<mapsto> ?reg, q \<mapsto> set_End endAddr qreg)\<rparr>"
  have "at_start N op endAddr True r reg vas = Some (Okay, vas')"
    using links reg d by (simp add: at_start_def update_def vas'_def)
  moreover have "repainted ok used s e (Start (Range reg)) endAddr (tag_of qreg) vas vas'"
  proof (rule repaint [OF inv ids seg, where mid' = "[q, r]"])
    show "outside (Heap vas) (Heap vas') pre [q, r] post"
      using d by (intro outsideI [OF seg disjI1 disjI1]) (auto simp: vas'_def)
  qed (use parts links d reg at in \<open>auto simp: vas'_def\<close>)
  ultimately show ?thesis by blast
qed

lemma at_end_merge_ok:
  assumes inv: "vas_inv ok used s e vas" and ids: "inorder (Root (Tree vas)) = pre @ [r, t] @ post"
    and reg: "Heap vas r = Some reg" "Heap vas t = Some treg" and at: "Start (Range reg) < vaddr" "vaddr < End (Range reg)"
  shows "\<exists>vas'. at_end N op vaddr True r reg vas = Some (Okay, vas')
     \<and> repainted ok used s e vaddr (End (Range reg)) (tag_of treg) vas vas'"
proof -
  note parts = vas_inv_parts [OF inv ids, simplified]
  from parts(1) obtain a b where seg: "segment (Heap vas) s e pre [r, t] post a b" by blast
  from seg have d: "r \<notin> set pre" "r \<notin> set post" "t \<notin> set pre" "t \<notin> set post" "t \<noteq> r"
    and links: "Prev reg = last_ptr None pre" "Start (Range reg) = a" "End (Range reg) = Start (Range treg)" "Next reg = Some t"
      "Next treg = hd_ptr post None" "End (Range treg) = b" "a < Start (Range treg)" "Start (Range treg) < b" "Prev treg = Some r"
    using reg by (auto simp: segment_def)
  let ?reg = "Type_update (\<lambda>t. t AND NOT GuardHigh) (set_End vaddr reg)"
  define vas' where "vas' = vas\<lparr>Heap := (Heap vas)(r \<mapsto> ?reg, t \<mapsto> set_Start vaddr treg)\<rparr>"
  have "at_end N op vaddr True r reg vas = Some (Okay, vas')"
    using links reg d by (simp add: at_end_def update_def vas'_def)
  moreover have "repainted ok used s e vaddr (End (Range reg)) (tag_of treg) vas vas'"
  proof (rule repaint [OF inv ids seg, where mid' = "[r, t]"])
    show "outside (Heap vas) (Heap vas') pre [r, t] post"
      using d by (intro outsideI [OF seg disjI1 disjI1]) (auto simp: vas'_def)
  qed (use parts links d reg at in \<open>auto simp: vas'_def\<close>)
  ultimately show ?thesis by blast
qed

text \<open>The result of a case that may need nodes: the addresses are used anew, or the source of nodes failed.\<close>

definition settled :: "vaddr \<Rightarrow> vaddr \<Rightarrow> vaddr \<Rightarrow> vaddr \<Rightarrow> MemoryContent \<times> u8 \<times> u32 \<Rightarrow> 'c Vas \<Rightarrow> HandleResult \<Rightarrow> 'c Vas \<Rightarrow> bool" where
  "settled s e lo hi tag vas res vas' \<longleftrightarrow>
     (if res = Okay then repainted ok used s e lo hi tag vas vas' else \<exists>c. ok c \<and> fst (AllocateNode N c) = res)"

lemma spawn_outcome:
  assumes "tree_inv (Tree vas) (xs @ ys)" "lined (Heap vas) (xs @ ys)" "lo < hi"
    and "\<And>x. x \<in> set xs \<Longrightarrow> End (Range (region vas x)) \<le> lo" "\<And>y. y \<in> set ys \<Longrightarrow> hi \<le> Start (Range (region vas y))"
    and "ok (Cookie (Tree vas))" "set (xs @ ys) \<subseteq> used (Cookie (Tree vas))"
  shows "\<exists>res ptr vas' new. Spawn N op lo hi vas = Some (res, ptr, vas') \<and> Range new = \<lparr>Start = lo, End = hi\<rparr>
     \<and> tag_of new = op_tag (Operation op) \<and> settings_of new = settings (Operation op) \<and> inserted vas xs ys new res ptr vas'"
proof -
  obtain fl co ty where op: "settings (Operation op) = (fl, co, ty)" by (cases "settings (Operation op)") auto
  let ?new = "new_region lo hi fl co ty None None"
  have sp: "Spawn N op lo hi vas = vas_Insert N ?new vas" by (simp add: Spawn_def op)
  have "\<exists>res ptr vas'. vas_Insert N ?new vas = Some (res, ptr, vas') \<and> inserted vas xs ys ?new res ptr vas'"
    using assms(3-5) by (intro insert_outcome [OF assms(1,2) _ _ _ assms(6,7)]) (simp_all add: region_ok_def)
  then obtain res ptr vas' where "vas_Insert N ?new vas = Some (res, ptr, vas')" "inserted vas xs ys ?new res ptr vas'" by blast
  then show ?thesis unfolding sp by (intro exI [of _ res] exI [of _ ptr] exI [of _ vas'] exI [of _ ?new]) (simp add: new_region_tag [OF op] op)
qed

lemma at_start_spawn_ok:
  assumes inv: "vas_inv ok used s e vas" and ids: "inorder (Root (Tree vas)) = pre @ [r] @ post"
    and reg: "Heap vas r = Some reg" and at: "Start (Range reg) < endAddr" "endAddr < End (Range reg)"
  shows "\<exists>res vas'. at_start N op endAddr False r reg vas = Some (res, vas')
     \<and> settled s e (Start (Range reg)) endAddr (op_tag (Operation op)) vas res vas'
     \<and> (res = Okay \<longrightarrow> placed (Start (Range reg)) endAddr (settings (Operation op)) r vas vas')"
proof -
  note parts = vas_inv_parts [OF inv ids, simplified]
  from parts(1) obtain a b where seg: "segment (Heap vas) s e pre [r] post a b" by blast
  note near = segment_neighbours [OF seg]
  from seg have d: "r \<notin> set pre" "r \<notin> set post"
    and links: "Prev reg = last_ptr None pre" "Start (Range reg) = a" "Next reg = hd_ptr post None" "End (Range reg) = b" "a < b"
    using reg by (auto simp: segment_def)
  define reg1 where "reg1 = Type_update (\<lambda>t. t AND NOT GuardLow) (set_Start endAddr reg)"
  have reg1: "Start (Range reg1) = endAddr" "End (Range reg1) = b" "Prev reg1 = Prev reg" "Next reg1 = Next reg" "tag_of reg1 = tag_of reg"
    using links by (simp_all add: reg1_def)
  define vas1 where "vas1 = vas\<lparr>Heap := (Heap vas)(r \<mapsto> reg1)\<rparr>"
  have "lined (Heap vas1) (pre @ r # post)"
    unfolding vas1_def using lined_shrink [OF parts(3) reg, of reg1] at reg1 links by simp
  moreover have "End (Range (region vas1 x)) \<le> a" if "x \<in> set pre" for x
    using that near(5) [of x] d by (auto simp: vas1_def region_def)
  moreover have "endAddr \<le> Start (Range (region vas1 y))" if "y \<in> set (r # post)" for y
    using that near(6) [of y] at(2) reg1(1) links(4) by (cases "y = r") (auto simp: vas1_def region_def)
  ultimately have "\<exists>res ptr vas2 new. Spawn N op a endAddr vas1 = Some (res, ptr, vas2) \<and> Range new = \<lparr>Start = a, End = endAddr\<rparr>
     \<and> tag_of new = op_tag (Operation op) \<and> settings_of new = settings (Operation op) \<and> inserted vas1 pre (r # post) new res ptr vas2"
    using parts(2,4,5) at(1) links(2) by (intro spawn_outcome) (simp_all add: vas1_def)
  then obtain res ptr vas2 new where sp: "Spawn N op a endAddr vas1 = Some (res, ptr, vas2)"
    "Range new = \<lparr>Start = a, End = endAddr\<rparr>" "tag_of new = op_tag (Operation op)" "inserted vas1 pre (r # post) new res ptr vas2"
    "settings_of new = settings (Operation op)" by blast
  show ?thesis
  proof (cases "res = Okay")
    case False
    with sp(1,4) links reg parts(4) show ?thesis
      by (auto simp: at_start_def update_def vas1_def reg1_def settled_def inserted_def)
  next
    case True
    have sub: "set (pre @ r # post) \<subseteq> used (Cookie (Tree vas1))" using parts(5) by (simp add: vas1_def)
    obtain n t where n: "n \<notin> set (pre @ r # post)" "ptr = Some n" "vas2 = vas1\<lparr>Tree := t, Heap := (Heap vas1)(n \<mapsto> new)\<rparr>"
      "tree_inv t (pre @ n # r # post)" "ok (Cookie t)" "set (pre @ n # r # post) \<subseteq> used (Cookie t)"
      using sp(4) [unfolded True] sub by (rule inserted_OkayE)
    define h where "h = (Heap vas)(r \<mapsto> reg1\<lparr>Prev := Some n\<rparr>, n \<mapsto> new\<lparr>Next := Some r, Prev := last_ptr None pre\<rparr>)"
    define vas' where "vas' = vas\<lparr>Tree := t, First := (if pre = [] then Some n else First vas),
       Heap := patch (last_ptr None pre) (Next_update (\<lambda>_. Some n)) h\<rparr>"
    have "at_start N op endAddr False r reg vas = Some (Okay, vas')"
    proof (cases "last_ptr None pre")
      case None
      with sp(1) True links reg d n show ?thesis
        by (auto simp: at_start_def update_def vas'_def h_def patch_def last_ptr_eq vas1_def reg1_def fun_upd_twist split: if_splits)
    next
      case (Some i)
      note i = last_ptr_in [OF Some]
      obtain q where "Heap vas i = Some q" using near(1) [OF Some] by blast
      moreover have "i \<noteq> r" "i \<noteq> n" "pre \<noteq> []" using i d n by auto
      ultimately show ?thesis using Some sp(1) True links reg d n
        by (auto simp: at_start_def update_def vas'_def h_def patch_def vas1_def reg1_def fun_upd_twist)
    qed
    moreover have "repainted ok used s e (Start (Range reg)) endAddr (op_tag (Operation op)) vas vas'
       \<and> placed (Start (Range reg)) endAddr (settings (Operation op)) r vas vas'"
    proof (rule repaint_placed [OF inv ids seg, where mid' = "[n, r]" and n = n])
      show "outside (Heap vas) (Heap vas') pre [n, r] post"
      proof (rule outsideI [OF seg disjI2 disjI1])
        show "\<forall>i \<in> set pre. Heap vas' i = patch (last_ptr None pre) (Next_update (\<lambda>_. hd_ptr [n, r] None)) (Heap vas) i"
          using d n by (auto simp: vas'_def h_def intro!: patch_cong)
        show "last_ptr None [n, r] = last_ptr None [r] \<and> (\<forall>i \<in> set post. Heap vas' i = Heap vas i)"
          using d n near(4) by (auto simp: vas'_def h_def patch_other ptr_out)
      qed
    qed (use parts links d reg n sp(2,3,5) reg1 at in \<open>auto simp: vas'_def h_def patch_other ptr_out\<close>)
    ultimately show ?thesis by (auto simp: settled_def)
  qed
qed

lemma at_end_spawn_ok:
  assumes inv: "vas_inv ok used s e vas" and ids: "inorder (Root (Tree vas)) = pre @ [r] @ post"
    and reg: "Heap vas r = Some reg" and at: "Start (Range reg) < vaddr" "vaddr < End (Range reg)"
  shows "\<exists>res vas'. at_end N op vaddr False r reg vas = Some (res, vas')
     \<and> settled s e vaddr (End (Range reg)) (op_tag (Operation op)) vas res vas'
     \<and> (res = Okay \<longrightarrow> placed vaddr (End (Range reg)) (settings (Operation op)) r vas vas')"
proof -
  note parts = vas_inv_parts [OF inv ids, simplified]
  from parts(1) obtain a b where seg: "segment (Heap vas) s e pre [r] post a b" by blast
  note near = segment_neighbours [OF seg]
  from seg have d: "r \<notin> set pre" "r \<notin> set post"
    and links: "Prev reg = last_ptr None pre" "Start (Range reg) = a" "Next reg = hd_ptr post None" "End (Range reg) = b" "a < b"
    using reg by (auto simp: segment_def)
  define reg1 where "reg1 = Type_update (\<lambda>t. t AND NOT GuardHigh) (set_End vaddr reg)"
  have reg1: "Start (Range reg1) = a" "End (Range reg1) = vaddr" "Prev reg1 = Prev reg" "Next reg1 = Next reg" "tag_of reg1 = tag_of reg"
    using links by (simp_all add: reg1_def)
  define vas1 where "vas1 = vas\<lparr>Heap := (Heap vas)(r \<mapsto> reg1)\<rparr>"
  have "lined (Heap vas1) ((pre @ [r]) @ post)"
    unfolding vas1_def using lined_shrink [OF parts(3) reg, of reg1] at reg1 links by simp
  moreover have "End (Range (region vas1 x)) \<le> vaddr" if "x \<in> set (pre @ [r])" for x
    using that near(5) [of x] at(1) reg1(2) links(2) by (cases "x = r") (auto simp: vas1_def region_def)
  moreover have "b \<le> Start (Range (region vas1 y))" if "y \<in> set post" for y
    using that near(6) [of y] d by (auto simp: vas1_def region_def)
  ultimately have "\<exists>res ptr vas2 new. Spawn N op vaddr b vas1 = Some (res, ptr, vas2) \<and> Range new = \<lparr>Start = vaddr, End = b\<rparr>
     \<and> tag_of new = op_tag (Operation op) \<and> settings_of new = settings (Operation op) \<and> inserted vas1 (pre @ [r]) post new res ptr vas2"
    using parts(2,4,5) at(2) links(4) by (intro spawn_outcome) (simp_all add: vas1_def)
  then obtain res ptr vas2 new where sp: "Spawn N op vaddr b vas1 = Some (res, ptr, vas2)"
    "Range new = \<lparr>Start = vaddr, End = b\<rparr>" "tag_of new = op_tag (Operation op)" "inserted vas1 (pre @ [r]) post new res ptr vas2"
    "settings_of new = settings (Operation op)" by blast
  show ?thesis
  proof (cases "res = Okay")
    case False
    with sp(1,4) links reg parts(4) show ?thesis
      by (auto simp: at_end_def update_def vas1_def reg1_def settled_def inserted_def)
  next
    case True
    have sub: "set ((pre @ [r]) @ post) \<subseteq> used (Cookie (Tree vas1))" using parts(5) by (simp add: vas1_def)
    obtain n t where n: "n \<notin> set ((pre @ [r]) @ post)" "ptr = Some n" "vas2 = vas1\<lparr>Tree := t, Heap := (Heap vas1)(n \<mapsto> new)\<rparr>"
      "tree_inv t ((pre @ [r]) @ n # post)" "ok (Cookie t)" "set ((pre @ [r]) @ n # post) \<subseteq> used (Cookie t)"
      using sp(4) [unfolded True] sub by (rule inserted_OkayE)
    define h where "h = (Heap vas)(r \<mapsto> reg1\<lparr>Next := Some n\<rparr>, n \<mapsto> new\<lparr>Prev := Some r, Next := hd_ptr post None\<rparr>)"
    define vas' where "vas' = vas\<lparr>Tree := t, Heap := patch (hd_ptr post None) (Prev_update (\<lambda>_. Some n)) h\<rparr>"
    have "at_end N op vaddr False r reg vas = Some (Okay, vas')"
    proof (cases "hd_ptr post None")
      case None
      with sp(1) True links reg d n show ?thesis
        by (auto simp: at_end_def update_def vas'_def h_def patch_def vas1_def reg1_def fun_upd_twist)
    next
      case (Some i)
      obtain q where "Heap vas i = Some q" using near(2) [OF Some] by blast
      moreover have "i \<noteq> r" "i \<noteq> n" using hd_ptr_in [OF Some] d n by auto
      ultimately show ?thesis using Some sp(1) True links reg d n
        by (auto simp: at_end_def update_def vas'_def h_def patch_def vas1_def reg1_def fun_upd_twist)
    qed
    moreover have "repainted ok used s e vaddr (End (Range reg)) (op_tag (Operation op)) vas vas'
       \<and> placed vaddr (End (Range reg)) (settings (Operation op)) r vas vas'"
    proof (rule repaint_placed [OF inv ids seg, where mid' = "[r, n]" and n = n])
      show "outside (Heap vas) (Heap vas') pre [r, n] post"
      proof (rule outsideI [OF seg disjI1 disjI2])
        show "\<forall>i \<in> set post. Heap vas' i = patch (hd_ptr post None) (Prev_update (\<lambda>_. last_ptr None [r, n])) (Heap vas) i"
          using d n by (auto simp: vas'_def h_def intro!: patch_cong)
        show "hd_ptr [r, n] None = hd_ptr [r] None \<and> (\<forall>i \<in> set pre. Heap vas' i = Heap vas i)"
          using d n near(3) by (auto simp: vas'_def h_def patch_other ptr_out)
      qed
    qed (use parts links d reg n sp(2,3,5) reg1 at in \<open>auto simp: vas'_def h_def patch_other ptr_out\<close>)
    ultimately show ?thesis by (auto simp: settled_def)
  qed
qed

text \<open>The middle is spawned, and then the end, which keeps the settings of the region.\<close>

definition ended :: "'c Vas \<Rightarrow> nat list \<Rightarrow> nat \<Rightarrow> nat \<Rightarrow> nat list \<Rightarrow> MemoryRegion \<Rightarrow> MemoryRegion \<Rightarrow> HandleResult \<Rightarrow> nat option \<Rightarrow> 'c Vas \<Rightarrow> bool" where
  "ended vas pre r m post new fin res ptr vas' \<longleftrightarrow>
     (if res = Okay then \<exists>f t. f \<notin> set (pre @ [r, m] @ post) \<and> ptr = Some f
          \<and> vas' = vas\<lparr>Tree := t, Heap := (Heap vas)(m \<mapsto> new, f \<mapsto> fin)\<rparr>
          \<and> tree_inv t (pre @ [r, m, f] @ post) \<and> ok (Cookie t) \<and> set (pre @ [r, m, f] @ post) \<subseteq> used (Cookie t)
      else \<exists>c. ok c \<and> fst (AllocateNode N c) = res)"

definition split_up :: "'c Vas \<Rightarrow> nat list \<Rightarrow> nat \<Rightarrow> nat list \<Rightarrow> MemoryRegion \<Rightarrow> (nat \<Rightarrow> MemoryRegion) \<Rightarrow> HandleResult \<Rightarrow> nat option \<Rightarrow> 'c Vas \<Rightarrow> bool" where
  "split_up vas pre r post new fin res ptr vas' \<longleftrightarrow>
     (if res = Okay then \<exists>m t res2 ptr2 vas2. m \<notin> set (pre @ [r] @ post) \<and> ptr = Some m
          \<and> vas' = vas\<lparr>Tree := t, Heap := (Heap vas)(m \<mapsto> new)\<rparr>
          \<and> vas_Insert N (fin m) vas' = Some (res2, ptr2, vas2) \<and> ended vas pre r m post new (fin m) res2 ptr2 vas2
      else \<exists>c. ok c \<and> fst (AllocateNode N c) = res)"

lemma inside_nodes:
  assumes tree: "tree_inv (Tree vas) ((pre @ [r]) @ post)" and lined: "lined (Heap vas) ((pre @ [r]) @ post)"
    and lohi: "lo < mi" "mi < hi"
    and before: "\<And>x. x \<in> set (pre @ [r]) \<Longrightarrow> End (Range (region vas x)) \<le> lo"
    and after: "\<And>y. y \<in> set post \<Longrightarrow> hi \<le> Start (Range (region vas y))"
    and c: "ok (Cookie (Tree vas))" "set ((pre @ [r]) @ post) \<subseteq> used (Cookie (Tree vas))"
    and fin: "\<And>m. Start (Range (fin m)) = mi" "\<And>m. End (Range (fin m)) = hi"
  shows "\<exists>res ptr vas' new. Spawn N op lo mi vas = Some (res, ptr, vas') \<and> Range new = \<lparr>Start = lo, End = mi\<rparr>
     \<and> tag_of new = op_tag (Operation op) \<and> settings_of new = settings (Operation op)
     \<and> split_up vas pre r post new fin res ptr vas'"
proof -
  have "\<exists>res ptr vas' new. Spawn N op lo mi vas = Some (res, ptr, vas') \<and> Range new = \<lparr>Start = lo, End = mi\<rparr>
     \<and> tag_of new = op_tag (Operation op) \<and> settings_of new = settings (Operation op) \<and> inserted vas (pre @ [r]) post new res ptr vas'"
  proof (rule spawn_outcome [OF tree lined lohi(1) before _ c])
    show "mi \<le> Start (Range (region vas y))" if "y \<in> set post" for y by (rule order.trans [OF less_imp_le [OF lohi(2)] after [OF that]])
  qed
  then obtain res ptr vas' new where sp: "Spawn N op lo mi vas = Some (res, ptr, vas')" "Range new = \<lparr>Start = lo, End = mi\<rparr>"
     "tag_of new = op_tag (Operation op)" "inserted vas (pre @ [r]) post new res ptr vas'"
     "settings_of new = settings (Operation op)" by blast
  show ?thesis
  proof (cases "res = Okay")
    case False
    with sp(4) c have "split_up vas pre r post new fin res ptr vas'" by (auto simp: split_up_def inserted_def)
    with sp(1-3,5) show ?thesis by blast
  next
    case True
    obtain m t1 where m: "m \<notin> set ((pre @ [r]) @ post)" "ptr = Some m" "vas' = vas\<lparr>Tree := t1, Heap := (Heap vas)(m \<mapsto> new)\<rparr>"
      "tree_inv t1 ((pre @ [r]) @ m # post)" "ok (Cookie t1)" "set ((pre @ [r]) @ m # post) \<subseteq> used (Cookie t1)"
      using sp(4) [unfolded True] c(2) by (rule inserted_OkayE)
    have before': "End (Range (the (Heap vas x))) \<le> lo" if "x \<in> set (pre @ [r])" for x using before [OF that] by (simp add: region_def)
    have after': "hi \<le> Start (Range (the (Heap vas x)))" if "x \<in> set post" for x using after [OF that] by (simp add: region_def)
    have "lined ((Heap vas)(m \<mapsto> new)) ((pre @ [r]) @ m # post)"
      using lined m(1) lohi sp(2) before' after'
      by (intro lined_insert) (auto simp: region_ok_def intro: order.trans [OF less_imp_le])
    then have "\<exists>res2 ptr2 vas2. vas_Insert N (fin m) vas' = Some (res2, ptr2, vas2) \<and> inserted vas' (pre @ [r, m]) post (fin m) res2 ptr2 vas2"
    proof (intro insert_outcome)
      show "End (Range (region vas' x)) \<le> Start (Range (fin m))" if "x \<in> set (pre @ [r, m])" for x
      proof (cases "x = m")
        case False
        with that before' [of x] m(3) lohi(1) show ?thesis by (auto simp: region_def fin)
      qed (simp add: m(3) region_def fin sp(2))
      show "End (Range (fin m)) \<le> Start (Range (region vas' y))" if "y \<in> set post" for y
        using that after' [of y] m(1,3) by (auto simp: region_def fin)
    qed (use m lohi in \<open>simp_all add: fin region_ok_def\<close>)
    then obtain res2 ptr2 vas2 where in2: "vas_Insert N (fin m) vas' = Some (res2, ptr2, vas2)"
      "inserted vas' (pre @ [r, m]) post (fin m) res2 ptr2 vas2" by blast
    have "ended vas pre r m post new (fin m) res2 ptr2 vas2"
    proof (cases "res2 = Okay")
      case True
      have "set ((pre @ [r, m]) @ post) \<subseteq> used (Cookie (Tree vas'))" using m(3,6) by auto
      with in2(2) [unfolded True] obtain f t where "f \<notin> set ((pre @ [r, m]) @ post)" "ptr2 = Some f"
        "vas2 = vas'\<lparr>Tree := t, Heap := (Heap vas')(f \<mapsto> fin m)\<rparr>" "tree_inv t ((pre @ [r, m]) @ f # post)" "ok (Cookie t)"
        "set ((pre @ [r, m]) @ f # post) \<subseteq> used (Cookie t)" by (rule inserted_OkayE)
      with True m(3) show ?thesis unfolding ended_def by (auto intro!: exI [of _ t])
    qed (use in2(2) m(3,5) in \<open>auto simp: inserted_def ended_def\<close>)
    with True m in2(1) have "split_up vas pre r post new fin res ptr vas'" unfolding split_up_def by auto
    with sp(1-3,5) show ?thesis by blast
  qed
qed

lemma inside_ok:
  assumes inv: "vas_inv ok used s e vas" and ids: "inorder (Root (Tree vas)) = pre @ [r] @ post"
    and reg: "Heap vas r = Some reg" and at: "Start (Range reg) < vaddr" "vaddr < endAddr" "endAddr < End (Range reg)"
  shows "\<exists>res vas'. inside N op vaddr endAddr r reg vas = Some (res, vas')
     \<and> settled s e vaddr endAddr (op_tag (Operation op)) vas res vas'
     \<and> (res = Okay \<longrightarrow> placed vaddr endAddr (settings (Operation op)) r vas vas')"
proof -
  note parts = vas_inv_parts [OF inv ids, simplified]
  from parts(1) obtain a b where seg: "segment (Heap vas) s e pre [r] post a b" by blast
  note near = segment_neighbours [OF seg]
  from seg have d: "r \<notin> set pre" "r \<notin> set post"
    and links: "Prev reg = last_ptr None pre" "Start (Range reg) = a" "Next reg = hd_ptr post None" "End (Range reg) = b" "a < b"
    using reg by (auto simp: segment_def)
  define reg1 where "reg1 = set_End vaddr (Type_update (\<lambda>t. t AND NOT GuardHigh) reg)"
  define fin where "fin = (\<lambda>m. new_region endAddr b (Flags reg1) (Content reg1)
     ((Type reg1 AND NOT GuardLow) OR Type reg AND GuardHigh) (Some m) (Next reg1))"
  have reg1: "Start (Range reg1) = a" "End (Range reg1) = vaddr" "Prev reg1 = Prev reg" "Next reg1 = Next reg" "tag_of reg1 = tag_of reg"
    using links by (simp_all add: reg1_def)
  have fin: "Start (Range (fin m)) = endAddr" "End (Range (fin m)) = b" "Prev (fin m) = Some m" "Next (fin m) = hd_ptr post None"
    "tag_of (fin m) = tag_of reg" for m
    using links by (simp_all add: fin_def reg1(4) tag_of_def new_region_def reg1_def end_type)
  define vas1 where "vas1 = vas\<lparr>Heap := (Heap vas)(r \<mapsto> reg1)\<rparr>"
  have "\<exists>res ptr vas2 new. Spawn N op vaddr endAddr vas1 = Some (res, ptr, vas2) \<and> Range new = \<lparr>Start = vaddr, End = endAddr\<rparr>
     \<and> tag_of new = op_tag (Operation op) \<and> settings_of new = settings (Operation op)
     \<and> split_up vas1 pre r post new fin res ptr vas2"
  proof (rule inside_nodes [OF _ _ at(2)])
    show "lined (Heap vas1) ((pre @ [r]) @ post)"
      unfolding vas1_def using lined_shrink [OF parts(3) reg, of reg1] at reg1 links by simp
    show "End (Range (region vas1 x)) \<le> vaddr" if "x \<in> set (pre @ [r])" for x
      using that near(5) [of x] at(1) reg1(2) links(2) by (cases "x = r") (auto simp: vas1_def region_def)
    show "b \<le> Start (Range (region vas1 y))" if "y \<in> set post" for y
      using that near(6) [of y] d by (auto simp: vas1_def region_def)
  qed (use parts(2,4,5) at(3) links(4) in \<open>simp_all add: vas1_def fin\<close>)
  then obtain res ptr vas2 new where sp: "Spawn N op vaddr endAddr vas1 = Some (res, ptr, vas2)" "Range new = \<lparr>Start = vaddr, End = endAddr\<rparr>"
     "tag_of new = op_tag (Operation op)" "settings_of new = settings (Operation op)" and more: "split_up vas1 pre r post new fin res ptr vas2" by blast
  have begin_eq: "inside N op vaddr endAddr r reg vas = (if res \<noteq> Okay then Some (res, vas2) else do {
      now \<leftarrow> deref vas2 (Some r);
      (res, newEndReg, vas) \<leftarrow> vas_Insert N (new_region endAddr (End (Range reg)) (Flags now) (Content now)
          ((Type now AND NOT GuardLow) OR Type reg AND GuardHigh) ptr (Next now)) vas2;
      inside_links r ptr res newEndReg vas })"
    using sp(1) reg by (simp add: inside_def inside_links_def update_def vas1_def reg1_def)
  show ?thesis
  proof (cases "res = Okay")
    case False
    with more begin_eq show ?thesis by (simp add: settled_def split_up_def)
  next
    case True
    with more obtain m t1 res2 ptr2 vas3 where m: "m \<notin> set (pre @ [r] @ post)" "ptr = Some m" "vas2 = vas1\<lparr>Tree := t1, Heap := (Heap vas1)(m \<mapsto> new)\<rparr>"
      "vas_Insert N (fin m) vas2 = Some (res2, ptr2, vas3)"
      and ended: "ended vas1 pre r m post new (fin m) res2 ptr2 vas3" by (auto simp: split_up_def)
    have "deref vas2 (Some r) = Some reg1" using m(1,3) by (simp add: deref_def vas1_def)
    with begin_eq True m(2,4) links(4) have linked: "inside N op vaddr endAddr r reg vas = inside_links r ptr res2 ptr2 vas3"
      by (simp add: fin_def)
    show ?thesis
    proof (cases "res2 = Okay")
      case False
      with ended linked show ?thesis by (simp add: settled_def inside_links_def ended_def)
    next
      case True
      with ended obtain f t where f: "f \<notin> set (pre @ [r, m] @ post)" "ptr2 = Some f"
        "vas3 = vas1\<lparr>Tree := t, Heap := (Heap vas1)(m \<mapsto> new, f \<mapsto> fin m)\<rparr>"
        "tree_inv t (pre @ [r, m, f] @ post)" "ok (Cookie t)" "set (pre @ [r, m, f] @ post) \<subseteq> used (Cookie t)" by (auto simp: ended_def)
      define h where "h = (Heap vas)(r \<mapsto> reg1\<lparr>Next := Some m\<rparr>, m \<mapsto> new\<lparr>Next := Some f, Prev := Some r\<rparr>, f \<mapsto> fin m)"
      define vas' where "vas' = vas\<lparr>Tree := t, Heap := patch (hd_ptr post None) (Prev_update (\<lambda>_. Some f)) h\<rparr>"
      have "inside_links r ptr Okay ptr2 vas3 = Some (Okay, vas')"
      proof (cases "hd_ptr post None")
        case None
        with m f d fin(4) show ?thesis
          by (auto simp: inside_links_def update_def deref_def vas'_def h_def patch_def vas1_def fun_upd_twist)
      next
        case (Some i)
        obtain q where "Heap vas i = Some q" using near(2) [OF Some] by blast
        moreover have "i \<noteq> r" "i \<noteq> m" "i \<noteq> f" using hd_ptr_in [OF Some] d m f by auto
        ultimately show ?thesis using Some m f d fin(4)
          by (auto simp: inside_links_def update_def deref_def vas'_def h_def patch_def vas1_def fun_upd_twist)
      qed
      moreover have "repainted ok used s e vaddr endAddr (op_tag (Operation op)) vas vas'
         \<and> placed vaddr endAddr (settings (Operation op)) r vas vas'"
      proof (rule repaint_placed [OF inv ids seg, where mid' = "[r, m, f]" and n = m])
        show "outside (Heap vas) (Heap vas') pre [r, m, f] post"
        proof (rule outsideI [OF seg disjI1 disjI2])
          show "\<forall>i \<in> set post. Heap vas' i = patch (hd_ptr post None) (Prev_update (\<lambda>_. last_ptr None [r, m, f])) (Heap vas) i"
            using d m f by (auto simp: vas'_def h_def intro!: patch_cong)
          show "hd_ptr [r, m, f] None = hd_ptr [r] None \<and> (\<forall>i \<in> set pre. Heap vas' i = Heap vas i)"
            using d m f near(3) by (auto simp: vas'_def h_def patch_other ptr_out)
        qed
      qed (use parts links d reg m f sp(2-4) reg1 fin at in \<open>auto simp: vas'_def h_def patch_other ptr_out\<close>)
      ultimately show ?thesis using linked True by (auto simp: settled_def)
    qed
  qed
qed

end

end
