(* ===== verification/Vas_Execute.thy ===== *)
theory Vas_Execute
  imports Vas_Cases
begin

text \<open>
  One descriptor of an operation: what \<open>Check\<close> finds out and what \<open>operate\<close> does with it. Then the loops:
  the search of a free region and the continuation of an operation over several regions.
\<close>

section \<open>The addresses an operation covers in a region\<close>

text \<open>Freeing all of a region but its guard pages frees those too.\<close>

definition op_lo :: "OperationParameters \<Rightarrow> MemoryRegion \<Rightarrow> vaddr" where
  "op_lo op reg = (if Operation op = FreeOperation \<and> GuardLow AND Type reg \<noteq> 0 \<and> Start (Range reg) = Address op - PageSize
     then Start (Range reg) else Address op)"

definition op_hi :: "OperationParameters \<Rightarrow> MemoryRegion \<Rightarrow> vaddr" where
  "op_hi op reg = (if End (Range reg) \<le> Address op + Size op
       \<or> Operation op = FreeOperation \<and> GuardHigh AND Type reg \<noteq> 0 \<and> End (Range reg) = Address op + Size op + PageSize
     then End (Range reg) else Address op + Size op)"

definition op_accepts :: "OperationParameters \<Rightarrow> MemoryRegion \<Rightarrow> bool" where
  "op_accepts op reg \<longleftrightarrow> (Content reg = MC_Free) = Allocation op"

text \<open>The parameters the program calls \<open>Execute\<close> with: some addresses that do not wrap around, and no sparse allocation.\<close>

definition op_ok :: "OperationParameters \<Rightarrow> bool" where
  "op_ok op \<longleftrightarrow> Address op < Address op + Size op \<and> (Sparse op \<longrightarrow> \<not> Allocation op)"

section \<open>Check\<close>

text \<open>
  When a neighbour is extended over the addresses, so that they get its settings: a used one must have no guard towards them, its
  flags, content and type must be the requested ones but for the guards, and no guard must have been requested towards it.
\<close>

fun joins :: "Operation \<Rightarrow> u32 \<Rightarrow> u32 \<Rightarrow> MemoryRegion \<Rightarrow> bool" where
  "joins (AllocateOperation flags content type) theirs ours other \<longleftrightarrow> theirs AND Type other = 0 \<and> ours AND type = 0 \<and> Flags other = flags
     \<and> MemoryContentsMergeable (Content other) content \<and> Type other AND NOT GuardFull = type AND NOT GuardFull"
| "joins FreeOperation theirs ours other \<longleftrightarrow> Content other = MC_Free"

definition joined :: "Operation \<Rightarrow> vaddr \<Rightarrow> vaddr \<Rightarrow> 'c Vas \<Rightarrow> bool" where
  "joined op lo hi vas \<longleftrightarrow> (\<exists>q \<in> set (inorder (Root (Tree vas))).
     End (Range (region vas q)) = lo \<and> joins op GuardHigh GuardLow (region vas q)
   \<or> Start (Range (region vas q)) = hi \<and> joins op GuardLow GuardHigh (region vas q))"

lemma joins_tag: "joins op theirs ours q \<Longrightarrow> tag_of q = op_tag op"
  by (cases op) (auto simp: tag_of_def op_tag_def MemoryContentsMergeable_def)

definition checked :: "OperationParameters \<Rightarrow> 'c Vas \<Rightarrow> nat list \<Rightarrow> MemoryRegion \<Rightarrow> nat list \<Rightarrow> DescriptorCheckResults \<Rightarrow> bool" where
  "checked op vas pre reg post dcr \<longleftrightarrow> Accepted dcr = op_accepts op reg \<and> FailureResult dcr = PageFree
     \<and> (Accepted dcr \<longrightarrow> MeetsLeft dcr = (op_lo op reg = Start (Range reg)) \<and> MeetsRight dcr = (op_hi op reg = End (Range reg)))
     \<and> (LeftMergeable dcr \<longrightarrow> (\<exists>pre' q qreg. pre = pre' @ [q] \<and> Heap vas q = Some qreg \<and> joins (Operation op) GuardHigh GuardLow qreg))
     \<and> (RightMergeable dcr \<longrightarrow> (\<exists>t post' treg. post = t # post' \<and> Heap vas t = Some treg \<and> joins (Operation op) GuardLow GuardHigh treg))"

lemma last_ptr_SomeE:
  assumes "last_ptr None xs = Some q"
  obtains ys where "xs = ys @ [q]"
  using assms by (cases xs rule: rev_cases) (auto simp: last_ptr_append)

lemma hd_ptr_SomeE:
  assumes "hd_ptr xs None = Some q"
  obtains ys where "xs = q # ys"
  using assms by (cases xs) auto

text \<open>A condition on a neighbour that \<open>Check\<close> evaluates when there is a neighbour.\<close>

lemma check_prev:
  assumes seg: "segment (Heap vas) s e pre [r] post a b" and prev: "Prev reg = last_ptr None pre"
  shows "\<exists>m. (if c \<and> Prev reg \<noteq> None then map_option P (deref vas (Prev reg)) else Some False) = Some m
     \<and> (m \<longrightarrow> (\<exists>pre' q qreg. pre = pre' @ [q] \<and> Heap vas q = Some qreg \<and> P qreg))"
proof (cases "c \<and> Prev reg \<noteq> None")
  case True
  then obtain q where q: "last_ptr None pre = Some q" using prev by auto
  with segment_neighbours(1) [OF seg] obtain qreg where "Heap vas q = Some qreg" by blast
  moreover from q obtain pre' where "pre = pre' @ [q]" by (rule last_ptr_SomeE)
  ultimately show ?thesis using True q prev by (auto simp: deref_def)
qed auto

lemma check_next:
  assumes seg: "segment (Heap vas) s e pre [r] post a b" and next_: "Next reg = hd_ptr post None"
  shows "\<exists>m. (if c \<and> Next reg \<noteq> None then map_option P (deref vas (Next reg)) else Some False) = Some m
     \<and> (m \<longrightarrow> (\<exists>t post' treg. post = t # post' \<and> Heap vas t = Some treg \<and> P treg))"
proof (cases "c \<and> Next reg \<noteq> None")
  case True
  then obtain t where t: "hd_ptr post None = Some t" using next_ by auto
  with segment_neighbours(2) [OF seg] obtain treg where "Heap vas t = Some treg" by blast
  moreover from t obtain post' where "post = t # post'" by (rule hd_ptr_SomeE)
  ultimately show ?thesis using True t next_ by (auto simp: deref_def)
qed auto

lemma Check_Allocate_outcome:
  assumes seg: "segment (Heap vas) s e pre [r] post a b" and reg: "Heap vas r = Some reg"
    and op: "Operation op = AllocateOperation flags content type" and fits: "Address op + Size op \<le> End (Range reg)"
  shows "\<exists>dcr. Check op vas reg = Some dcr \<and> checked op vas pre reg post dcr"
proof -
  have links: "Prev reg = last_ptr None pre" "Next reg = hd_ptr post None" using seg reg by (auto simp: segment_def)
  define P where "P = joins (Operation op)"
  let ?left = "Content reg = MC_Free \<and> Start (Range reg) = Address op"
  let ?right = "Content reg = MC_Free \<and> End (Range reg) = Address op + Size op"
  from check_prev [where P = "P GuardHigh GuardLow" and c = ?left, OF seg links(1)] obtain l where l:
    "(if ?left \<and> Prev reg \<noteq> None then map_option (P GuardHigh GuardLow) (deref vas (Prev reg)) else Some False) = Some l"
    "l \<longrightarrow> (\<exists>pre' q qreg. pre = pre' @ [q] \<and> Heap vas q = Some qreg \<and> P GuardHigh GuardLow qreg)" by blast
  from check_next [where P = "P GuardLow GuardHigh" and c = ?right, OF seg links(2)] obtain m where m:
    "(if ?right \<and> Next reg \<noteq> None then map_option (P GuardLow GuardHigh) (deref vas (Next reg)) else Some False) = Some m"
    "m \<longrightarrow> (\<exists>t post' treg. post = t # post' \<and> Heap vas t = Some treg \<and> P GuardLow GuardHigh treg)" by blast
  have "Check op vas reg = Some \<lparr>Accepted = (Content reg = MC_Free), MeetsLeft = ?left, MeetsRight = ?right,
      LeftMergeable = l, RightMergeable = m, FailureResult = PageFree\<rparr>"
    by (simp only: Check.simps op Operation.case Check_Allocate_def Let_def l(1) [unfolded P_def op joins.simps]
        m(1) [unfolded P_def op joins.simps] Option.bind.simps)
  then show ?thesis using l(2) m(2) fits op by (auto simp: P_def checked_def op_accepts_def Allocation_def op_lo_def op_hi_def split: if_splits)
qed

lemma Check_Free_outcome:
  assumes seg: "segment (Heap vas) s e pre [r] post a b" and reg: "Heap vas r = Some reg" and op: "Operation op = FreeOperation"
  shows "\<exists>dcr. Check op vas reg = Some dcr \<and> checked op vas pre reg post dcr"
proof -
  have links: "Prev reg = last_ptr None pre" "Next reg = hd_ptr post None" using seg reg by (auto simp: segment_def)
  define P where "P = (\<lambda>q :: MemoryRegion. Content q = MC_Free)"
  let ?left = "Content reg \<noteq> MC_Free \<and> (Start (Range reg) = Address op
            \<or> GuardLow AND Type reg \<noteq> 0 \<and> Start (Range reg) = Address op - PageSize)"
  let ?right = "Content reg \<noteq> MC_Free \<and> (End (Range reg) \<le> Address op + Size op
            \<or> GuardHigh AND Type reg \<noteq> 0 \<and> End (Range reg) = Address op + Size op + PageSize)"
  from check_prev [where P = P and c = ?left, OF seg links(1)] obtain l where l:
    "(if ?left \<and> Prev reg \<noteq> None then map_option P (deref vas (Prev reg)) else Some False) = Some l"
    "l \<longrightarrow> (\<exists>pre' q qreg. pre = pre' @ [q] \<and> Heap vas q = Some qreg \<and> P qreg)" by blast
  from check_next [where P = P and c = ?right, OF seg links(2)] obtain m where m:
    "(if ?right \<and> Next reg \<noteq> None then map_option P (deref vas (Next reg)) else Some False) = Some m"
    "m \<longrightarrow> (\<exists>t post' treg. post = t # post' \<and> Heap vas t = Some treg \<and> P treg)" by blast
  have "Check op vas reg = Some \<lparr>Accepted = (Content reg \<noteq> MC_Free), MeetsLeft = ?left, MeetsRight = ?right,
      LeftMergeable = l, RightMergeable = m, FailureResult = PageFree\<rparr>"
    by (simp only: Check.simps op Operation.case Check_Free_def Let_def P_def [symmetric] l(1) m(1) Option.bind.simps)
  then show ?thesis using l(2) m(2) op by (auto simp: P_def checked_def op_accepts_def Allocation_def op_lo_def op_hi_def split: if_splits)
qed

lemma Check_outcome:
  assumes "segment (Heap vas) s e pre [r] post a b" "Heap vas r = Some reg" "op_ok op"
    "Address op + Size op \<le> End (Range reg) \<or> Sparse op"
  shows "\<exists>dcr. Check op vas reg = Some dcr \<and> checked op vas pre reg post dcr"
proof (cases "Operation op")
  case (AllocateOperation flags content type)
  with assms show ?thesis by (intro Check_Allocate_outcome) (auto simp: op_ok_def Allocation_def)
qed (rule Check_Free_outcome [OF assms(1,2)])

section \<open>One descriptor\<close>

lemma view_LastSearched [simp]:
  "view (vas\<lparr>LastSearched := p\<rparr>) = view vas" "vas_inv ok used s e (vas\<lparr>LastSearched := p\<rparr>) = vas_inv ok used s e vas"
  by (simp_all add: fun_eq_iff view_def FindRegion_def region_def vas_inv_def)

lemma repainted_LastSearched [simp]:
  "repainted ok used s e lo hi tag (vas\<lparr>LastSearched := p\<rparr>) vas' = repainted ok used s e lo hi tag vas vas'"
  by (simp add: repainted_def)

lemma found_region:
  assumes "vas_inv ok used s e vas" "FindRegion a vas = Some r"
  obtains pre post reg where "inorder (Root (Tree vas)) = pre @ [r] @ post" "Heap vas r = Some reg"
    "Start (Range reg) \<le> a" "a < End (Range reg)"
proof -
  define ids where "ids = inorder (Root (Tree vas))"
  have inv: "tree_inv (Tree vas) ids" "regs (Heap vas) None s ids None e" using assms(1) by (auto simp: vas_inv_def ids_def Let_def)
  with find_region [OF inv(1) regs_lined [OF inv(2)], of a] assms(2) have r: "r \<in> set ids" "region_Contains (region vas r) a" by simp_all
  from r(1) obtain pre post where "ids = pre @ [r] @ post" by (metis append_Cons append_Nil split_list)
  moreover from regs_in [OF inv(2) r(1)] obtain reg where "Heap vas r = Some reg" by blast
  ultimately show thesis using that r(2) by (simp add: ids_def region_def region_Contains_def range_Contains_def)
qed

lemma region_at_LastSearched [simp]:
  "FindRegion a (vas\<lparr>LastSearched := p\<rparr>) = FindRegion a vas" "region_at (vas\<lparr>LastSearched := p\<rparr>) = region_at vas"
  "placed lo hi st r (vas\<lparr>LastSearched := p\<rparr>) vas' = placed lo hi st r vas vas'"
  "joined oper lo hi (vas\<lparr>LastSearched := p\<rparr>) = joined oper lo hi vas"
  by (simp_all add: fun_eq_iff region_at_def FindRegion_def region_def placed_def joined_def)

text \<open>Why an operation is refused, from the first region it meets.\<close>

definition refusal :: "OperationParameters \<Rightarrow> 'c Vas \<Rightarrow> HandleResult option" where
  "refusal op vas = (case FindRegion (Address op) vas of
       None \<Rightarrow> Some ArgumentOutOfRange
     | Some r \<Rightarrow>
         if End (Range (region vas r)) < Address op + Size op \<and> \<not> Sparse op then Some ArgumentOutOfRange
         else if \<not> op_accepts op (region vas r) then (if Tolerant op then None else Some PageFree)
         else if Type (region vas r) AND Permanent \<noteq> 0 then Some Failed
         else None)"

text \<open>What is not changed: all but the hint \<open>LastSearched\<close>.\<close>

definition same_but_hint :: "'c Vas \<Rightarrow> 'c Vas \<Rightarrow> bool" where
  "same_but_hint vas vas' \<longleftrightarrow> vas' = vas\<lparr>LastSearched := LastSearched vas'\<rparr>"

lemma same_but_hint_inv:
  assumes "same_but_hint vas vas'"
  shows "view vas' = view vas" "vas_inv ok used s e vas' = vas_inv ok used s e vas"
  using assms by (metis same_but_hint_def view_LastSearched)+

text \<open>The branches of \<open>operate\<close> once a region accepted the operation.\<close>

definition apply_case :: "'c node_funcs \<Rightarrow> OperationParameters \<Rightarrow> DescriptorCheckResults \<Rightarrow> nat \<Rightarrow> MemoryRegion \<Rightarrow> 'c Vas
    \<Rightarrow> (HandleResult \<times> 'c Vas) option" where
  "apply_case N op dcr r reg vas =
     (if MeetsLeft dcr then
        (if MeetsRight dcr then
           (if LeftMergeable dcr then whole_left N (Address op) (RightMergeable dcr) reg vas
            else if RightMergeable dcr then whole_right N (Address op) reg vas
            else map_option (\<lambda>vas. (Okay, vas)) (update (Some r) (Repurpose op) vas))
         else at_start N op (Address op + Size op) (LeftMergeable dcr) r reg vas)
      else if MeetsRight dcr then at_end N op (Address op) (RightMergeable dcr) r reg vas
      else inside N op (Address op) (Address op + Size op) r reg vas)"

lemma map_option_bind: "map_option (\<lambda>(a, b). f a b) x = Option.bind x (\<lambda>(a, b). Some (f a b))"
  by (cases x) auto

lemma left_neighbour:
  assumes "vas_inv ok used s e vas" "inorder (Root (Tree vas)) = pre @ [q, r] @ post" "Heap vas q = Some qreg" "Heap vas r = Some reg"
  shows "End (Range qreg) = Start (Range reg)"
  using vas_inv_parts(1) [OF assms(1,2)] assms(3,4) by (auto simp: segment_def)

lemma right_neighbour:
  assumes "vas_inv ok used s e vas" "inorder (Root (Tree vas)) = pre @ [r, t] @ post" "Heap vas r = Some reg" "Heap vas t = Some treg"
  shows "Start (Range treg) = End (Range reg)"
  using left_neighbour [OF assms] by simp

lemma checked_left:
  assumes inv: "vas_inv ok used s e vas" and ids: "inorder (Root (Tree vas)) = pre @ [r] @ post" and reg: "Heap vas r = Some reg"
    and dcr: "checked op vas pre reg post dcr" "LeftMergeable dcr"
  obtains pre' q qreg where "pre = pre' @ [q]" "Heap vas q = Some qreg" "tag_of qreg = op_tag (Operation op)"
    "joined (Operation op) (Start (Range reg)) hi vas"
proof -
  from dcr obtain pre' q qreg where q: "pre = pre' @ [q]" "Heap vas q = Some qreg" "joins (Operation op) GuardHigh GuardLow qreg"
    by (auto simp: checked_def)
  with left_neighbour [OF inv, of pre' q r post qreg reg] ids reg have "joined (Operation op) (Start (Range reg)) hi vas"
    unfolding joined_def by (intro bexI [of _ q]) (simp_all add: region_def)
  with q(1,2) joins_tag [OF q(3)] show thesis by (rule that)
qed

lemma checked_right:
  assumes inv: "vas_inv ok used s e vas" and ids: "inorder (Root (Tree vas)) = pre @ [r] @ post" and reg: "Heap vas r = Some reg"
    and dcr: "checked op vas pre reg post dcr" "RightMergeable dcr"
  obtains t post' treg where "post = t # post'" "Heap vas t = Some treg" "tag_of treg = op_tag (Operation op)"
    "joined (Operation op) lo (End (Range reg)) vas"
proof -
  from dcr obtain t post' treg where t: "post = t # post'" "Heap vas t = Some treg" "joins (Operation op) GuardLow GuardHigh treg"
    by (auto simp: checked_def)
  with right_neighbour [OF inv, of pre r t post' reg treg] ids reg have "joined (Operation op) lo (End (Range reg)) vas"
    unfolding joined_def by (intro bexI [of _ t]) (simp_all add: region_def)
  with t(1,2) joins_tag [OF t(3)] show thesis by (rule that)
qed

context node_source
begin

lemma apply_case_ok:
  assumes inv: "vas_inv ok used s e vas" and ids: "inorder (Root (Tree vas)) = pre @ [r] @ post" and reg: "Heap vas r = Some reg"
    and at: "Start (Range reg) \<le> Address op" "Address op < End (Range reg)" and op: "op_ok op"
    and dcr: "checked op vas pre reg post dcr" "Accepted dcr"
  shows "\<exists>res vas'. apply_case N op dcr r reg vas = Some (res, vas')
     \<and> settled s e (op_lo op reg) (op_hi op reg) (op_tag (Operation op)) vas res vas'
     \<and> (res = Okay \<and> \<not> joined (Operation op) (op_lo op reg) (op_hi op reg) vas
        \<longrightarrow> placed (op_lo op reg) (op_hi op reg) (settings (Operation op)) r vas vas')"
proof -
  have wrap: "Address op < Address op + Size op" using op by (simp add: op_ok_def)
  have meets: "MeetsLeft dcr = (op_lo op reg = Start (Range reg))" "MeetsRight dcr = (op_hi op reg = End (Range reg))"
    using dcr by (simp_all add: checked_def)
  have lo: "op_lo op reg = Address op" "Start (Range reg) < Address op" if "\<not> MeetsLeft dcr"
    using that meets at(1) by (auto simp: op_lo_def split: if_splits)
  have hi: "op_hi op reg = Address op + Size op" "Address op + Size op < End (Range reg)" if "\<not> MeetsRight dcr"
    using that meets by (auto simp: op_hi_def split: if_splits)
  note left = checked_left [OF inv ids reg dcr(1)] and right = checked_right [OF inv ids reg dcr(1)]
  show ?thesis
  proof (cases "MeetsLeft dcr"; cases "MeetsRight dcr")
    assume ml: "MeetsLeft dcr" and mr: "MeetsRight dcr"
    show ?thesis
    proof (cases "LeftMergeable dcr"; cases "RightMergeable dcr")
      assume l: "LeftMergeable dcr" and r: "RightMergeable dcr"
      from l obtain pre' q qreg where q: "pre = pre' @ [q]" "Heap vas q = Some qreg" "tag_of qreg = op_tag (Operation op)"
        "joined (Operation op) (Start (Range reg)) (op_hi op reg) vas" by (rule left)
      from r obtain t post' treg where "post = t # post'" "Heap vas t = Some treg" "tag_of treg = op_tag (Operation op)"
        "joined (Operation op) (op_lo op reg) (End (Range reg)) vas" by (rule right)
      with q whole_both_ok [OF inv, of pre' q r t post' qreg reg treg "Address op"] ids reg at ml mr l r meets
      show ?thesis by (auto simp: apply_case_def settled_def)
    next
      assume l: "LeftMergeable dcr" and r: "\<not> RightMergeable dcr"
      from l obtain pre' q qreg where "pre = pre' @ [q]" "Heap vas q = Some qreg" "tag_of qreg = op_tag (Operation op)"
        "joined (Operation op) (Start (Range reg)) (op_hi op reg) vas" by (rule left)
      with whole_left_ok [OF inv, of pre' q r post qreg reg "Address op"] ids reg at ml mr l r meets
      show ?thesis by (auto simp: apply_case_def settled_def)
    next
      assume l: "\<not> LeftMergeable dcr" and r: "RightMergeable dcr"
      from r obtain t post' treg where "post = t # post'" "Heap vas t = Some treg" "tag_of treg = op_tag (Operation op)"
        "joined (Operation op) (op_lo op reg) (End (Range reg)) vas" by (rule right)
      with whole_right_ok [OF inv, of pre r t post' reg treg "Address op"] ids reg at ml mr l r meets
      show ?thesis by (auto simp: apply_case_def settled_def)
    next
      assume l: "\<not> LeftMergeable dcr" and r: "\<not> RightMergeable dcr"
      with repurpose_ok [OF inv ids reg, of op] ml mr meets show ?thesis by (auto simp: apply_case_def settled_def)
    qed
  next
    assume ml: "MeetsLeft dcr" and mr: "\<not> MeetsRight dcr"
    have range: "Start (Range reg) < Address op + Size op" by (rule order.strict_trans1 [OF at(1) wrap])
    show ?thesis
    proof (cases "LeftMergeable dcr")
      case True
      then obtain pre' q qreg where "pre = pre' @ [q]" "Heap vas q = Some qreg" "tag_of qreg = op_tag (Operation op)"
        "joined (Operation op) (Start (Range reg)) (op_hi op reg) vas" by (rule left)
      with at_start_merge_ok [OF inv, of pre' q r post qreg reg "Address op + Size op" op] ids reg range hi [OF mr] ml mr True meets
      show ?thesis by (auto simp: apply_case_def settled_def)
    next
      case False
      with at_start_spawn_ok [OF inv ids reg range hi(2) [OF mr], of op] hi [OF mr] ml mr meets show ?thesis
        by (auto simp: apply_case_def)
    qed
  next
    assume ml: "\<not> MeetsLeft dcr" and mr: "MeetsRight dcr"
    show ?thesis
    proof (cases "RightMergeable dcr")
      case True
      then obtain t post' treg where "post = t # post'" "Heap vas t = Some treg" "tag_of treg = op_tag (Operation op)"
        "joined (Operation op) (op_lo op reg) (End (Range reg)) vas" by (rule right)
      with at_end_merge_ok [OF inv, of pre r t post' reg treg "Address op" op] ids reg lo [OF ml] at(2) ml mr True meets
      show ?thesis by (auto simp: apply_case_def settled_def)
    next
      case False
      with at_end_spawn_ok [OF inv ids reg lo(2) [OF ml] at(2), of op] lo [OF ml] ml mr meets show ?thesis
        by (auto simp: apply_case_def)
    qed
  next
    assume ml: "\<not> MeetsLeft dcr" and mr: "\<not> MeetsRight dcr"
    with inside_ok [OF inv ids reg lo(2) [OF ml] wrap hi(2) [OF mr], of op] lo [OF ml] hi [OF mr] show ?thesis
      by (auto simp: apply_case_def)
  qed
qed

definition operated :: "vaddr \<Rightarrow> vaddr \<Rightarrow> OperationParameters \<Rightarrow> 'c Vas \<Rightarrow> HandleResult \<Rightarrow> vaddr \<Rightarrow> 'c Vas \<Rightarrow> bool" where
  "operated s e op vas res cont vas' \<longleftrightarrow> (case refusal op vas of
       Some err \<Rightarrow> res = err \<and> same_but_hint vas vas'
     | None \<Rightarrow> \<exists>r reg. FindRegion (Address op) vas = Some r \<and> Heap vas r = Some reg
         \<and> Start (Range reg) \<le> Address op \<and> Address op < End (Range reg)
         \<and> (Address op + Size op \<le> End (Range reg) \<or> Sparse op)
         \<and> cont = (if End (Range reg) < Address op + Size op then End (Range reg) else 0)
         \<and> (if op_accepts op reg then settled s e (op_lo op reg) (op_hi op reg) (op_tag (Operation op)) vas res vas'
              \<and> (res = Okay \<and> \<not> joined (Operation op) (op_lo op reg) (op_hi op reg) vas
                 \<longrightarrow> placed (op_lo op reg) (op_hi op reg) (settings (Operation op)) r vas vas')
            else res = Okay \<and> same_but_hint vas vas'))"

lemma operate_outcome:
  assumes inv: "vas_inv ok used s e vas" and op: "op_ok op"
  shows "\<exists>res cont vas'. operate N op vas = Some (res, cont, vas') \<and> operated s e op vas res cont vas'"
proof (cases "FindRegion (Address op) vas")
  case None
  then show ?thesis by (simp add: operate_def operated_def refusal_def same_but_hint_def)
next
  case (Some r)
  with inv obtain pre post reg where r: "inorder (Root (Tree vas)) = pre @ [r] @ post" "Heap vas r = Some reg"
    "Start (Range reg) \<le> Address op" "Address op < End (Range reg)" by (rule found_region)
  define vas1 where "vas1 = (if LastSearched vas = Some r then vas\<lparr>LastSearched := None\<rparr> else vas)"
  have hint: "same_but_hint vas vas1" by (simp add: same_but_hint_def vas1_def)
  have inv1: "vas_inv ok used s e vas1" using inv same_but_hint_inv [OF hint] by simp
  have r1: "inorder (Root (Tree vas1)) = pre @ [r] @ post" "Heap vas1 r = Some reg" using r by (simp_all add: vas1_def)
  have reg: "region vas r = reg" using r(2) by (simp add: region_def)
  let ?past = "End (Range reg) < Address op + Size op"
  show ?thesis
  proof (cases "?past \<and> \<not> Sparse op")
    case True
    with Some r hint reg show ?thesis by (simp add: operate_def operated_def refusal_def vas1_def [symmetric] Let_def)
  next
    case False
    then have fits: "Address op + Size op \<le> End (Range reg) \<or> Sparse op" by (auto simp: not_less)
    from vas_inv_parts(1) [OF inv1 r1(1)] obtain a b where seg: "segment (Heap vas1) s e pre [r] post a b" by auto
    from Check_outcome [OF seg r1(2) op fits] obtain dcr where dcr: "Check op vas1 reg = Some dcr" "checked op vas1 pre reg post dcr" by blast
    then have acc: "Accepted dcr = op_accepts op reg" "FailureResult dcr = PageFree" by (simp_all add: checked_def)
    have operate: "operate N op vas = (let continuation = (if ?past then End (Range reg) else 0) in
        if Accepted dcr then
          (if Type reg AND Permanent \<noteq> 0 then Some (Failed, continuation, vas1)
           else map_option (\<lambda>(res, vas). (res, continuation, vas)) (apply_case N op dcr r reg vas1))
        else if \<not> Tolerant op then Some (FailureResult dcr, continuation, vas1)
        else Some (Okay, continuation, vas1))"
      unfolding operate_def Let_def Some option.case r(2) Option.bind.simps vas1_def [symmetric] if_not_P [OF False] dcr(1)
        apply_case_def map_option_bind by (rule refl)
    show ?thesis
    proof (cases "op_accepts op reg \<and> Type reg AND Permanent = 0")
      case True
      with apply_case_ok [OF inv1 r1 r(3,4) op dcr(2)] acc obtain res vas' where
        a: "apply_case N op dcr r reg vas1 = Some (res, vas')" "settled s e (op_lo op reg) (op_hi op reg) (op_tag (Operation op)) vas1 res vas'"
        "res = Okay \<and> \<not> joined (Operation op) (op_lo op reg) (op_hi op reg) vas1
           \<longrightarrow> placed (op_lo op reg) (op_hi op reg) (settings (Operation op)) r vas1 vas'" by auto
      have "settled s e (op_lo op reg) (op_hi op reg) (op_tag (Operation op)) vas res vas'"
        using a(2) unfolding settled_def repainted_def same_but_hint_inv(1) [OF hint] .
      moreover have "res = Okay \<and> \<not> joined (Operation op) (op_lo op reg) (op_hi op reg) vas
           \<longrightarrow> placed (op_lo op reg) (op_hi op reg) (settings (Operation op)) r vas vas'"
        using a(3) by (simp add: vas1_def split: if_splits)
      ultimately show ?thesis using True a(1) operate acc Some r fits False reg by (auto simp: operated_def refusal_def)
    qed (use operate acc Some r fits False reg hint in \<open>auto simp: operated_def refusal_def\<close>)
  qed
qed

end

end
