(* ===== verification/Vas_Loops.thy ===== *)
theory Vas_Loops
  imports Vas_Execute
begin

text \<open>
  The loops of \<open>Execute\<close>: the search of an anonymous allocation along the list, and the continuation of a
  sparse operation from region to region.
\<close>

section \<open>The search\<close>

definition fits_in :: "vsize \<Rightarrow> MemoryRegion \<Rightarrow> bool" where
  "fits_in sz reg \<longleftrightarrow> Content reg = MC_Free \<and> sz \<le> range_GetSize (Range reg)"

lemma search_finds:
  assumes "regs (Heap vas) p s xs None e" "xs \<noteq> []" "length xs \<le> k"
  shows "search k op vas (hd_ptr xs None) = Some (map_option (\<lambda>i. End (Range (region vas i)) - StartSize op)
     (List.find (\<lambda>i. fits_in (StartSize op) (region vas i)) xs))"
  using assms
proof (induction xs arbitrary: p s k)
  case (Cons i xs)
  from Cons.prems(1) obtain r where r: "Heap vas i = Some r" "Next r = hd_ptr xs None" "regs (Heap vas) (Some i) (End (Range r)) xs None e"
    by (rule regs_ConsE)
  from Cons.prems(3) obtain k' where k: "k = Suc k'" "length xs \<le> k'" by (cases k) auto
  show ?case
  proof (cases "xs = []")
    case True
    with r k show ?thesis by (auto simp: deref_def region_def fits_in_def)
  next
    case False
    then have "Next r \<noteq> None" using r(2) by (cases xs) auto
    with Cons.IH [OF r(3) False k(2)] r(1,2) k(1) show ?thesis by (auto simp: deref_def region_def fits_in_def)
  qed
qed simp

section \<open>An operation on one region\<close>

text \<open>What is known of an operation that is not sparse: it is refused, or done, or lacked nodes.\<close>

definition decided :: "'c node_funcs \<Rightarrow> ('c \<Rightarrow> bool) \<Rightarrow> ('c \<Rightarrow> nat set) \<Rightarrow> vaddr \<Rightarrow> vaddr \<Rightarrow> OperationParameters \<Rightarrow> 'c Vas
    \<Rightarrow> HandleResult \<Rightarrow> 'c Vas \<Rightarrow> bool" where
  "decided N ok used s e op vas res vas' \<longleftrightarrow> (case refusal op vas of
       Some err \<Rightarrow> res = err \<and> same_but_hint vas vas'
     | None \<Rightarrow> (\<exists>r. FindRegion (Address op) vas = Some r \<and>
          (if op_accepts op (region vas r)
           then if res = Okay
             then repainted ok used s e (op_lo op (region vas r)) (op_hi op (region vas r)) (op_tag (Operation op)) vas vas'
               \<and> (\<not> joined (Operation op) (op_lo op (region vas r)) (op_hi op (region vas r)) vas
                  \<longrightarrow> placed (op_lo op (region vas r)) (op_hi op (region vas r)) (settings (Operation op)) r vas vas')
             else \<exists>c. ok c \<and> fst (AllocateNode N c) = res
           else res = Okay \<and> same_but_hint vas vas')))"

section \<open>Freeing over several regions\<close>

lemma op_lo_unat: "Start (Range reg) \<le> Address op \<Longrightarrow> unat (Address op) \<le> unat (op_lo op reg) + 4096"
proof (cases "op_lo op reg = Address op")
  case False
  assume "Start (Range reg) \<le> Address op"
  with False have "op_lo op reg = Address op - PageSize" "Address op - PageSize \<le> Address op" by (auto simp: op_lo_def split: if_splits)
  then show ?thesis by (simp add: PageSize_def unat_sub_if_size word_le_nat_alt split: if_splits)
qed simp

lemma op_hi_unat: "unat (op_hi op reg) \<le> unat (Address op + Size op) + 4096"
proof -
  have "unat (Address op + Size op + PageSize) \<le> unat (Address op + Size op) + 4096"
    unfolding unat_word_ariths(1) [of "Address op + Size op"] by (simp add: PageSize_def)
  then show ?thesis by (auto simp: op_hi_def word_le_nat_alt)
qed

definition source_failed :: "'c node_funcs \<Rightarrow> ('c \<Rightarrow> bool) \<Rightarrow> HandleResult \<Rightarrow> bool" where
  "source_failed N ok res \<longleftrightarrow> res \<noteq> Okay \<and> (\<exists>c. ok c \<and> fst (AllocateNode N c) = res)"

text \<open>
  The effect of freeing the addresses from \<open>lo\<close> to \<open>hi\<close>: no address is used for anything new, only one page to either
  side, a guard, can be freed as well, and success means that all of the addresses are free.
\<close>

definition freed :: "('c \<Rightarrow> bool) \<Rightarrow> ('c \<Rightarrow> nat set) \<Rightarrow> vaddr \<Rightarrow> vaddr \<Rightarrow> vaddr \<Rightarrow> vaddr \<Rightarrow> 'c Vas \<Rightarrow> bool \<Rightarrow> 'c Vas \<Rightarrow> bool" where
  "freed ok used s e lo hi vas all vas' \<longleftrightarrow> vas_inv ok used s e vas'
     \<and> (\<forall>x. view vas' x = view vas x \<or> view vas' x = Some (MC_Free, 0, 0))
     \<and> (\<forall>x. unat x + 4096 < unat lo \<or> unat hi + 4096 \<le> unat x \<longrightarrow> view vas' x = view vas x)
     \<and> (all \<longrightarrow> (\<forall>x. lo \<le> x \<and> x < hi \<longrightarrow> view vas' x = Some (MC_Free, 0, 0)))"

lemma freed_same: "vas_inv ok used s e vas \<Longrightarrow> same_but_hint vas vas' \<Longrightarrow> freed ok used s e lo hi vas False vas'"
  by (simp add: freed_def same_but_hint_inv)

lemma freed_then:
  assumes "freed ok used s e lo mi vas True vas1" "freed ok used s e mi hi vas1 all vas2" "lo \<le> mi" "mi \<le> hi"
  shows "freed ok used s e lo hi vas all vas2"
proof -
  have a: "view vas1 x = view vas x \<or> view vas1 x = Some (MC_Free, 0, 0)" "view vas2 x = view vas1 x \<or> view vas2 x = Some (MC_Free, 0, 0)" for x
    using assms(1,2) by (auto simp: freed_def)
  have "view vas2 x = view vas x" if "unat x + 4096 < unat lo \<or> unat hi + 4096 \<le> unat x" for x
  proof -
    from that assms(3,4) have "unat x + 4096 < unat lo \<or> unat mi + 4096 \<le> unat x" "unat x + 4096 < unat mi \<or> unat hi + 4096 \<le> unat x"
      by (auto simp: word_le_nat_alt)
    with assms(1,2) show ?thesis unfolding freed_def by metis
  qed
  moreover have "view vas2 x = Some (MC_Free, 0, 0)" if all "lo \<le> x" "x < hi" for x
  proof (cases "x < mi")
    case True
    with assms(1) that have "view vas1 x = Some (MC_Free, 0, 0)" unfolding freed_def by blast
    with a(2) [of x] show ?thesis by auto
  next
    case False
    with assms(2) that show ?thesis unfolding freed_def by (meson not_less)
  qed
  moreover have "view vas2 x = view vas x \<or> view vas2 x = Some (MC_Free, 0, 0)" for x using a [of x] by metis
  ultimately show ?thesis using assms(2) by (auto simp: freed_def)
qed

context node_source
begin

lemma Execute_single:
  assumes inv: "vas_inv ok used s e vas" and op: "op_ok op" "\<not> Sparse op" "\<not> (Allocation op \<and> Address op = 0)"
  shows "\<exists>res vas'. Execute (Suc k) N op vas = Some (res, op, vas') \<and> decided N ok used s e op vas res vas'"
proof -
  from operate_outcome [OF inv op(1)] obtain res cont vas' where
    o: "operate N op vas = Some (res, cont, vas')" "operated s e op vas res cont vas'" by blast
  have first: "First vas \<noteq> None" using inv by (auto simp: vas_inv_def Let_def neq_Nil_conv)
  show ?thesis
  proof (cases "refusal op vas")
    case (Some err)
    then have "err \<noteq> Okay" by (auto simp: refusal_def split: option.splits if_splits)
    with Some o op(3) first show ?thesis by (auto simp: operated_def decided_def)
  next
    case None
    with o(2) obtain r reg where r: "FindRegion (Address op) vas = Some r" "Heap vas r = Some reg"
      "Address op + Size op \<le> End (Range reg)" "cont = (if End (Range reg) < Address op + Size op then End (Range reg) else 0)"
      "if op_accepts op reg then settled s e (op_lo op reg) (op_hi op reg) (op_tag (Operation op)) vas res vas'
         \<and> (res = Okay \<and> \<not> joined (Operation op) (op_lo op reg) (op_hi op reg) vas
            \<longrightarrow> placed (op_lo op reg) (op_hi op reg) (settings (Operation op)) r vas vas')
       else res = Okay \<and> same_but_hint vas vas'" using op(2) by (auto simp: operated_def)
    then have "cont = 0" "region vas r = reg" by (simp_all add: region_def not_less [symmetric])
    with None r o(1) op(3) first show ?thesis by (auto simp: decided_def settled_def)
  qed
qed

lemma free_step:
  assumes inv: "vas_inv ok used s e vas" and op: "Operation op = FreeOperation" "Heap vas r = Some reg" "FindRegion (Address op) vas = Some r"
    and at: "Start (Range reg) \<le> Address op" "Address op < End (Range reg)" and wrap: "Address op < Address op + Size op"
    and res: "if op_accepts op reg then settled s e (op_lo op reg) (op_hi op reg) (op_tag (Operation op)) vas Okay vas'
       else same_but_hint vas vas'"
  shows "freed ok used s e (Address op) (min (End (Range reg)) (Address op + Size op)) vas True vas'"
proof (cases "op_accepts op reg")
  case True
  with res op have p: "vas_inv ok used s e vas'"
    "\<And>x. view vas' x = (if op_lo op reg \<le> x \<and> x < op_hi op reg then Some (MC_Free, 0, 0) else view vas x)"
    by (auto simp: settled_def repainted_def op_tag_def)
  have lo: "op_lo op reg \<le> Address op" using at(1) by (auto simp: op_lo_def)
  have hi: "min (End (Range reg)) (Address op + Size op) \<le> op_hi op reg" by (auto simp: op_hi_def)
  have "\<not> (op_lo op reg \<le> x \<and> x < op_hi op reg)"
    if "unat x + 4096 < unat (Address op) \<or> unat (min (End (Range reg)) (Address op + Size op)) + 4096 \<le> unat x" for x
  proof -
    have "unat (op_hi op reg) \<le> unat (min (End (Range reg)) (Address op + Size op)) + 4096"
      using op_hi_unat [of op reg] by (auto simp: op_hi_def min_def)
    with that op_lo_unat [OF at(1)] show ?thesis by (auto simp: word_le_nat_alt word_less_nat_alt)
  qed
  moreover have "op_lo op reg \<le> x \<and> x < op_hi op reg" if "Address op \<le> x" "x < min (End (Range reg)) (Address op + Size op)" for x
    using order.trans [OF lo that(1)] order.strict_trans2 [OF that(2) hi] by blast
  ultimately show ?thesis using p(1) unfolding freed_def p(2) by auto
next
  case False
  then have "Content reg = MC_Free" using op(1) by (simp add: op_accepts_def Allocation_def)
  then have tag: "tag_of reg = (MC_Free, 0, 0)" by (simp add: tag_of_def)
  define ids where "ids = inorder (Root (Tree vas))"
  have t: "tree_inv (Tree vas) ids" "regs (Heap vas) None s ids None e" using inv by (auto simp: vas_inv_def ids_def Let_def)
  have "r \<in> set ids" using find_region [OF t(1) regs_lined [OF t(2)], of "Address op"] op(3) by simp
  then have "view vas x = Some (MC_Free, 0, 0)" if "Address op \<le> x" "x < End (Range reg)" for x
    unfolding view_covers [OF t] covers_def using op(2) tag order.trans [OF at(1) that(1)] that(2) by blast
  with False res inv show ?thesis by (auto simp: freed_def same_but_hint_inv)
qed

lemma Execute_free:
  assumes "vas_inv ok used s e vas" "Operation op = FreeOperation" "Address op < Address op + Size op" "unat (Size op) < k"
  shows "\<exists>res op' vas'. Execute k N op vas = Some (res, op', vas')
     \<and> (source_failed N ok res \<or> freed ok used s e (Address op) (Address op + Size op) vas (res = Okay) vas')"
  using assms
proof (induction k arbitrary: op vas)
  case (Suc k)
  note inv = Suc.prems(1)
  have op: "op_ok op" using Suc.prems(2,3) by (simp add: op_ok_def Allocation_def)
  from operate_outcome [OF inv op] obtain res cont vas1 where
    o: "operate N op vas = Some (res, cont, vas1)" "operated s e op vas res cont vas1" by blast
  have first: "First vas \<noteq> None" using inv by (auto simp: vas_inv_def Let_def neq_Nil_conv)
  have unfold: "Execute (Suc k) N op vas = (if res \<noteq> Okay then Some (res, op, vas1)
        else if cont \<noteq> 0 then Execute k N (op\<lparr>Address := cont, Size := Size op - (cont - Address op)\<rparr>) vas1
        else Some (res, op, vas1))"
    using first o(1) Suc.prems(2) by (auto simp: Allocation_def)
  show ?case
  proof (cases "refusal op vas")
    case (Some err)
    then have "err \<noteq> Okay" by (auto simp: refusal_def split: option.splits if_splits)
    with Some o(2) unfold freed_same [OF inv] show ?thesis by (auto simp: operated_def)
  next
    case None
    with o(2) obtain r reg where r: "FindRegion (Address op) vas = Some r" "Heap vas r = Some reg"
      "Start (Range reg) \<le> Address op" "Address op < End (Range reg)"
      "cont = (if End (Range reg) < Address op + Size op then End (Range reg) else 0)"
      "if op_accepts op reg then settled s e (op_lo op reg) (op_hi op reg) (op_tag (Operation op)) vas res vas1
       else res = Okay \<and> same_but_hint vas vas1" by (auto simp: operated_def)
    show ?thesis
    proof (cases "res = Okay")
      case False
      with r(6) have "source_failed N ok res" by (auto simp: settled_def source_failed_def split: if_splits)
      with False unfold show ?thesis by simp
    next
      case True
      have step: "freed ok used s e (Address op) (min (End (Range reg)) (Address op + Size op)) vas True vas1"
        using r(6) True by (intro free_step [OF inv Suc.prems(2) r(2,1,3,4) Suc.prems(3)]) (simp split: if_splits)
      show ?thesis
      proof (cases "End (Range reg) < Address op + Size op")
        case False
        with r(5) True unfold step [unfolded min_absorb2 [OF leI [OF False]]] show ?thesis by (simp del: Execute.simps)
      next
        case more: True
        define op2 where "op2 = op\<lparr>Address := End (Range reg), Size := Size op - (End (Range reg) - Address op)\<rparr>"
        have op2: "Address op2 + Size op2 = Address op + Size op" "Address op2 = End (Range reg)" "Operation op2 = FreeOperation"
          using Suc.prems(2) by (simp_all add: op2_def)
        have "Size op = (Address op + Size op) - Address op" "Size op2 = (Address op + Size op) - End (Range reg)"
          by (simp_all add: op2_def)
        then have "unat (Size op) = unat (Address op + Size op) - unat (Address op)"
          "unat (Size op2) = unat (Address op + Size op) - unat (End (Range reg))"
          using unat_minus_le [of "Address op" "Address op + Size op"] unat_minus_le [of "End (Range reg)" "Address op + Size op"]
            Suc.prems(3) more by (simp_all add: word_le_nat_alt word_less_nat_alt)
        with r(4) more have "unat (Size op2) < unat (Size op)" by (simp add: word_less_nat_alt)
        then have "unat (Size op2) < k" using Suc.prems(4) by simp
        moreover have "vas_inv ok used s e vas1" using step by (simp add: freed_def)
        ultimately obtain res2 op' vas' where x: "Execute k N op2 vas1 = Some (res2, op', vas')"
          "source_failed N ok res2 \<or> freed ok used s e (End (Range reg)) (Address op + Size op) vas1 (res2 = Okay) vas'"
          using Suc.IH [of vas1 op2] op2 more by auto
        have "End (Range reg) \<noteq> 0" using r(4) by auto
        with r(5) more True unfold have "Execute (Suc k) N op vas = Execute k N op2 vas1" by (simp add: op2_def)
        with x freed_then [OF step [unfolded min_absorb1 [OF less_imp_le [OF more]]] _ less_imp_le [OF r(4)] less_imp_le [OF more]]
        show ?thesis by auto
      qed
    qed
  qed
qed simp

end

end
