(* ===== verification/Vas_Theorems.thy ===== *)
theory Vas_Theorems
  imports Vas_Loops
begin

text \<open>
  The properties of a virtual address space (\<^verbatim>\<open>beelzebub/src/memory/vas.cpp\<close>): creation, allocation at a given
  address and anywhere, release, each for every source of nodes that keeps its contract.
\<close>

section \<open>Shared facts\<close>

definition low_guard :: "u32 \<Rightarrow> vsize" where
  "low_guard type = (if type AND GuardLow \<noteq> 0 then PageSize else 0)"

definition high_guard :: "u32 \<Rightarrow> vsize" where
  "high_guard type = (if type AND GuardHigh \<noteq> 0 then PageSize else 0)"

text \<open>All addresses of a region are used for what its tag says.\<close>

lemma view_region:
  assumes "vas_inv ok used s e vas" "FindRegion a vas = Some r" "Start (Range (region vas r)) \<le> x" "x < End (Range (region vas r))"
  shows "view vas x = Some (tag_of (region vas r))"
proof -
  define ids where "ids = inorder (Root (Tree vas))"
  have t: "tree_inv (Tree vas) ids" "regs (Heap vas) None s ids None e" using assms(1) by (auto simp: vas_inv_def ids_def Let_def)
  have "r \<in> set ids" using find_region [OF t(1) regs_lined [OF t(2)], of a] assms(2) by simp
  with regs_in [OF t(2) this] assms(3,4) show ?thesis
    unfolding view_covers [OF t] covers_def by (auto simp: region_def intro!: bexI [of _ r])
qed

lemma found_bounds:
  assumes "vas_inv ok used s e vas" "FindRegion a vas = Some r"
  shows "Start (Range (region vas r)) \<le> a" "a < End (Range (region vas r))"
proof -
  from assms obtain reg where "Heap vas r = Some reg" "Start (Range reg) \<le> a" "a < End (Range reg)" by (rule found_region)
  then show "Start (Range (region vas r)) \<le> a" "a < End (Range (region vas r))" by (simp_all add: region_def)
qed

lemma vas_inv_First:
  assumes "vas_inv ok used s e vas"
  obtains first where "First vas = Some first"
  using assms by (auto simp: vas_inv_def Let_def neq_Nil_conv)

text \<open>
  What is known of an allocation of the addresses from \<open>lo\<close> to \<open>hi\<close>. A region that is used answers \<open>PageFree\<close>.
\<close>

definition allocated :: "('c \<Rightarrow> bool) \<Rightarrow> ('c \<Rightarrow> nat set) \<Rightarrow> vaddr \<Rightarrow> vaddr \<Rightarrow> vaddr \<Rightarrow> vaddr \<Rightarrow> Operation \<Rightarrow> nat \<Rightarrow> 'c Vas \<Rightarrow> 'c Vas \<Rightarrow> bool" where
  "allocated ok used s e lo hi oper r vas vas' \<longleftrightarrow> vas_inv ok used s e vas'
     \<and> (\<forall>x. lo \<le> x \<and> x < hi \<longrightarrow> view vas x = Some (MC_Free, 0, 0))
     \<and> (\<forall>x. view vas' x = (if lo \<le> x \<and> x < hi then Some (op_tag oper) else view vas x))
     \<and> (\<not> joined oper lo hi vas \<longrightarrow> placed lo hi (settings oper) r vas vas')"

lemma allocation_decided:
  assumes inv: "vas_inv ok used s e vas" and op: "Operation op = AllocateOperation flags content type" "\<not> Sparse op" "\<not> Tolerant op"
    and dec: "decided N ok used s e op vas res vas'" and lohi: "lo = Address op" "hi = Address op + Size op"
  shows "case FindRegion lo vas of
       None \<Rightarrow> res = ArgumentOutOfRange \<and> same_but_hint vas vas'
     | Some r \<Rightarrow>
         if End (Range (region vas r)) < hi then res = ArgumentOutOfRange \<and> same_but_hint vas vas'
         else if Content (region vas r) \<noteq> MC_Free then res = PageFree \<and> same_but_hint vas vas'
         else if Type (region vas r) AND Permanent \<noteq> 0 then res = Failed \<and> same_but_hint vas vas'
         else if res = Okay then allocated ok used s e lo hi (AllocateOperation flags content type) r vas vas'
         else source_failed N ok res"
proof (cases "refusal op vas")
  case (Some err)
  with dec have "res = err" "same_but_hint vas vas'" by (simp_all add: decided_def)
  with Some op lohi show ?thesis by (auto simp: refusal_def op_accepts_def Allocation_def split: option.splits if_splits)
next
  case None
  then obtain r where r: "FindRegion lo vas = Some r" "hi \<le> End (Range (region vas r))" "Content (region vas r) = MC_Free"
    "Type (region vas r) AND Permanent = 0"
    using op by (auto simp: refusal_def op_accepts_def Allocation_def lohi split: option.splits if_splits)
  let ?reg = "region vas r"
  have bounds: "op_lo op ?reg = lo" "op_hi op ?reg = hi" using r(2) op lohi by (auto simp: op_lo_def op_hi_def)
  have "view vas x = Some (MC_Free, 0, 0)" if "lo \<le> x" "x < hi" for x
    using view_region [OF inv r(1), of x] found_bounds [OF inv r(1)] r(2,3) that by (auto simp: tag_of_def)
  moreover have "if res = Okay then repainted ok used s e lo hi (op_tag (Operation op)) vas vas'
      \<and> (\<not> joined (Operation op) lo hi vas \<longrightarrow> placed lo hi (settings (Operation op)) r vas vas')
    else \<exists>c. ok c \<and> fst (AllocateNode N c) = res"
    using dec None r(1,3) op(1) bounds by (cases "res = Okay") (simp_all add: decided_def lohi op_accepts_def Allocation_def)
  ultimately show ?thesis using r op(1) by (auto simp: allocated_def repainted_def source_failed_def)
qed

text \<open>A source of nodes for examples: the state is the list of the nodes in use.\<close>

definition list_nodes :: "nat list node_funcs" where
  "list_nodes = \<lparr>AllocateNode = (\<lambda>c. (Okay, Suc (sum_list c) # c)), NodeAddress = (\<lambda>c. Suc (sum_list c)),
     RemoveNode = (\<lambda>n c. (Okay, removeAll n c))\<rparr>"

interpretation list_source: node_source list_nodes "\<lambda>_. True" set
proof
  show "True \<and> NodeAddress list_nodes c \<notin> set c \<and> set c' = insert (NodeAddress list_nodes c) (set c)"
    if "AllocateNode list_nodes c = (Okay, c')" for c c'
    using that member_le_sum_list [of "Suc (sum_list c)" c] by (auto simp: list_nodes_def)
qed (auto simp: list_nodes_def)

lemma vas_Insert_failed:
  assumes "vas_Insert N reg vas = Some (res, ptr, vas')" "res \<noteq> Okay"
  shows "ptr = None"
  using assms by (auto simp: vas_Insert_def tree_Insert_def Let_def bind_eq_Some_conv)

lemma list_nodes_never_fail [simp]: "\<not> source_failed list_nodes (\<lambda>_. True) res"
  by (auto simp: source_failed_def list_nodes_def)

text \<open>An address space of eight pages, all of them free.\<close>

definition example_space :: "nat list Vas" where
  "example_space = \<lparr>First = Some 5, LastSearched = None, Heap = [5 \<mapsto> new_region 0x1000 0x9000 0 MC_Free 0 None None],
     Tree = \<lparr>Root = AvlTreeNode Nullptr Nullptr 1 5, NodeCount = 1, Cookie = [5]\<rparr>\<rparr>"

lemma example_space_inv: "vas_inv (\<lambda>_. True) set 0x1000 0x9000 example_space"
  by (simp add: vas_inv_def example_space_def tree_inv_def)

lemma example_space_find: "FindRegion a example_space = (if 0x1000 \<le> a \<and> a < 0x9000 then Some 5 else None)"
  by (simp add: FindRegion_def tree_Find_def example_space_def region_def Compare_region_vaddr_def Compare_range_vaddr_def) auto

lemma example_space_region: "region example_space 5 = new_region 0x1000 0x9000 0 MC_Free 0 None None"
  by (simp add: region_def example_space_def)

section \<open>Creation\<close>

text \<open>
  C8. An address space that was initialised for a range of addresses has exactly those, all of them
  free, and satisfies the invariant; if no node can be had, the error of the source is returned.\<close>

theorem Vas_Initialize_correct:
  assumes source: "node_source N ok used" and c: "ok cookie" and range: "start < fin"
  shows "\<exists>res vas. Initialize N start fin cookie (Vas_new cookie') = Some (res, vas) \<and>
     (if res = Okay
      then vas_inv ok used start fin vas \<and> (\<forall>x. view vas x = (if start \<le> x \<and> x < fin then Some (MC_Free, 0, 0) else None))
      else source_failed N ok res \<and> First vas = None)"
proof -
  define vas0 where "vas0 = (Vas_new cookie')\<lparr>Tree := (Tree (Vas_new cookie'))\<lparr>Cookie := cookie\<rparr>\<rparr>"
  define reg where "reg = new_region start fin 0 MC_Free 0 None None"
  have "\<exists>res ptr vas. vas_Insert N reg vas0 = Some (res, ptr, vas) \<and> node_source.inserted N ok used vas0 [] [] reg res ptr vas"
    using c range by (intro node_source.insert_outcome [OF source])
      (simp_all add: vas0_def Vas_new_def tree_inv_def lined_def reg_def region_ok_def)
  then obtain res ptr vas where i: "vas_Insert N reg vas0 = Some (res, ptr, vas)" "node_source.inserted N ok used vas0 [] [] reg res ptr vas"
    by blast
  then have call: "Initialize N start fin cookie (Vas_new cookie') = Some (res, vas\<lparr>First := ptr\<rparr>)"
    by (simp add: Initialize_def vas0_def reg_def)
  show ?thesis
  proof (cases "res = Okay")
    case True
    obtain n t where n: "ptr = Some n" "vas = vas0\<lparr>Tree := t, Heap := (Heap vas0)(n \<mapsto> reg)\<rparr>" "tree_inv t ([] @ n # [])" "ok (Cookie t)"
      "set ([] @ n # []) \<subseteq> used (Cookie t)"
      using node_source.inserted_OkayE [OF source i(2) [unfolded True]] by auto
    let ?vas = "vas\<lparr>First := ptr\<rparr>"
    have regs: "regs (Heap ?vas) None start [n] None fin" using range n(2) by (simp add: reg_def)
    have tree: "tree_inv (Tree ?vas) [n]" using n(2,3) by simp
    have "vas_inv ok used start fin ?vas" using n tree regs range by (simp add: vas_inv_def Let_def tree_inv_def)
    moreover have "view ?vas x = Some tag \<longleftrightarrow> start \<le> x \<and> x < fin \<and> tag = (MC_Free, 0, 0)" for x tag
      unfolding view_covers [OF tree regs] using n(2) by (auto simp: reg_def tag_of_def new_region_def)
    then have "view ?vas x = (if start \<le> x \<and> x < fin then Some (MC_Free, 0, 0) else None)" for x
      by (metis (no_types, lifting) option.exhaust)
    ultimately show ?thesis using call True by simp
  next
    case False
    with i(2) c have "source_failed N ok res" by (auto simp: node_source.inserted_def [OF source] source_failed_def vas0_def)
    moreover have "ptr = None" using i(1) False by (rule vas_Insert_failed)
    ultimately show ?thesis using call False by simp
  qed
qed

theorem Vas_Initialize_correct_witness:
  "\<exists>vas. Initialize list_nodes 0x1000 0x9000 [] (Vas_new []) = Some (Okay, vas) \<and> view vas 0x8FFF = Some (MC_Free, 0, 0) \<and> view vas 0x9000 = None"
proof -
  from Vas_Initialize_correct [OF list_source.node_source_axioms TrueI, of "0x1000" "0x9000" "[]" "[]"]
  obtain res vas where "Initialize list_nodes 0x1000 0x9000 [] (Vas_new []) = Some (res, vas)"
    "if res = Okay then vas_inv (\<lambda>_. True) set 0x1000 0x9000 vas
       \<and> (\<forall>x. view vas x = (if 0x1000 \<le> x \<and> x < 0x9000 then Some (MC_Free, 0, 0) else None))
     else source_failed list_nodes (\<lambda>_. True) res \<and> First vas = None" by auto
  then show ?thesis by (auto split: if_splits)
qed

section \<open>Allocation\<close>

text \<open>An allocation at an address runs the operation on one region.\<close>

lemma Allocate_at_decided:
  assumes source: "node_source N ok used" and inv: "vas_inv ok used s e vas"
    and lo: "lo = vaddr - low_guard type" and hi: "hi = vaddr + sz + high_guard type"
    and nonzero: "vaddr \<noteq> 0" "lo \<noteq> 0" and range: "lo < hi"
  obtains op res vas' where "Allocate (Suc k) N vaddr sz flags content type vas = Some (res, vaddr, vas')"
    "decided N ok used s e op vas res vas'" "Operation op = AllocateOperation flags content type" "\<not> Sparse op" "\<not> Tolerant op"
    "lo = Address op" "hi = Address op + Size op"
proof -
  define op where "op = \<lparr>Operation = AllocateOperation flags content type, StartSize = sz + low_guard type + high_guard type,
    Address = lo, Size = sz + low_guard type + high_guard type, Sparse = False, Tolerant = False\<rparr>"
  have end_op: "lo = Address op" "hi = Address op + Size op" by (simp_all add: op_def lo hi)
  have op: "\<not> Sparse op" "\<not> (Allocation op \<and> Address op = 0)" using nonzero(2) by (simp_all add: op_def)
  from this(1) range have "op_ok op" unfolding op_ok_def end_op by simp
  with op obtain res vas' where
    x: "Execute (Suc k) N op vas = Some (res, op, vas')" "decided N ok used s e op vas res vas'"
    using node_source.Execute_single [OF source inv, of op k] by blast
  from inv obtain first where "First vas = Some first" by (rule vas_inv_First)
  then have "Allocate (Suc k) N vaddr sz flags content type vas = Some (res, vaddr, vas')"
    using x(1) nonzero(1) by (simp add: Allocate_def op_def lo low_guard_def [symmetric] high_guard_def [symmetric] Let_def del: Execute.simps)
  moreover have "Operation op = AllocateOperation flags content type" "\<not> Tolerant op" by (simp_all add: op_def)
  ultimately show thesis using that x(2) op(1) end_op by blast
qed

text \<open>A request for both guards never extends a neighbour.\<close>

lemma guarded_not_joined:
  assumes "type AND GuardLow \<noteq> 0" "type AND GuardHigh \<noteq> 0"
  shows "\<not> joined (AllocateOperation flags content type) lo hi vas"
  using assms by (auto simp: joined_def and.commute)

text \<open>
  C4. Allocating at a given address. The call returns, whatever the source of nodes does. The requested
  range, with the guard pages, has to lie in one region that is free and not permanent, otherwise the allocation is refused
  and only the search hint is changed: a range outside the space or over the end of its region with \<open>ArgumentOutOfRange\<close>, one in
  a permanent region with \<open>Failed\<close>, one in a region in use with an error (which one, and that it is not the documented one, is
  \<open>Allocate_over_used_answers_PageFree\<close> below). On success all of the range was free, it has the requested content, flags and type,
  no other address is used differently, and the invariant holds. Unless it could be joined to a neighbour, which is never the
  case for a request with both guards, the range is a region of its own that records exactly the requested
  settings, guards included, and every region but the one it was taken from keeps its range and settings. (A range that is joined
  to a neighbour gets the neighbour's guards: \<open>joining_loses_guard\<close> below.) The only other reason to fail is the source of nodes.\<close>

theorem Vas_Allocate_at_correct:
  assumes source: "node_source N ok used" and inv: "vas_inv ok used s e vas"
    and lo: "lo = vaddr - low_guard type" and hi: "hi = vaddr + sz + high_guard type"
    and nonzero: "vaddr \<noteq> 0" "lo \<noteq> 0" and range: "lo < hi"
  shows "\<exists>res vas'. Allocate (Suc k) N vaddr sz flags content type vas = Some (res, vaddr, vas') \<and>
     (case FindRegion lo vas of
        None \<Rightarrow> res = ArgumentOutOfRange \<and> same_but_hint vas vas'
      | Some r \<Rightarrow>
          if End (Range (region vas r)) < hi then res = ArgumentOutOfRange \<and> same_but_hint vas vas'
          else if Content (region vas r) \<noteq> MC_Free then res \<noteq> Okay \<and> same_but_hint vas vas'
          else if Type (region vas r) AND Permanent \<noteq> 0 then res = Failed \<and> same_but_hint vas vas'
          else if res = Okay
          then vas_inv ok used s e vas'
             \<and> (\<forall>x. lo \<le> x \<and> x < hi \<longrightarrow> view vas x = Some (MC_Free, 0, 0))
             \<and> (\<forall>x. view vas' x = (if lo \<le> x \<and> x < hi then Some (op_tag (AllocateOperation flags content type)) else view vas x))
             \<and> (\<not> joined (AllocateOperation flags content type) lo hi vas \<longrightarrow> placed lo hi (flags, content, type) r vas vas')
          else source_failed N ok res)"
proof -
  from Allocate_at_decided [OF source inv lo hi nonzero range, of k flags content] obtain op res vas' where
    a: "Allocate (Suc k) N vaddr sz flags content type vas = Some (res, vaddr, vas')" "decided N ok used s e op vas res vas'"
      "Operation op = AllocateOperation flags content type" "\<not> Sparse op" "\<not> Tolerant op" "lo = Address op" "hi = Address op + Size op" .
  note d = allocation_decided [OF inv a(3-5,2,6,7), unfolded allocated_def settings.simps]
  have refused: "(if a then A else if b then res \<noteq> Okay \<and> B else C)" if "if a then A else if b then res = PageFree \<and> B else C" for a b A B C
    using that by (simp split: if_split_asm)
  show ?thesis
  proof (cases "FindRegion lo vas")
    case None
    with a(1) d show ?thesis by simp
  next
    case (Some r)
    note r = d [unfolded Some option.case, THEN refused]
    show ?thesis unfolding Some option.case by (rule exI [of _ res], rule exI [of _ vas'], rule conjI [OF a(1) r])
  qed
qed

theorem Vas_Allocate_at_correct_witness:
  "\<exists>vas'. Allocate 1 list_nodes 0x4000 0x1000 1 MC_Generic GuardFull example_space = Some (Okay, 0x4000, vas')
     \<and> view vas' 0x3000 = Some (MC_Generic, 1, 0) \<and> view vas' 0x6000 = view example_space 0x6000
     \<and> region_at vas' 0x4000 = Some (\<lparr>Start = 0x3000, End = 0x6000\<rparr>, 1, MC_Generic, GuardFull)"
proof -
  have g: "low_guard GuardFull = 0x1000" "high_guard GuardFull = 0x1000"
    by (simp_all add: low_guard_def high_guard_def GuardLow_def GuardHigh_def GuardFull_def PageSize_def)
  have "\<not> joined (AllocateOperation 1 MC_Generic GuardFull) 0x3000 0x6000 example_space"
    by (rule guarded_not_joined) (simp_all add: GuardLow_def GuardHigh_def GuardFull_def)
  then show ?thesis
    using Vas_Allocate_at_correct [OF list_source.node_source_axioms example_space_inv, of "0x3000" "0x4000" GuardFull "0x6000" "0x1000" 0 1 MC_Generic] g
    by (auto simp: example_space_find example_space_region new_region_def placed_def op_tag_def GuardFull_def Permanent_def split: if_splits)
qed

text \<open>
  The answer for a region in use is \<open>PageFree\<close>, the code of an invalid operation on a free page, and not \<open>PageInUse\<close>: both
  \<open>Check\<close> functions set it.
\<close>

lemma Allocate_over_used_answers_PageFree:
  assumes source: "node_source N ok used" and inv: "vas_inv ok used s e vas"
    and lo: "lo = vaddr - low_guard type" and hi: "hi = vaddr + sz + high_guard type"
    and nonzero: "vaddr \<noteq> 0" "lo \<noteq> 0" and range: "lo < hi"
    and used: "FindRegion lo vas = Some r" "hi \<le> End (Range (region vas r))" "Content (region vas r) \<noteq> MC_Free"
  shows "\<exists>vas'. Allocate (Suc k) N vaddr sz flags content type vas = Some (PageFree, vaddr, vas')"
proof -
  from Allocate_at_decided [OF source inv lo hi nonzero range, of k flags content] obtain op res vas' where
    a: "Allocate (Suc k) N vaddr sz flags content type vas = Some (res, vaddr, vas')" "decided N ok used s e op vas res vas'"
      "Operation op = AllocateOperation flags content type" "\<not> Sparse op" "\<not> Tolerant op" "lo = Address op" "hi = Address op + Size op" .
  from allocation_decided [OF inv a(3-5,2,6,7)] a(1) used show ?thesis by (auto simp: not_less [symmetric])
qed

lemma Execute_anywhere:
  assumes source: "node_source N ok used" and inv: "vas_inv ok used s e vas" and s: "s \<noteq> 0"
    and op: "Operation op = AllocateOperation flags content type" "Address op = 0" "\<not> Sparse op" "Size op = StartSize op" "Size op \<noteq> 0"
    and k: "length (inorder (Root (Tree vas))) < k"
  shows "case List.find (\<lambda>i. fits_in (Size op) (region vas i)) (inorder (Root (Tree vas))) of
       None \<Rightarrow> Execute k N op vas = Some (OutOfMemory, op, vas)
     | Some r \<Rightarrow> (let op' = op\<lparr>Address := End (Range (region vas r)) - Size op\<rparr> in
         FindRegion (Address op') vas = Some r \<and> op_ok op'
         \<and> (\<exists>res vas'. Execute k N op vas = Some (res, op', vas') \<and> decided N ok used s e op' vas res vas'))"
proof -
  define ids where "ids = inorder (Root (Tree vas))"
  have t: "tree_inv (Tree vas) ids" "regs (Heap vas) None s ids None e" "ids \<noteq> []" "First vas = hd_ptr ids None"
    using inv by (auto simp: vas_inv_def ids_def Let_def)
  obtain k' where k': "k = Suc k'" "length ids \<le> k'" using k by (cases k) (auto simp: ids_def)
  then obtain k2 where k2: "k' = Suc k2" using t(3) by (cases k') auto
  from inv obtain first where first: "First vas = Some first" by (rule vas_inv_First)
  let ?find = "List.find (\<lambda>i. fits_in (Size op) (region vas i)) ids"
  have step: "Execute k N op vas = (case ?find of None \<Rightarrow> Some (OutOfMemory, op, vas)
       | Some r \<Rightarrow> Execute k' N (op\<lparr>Address := End (Range (region vas r)) - Size op\<rparr>) vas)"
    using search_finds [OF t(2,3) k'(2), of op] op first t(4) k'(1)
    by (cases ?find) (simp_all add: Allocation_def)
  show ?thesis
  proof (cases ?find)
    case None
    with step show ?thesis by (simp add: ids_def)
  next
    case (Some r)
    then have r: "r \<in> set ids" "fits_in (Size op) (region vas r)" by (auto simp: find_Some_iff in_set_conv_nth)
    then obtain reg where reg: "Heap vas r = Some reg" "s \<le> Start (Range reg)" "Start (Range reg) < End (Range reg)" using regs_in [OF t(2)] by blast
    define op' where "op' = op\<lparr>Address := End (Range reg) - Size op\<rparr>"
    have "Size op \<le> End (Range reg) - Start (Range reg)" using r(2) reg(1) by (simp add: fits_in_def range_GetSize_def region_def)
    then have a: "Start (Range reg) \<le> Address op'" "Address op' < End (Range reg)"
      using reg(3) op(5) by (simp_all add: op'_def) unat_arith+
    then have "Address op' \<noteq> 0" using s reg(2) by (metis order.trans word_le_0_iff)
    moreover have ok': "op_ok op'" using a op by (simp add: op_ok_def op'_def)
    moreover have "FindRegion (Address op') vas = Some r"
      using find_hit [OF t(1) regs_lined [OF t(2)] r(1)] a reg(1) by (simp add: region_Contains_def range_Contains_def region_def)
    moreover obtain res vas' where "Execute (Suc k2) N op' vas = Some (res, op', vas')" "decided N ok used s e op' vas res vas'"
      using node_source.Execute_single [OF source inv ok', of k2] op \<open>Address op' \<noteq> 0\<close> by (auto simp: op'_def)
    ultimately show ?thesis using step Some k2 reg(1) by (simp add: ids_def op'_def region_def Let_def del: Execute.simps)
  qed
qed

text \<open>
  C5. Allocating anywhere. The search along the list ends, and the call returns. If no free region is
  large enough for the request and its guards, the result is \<open>OutOfMemory\<close> and nothing changes. Otherwise the first such
  region is used, at its end: the address returned is the first after the lower guard, and the outcome is that of an allocation there.\<close>

theorem Vas_Allocate_anywhere_correct:
  assumes source: "node_source N ok used" and inv: "vas_inv ok used s e vas" and s: "s \<noteq> 0"
    and len: "len = sz + low_guard type + high_guard type" "len \<noteq> 0" and k: "length (inorder (Root (Tree vas))) < k"
  shows "\<exists>res addr vas'. Allocate k N 0 sz flags content type vas = Some (res, addr, vas') \<and>
     (case List.find (\<lambda>i. fits_in len (region vas i)) (inorder (Root (Tree vas))) of
        None \<Rightarrow> res = OutOfMemory \<and> vas' = vas
      | Some r \<Rightarrow>
          (let hi = End (Range (region vas r)); lo = hi - len in
           addr = lo + low_guard type
           \<and> (if Type (region vas r) AND Permanent \<noteq> 0 then res = Failed else res = Okay \<or> source_failed N ok res)
           \<and> (if res = Okay
              then vas_inv ok used s e vas' \<and> (\<forall>x. lo \<le> x \<and> x < hi \<longrightarrow> view vas x = Some (MC_Free, 0, 0))
                 \<and> (\<forall>x. view vas' x = (if lo \<le> x \<and> x < hi then Some (op_tag (AllocateOperation flags content type)) else view vas x))
              else same_but_hint vas vas' \<or> source_failed N ok res)))"
proof -
  define op where "op = \<lparr>Operation = AllocateOperation flags content type, StartSize = len,
    Address = 0, Size = len, Sparse = False, Tolerant = False\<rparr>"
  have op: "Operation op = AllocateOperation flags content type" "Address op = 0" "\<not> Sparse op" "Size op = StartSize op" "Size op \<noteq> 0"
    "Size op = len" "\<not> Tolerant op" using len(2) by (simp_all add: op_def)
  note any = Execute_anywhere [OF source inv s op(1-5) k, unfolded op(6)]
  from inv obtain first where "First vas = Some first" by (rule vas_inv_First)
  then have call: "Allocate k N 0 sz flags content type vas =
      do { (res, op', vas') \<leftarrow> Execute k N op vas; Some (res, Address op' + low_guard type, vas') }"
    by (simp add: Allocate_def op_def len(1) low_guard_def [symmetric] high_guard_def [symmetric] Let_def)
  show ?thesis
  proof (cases "List.find (\<lambda>i. fits_in len (region vas i)) (inorder (Root (Tree vas)))")
    case None
    with any call show ?thesis by simp
  next
    case (Some r)
    define op' where "op' = op\<lparr>Address := End (Range (region vas r)) - len\<rparr>"
    from any Some obtain res vas' where x: "FindRegion (Address op') vas = Some r" "Execute k N op vas = Some (res, op', vas')"
      "decided N ok used s e op' vas res vas'" by (auto simp: op'_def Let_def)
    have lohi: "End (Range (region vas r)) - len = Address op'" "End (Range (region vas r)) = Address op' + Size op'"
      by (simp_all add: op'_def op(6))
    have op': "Operation op' = AllocateOperation flags content type" "\<not> Sparse op'" "\<not> Tolerant op'" using op by (simp_all add: op'_def)
    note dec = allocation_decided [OF inv op' x(3) lohi]
    have "fits_in len (region vas r)" using Some by (auto simp: find_Some_iff)
    with dec x(1) lohi(1) call x(2) Some show ?thesis by (auto simp: Let_def fits_in_def allocated_def split: if_splits)
  qed
qed

theorem Vas_Allocate_anywhere_correct_witness:
  "\<exists>vas'. Allocate 2 list_nodes 0 0x1000 1 MC_Generic GuardHigh example_space = Some (Okay, 0x7000, vas')
     \<and> view vas' 0x7000 = Some (MC_Generic, 1, 0)"
proof -
  have g: "low_guard GuardHigh = 0" "high_guard GuardHigh = 0x1000" by (simp_all add: low_guard_def high_guard_def GuardLow_def GuardHigh_def PageSize_def)
  have f: "List.find (\<lambda>i. fits_in 0x2000 (region example_space i)) (inorder (Root (Tree example_space))) = Some 5"
    by (simp add: example_space_def fits_in_def region_def new_region_def range_GetSize_def)
  have "length (inorder (Root (Tree example_space))) < 2" by (simp add: example_space_def)
  with Vas_Allocate_anywhere_correct [OF list_source.node_source_axioms example_space_inv, of "0x2000" "0x1000" GuardHigh 2 1 MC_Generic] g f
  show ?thesis by (auto simp: example_space_region new_region_def Let_def op_tag_def GuardHigh_def GuardFull_def split: if_splits)
qed

section \<open>Release\<close>


text \<open>An address space with one page in use, between two free ones.\<close>

definition example_used :: "nat list Vas" where
  "example_used = \<lparr>First = Some 2, LastSearched = None,
     Heap = [2 \<mapsto> new_region 0x1000 0x4000 0 MC_Free 0 None (Some 5), 5 \<mapsto> new_region 0x4000 0x5000 1 MC_Generic 0 (Some 2) (Some 7),
       7 \<mapsto> new_region 0x5000 0x9000 0 MC_Free 0 (Some 5) None],
     Tree = \<lparr>Root = AvlTreeNode (AvlTreeNode Nullptr Nullptr 1 2) (AvlTreeNode Nullptr Nullptr 1 7) 2 5, NodeCount = 3, Cookie = [2, 5, 7]\<rparr>\<rparr>"







section \<open>A guard that is lost\<close>

text \<open>
  A page is requested with a high guard, right after a page that is used in the same way. The region of that page is extended over the
  new one and its guard page, and keeps its type: nothing records that the last page is a guard.
\<close>

lemma joining_loses_guard:
  "\<exists>vas'. Allocate 1 list_nodes 0x5000 0x1000 1 MC_Generic GuardHigh example_used = Some (Okay, 0x5000, vas')
     \<and> region_at vas' 0x5000 = Some (\<lparr>Start = 0x4000, End = 0x7000\<rparr>, 1, MC_Generic, 0)"
proof -
  let ?vas = "example_used\<lparr>Heap := [2 \<mapsto> new_region 0x1000 0x4000 0 MC_Free 0 None (Some 5), 5 \<mapsto> new_region 0x4000 0x7000 1 MC_Generic 0 (Some 2) (Some 7),
       7 \<mapsto> new_region 0x7000 0x9000 0 MC_Free 0 (Some 5) None]\<rparr>"
  have find: "FindRegion 0x5000 ?vas = Some 5"
    by (simp add: FindRegion_def tree_Find_def example_used_def region_def Compare_region_vaddr_def Compare_range_vaddr_def)
  have "Allocate 1 list_nodes 0x5000 0x1000 1 MC_Generic GuardHigh example_used = Some (Okay, 0x5000, ?vas)"
    by (simp add: Allocate_def example_used_def operate_def FindRegion_def tree_Find_def region_def Compare_region_vaddr_def
        Compare_range_vaddr_def Check_Allocate_def Let_def at_start_def MemoryContentsMergeable_def GuardHigh_def GuardLow_def GuardFull_def
        PageSize_def Permanent_def Allocation_def deref_def update_def new_region_def set_Start_def set_End_def fun_upd_twist)
  moreover have "region_at ?vas 0x5000 = Some (\<lparr>Start = 0x4000, End = 0x7000\<rparr>, 1, MC_Generic, 0)"
    by (simp add: region_at_def find region_def)
  ultimately show ?thesis by blast
qed

section \<open>When the source of nodes fails\<close>

text \<open>
  A region is shrunk before the node for the new one is requested, and it is not enlarged again when
  that fails: the addresses after the request are lost to the address space, which no longer has a region for them.
\<close>

definition failing_nodes :: "nat list node_funcs" where
  "failing_nodes = list_nodes\<lparr>AllocateNode := (\<lambda>c. (OutOfMemory, c))\<rparr>"

lemma failed_Spawn_loses_addresses:
  "\<exists>vas'. Allocate 1 failing_nodes 0x4000 0x1000 1 MC_Generic 0 example_space = Some (OutOfMemory, 0x4000, vas')
     \<and> view example_space 0x6000 = Some (MC_Free, 0, 0) \<and> view vas' 0x6000 = None"
proof -
  let ?h = "[5 \<mapsto> (new_region 0x1000 0x4000 0 MC_Free 0 None None)]"
  have "Allocate 1 failing_nodes 0x4000 0x1000 1 MC_Generic 0 example_space = Some (OutOfMemory, 0x4000, example_space\<lparr>Heap := ?h\<rparr>)"
    by (simp add: Allocate_def example_space_def failing_nodes_def list_nodes_def operate_def FindRegion_def tree_Find_def region_def
        Compare_region_vaddr_def Compare_range_vaddr_def Check_Allocate_def Let_def inside_def update_def Spawn_def vas_Insert_def
        tree_Insert_def Create_def Compare_region_def Compare_range_def new_region_def set_End_def Allocation_def Permanent_def)
  moreover have "view (example_space\<lparr>Heap := ?h\<rparr>) 0x6000 = None" "view example_space 0x6000 = Some (MC_Free, 0, 0)"
    by (simp_all add: view_def FindRegion_def tree_Find_def region_def example_space_def Compare_region_vaddr_def
        Compare_range_vaddr_def new_region_def tag_of_def)
  ultimately show ?thesis by blast
qed

end
