(* ===== verification/Cmd_Options.thy ===== *)
theory Cmd_Options
  imports Conversions "HOL-Library.Monad_Syntax"
begin

text \<open>
  \<^verbatim>\<open>libs/common/src/cmd_options.cpp\<close>, \<^verbatim>\<open>sysheaders/common/cmd_options.hpp\<close>: the parser of the kernel's command
  line. \<open>StartParsing\<close> works in place on the buffer of the command line, in two passes; options are then looked for one by
  one (\<open>ParseOption\<close>) or as a batch (\<open>Next\<close>).

  The buffer is the list of its characters, the terminating NUL included. A pointer into it is an index, a read
  beyond it or through a null pointer is \<open>None\<close>. Options that are linked by \<open>Next\<close> are a list. A result handle is the result,
  \<open>None\<close> for the invalid handle an option starts with. Sizes are numbers; where a size can wrap around it is written out.
\<close>

section \<open>Memory and strings\<close>

definition rd :: "string \<Rightarrow> nat \<Rightarrow> char option" where
  "rd buf i = (if i < length buf then Some (buf ! i) else None)"

definition is_NUL :: "char \<Rightarrow> bool" where
  "is_NUL c \<longleftrightarrow> c = CHR 0x00"

text \<open>The C string at an index.\<close>

definition cstr :: "string \<Rightarrow> nat \<Rightarrow> string option" where
  "cstr buf i = (if list_ex is_NUL (drop i buf) then Some (takeWhile (\<lambda>c. \<not> is_NUL c) (drop i buf)) else None)"

definition strlen :: "string \<Rightarrow> nat \<Rightarrow> nat option" where
  "strlen buf i = map_option length (cstr buf i)"

text \<open>Whether \<open>strncmp(buf + i, s, n)\<close> is zero, for a string \<open>s\<close> outside of the buffer.\<close>

fun strncmp_eq :: "string \<Rightarrow> nat \<Rightarrow> string \<Rightarrow> nat \<Rightarrow> bool option" where
  "strncmp_eq buf i s 0 = Some True"
| "strncmp_eq buf i s (Suc n) = do {
     c \<leftarrow> rd buf i;
     if c \<noteq> char_at s 0 then Some False
     else if is_NUL c then Some True
     else strncmp_eq buf (i + 1) (drop 1 s) n }"

text \<open>Whether \<open>memchr(buf + i, c, n)\<close> finds the character.\<close>

fun memchr_found :: "string \<Rightarrow> nat \<Rightarrow> char \<Rightarrow> nat \<Rightarrow> bool option" where
  "memchr_found buf i c 0 = Some False"
| "memchr_found buf i c (Suc n) = do {
     d \<leftarrow> rd buf i;
     if d = c then Some True else memchr_found buf (i + 1) c n }"

section \<open>State\<close>

datatype ValueTypes = BooleanByPresence | BooleanExplicit | StringType | SignedInteger | UnsignedInteger | FloatType

text \<open>The members of the union are fields: the one of the value type is the only one that is used.\<close>

record OptionSpecification =
  ShortForm :: "string option"
  LongForm :: "string option"
  ValueType :: ValueTypes
  ParsingResult :: "HandleResult option"
  StringValue :: "nat option"
  BooleanValue :: bool
  SignedIntegerValue :: u64
  UnsignedIntegerValue :: u64

definition OptionSpecification_new :: "string option \<Rightarrow> string option \<Rightarrow> ValueTypes \<Rightarrow> OptionSpecification" where
  "OptionSpecification_new sf lf vt = \<lparr>ShortForm = sf, LongForm = lf, ValueType = vt, ParsingResult = None,
     StringValue = None, BooleanValue = False, SignedIntegerValue = 0, UnsignedIntegerValue = 0\<rparr>"

record OptionParser =
  InputString :: string
  Length :: nat
  TokenCount :: nat
  Started :: bool

definition OptionParser_new :: OptionParser where
  "OptionParser_new = \<lparr>InputString = [], Length = 0, TokenCount = 0, Started = False\<rparr>"

section \<open>StartParsing\<close>

text \<open>The three flags of the loops.\<close>

record quoting =
  underEscape :: bool
  underSingleQuotes :: bool
  underDoubleQuotes :: bool

definition no_quoting :: quoting where
  "no_quoting = \<lparr>underEscape = False, underSingleQuotes = False, underDoubleQuotes = False\<rparr>"

definition unfinished :: "quoting \<Rightarrow> bool" where
  "unfinished q \<longleftrightarrow> underEscape q \<or> underSingleQuotes q \<or> underDoubleQuotes q"

text \<open>The first pass separates the elements.\<close>

definition first_char :: "quoting \<Rightarrow> char \<Rightarrow> char \<times> quoting" where
  "first_char q c =
     (if underEscape q then (c, q\<lparr>underEscape := False\<rparr>)
      else if underSingleQuotes q then
        (if c = CHR 0x5C then (c, q\<lparr>underEscape := True\<rparr>)
         else if c = CHR 0x27 then (c, q\<lparr>underSingleQuotes := False\<rparr>)
         else (c, q))
      else if underDoubleQuotes q then
        (if c = CHR 0x5C then (c, q\<lparr>underEscape := True\<rparr>)
         else if c = CHR 0x22 then (c, q\<lparr>underDoubleQuotes := False\<rparr>)
         else (c, q))
      else
        (if c = CHR 0x5C then (c, q\<lparr>underEscape := True\<rparr>)
         else if c = CHR 0x27 then (c, q\<lparr>underSingleQuotes := True\<rparr>)
         else if c = CHR 0x22 then (c, q\<lparr>underDoubleQuotes := True\<rparr>)
         else if c = CHR '' '' \<or> c = CHR 0x09 \<or> c = CHR 0x0A \<or> c = CHR 0x0D then (CHR 0x00, q)
         else (c, q)))"

function first_pass :: "nat \<Rightarrow> nat \<Rightarrow> quoting \<Rightarrow> string \<Rightarrow> string \<times> quoting" where
  "first_pass len i q input =
     (if i < len then case first_char q (input ! i) of (c, q') \<Rightarrow> first_pass len (i + 1) q' (input[i := c])
      else (input, q))"
  by pat_completeness auto
termination by (relation "measure (\<lambda>(len, i, q, input). len - i)") auto

declare first_pass.simps [simp del]

text \<open>The second pass expands escape sequences, drops the quotes and moves the elements together.\<close>

definition escaped :: "char \<Rightarrow> char" where
  "escaped c =
     (if c = CHR ''0'' then CHR 0x00 else if c = CHR ''a'' then CHR 0x07 else if c = CHR ''b'' then CHR 0x08
      else if c = CHR ''f'' then CHR 0x0C else if c = CHR ''n'' then CHR 0x0A else if c = CHR ''r'' then CHR 0x0D
      else if c = CHR ''v'' then CHR 0x0B else if c = CHR ''t'' then CHR 0x09 else c)"

record compaction =
  quotes :: quoting
  lastWasNull :: bool
  tkCnt :: nat

text \<open>What the second pass does with a character: what is written to \<open>input[j++]\<close>, if anything, and the flags.\<close>

definition second_char :: "compaction \<Rightarrow> char \<Rightarrow> char option \<times> compaction" where
  "second_char s c = (let q = quotes s in
     if underEscape q then (Some (escaped c), s\<lparr>quotes := q\<lparr>underEscape := False\<rparr>\<rparr>)
     else if underSingleQuotes q then
       (if c = CHR 0x5C then (None, s\<lparr>quotes := q\<lparr>underEscape := True\<rparr>\<rparr>)
        else if c = CHR 0x27 then (None, s\<lparr>quotes := q\<lparr>underSingleQuotes := False\<rparr>\<rparr>)
        else (Some c, s))
     else if underDoubleQuotes q then
       (if c = CHR 0x5C then (None, s\<lparr>quotes := q\<lparr>underEscape := True\<rparr>\<rparr>)
        else if c = CHR 0x22 then (None, s\<lparr>quotes := q\<lparr>underDoubleQuotes := False\<rparr>\<rparr>)
        else (Some c, s))
     else if is_NUL c then
       (if \<not> lastWasNull s then (Some c, s\<lparr>lastWasNull := True, tkCnt := tkCnt s + 1\<rparr>) else (None, s))
     else (let s = s\<lparr>lastWasNull := False\<rparr> in
       if c = CHR 0x5C then (None, s\<lparr>quotes := q\<lparr>underEscape := True\<rparr>\<rparr>)
       else if c = CHR 0x27 then (None, s\<lparr>quotes := q\<lparr>underSingleQuotes := True\<rparr>\<rparr>)
       else if c = CHR 0x22 then (None, s\<lparr>quotes := q\<lparr>underDoubleQuotes := True\<rparr>\<rparr>)
       else (Some c, s)))"

function second_pass :: "nat \<Rightarrow> nat \<Rightarrow> nat \<Rightarrow> compaction \<Rightarrow> string \<Rightarrow> string \<times> nat \<times> compaction" where
  "second_pass len i j s input =
     (if i < len then
        (case second_char s (input ! i) of
           (None, s') \<Rightarrow> second_pass len (i + 1) j s' input
         | (Some c, s') \<Rightarrow> second_pass len (i + 1) (j + 1) s' (input[j := c]))
      else (input, j, s))"
  by pat_completeness auto
termination by (relation "measure (\<lambda>(len, i, j, s, input). len - i)") auto

declare second_pass.simps [simp del]

text \<open>\<open>--j\<close> on zero wraps around.\<close>

definition StartParsing :: "string \<Rightarrow> OptionParser \<Rightarrow> (HandleResult \<times> OptionParser) option" where
  "StartParsing input p =
     (if Started p then Some (UnsupportedOperation, p)
      else do {
        len \<leftarrow> strlen input 0;
        let (input, q) = first_pass len 0 no_quoting input;
        if unfinished q then Some (CmdOptionsMalformatted, p\<lparr>InputString := input\<rparr>)
        else do {
          let (input, j, s) = second_pass len 0 0 \<lparr>quotes = q, lastWasNull = True, tkCnt = 0\<rparr> input;
          Some (if \<not> lastWasNull s
                then (Okay, p\<lparr>InputString := input[j := CHR 0x00], Length := j, TokenCount := tkCnt s + 1, Started := True\<rparr>)
                else (Okay, p\<lparr>InputString := input, Length := (if j = 0 then 2 ^ 64 - 1 else j - 1),
                              TokenCount := tkCnt s, Started := True\<rparr>)) } })"

section \<open>HandleValue\<close>

definition HandleValue :: "u64 \<Rightarrow> string \<Rightarrow> OptionSpecification \<Rightarrow> nat \<Rightarrow> (HandleResult \<times> OptionSpecification) option" where
  "HandleValue junk buf opt input = (case ValueType opt of
       BooleanByPresence \<Rightarrow> Some (Okay, opt\<lparr>BooleanValue := True\<rparr>)
     | BooleanExplicit \<Rightarrow> do { s \<leftarrow> cstr buf input;
         let (res, v) = FromString_bool s (BooleanValue opt); Some (res, opt\<lparr>BooleanValue := v\<rparr>) }
     | StringType \<Rightarrow> Some (Okay, opt\<lparr>StringValue := Some input\<rparr>)
     | SignedInteger \<Rightarrow> do { s \<leftarrow> cstr buf input;
         let (res, v) = FromString_i64 junk s (SignedIntegerValue opt); Some (res, opt\<lparr>SignedIntegerValue := v\<rparr>) }
     | UnsignedInteger \<Rightarrow> do { s \<leftarrow> cstr buf input;
         let (res, v) = FromString_u64 s (UnsignedIntegerValue opt); Some (res, opt\<lparr>UnsignedIntegerValue := v\<rparr>) }
     | FloatType \<Rightarrow> Some (CmdOptionValueTypeInvalid, opt))"

text \<open>\<open>opt.ParsingResult = HandleValue(opt, ...)\<close>\<close>

definition set_value :: "u64 \<Rightarrow> string \<Rightarrow> OptionSpecification \<Rightarrow> nat \<Rightarrow> (HandleResult \<times> OptionSpecification) option" where
  "set_value junk buf opt input = do {
     (res, opt) \<leftarrow> HandleValue junk buf opt input;
     Some (res, opt\<lparr>ParsingResult := Some res\<rparr>) }"

section \<open>ParseOption\<close>

definition is_letter_form :: "string \<Rightarrow> bool" where
  "is_letter_form sf \<longleftrightarrow> \<not> is_NUL (char_at sf 0) \<and> is_NUL (char_at sf 1)"

text \<open>
  The loop: the index of the value of the option, if it is found. In the branch of long options \<open>len\<close> is reused
  for the length of the long form, and \<open>continue\<close> then advances by it.
\<close>

function find_option :: "OptionParser \<Rightarrow> OptionSpecification \<Rightarrow> nat \<Rightarrow> nat option option" where
  "find_option p opt i =
     (if \<not> i + 1 < Length p then Some None
      else do {
        len \<leftarrow> strlen (InputString p) i;
        c \<leftarrow> rd (InputString p) i;
        if c \<noteq> CHR ''-'' then find_option p opt (i + len + 1)
        else do {
          d \<leftarrow> rd (InputString p) (i + 1);
          if ShortForm opt \<noteq> None \<and> d \<noteq> CHR ''-'' then
            (if ValueType opt \<noteq> BooleanByPresence \<and> i + 2 + len \<ge> Length p then Some None
             else do {
               hit \<leftarrow> (if is_letter_form (the (ShortForm opt))
                      then memchr_found (InputString p) (i + 1) (char_at (the (ShortForm opt)) 0) (len - 1)
                      else strncmp_eq (InputString p) (i + 1) (the (ShortForm opt)) len);
               if \<not> hit then find_option p opt (i + len + 1)
               else Some (Some (i + 1 + len)) })
          else if LongForm opt \<noteq> None \<and> d = CHR ''-'' then do {
            let len = length (the (LongForm opt));
            if ValueType opt \<noteq> BooleanByPresence \<and> i + 2 + len \<ge> Length p then Some None
            else do {
              eq \<leftarrow> strncmp_eq (InputString p) (i + 2) (the (LongForm opt)) len;
              if \<not> eq then find_option p opt (i + len + 1)
              else do {
                e \<leftarrow> rd (InputString p) (i + 2 + len);
                if \<not> is_NUL e \<and> e \<noteq> CHR ''='' then find_option p opt (i + len + 1)
                else Some (Some (i + 3 + len)) } } }
          else find_option p opt (i + len + 1) } })"
  by pat_completeness auto
termination by (relation "measure (\<lambda>(p, opt, i). Length p - i)") auto

declare find_option.simps [simp del]

definition ParseOption :: "u64 \<Rightarrow> OptionSpecification \<Rightarrow> OptionParser \<Rightarrow> (HandleResult \<times> OptionSpecification) option" where
  "ParseOption junk opt p =
     (if ParsingResult opt = Some Okay then Some (Okay, opt)
      else do {
        found \<leftarrow> find_option p opt 0;
        case found of
          Some v \<Rightarrow> set_value junk (InputString p) opt v
        | None \<Rightarrow> Some (Okay, if ValueType opt = BooleanByPresence
            then opt\<lparr>BooleanValue := False, ParsingResult := Some Okay\<rparr> else opt\<lparr>ParsingResult := Some Okay\<rparr>) })"

section \<open>Batches\<close>

datatype BatchStep = Starting | InProgress | WrappingUp | Finished | Invalid

record BatchState =
  Parser :: OptionParser
  Head :: "OptionSpecification list"
  Offset :: nat
  Step :: BatchStep
  Result :: "HandleResult option"

definition StartBatch :: "OptionParser \<Rightarrow> OptionSpecification list \<Rightarrow> BatchState" where
  "StartBatch p head = \<lparr>Parser = p, Head = head, Offset = 0, Step = Starting, Result = None\<rparr>"

text \<open>\<open>str\<close> is the index of the token, \<open>off\<close> the reference parameter.\<close>

fun BatchCheckLongOption :: "u64 \<Rightarrow> string \<Rightarrow> nat \<Rightarrow> nat \<Rightarrow> nat \<Rightarrow> nat \<Rightarrow> OptionSpecification list
    \<Rightarrow> (HandleResult \<times> nat \<times> OptionSpecification list) option" where
  "BatchCheckLongOption junk buf str len left off [] = Some (NotFound, off + len + 1, [])"
| "BatchCheckLongOption junk buf str len left off (opt # next) = do {
     let nextOption = map_option (\<lambda>(res, off, next). (res, off, opt # next)) (BatchCheckLongOption junk buf str len left off next);
     if ParsingResult opt \<noteq> None \<or> LongForm opt = None then nextOption
     else do {
       let lflen = length (the (LongForm opt));
       if (if ValueType opt = BooleanByPresence then lflen > left else lflen + 2 \<ge> left) then nextOption
       else do {
         eq \<leftarrow> strncmp_eq buf (str + 2) (the (LongForm opt)) lflen;
         if \<not> eq then nextOption
         else do {
           e \<leftarrow> rd buf (str + lflen + 2);
           if \<not> is_NUL e \<and> e \<noteq> CHR ''='' then nextOption
           else do {
             off \<leftarrow> (if ValueType opt = BooleanByPresence then Some (off + len + 1)
                    else map_option (\<lambda>vlen. off + lflen + 3 + vlen) (strlen buf (str + 3 + lflen)));
             (res, opt) \<leftarrow> set_value junk buf opt (str + 3 + lflen);
             Some (res, off, opt # next) } } } } }"

fun BatchCheckShortWholeOption :: "u64 \<Rightarrow> string \<Rightarrow> nat \<Rightarrow> nat \<Rightarrow> nat \<Rightarrow> nat \<Rightarrow> OptionSpecification list
    \<Rightarrow> (HandleResult \<times> nat \<times> OptionSpecification list) option" where
  "BatchCheckShortWholeOption junk buf str len left off [] = Some (NotFound, off + len + 1, [])"
| "BatchCheckShortWholeOption junk buf str len left off (opt # next) = do {
     let nextOption = map_option (\<lambda>(res, off, next). (res, off, opt # next)) (BatchCheckShortWholeOption junk buf str len left off next);
     if ParsingResult opt \<noteq> None \<or> (ValueType opt \<noteq> BooleanByPresence \<and> len + 2 \<ge> left) then nextOption
     else do {
       sf \<leftarrow> ShortForm opt;
       eq \<leftarrow> (if is_letter_form sf then Some False else strncmp_eq buf (str + 1) sf len);
       if \<not> eq then nextOption
       else do {
         off \<leftarrow> (if ValueType opt = BooleanByPresence then Some (off + len + 1)
                else map_option (\<lambda>vlen. off + len + 2 + vlen) (strlen buf (str + 1 + len)));
         (res, opt) \<leftarrow> set_value junk buf opt (str + 1 + len);
         Some (res, off, opt # next) } } }"

text \<open>Every option of the list is tried, and the greatest of the offsets is kept.\<close>

fun BatchCheckShortPartialOption :: "u64 \<Rightarrow> string \<Rightarrow> nat \<Rightarrow> nat \<Rightarrow> nat \<Rightarrow> nat \<Rightarrow> OptionSpecification list \<Rightarrow> nat
    \<Rightarrow> (HandleResult \<times> nat \<times> OptionSpecification list) option" where
  "BatchCheckShortPartialOption junk buf str len left off [] optCnt =
     Some (if optCnt = len - 1 then Okay else NotFound, off + len + 1, [])"
| "BatchCheckShortPartialOption junk buf str len left off (opt # next) optCnt = do {
     (tmpRes, newOff, opt) \<leftarrow>
       (if ParsingResult opt \<noteq> None \<or> (ValueType opt \<noteq> BooleanByPresence \<and> len + 2 \<ge> left) then Some (None, off, opt)
        else do {
          sf \<leftarrow> ShortForm opt;
          found \<leftarrow> (if \<not> is_letter_form sf then Some False else memchr_found buf (str + 1) (char_at sf 0) (len - 1));
          if \<not> found then Some (None, off, opt)
          else do {
            off \<leftarrow> (if ValueType opt = BooleanByPresence then Some (off + len + 1)
                   else map_option (\<lambda>vlen. off + len + 2 + vlen) (strlen buf (str + 1 + len)));
            (res, opt) \<leftarrow> set_value junk buf opt (str + 1 + len);
            Some (Some res, off, opt) } });
     (res, tmpOff, next) \<leftarrow> BatchCheckShortPartialOption junk buf str len left off next
        (if tmpRes = Some Okay then optCnt + 1 else optCnt);
     Some (res, if tmpOff > newOff then tmpOff else newOff, opt # next) }"

definition WrapUpOption :: "OptionSpecification list \<Rightarrow> HandleResult \<times> OptionSpecification list" where
  "WrapUpOption head = (Okay, map (\<lambda>opt. if ValueType opt = BooleanByPresence \<and> ParsingResult opt = None
     then opt\<lparr>BooleanValue := False, ParsingResult := Some Okay\<rparr> else opt) head)"

definition check_token :: "u64 \<Rightarrow> BatchState \<Rightarrow> nat \<Rightarrow> nat \<Rightarrow> (HandleResult \<times> BatchState) option" where
  "check_token junk batch i len = (let buf = InputString (Parser batch); left = Length (Parser batch) - i in do {
     d \<leftarrow> rd buf (i + 1);
     (res, off, head) \<leftarrow>
       (if d = CHR ''-'' then BatchCheckLongOption junk buf i len left i (Head batch)
        else if len = 2 then BatchCheckShortPartialOption junk buf i len left i (Head batch) 0
        else do {
          (res, off, head) \<leftarrow> BatchCheckShortWholeOption junk buf i len left i (Head batch);
          if res = NotFound then BatchCheckShortPartialOption junk buf i len left i head 0
          else Some (res, off, head) });
     Some (res, batch\<lparr>Head := head, Offset := off,
       Step := (if off \<ge> Length (Parser batch) then WrappingUp else InProgress)\<rparr>) })"

function BatchInnerNext :: "u64 \<Rightarrow> BatchState \<Rightarrow> nat \<Rightarrow> (HandleResult \<times> BatchState) option" where
  "BatchInnerNext junk batch i =
     (if \<not> i + 1 < Length (Parser batch) then Some (Okay, batch\<lparr>Offset := i, Step := WrappingUp\<rparr>)
      else do {
        len \<leftarrow> strlen (InputString (Parser batch)) i;
        c \<leftarrow> rd (InputString (Parser batch)) i;
        if c \<noteq> CHR ''-'' then BatchInnerNext junk batch (i + len + 1)
        else check_token junk batch i len })"
  by pat_completeness auto
termination by (relation "measure (\<lambda>(junk, batch, i). Length (Parser batch) - i)") auto

declare BatchInnerNext.simps [simp del]

definition Next :: "u64 \<Rightarrow> BatchState \<Rightarrow> (HandleResult \<times> BatchState) option" where
  "Next junk batch =
     (if Step batch = Finished then Some (UnsupportedOperation, batch\<lparr>Result := Some UnsupportedOperation\<rparr>)
      else if Step batch = WrappingUp then
        (let (res, head) = WrapUpOption (Head batch) in Some (res, batch\<lparr>Step := Finished, Head := head, Result := Some res\<rparr>))
      else map_option (\<lambda>(res, batch). (res, batch\<lparr>Result := Some res\<rparr>)) (BatchInnerNext junk batch (Offset batch)))"

end
