(* ===== verification/Cmd_Options_Props.thy ===== *)
theory Cmd_Options_Props
  imports Cmd_Options
begin

text \<open>
  A reference tokeniser of command lines, and the equivalence of the two passes in place with it. Then the
  lemmas on reading the tokens back: no read leaves the buffer.
\<close>

section \<open>The reference tokeniser\<close>

datatype lex_mode = Plain | Single | Double

definition blank :: "char \<Rightarrow> bool" where
  "blank c \<longleftrightarrow> c = CHR '' '' \<or> c = CHR 0x09 \<or> c = CHR 0x0A \<or> c = CHR 0x0D"

text \<open>The token that is read; \<open>None\<close> between tokens.\<close>

definition grow :: "string option \<Rightarrow> string \<Rightarrow> string option" where
  "grow cur s = Some ((case cur of None \<Rightarrow> [] | Some t \<Rightarrow> t) @ s)"

fun lex :: "lex_mode \<Rightarrow> string option \<Rightarrow> string \<Rightarrow> string list option" where
  "lex m cur [] = (if m = Plain then Some (case cur of None \<Rightarrow> [] | Some t \<Rightarrow> [t]) else None)"
| "lex m cur (c # cs) =
     (if c = CHR 0x5C then (case cs of [] \<Rightarrow> None | d # ds \<Rightarrow> lex m (grow cur [escaped d]) ds)
      else case m of
        Plain \<Rightarrow>
          if c = CHR 0x27 then lex Single (grow cur []) cs
          else if c = CHR 0x22 then lex Double (grow cur []) cs
          else if blank c then (case cur of None \<Rightarrow> lex Plain None cs | Some t \<Rightarrow> map_option ((#) t) (lex Plain None cs))
          else lex Plain (grow cur [c]) cs
      | Single \<Rightarrow> if c = CHR 0x27 then lex Plain cur cs else lex Single (grow cur [c]) cs
      | Double \<Rightarrow> if c = CHR 0x22 then lex Plain cur cs else lex Double (grow cur [c]) cs)"

text \<open>Tokens in a buffer: each is followed by a NUL.\<close>

definition join :: "string list \<Rightarrow> string" where
  "join ts = concat (map (\<lambda>t. t @ [CHR 0x00]) ts)"

lemma join_simps [simp]: "join [] = []" "join (t # ts) = t @ CHR 0x00 # join ts" "join (ts @ us) = join ts @ join us"
  by (simp_all add: join_def)

section \<open>The passes as functions on lists\<close>

fun first_list :: "quoting \<Rightarrow> string \<Rightarrow> string \<times> quoting" where
  "first_list q [] = ([], q)"
| "first_list q (c # cs) = (case first_char q c of (d, q') \<Rightarrow> case first_list q' cs of (ds, q'') \<Rightarrow> (d # ds, q''))"

fun second_list :: "compaction \<Rightarrow> string \<Rightarrow> string \<times> compaction" where
  "second_list s [] = ([], s)"
| "second_list s (c # cs) = (case second_char s c of (d, s') \<Rightarrow> case second_list s' cs of (ds, s'') \<Rightarrow>
     (case d of None \<Rightarrow> ds | Some d \<Rightarrow> d # ds, s''))"

lemma first_pass_list:
  "first_pass (length done + length cs) (length done) q (done @ cs @ rest) = (case first_list q cs of (ds, q') \<Rightarrow> (done @ ds @ rest, q'))"
proof (induction cs arbitrary: "done" q)
  case Nil
  then show ?case by (simp add: first_pass.simps)
next
  case (Cons c cs)
  obtain d q' where d: "first_char q c = (d, q')" by fastforce
  have "first_pass (length done + length (c # cs)) (length done) q (done @ (c # cs) @ rest)
      = first_pass (length (done @ [d]) + length cs) (length (done @ [d])) q' ((done @ [d]) @ cs @ rest)"
    by (subst first_pass.simps) (simp add: d nth_append list_update_append)
  then show ?case using Cons.IH [of "done @ [d]" q'] by (simp add: d split: prod.split)
qed

text \<open>What has been written ends before what is still to be read.\<close>

lemma second_pass_list:
  assumes "j = length out" "i = length out + length gap" "len = i + length cs"
  shows "\<exists>gap'. second_pass len i j s (out @ gap @ cs @ rest) =
     (case second_list s cs of (ds, s') \<Rightarrow> (out @ ds @ gap' @ rest, length out + length ds, s'))
     \<and> length (fst (second_list s cs)) + length gap' = length gap + length cs"
  using assms
proof (induction cs arbitrary: out gap i j s)
  case Nil
  then show ?case by (simp add: second_pass.simps)
next
  case (Cons c cs)
  obtain d s' where d: "second_char s c = (d, s')" by fastforce
  obtain ds s'' where l: "second_list s' cs = (ds, s'')" by fastforce
  have c: "(out @ gap @ (c # cs) @ rest) ! i = c" "i < len" using Cons.prems by (simp_all add: nth_append)
  show ?case
  proof (cases d)
    case None
    have "second_pass len i j s (out @ gap @ (c # cs) @ rest) = second_pass len (i + 1) j s' (out @ (gap @ [c]) @ cs @ rest)"
      using c by (subst second_pass.simps) (simp add: d None)
    with Cons.IH [of j out "i + 1" "gap @ [c]" s'] Cons.prems show ?thesis by (auto simp: d l None)
  next
    case (Some x)
    define gap1 where "gap1 = tl (gap @ [c])"
    have upd: "(out @ gap @ (c # cs) @ rest)[j := x] = (out @ [x]) @ gap1 @ cs @ rest"
      using Cons.prems by (cases gap) (simp_all add: gap1_def list_update_append)
    have "second_pass len i j s (out @ gap @ (c # cs) @ rest) = second_pass len (i + 1) (j + 1) s' ((out @ [x]) @ gap1 @ cs @ rest)"
      using c by (subst second_pass.simps) (simp add: d Some upd [simplified])
    with Cons.IH [of "j + 1" "out @ [x]" "i + 1" gap1 s'] Cons.prems show ?thesis by (auto simp: d l Some gap1_def)
  qed
qed

section \<open>The passes and the tokeniser\<close>

definition mode_quoting :: "lex_mode \<Rightarrow> quoting" where
  "mode_quoting m = \<lparr>underEscape = False, underSingleQuotes = (m = Single), underDoubleQuotes = (m = Double)\<rparr>"

definition text_of :: "string option \<Rightarrow> string" where
  "text_of cur = (case cur of None \<Rightarrow> [] | Some t \<Rightarrow> t)"

definition closing :: "compaction \<Rightarrow> string" where
  "closing st = (if lastWasNull st then [] else [CHR 0x00])"

lemma grow_text [simp]: "grow cur s = Some (text_of cur @ s)" "text_of (Some t) = t" "text_of None = []"
  by (simp_all add: grow_def text_of_def)

lemma first_lex:
  assumes "CHR 0x00 \<notin> set cs"
  shows "lex m cur cs = None \<longleftrightarrow> unfinished (snd (first_list (mode_quoting m) cs))"
  using assms
proof (induction m cur cs rule: lex.induct)
  case (1 m cur)
  then show ?case by (cases m) (auto simp: mode_quoting_def unfinished_def)
next
  case (2 m cur c cs)
  have split_beta: "snd (first_list q (x # xs)) = snd (first_list (snd (first_char q x)) xs)" for q x xs
    by (simp split: prod.split)
  show ?case
  proof (cases "c = CHR 0x5C")
    case True
    show ?thesis
    proof (cases cs)
      case Nil
      with True show ?thesis by (cases m) (auto simp: first_char_def mode_quoting_def unfinished_def)
    next
      case (Cons d ds)
      have "snd (first_char (snd (first_char (mode_quoting m) c)) d) = mode_quoting m"
        using True by (cases m) (simp_all add: first_char_def mode_quoting_def)
      with 2 True Cons show ?thesis by (simp add: split_beta del: first_list.simps)
    qed
  next
    case False
    have q: "snd (first_char (mode_quoting m) c) = mode_quoting (case m of
        Plain \<Rightarrow> if c = CHR 0x27 then Single else if c = CHR 0x22 then Double else Plain
      | Single \<Rightarrow> if c = CHR 0x27 then Plain else Single | Double \<Rightarrow> if c = CHR 0x22 then Plain else Double)"
      using False by (cases m) (simp_all add: first_char_def mode_quoting_def)
    from 2 False show ?thesis unfolding split_beta q by (cases m) (auto simp: blank_def split: option.splits if_splits)
  qed
qed

lemma second_lex:
  assumes "CHR 0x00 \<notin> set cs" "lex m cur cs = Some ts" "m \<noteq> Plain \<longrightarrow> cur \<noteq> None"
    and "second_list \<lparr>quotes = mode_quoting m, lastWasNull = (cur = None), tkCnt = k\<rparr> (fst (first_list (mode_quoting m) cs)) = (os, st)"
  shows "text_of cur @ os @ closing st = join ts \<and> tkCnt st + length (closing st) = k + length ts"
  using assms
proof (induction m cur cs arbitrary: ts k os rule: lex.induct)
  case (1 m cur)
  then show ?case by (cases cur) (auto simp: closing_def split: if_splits)
next
  case (2 m cur c cs)
  note IH = "2.IH" and prems = "2.prems"
  have nul: "CHR 0x00 \<notin> set cs" "c \<noteq> CHR 0x00" using prems(1) by auto
  define s0 where "s0 = \<lparr>quotes = mode_quoting m, lastWasNull = (cur = None), tkCnt = k\<rparr>"
  define c' where "c' = fst (first_char (mode_quoting m) c)"
  define q' where "q' = snd (first_char (mode_quoting m) c)"
  obtain x s1 where x: "second_char s0 c' = (x, s1)" by fastforce
  obtain os' where os': "second_list s1 (fst (first_list q' cs)) = (os', st)" "os = (case x of None \<Rightarrow> os' | Some x \<Rightarrow> x # os')"
    using prems(4) x by (auto simp: s0_def [symmetric] c'_def q'_def split: prod.splits)
  show ?case
  proof (cases "c = CHR 0x5C")
    case True
    with prems(2) obtain d ds where cs: "cs = d # ds" by (cases cs) auto
    have q: "q' = (mode_quoting m)\<lparr>underEscape := True\<rparr>" "c' = c"
      using True by (cases m; simp add: q'_def c'_def first_char_def mode_quoting_def)+
    have s1: "x = None" "s1 = \<lparr>quotes = q', lastWasNull = False, tkCnt = k\<rparr>"
      using x True q prems(3) nul(2) by (cases m; auto simp: s0_def second_char_def mode_quoting_def is_NUL_def)+
    have d: "first_char q' d = (d, mode_quoting m)" "second_char s1 d = (Some (escaped d), \<lparr>quotes = mode_quoting m, lastWasNull = False, tkCnt = k\<rparr>)"
      by (simp_all add: q(1) s1 first_char_def second_char_def mode_quoting_def)
    from os'(1) obtain os2 where os2: "os' = escaped d # os2"
      "second_list \<lparr>quotes = mode_quoting m, lastWasNull = False, tkCnt = k\<rparr> (fst (first_list (mode_quoting m) ds)) = (os2, st)"
      by (auto simp: cs d split: prod.splits)
    with IH(1) [OF True cs, of ts k os2] prems(2) nul cs True os'(2) s1(1) show ?thesis by auto
  next
    case False
    note step = q'_def c'_def s0_def first_char_def second_char_def mode_quoting_def is_NUL_def blank_def
    show ?thesis
    proof (cases m)
      case Plain
      consider (single) "c = CHR 0x27" | (double) "c = CHR 0x22" "c \<noteq> CHR 0x27" | (blank) "blank c" "c \<noteq> CHR 0x27" "c \<noteq> CHR 0x22"
        | (other) "c \<noteq> CHR 0x27" "c \<noteq> CHR 0x22" "\<not> blank c" by blast
      then show ?thesis
      proof cases
        case single
        have "q' = mode_quoting Single" "x = None" "s1 = \<lparr>quotes = mode_quoting Single, lastWasNull = False, tkCnt = k\<rparr>"
          using x Plain single by (auto simp: step)
        with IH(2) [OF False Plain single, of ts k os'] prems(2) False Plain single nul os' show ?thesis by simp
      next
        case double
        have "q' = mode_quoting Double" "x = None" "s1 = \<lparr>quotes = mode_quoting Double, lastWasNull = False, tkCnt = k\<rparr>"
          using x Plain double by (auto simp: step)
        with IH(3) [OF False Plain double(2,1), of ts k os'] prems(2) False Plain double nul os' show ?thesis by simp
      next
        case blank
        have q: "q' = mode_quoting Plain" "c' = CHR 0x00" using Plain False blank by (auto simp: step)
        show ?thesis
        proof (cases cur)
          case None
          have "x = None" "s1 = \<lparr>quotes = mode_quoting Plain, lastWasNull = True, tkCnt = k\<rparr>"
            using x Plain q(2) None by (auto simp: s0_def second_char_def mode_quoting_def is_NUL_def)
          with IH(4) [OF False Plain blank(2,3,1) None, of ts k os'] prems(2) False Plain blank None nul os' q show ?thesis by simp
        next
          case (Some t)
          have "x = Some (CHR 0x00)" "s1 = \<lparr>quotes = mode_quoting Plain, lastWasNull = True, tkCnt = k + 1\<rparr>"
            using x Plain q(2) Some by (auto simp: s0_def second_char_def mode_quoting_def is_NUL_def)
          moreover obtain ts' where "ts = t # ts'" "lex Plain None cs = Some ts'" using prems(2) False Plain blank Some by auto
          ultimately show ?thesis using IH(5) [OF False Plain blank(2,3,1) Some, of ts' "k + 1" os'] nul os' q Some by simp
        qed
      next
        case other
        have "q' = mode_quoting Plain" "x = Some c" "s1 = \<lparr>quotes = mode_quoting Plain, lastWasNull = False, tkCnt = k\<rparr>"
          using x Plain other False nul(2) by (auto simp: step)
        with IH(6) [OF False Plain other, of ts k os'] prems(2) False Plain other nul os' show ?thesis by simp
      qed
    next
      case Single
      then have cur: "cur \<noteq> None" using prems(3) by simp
      show ?thesis
      proof (cases "c = CHR 0x27")
        case True
        have "q' = mode_quoting Plain" "x = None" "s1 = \<lparr>quotes = mode_quoting Plain, lastWasNull = (cur = None), tkCnt = k\<rparr>"
          using x Single True by (auto simp: step)
        with IH(7) [OF False Single True, of ts k os'] prems(2) False Single True nul os' show ?thesis by simp
      next
        case other: False
        have "q' = mode_quoting Single" "x = Some c" "s1 = \<lparr>quotes = mode_quoting Single, lastWasNull = False, tkCnt = k\<rparr>"
          using x Single other False cur by (auto simp: step)
        with IH(8) [OF False Single other, of ts k os'] prems(2) False Single other nul os' show ?thesis by simp
      qed
    next
      case Double
      then have cur: "cur \<noteq> None" using prems(3) by simp
      show ?thesis
      proof (cases "c = CHR 0x22")
        case True
        have "q' = mode_quoting Plain" "x = None" "s1 = \<lparr>quotes = mode_quoting Plain, lastWasNull = (cur = None), tkCnt = k\<rparr>"
          using x Double True by (auto simp: step)
        with IH(9) [OF False Double True, of ts k os'] prems(2) False Double True nul os' show ?thesis by simp
      next
        case other: False
        have "q' = mode_quoting Double" "x = Some c" "s1 = \<lparr>quotes = mode_quoting Double, lastWasNull = False, tkCnt = k\<rparr>"
          using x Double other False cur by (auto simp: step)
        with IH(10) [OF False Double other, of ts k os'] prems(2) False Double other nul os' show ?thesis by simp
      qed
    qed
  qed
qed

lemma cstr_append: "CHR 0x00 \<notin> set s \<Longrightarrow> cstr (pre @ s @ CHR 0x00 # rest) (length pre) = Some s"
proof -
  assume s: "CHR 0x00 \<notin> set s"
  have "takeWhile (\<lambda>c. c \<noteq> CHR 0x00) (s @ CHR 0x00 # rest) = s @ takeWhile (\<lambda>c. c \<noteq> CHR 0x00) (CHR 0x00 # rest)"
    by (rule takeWhile_append2) (use s in auto)
  then show ?thesis by (simp add: cstr_def is_NUL_def list_ex_iff)
qed

text \<open>The parser after a command line with the tokens \<open>ts\<close>.\<close>

definition parsed :: "string list \<Rightarrow> OptionParser \<Rightarrow> bool" where
  "parsed ts p \<longleftrightarrow> (\<exists>rest. InputString p = join ts @ rest) \<and> TokenCount p = length ts \<and> Started p
     \<and> Length p = (if ts = [] then 2 ^ 64 - 1 else length (join ts) - 1)"

lemma StartParsing_lex:
  assumes "CHR 0x00 \<notin> set s" "\<not> Started p"
  shows "case lex Plain None s of
      None \<Rightarrow> \<exists>buf. StartParsing (s @ CHR 0x00 # rest) p = Some (CmdOptionsMalformatted, p\<lparr>InputString := buf\<rparr>)
    | Some ts \<Rightarrow> \<exists>p'. StartParsing (s @ CHR 0x00 # rest) p = Some (Okay, p') \<and> parsed ts p'
        \<and> length (InputString p') = length (s @ CHR 0x00 # rest)"
proof -
  have len: "strlen (s @ CHR 0x00 # rest) 0 = Some (length s)" using cstr_append [OF assms(1), of "[]"] by (simp add: strlen_def)
  have mode: "no_quoting = mode_quoting Plain" by (simp add: no_quoting_def mode_quoting_def)
  obtain ds q where fl: "first_list no_quoting s = (ds, q)" by fastforce
  have lds: "length ds = length s"
  proof -
    have "length (fst (first_list q0 cs)) = length cs" for q0 cs by (induction cs arbitrary: q0) (simp_all split: prod.splits, metis fst_conv)
    with fl show ?thesis by (metis fst_conv)
  qed
  have first: "first_pass (length s) 0 no_quoting (s @ CHR 0x00 # rest) = (ds @ CHR 0x00 # rest, q)"
    using first_pass_list [of "[]" s no_quoting "CHR 0x00 # rest"] fl by simp
  have unf: "lex Plain None s = None \<longleftrightarrow> unfinished q" using first_lex [OF assms(1), of Plain None] fl by (simp add: mode)
  show ?thesis
  proof (cases "lex Plain None s")
    case None
    with unf assms(2) len first show ?thesis by (auto simp: StartParsing_def)
  next
    case (Some ts)
    with unf have q: "\<not> unfinished q" by simp
    then have q0: "q = mode_quoting Plain" by (simp add: unfinished_def mode_quoting_def)
    define st0 where "st0 = \<lparr>quotes = q, lastWasNull = True, tkCnt = 0\<rparr>"
    obtain os st where sl: "second_list st0 ds = (os, st)" by fastforce
    have out: "os @ closing st = join ts" "tkCnt st + length (closing st) = length ts"
      using second_lex [OF assms(1) Some, of 0 os st] fl sl by (simp_all add: st0_def q0 mode)
    obtain gap where gap: "second_pass (length s) 0 0 st0 (ds @ CHR 0x00 # rest) = (os @ gap @ CHR 0x00 # rest, length os, st)"
      "length os + length gap = length s"
      using second_pass_list [of 0 "[]" 0 "[]" "length s" ds st0 "CHR 0x00 # rest"] sl lds by auto
    have upd: "(os @ gap @ CHR 0x00 # rest)[length os := CHR 0x00] = os @ CHR 0x00 # tl (gap @ CHR 0x00 # rest)"
      by (cases gap) (simp_all add: list_update_append)
    have join0: "join ts = [] \<longleftrightarrow> ts = []" by (cases ts) auto
    show ?thesis
    proof (cases "lastWasNull st")
      case True
      then have "os = join ts" "tkCnt st = length ts" using out by (simp_all add: closing_def)
      with True q assms(2) len first gap Some join0 show ?thesis
        by (auto simp: StartParsing_def parsed_def st0_def)
    next
      case False
      then have o2: "os @ [CHR 0x00] = join ts" "tkCnt st + 1 = length ts" using out by (simp_all add: closing_def)
      have "length (join ts) = Suc (length os)" "ts \<noteq> []" "os @ CHR 0x00 # tl (gap @ CHR 0x00 # rest) = join ts @ tl (gap @ CHR 0x00 # rest)"
        using o2(2) by (auto simp: o2(1) [symmetric])
      with False q assms(2) len first gap Some o2(2) upd show ?thesis
        by (auto simp: StartParsing_def parsed_def st0_def)
    qed
  qed
qed

end
