(* ===== verification/Cmd_Options_Theorems.thy ===== *)
theory Cmd_Options_Theorems
  imports Cmd_Options_Props
begin

text \<open>
  The properties of the command line: tokens, round trip, values of options, the end and the memory safety of a batch.
\<close>

section \<open>Reading within the buffer\<close>

text \<open>The buffer has a NUL at its length: all tokens end before or at it.\<close>

definition bounded :: "string \<Rightarrow> nat \<Rightarrow> bool" where
  "bounded buf L \<longleftrightarrow> L < length buf \<and> buf ! L = CHR 0x00"

lemma parsed_bounded: "parsed ts p \<Longrightarrow> ts \<noteq> [] \<Longrightarrow> bounded (InputString p) (Length p)"
proof -
  assume "parsed ts p" "ts \<noteq> []"
  then obtain us u rest where "ts = us @ [u]" "InputString p = join ts @ rest" "Length p = length (join ts) - 1"
    by (auto simp: parsed_def) (metis append_butlast_last_id)
  then show ?thesis by (simp add: bounded_def nth_append)
qed

lemma rd_safe: "bounded buf L \<Longrightarrow> i \<le> L \<Longrightarrow> rd buf i = Some (buf ! i)"
  by (simp add: bounded_def rd_def)

lemma strlen_safe:
  assumes "bounded buf L" "i \<le> L"
  shows "\<exists>l. strlen buf i = Some l \<and> i + l \<le> L \<and> (buf ! i \<noteq> CHR 0x00 \<longrightarrow> 0 < l)"
proof -
  let ?s = "drop i buf"
  have nul: "L - i < length ?s" "?s ! (L - i) = CHR 0x00" using assms by (auto simp: bounded_def)
  then have "list_ex is_NUL ?s" by (metis is_NUL_def list_ex_length)
  moreover have "length (takeWhile (\<lambda>c. \<not> is_NUL c) ?s) \<le> L - i"
  proof (rule ccontr)
    assume "\<not> ?thesis"
    then have lt: "L - i < length (takeWhile (\<lambda>c. \<not> is_NUL c) ?s)" by simp
    then have "\<not> is_NUL (?s ! (L - i))" using nth_mem [OF lt] by (metis set_takeWhileD takeWhile_nth)
    with nul(2) show False by (simp add: is_NUL_def)
  qed
  moreover have "0 < length (takeWhile (\<lambda>c. \<not> is_NUL c) ?s)" if "buf ! i \<noteq> CHR 0x00"
  proof -
    have "?s = buf ! i # drop (Suc i) buf" using assms by (simp add: Cons_nth_drop_Suc bounded_def)
    with that show ?thesis by (simp add: is_NUL_def)
  qed
  ultimately show ?thesis using assms(2) by (auto simp: strlen_def cstr_def)
qed

lemma strncmp_safe:
  assumes "bounded buf L" "i \<le> L"
  shows "\<exists>b. strncmp_eq buf i s n = Some b \<and> (b \<and> CHR 0x00 \<notin> set s \<and> n \<le> length s \<longrightarrow> i + n \<le> L)"
  using assms(2)
proof (induction n arbitrary: i s)
  case (Suc n)
  show ?case
  proof (cases "buf ! i = char_at s 0 \<and> \<not> is_NUL (buf ! i)")
    case True
    then have "i \<noteq> L" using assms(1) by (auto simp: bounded_def is_NUL_def)
    with Suc.IH [of "i + 1" "drop 1 s"] Suc.prems obtain b where b: "strncmp_eq buf (i + 1) (drop 1 s) n = Some b"
      "b \<and> CHR 0x00 \<notin> set (drop 1 s) \<and> n \<le> length (drop 1 s) \<longrightarrow> i + 1 + n \<le> L" by auto
    have "b \<and> CHR 0x00 \<notin> set s \<and> Suc n \<le> length s \<longrightarrow> i + Suc n \<le> L" using b(2) by (cases s) auto
    moreover have "\<not> is_NUL (char_at s 0)" using True by metis
    then have "strncmp_eq buf i s (Suc n) = Some b"
      unfolding strncmp_eq.simps rd_safe [OF assms(1) Suc.prems] using True b(1) by simp
    ultimately show ?thesis by blast
  next
    case False
    have nonul: "char_at s 0 \<noteq> CHR 0x00" if "CHR 0x00 \<notin> set s" "Suc n \<le> length s"
      using that by (cases s) (auto simp: char_at_def)
    show ?thesis
    proof (cases "buf ! i = char_at s 0")
      case True
      with False have n: "is_NUL (char_at s 0)" by metis
      then have "strncmp_eq buf i s (Suc n) = Some True"
        unfolding strncmp_eq.simps rd_safe [OF assms(1) Suc.prems] using True by simp
      with nonul n show ?thesis by (metis is_NUL_def)
    next
      case False
      then have "strncmp_eq buf i s (Suc n) = Some False"
        unfolding strncmp_eq.simps rd_safe [OF assms(1) Suc.prems] by simp
      then show ?thesis by blast
    qed
  qed
qed auto

lemma memchr_safe:
  assumes "bounded buf L" "i + n \<le> L + 1"
  shows "\<exists>b. memchr_found buf i c n = Some b"
  using assms(2)
proof (induction n arbitrary: i)
  case (Suc n)
  then have "i \<le> L" by simp
  with Suc.IH [of "i + 1"] Suc.prems rd_safe [OF assms(1)] show ?case by auto
qed auto

lemma cstr_safe: "bounded buf L \<Longrightarrow> i \<le> L \<Longrightarrow> \<exists>s. cstr buf i = Some s"
  using strlen_safe [of buf L i] by (auto simp: strlen_def)

lemma set_value_safe:
  assumes "bounded buf L" "v \<le> L \<or> ValueType opt = BooleanByPresence"
  shows "\<exists>res opt'. set_value junk buf opt v = Some (res, opt') \<and> ParsingResult opt' = Some res
     \<and> ShortForm opt' = ShortForm opt \<and> LongForm opt' = LongForm opt \<and> ValueType opt' = ValueType opt"
proof (cases "v \<le> L")
  case True
  with cstr_safe [OF assms(1)] obtain s where "cstr buf v = Some s" by blast
  then show ?thesis by (cases "ValueType opt") (auto simp: set_value_def HandleValue_def split: prod.splits)
next
  case False
  with assms(2) show ?thesis by (simp add: set_value_def HandleValue_def)
qed

section \<open>Batches\<close>

text \<open>Long forms are C strings. Not every option has a short form.\<close>

definition form_ok :: "OptionSpecification \<Rightarrow> bool" where
  "form_ok opt \<longleftrightarrow> (\<forall>lf. LongForm opt = Some lf \<longrightarrow> CHR 0x00 \<notin> set lf)"

definition has_short :: "OptionSpecification \<Rightarrow> bool" where
  "has_short opt \<longleftrightarrow> ShortForm opt \<noteq> None"

text \<open>What the checks of a token at \<open>off\<close> leave of the options.\<close>

definition same_forms :: "OptionSpecification list \<Rightarrow> OptionSpecification list \<Rightarrow> bool" where
  "same_forms opts opts' \<longleftrightarrow> map (\<lambda>x. (ShortForm x, LongForm x, ValueType x)) opts' = map (\<lambda>x. (ShortForm x, LongForm x, ValueType x)) opts"

lemma same_forms_Cons [simp]:
  "same_forms (o1 # os1) (o2 # os2) \<longleftrightarrow> ShortForm o2 = ShortForm o1 \<and> LongForm o2 = LongForm o1 \<and> ValueType o2 = ValueType o1 \<and> same_forms os1 os2"
  "same_forms [] []" "same_forms os os"
  by (auto simp: same_forms_def)

lemma same_forms_ok: "same_forms opts opts' \<Longrightarrow> list_all form_ok opts \<Longrightarrow> list_all form_ok opts'"
proof (induction opts arbitrary: opts')
  case (Cons x xs)
  then show ?case by (cases opts') (auto simp: form_ok_def same_forms_def)
qed (simp add: same_forms_def)

lemma same_forms_short: "same_forms opts opts' \<Longrightarrow> list_all has_short opts \<Longrightarrow> list_all has_short opts'"
proof (induction opts arbitrary: opts')
  case (Cons x xs)
  then show ?case by (cases opts') (auto simp: has_short_def same_forms_def)
qed (simp add: same_forms_def)

lemma same_forms_trans: "same_forms a b \<Longrightarrow> same_forms b c \<Longrightarrow> same_forms a c"
  by (simp add: same_forms_def)

definition advanced :: "nat \<Rightarrow> OptionSpecification list \<Rightarrow> (HandleResult \<times> nat \<times> OptionSpecification list) option \<Rightarrow> bool" where
  "advanced off opts r \<longleftrightarrow> (\<exists>res off' opts'. r = Some (res, off', opts') \<and> off < off' \<and> same_forms opts opts')"

lemma advanced_next: "advanced off opts r \<Longrightarrow> advanced off (o1 # opts) (map_option (\<lambda>(res, off, next). (res, off, o1 # next)) r)"
  by (auto simp: advanced_def)

lemma long_safe:
  assumes "bounded buf L" "str + 2 \<le> L" "left = L - str" "list_all form_ok opts"
  shows "advanced off opts (BatchCheckLongOption junk buf str len left off opts)"
  using assms(4)
proof (induction opts)
  case (Cons opt rest)
  then have IH: "advanced off (opt # rest) (map_option (\<lambda>(res, off, next). (res, off, opt # next)) (BatchCheckLongOption junk buf str len left off rest))"
    by (intro advanced_next) simp
  show ?case
  proof (cases "ParsingResult opt \<noteq> None \<or> LongForm opt = None")
    case True
    then show ?thesis using IH by (auto simp: Let_def)
  next
    case False
    then obtain lf where lf: "LongForm opt = Some lf" "CHR 0x00 \<notin> set lf" "ParsingResult opt = None" using Cons.prems by (auto simp: form_ok_def)
    obtain b where b: "strncmp_eq buf (str + 2) lf (length lf) = Some b" "b \<longrightarrow> str + 2 + length lf \<le> L"
      using strncmp_safe [OF assms(1,2), of lf "length lf"] lf(2) by auto
    show ?thesis
    proof (cases "b \<and> \<not> (if ValueType opt = BooleanByPresence then length lf > left else length lf + 2 \<ge> left)")
      case False
      then show ?thesis using IH lf b(1) by (auto simp: Let_def)
    next
      case hit: True
      then have rd: "rd buf (str + length lf + 2) = Some (buf ! (str + length lf + 2))" using b(2) rd_safe [OF assms(1)] by (auto simp: algebra_simps)
      have v: "str + 3 + length lf \<le> L \<or> ValueType opt = BooleanByPresence" using hit assms(3) by (auto split: if_splits)
      from set_value_safe [OF assms(1) v, of junk] obtain res opt' where
        sv: "set_value junk buf opt (str + 3 + length lf) = Some (res, opt')" "ShortForm opt' = ShortForm opt" "LongForm opt' = LongForm opt" "ValueType opt' = ValueType opt"
        by blast
      have "\<exists>off'. (if ValueType opt = BooleanByPresence then Some (off + len + 1)
          else map_option (\<lambda>vlen. off + length lf + 3 + vlen) (strlen buf (str + 3 + length lf))) = Some off' \<and> off < off'"
        using strlen_safe [OF assms(1), of "str + 3 + length lf"] v by auto
      then show ?thesis using IH lf b(1) hit rd sv by (auto simp: Let_def advanced_def)
    qed
  qed
qed (simp add: advanced_def)

lemma short_value:
  assumes "bounded buf L" "str + len + 2 < L \<or> ValueType opt = BooleanByPresence"
  shows "\<exists>off'. (if ValueType opt = BooleanByPresence then Some (off + len + 1)
      else map_option (\<lambda>vlen. off + len + 2 + vlen) (strlen buf (str + 1 + len))) = Some off' \<and> off < off'"
  using strlen_safe [OF assms(1), of "str + 1 + len"] assms(2) by auto

lemma short_whole_safe:
  assumes "bounded buf L" "str + 2 \<le> L" "left = L - str" "list_all has_short opts"
  shows "advanced off opts (BatchCheckShortWholeOption junk buf str len left off opts)"
  using assms(4)
proof (induction opts)
  case (Cons opt rest)
  then have IH: "advanced off (opt # rest) (map_option (\<lambda>(res, off, next). (res, off, opt # next)) (BatchCheckShortWholeOption junk buf str len left off rest))"
    by (intro advanced_next) simp
  from Cons.prems obtain sf where sf: "ShortForm opt = Some sf" by (auto simp: has_short_def)
  obtain b where b: "strncmp_eq buf (str + 1) sf len = Some b" using strncmp_safe [OF assms(1), of "str + 1" sf len] assms(2) by auto
  show ?case
  proof (cases "ParsingResult opt \<noteq> None \<or> (ValueType opt \<noteq> BooleanByPresence \<and> len + 2 \<ge> left) \<or> is_letter_form sf \<or> \<not> b")
    case True
    then show ?thesis using IH sf b by (auto simp: Let_def)
  next
    case False
    then have v: "str + len + 2 < L \<or> ValueType opt = BooleanByPresence" using assms(3) by auto
    then have "str + 1 + len \<le> L \<or> ValueType opt = BooleanByPresence" by auto
    from set_value_safe [OF assms(1) this, of junk] obtain res opt' where
      "set_value junk buf opt (str + 1 + len) = Some (res, opt')" "ShortForm opt' = ShortForm opt" "LongForm opt' = LongForm opt" "ValueType opt' = ValueType opt"
      by blast
    moreover obtain off' where "(if ValueType opt = BooleanByPresence then Some (off + len + 1)
      else map_option (\<lambda>vlen. off + len + 2 + vlen) (strlen buf (str + 1 + len))) = Some off'" "off < off'" using short_value [OF assms(1) v] by blast
    ultimately show ?thesis using False sf b by (auto simp: Let_def advanced_def)
  qed
qed (simp add: advanced_def)

lemma short_partial_safe:
  assumes "bounded buf L" "str + len \<le> L" "0 < len" "left = L - str" "list_all has_short opts"
  shows "advanced off opts (BatchCheckShortPartialOption junk buf str len left off opts cnt)"
  using assms(5)
proof (induction opts arbitrary: cnt)
  case (Cons opt rest)
  from Cons.prems obtain sf where sf: "ShortForm opt = Some sf" by (auto simp: has_short_def)
  have "str + 1 + (len - 1) \<le> L + 1" using assms(2,3) by simp
  from memchr_safe [OF assms(1) this] obtain b where b: "memchr_found buf (str + 1) (char_at sf 0) (len - 1) = Some b" by blast
  have rest: "advanced off rest (BatchCheckShortPartialOption junk buf str len left off rest cnt')" for cnt' using Cons by simp
  show ?case
  proof (cases "ParsingResult opt \<noteq> None \<or> (ValueType opt \<noteq> BooleanByPresence \<and> len + 2 \<ge> left) \<or> \<not> is_letter_form sf \<or> \<not> b")
    case True
    with rest [of cnt] sf b show ?thesis by (auto simp: advanced_def)
  next
    case False
    then have v: "str + len + 2 < L \<or> ValueType opt = BooleanByPresence" using assms(4) by auto
    then have "str + 1 + len \<le> L \<or> ValueType opt = BooleanByPresence" by auto
    from set_value_safe [OF assms(1) this, of junk] obtain res opt' where
      sv: "set_value junk buf opt (str + 1 + len) = Some (res, opt')" "ShortForm opt' = ShortForm opt" "LongForm opt' = LongForm opt" "ValueType opt' = ValueType opt"
      by blast
    moreover obtain off' where "(if ValueType opt = BooleanByPresence then Some (off + len + 1)
      else map_option (\<lambda>vlen. off + len + 2 + vlen) (strlen buf (str + 1 + len))) = Some off'" "off < off'" using short_value [OF assms(1) v] by blast
    moreover note rest [of "if Some res = Some Okay then cnt + 1 else cnt"]
    ultimately show ?thesis using False sf b by (auto simp: advanced_def)
  qed
qed (simp add: advanced_def)

section \<open>Places of tokens\<close>

text \<open>
  Where a batch looks for an option: at the first character of a token, or at the NUL that ends one. When every token that
  begins with a dash begins with two, no short option is looked up there.
\<close>

definition at_token :: "string \<Rightarrow> nat \<Rightarrow> bool" where
  "at_token buf i \<longleftrightarrow> i = 0 \<or> buf ! (i - 1) = CHR 0x00 \<or> buf ! i = CHR 0x00"

definition long_only :: "string \<Rightarrow> nat \<Rightarrow> bool" where
  "long_only buf L \<longleftrightarrow> (\<forall>i < L. (i = 0 \<or> buf ! (i - 1) = CHR 0x00) \<and> buf ! i = CHR ''-'' \<longrightarrow> buf ! (i + 1) = CHR ''-'')"

lemma long_onlyD: "long_only buf L \<Longrightarrow> at_token buf i \<Longrightarrow> i < L \<Longrightarrow> buf ! i = CHR ''-'' \<Longrightarrow> buf ! (i + 1) = CHR ''-''"
  by (auto simp: long_only_def at_token_def)

lemma strlen_end: "strlen buf i = Some l \<Longrightarrow> buf ! (i + l) = CHR 0x00"
proof -
  assume "strlen buf i = Some l"
  then have l: "list_ex is_NUL (drop i buf)" "l = length (takeWhile (\<lambda>c. \<not> is_NUL c) (drop i buf))"
    by (auto simp: strlen_def cstr_def split: if_splits)
  then have "l < length (drop i buf)"
    by (metis length_takeWhile_le le_neq_implies_less list_ex_iff takeWhile_eq_all_conv takeWhile_eq_take take_all_iff order_refl)
  with l(2) nth_length_takeWhile [of "\<lambda>c. \<not> is_NUL c" "drop i buf"] show ?thesis by (simp add: is_NUL_def)
qed

lemma at_token_after: "strlen buf i = Some l \<Longrightarrow> at_token buf (i + l)" "strlen buf i = Some l \<Longrightarrow> at_token buf (i + l + 1)"
  using strlen_end [of buf i l] by (simp_all add: at_token_def)

lemma long_lands_at_token:
  assumes "BatchCheckLongOption junk buf str len left str opts = Some (res, off, opts')" "strlen buf str = Some len"
  shows "at_token buf off"
  using assms(1)
proof (induction opts arbitrary: res off opts')
  case Nil
  with at_token_after(2) [OF assms(2)] show ?case by simp
next
  case (Cons opt rest)
  have "at_token buf (str + len + 1)" by (rule at_token_after [OF assms(2)])
  moreover have "at_token buf (str + lflen + 3 + v)" if "strlen buf (str + 3 + lflen) = Some v" for lflen v
    using at_token_after(1) [OF that] by (simp add: algebra_simps)
  ultimately show ?case using Cons.prems Cons.IH
    by (auto simp: Let_def bind_eq_Some_conv split: if_splits)
qed

text \<open>A step of a batch: it is in order, and it comes closer to the end.\<close>

definition shorts_safe :: "OptionSpecification list \<Rightarrow> string \<Rightarrow> nat \<Rightarrow> nat \<Rightarrow> bool" where
  "shorts_safe opts buf L i \<longleftrightarrow> list_all has_short opts \<or> long_only buf L \<and> at_token buf i"

definition batch_ok :: "BatchState \<Rightarrow> bool" where
  "batch_ok b \<longleftrightarrow> bounded (InputString (Parser b)) (Length (Parser b)) \<and> list_all form_ok (Head b)
     \<and> Step b \<noteq> Invalid"

definition batch_step :: "BatchState \<Rightarrow> nat \<Rightarrow> BatchState \<Rightarrow> bool" where
  "batch_step b i b' \<longleftrightarrow> batch_ok b' \<and> Parser b' = Parser b \<and> same_forms (Head b) (Head b')
     \<and> (Step b' = WrappingUp \<or> Step b' = InProgress \<and> i < Offset b' \<and> Offset b' < Length (Parser b)
          \<and> shorts_safe (Head b') (InputString (Parser b)) (Length (Parser b)) (Offset b'))"

text \<open>A token with one dash is only looked up when every option has a short form.\<close>

lemma short_token_safe:
  assumes "bounded buf L" "i + 2 \<le> L" "i + len \<le> L" "0 < len" "list_all has_short opts"
  shows "advanced i opts (if len = 2 then BatchCheckShortPartialOption junk buf i len (L - i) i opts 0
        else do {
          (res, off, head) \<leftarrow> BatchCheckShortWholeOption junk buf i len (L - i) i opts;
          if res = NotFound then BatchCheckShortPartialOption junk buf i len (L - i) i head 0
          else Some (res, off, head) })"
proof -
  have partial: "advanced i opts (BatchCheckShortPartialOption junk buf i len (L - i) i opts 0)" if "list_all has_short opts" for opts
    by (rule short_partial_safe [OF assms(1,3,4) refl that])
  from short_whole_safe [OF assms(1,2) refl assms(5), of i junk len] obtain res off head where
    w: "BatchCheckShortWholeOption junk buf i len (L - i) i opts = Some (res, off, head)"
    "i < off" "same_forms opts head" by (auto simp: advanced_def)
  have "advanced i opts (BatchCheckShortPartialOption junk buf i len (L - i) i head 0)"
    using partial [OF same_forms_short [OF w(3) assms(5)]] same_forms_trans [OF w(3)] by (auto simp: advanced_def)
  with partial [OF assms(5)] w show ?thesis by (auto simp: advanced_def)
qed

lemma check_token_safe:
  assumes ok: "batch_ok b" and i: "i + 1 < Length (Parser b)" "i + len \<le> Length (Parser b)" "0 < len"
    and len: "strlen (InputString (Parser b)) i = Some len" and dash: "InputString (Parser b) ! i = CHR ''-''"
    and shorts: "shorts_safe (Head b) (InputString (Parser b)) (Length (Parser b)) i"
  shows "\<exists>res b'. check_token junk b i len = Some (res, b') \<and> batch_step b i b'"
proof -
  let ?buf = "InputString (Parser b)" and ?L = "Length (Parser b)"
  have b: "bounded ?buf ?L" "list_all form_ok (Head b)" using ok by (simp_all add: batch_ok_def)
  have rd: "rd ?buf (i + 1) = Some (?buf ! (i + 1))" using rd_safe [OF b(1)] i(1) by simp
  have two: "i + 2 \<le> ?L" using i(1) by simp
  define r where "r = (if ?buf ! (i + 1) = CHR ''-'' then BatchCheckLongOption junk ?buf i len (?L - i) i (Head b)
        else if len = 2 then BatchCheckShortPartialOption junk ?buf i len (?L - i) i (Head b) 0
        else do {
          (res, off, head) \<leftarrow> BatchCheckShortWholeOption junk ?buf i len (?L - i) i (Head b);
          if res = NotFound then BatchCheckShortPartialOption junk ?buf i len (?L - i) i head 0
          else Some (res, off, head) })"
  have "advanced i (Head b) r \<and> (\<forall>res off head. r = Some (res, off, head) \<longrightarrow> list_all has_short (Head b) \<or> at_token ?buf off)"
  proof (cases "?buf ! (i + 1) = CHR ''-''")
    case True
    with long_safe [OF b(1) two refl b(2), of i junk len] long_lands_at_token [OF _ len] show ?thesis by (auto simp: r_def)
  next
    case False
    with shorts long_onlyD [of ?buf ?L i] i(1) dash have "list_all has_short (Head b)" by (auto simp: shorts_safe_def)
    with False short_token_safe [OF b(1) two i(2,3) this, of junk] show ?thesis by (simp add: r_def)
  qed
  then obtain res off head where r: "r = Some (res, off, head)" "i < off" "same_forms (Head b) head"
    "list_all has_short (Head b) \<or> at_token ?buf off" by (auto simp: advanced_def)
  have run: "check_token junk b i len = Some (res, b\<lparr>Head := head, Offset := off, Step := (if off \<ge> ?L then WrappingUp else InProgress)\<rparr>)"
    using rd r(1) unfolding check_token_def Let_def r_def by simp
  have "shorts_safe head ?buf ?L off"
    using shorts r(4) same_forms_short [OF r(3)] by (auto simp: shorts_safe_def)
  with run r(2,3) b(1) same_forms_ok [OF r(3) b(2)] show ?thesis by (auto simp: batch_ok_def batch_step_def)
qed

lemma BatchInnerNext_safe:
  assumes "batch_ok b" "shorts_safe (Head b) (InputString (Parser b)) (Length (Parser b)) i"
  shows "\<exists>res b'. BatchInnerNext junk b i = Some (res, b') \<and> batch_step b i b'"
  using assms
proof (induction junk b i rule: BatchInnerNext.induct)
  case (1 junk b i)
  let ?buf = "InputString (Parser b)" and ?L = "Length (Parser b)"
  have b: "bounded ?buf ?L" using "1.prems" by (simp add: batch_ok_def)
  show ?case
  proof (cases "i + 1 < ?L")
    case False
    with "1.prems" show ?thesis by (subst BatchInnerNext.simps) (simp add: batch_ok_def batch_step_def)
  next
    case True
    obtain l where l: "strlen ?buf i = Some l" "i + l \<le> ?L" "?buf ! i \<noteq> CHR 0x00 \<longrightarrow> 0 < l" using strlen_safe [OF b, of i] True by auto
    have rd: "rd ?buf i = Some (?buf ! i)" using rd_safe [OF b] True by simp
    show ?thesis
    proof (cases "?buf ! i = CHR ''-''")
      case False
      have "shorts_safe (Head b) ?buf ?L (i + l + 1)"
        using "1.prems"(2) at_token_after(2) [OF l(1)] by (auto simp: shorts_safe_def)
      with "1.IH" [of l "?buf ! i"] True False l(1) rd "1.prems"(1) obtain res b' where
        r: "BatchInnerNext junk b (i + l + 1) = Some (res, b')" "batch_step b (i + l + 1) b'" by auto
      have "BatchInnerNext junk b i = Some (res, b')"
        using r(1) True l(1) rd False by (subst BatchInnerNext.simps) simp
      with r(2) show ?thesis by (auto simp: batch_step_def)
    next
      case dash: True
      then have "BatchInnerNext junk b i = check_token junk b i l" using True l(1) rd by (subst BatchInnerNext.simps) simp
      with check_token_safe [OF "1.prems"(1) True l(2) _ l(1) dash "1.prems"(2)] l(3) dash show ?thesis by simp
    qed
  qed
qed

text \<open>Calling \<open>Next\<close> until the batch is finished, at most \<open>k\<close> times.\<close>

fun run_batch :: "nat \<Rightarrow> u64 \<Rightarrow> BatchState \<Rightarrow> BatchState option" where
  "run_batch 0 junk b = (if Step b = Finished then Some b else None)"
| "run_batch (Suc k) junk b = (if Step b = Finished then Some b else do { (res, b) \<leftarrow> Next junk b; run_batch k junk b })"

definition all_decided :: "OptionSpecification list \<Rightarrow> bool" where
  "all_decided opts \<longleftrightarrow> (\<forall>x \<in> set opts. ValueType x = BooleanByPresence \<longrightarrow> ParsingResult x \<noteq> None)"

lemma run_batch_wrap:
  assumes "batch_ok b" "Step b = WrappingUp" "2 \<le> k"
  shows "\<exists>b'. run_batch k junk b = Some b' \<and> Step b' = Finished \<and> same_forms (Head b) (Head b') \<and> all_decided (Head b')"
proof -
  from assms(3) obtain k' where k: "k = Suc (Suc k')" by (metis add_2_eq_Suc le_Suc_ex)
  have "same_forms (Head b) (snd (WrapUpOption (Head b)))" "all_decided (snd (WrapUpOption (Head b)))"
    by (auto simp: WrapUpOption_def same_forms_def all_decided_def)
  with assms(2) show ?thesis by (cases k') (auto simp: k Next_def WrapUpOption_def split: prod.splits)
qed

lemma run_batch_ends:
  assumes "batch_ok b" "Step b = Starting \<or> Step b = InProgress" "Offset b \<le> Length (Parser b)" "Length (Parser b) + 3 \<le> k + Offset b"
    "shorts_safe (Head b) (InputString (Parser b)) (Length (Parser b)) (Offset b)"
  shows "\<exists>b'. run_batch k junk b = Some b' \<and> Step b' = Finished \<and> same_forms (Head b) (Head b') \<and> all_decided (Head b')"
  using assms
proof (induction k arbitrary: b)
  case (Suc k)
  from BatchInnerNext_safe [OF Suc.prems(1,5), of junk] obtain res b1 where
    b1: "BatchInnerNext junk b (Offset b) = Some (res, b1)" "batch_ok b1" "Parser b1 = Parser b" "same_forms (Head b) (Head b1)"
    "Step b1 = WrappingUp \<or> Step b1 = InProgress \<and> Offset b < Offset b1 \<and> Offset b1 < Length (Parser b)
       \<and> shorts_safe (Head b1) (InputString (Parser b)) (Length (Parser b)) (Offset b1)" by (auto simp: batch_step_def)
  let ?b = "b1\<lparr>Result := Some res\<rparr>"
  have run: "run_batch (Suc k) junk b = run_batch k junk ?b" using b1(1) Suc.prems(2) by (auto simp: Next_def)
  have ok: "batch_ok ?b" using b1(2) by (simp add: batch_ok_def)
  have "\<exists>b'. run_batch k junk ?b = Some b' \<and> Step b' = Finished \<and> same_forms (Head ?b) (Head b') \<and> all_decided (Head b')"
  proof (cases "Step b1 = WrappingUp")
    case True
    then show ?thesis using Suc.prems(3,4) by (intro run_batch_wrap [OF ok]) simp_all
  next
    case False
    then show ?thesis using b1(3,5) Suc.prems(4) by (intro Suc.IH [OF ok]) auto
  qed
  with run same_forms_trans [OF b1(4)] show ?case by auto
qed simp

section \<open>Properties\<close>

text \<open>
  C30. Tokenising in place. The two passes of \<open>StartParsing\<close> over the buffer of a command line answer as
  the reference tokeniser does: an open quote or escape is \<open>CmdOptionsMalformatted\<close>; otherwise the tokens are in the buffer, each
  ended by a NUL, their number is recorded, and the length is that of the tokens, unless there are none, when it wraps around.\<close>

theorem StartParsing_correct:
  assumes "CHR 0x00 \<notin> set s" "\<not> Started p"
  shows "case lex Plain None s of
      None \<Rightarrow> \<exists>buf. StartParsing (s @ CHR 0x00 # rest) p = Some (CmdOptionsMalformatted, p\<lparr>InputString := buf\<rparr>)
    | Some ts \<Rightarrow> \<exists>p' rest'. StartParsing (s @ CHR 0x00 # rest) p = Some (Okay, p') \<and> InputString p' = join ts @ rest'
        \<and> length (InputString p') = length (s @ CHR 0x00 # rest) \<and> TokenCount p' = length ts \<and> Started p'
        \<and> Length p' = (if ts = [] then 2 ^ 64 - 1 else length (join ts) - 1)"
  using StartParsing_lex [OF assms, of rest] by (auto simp: parsed_def split: option.splits)

theorem StartParsing_correct_witness:
  "\<exists>p'. StartParsing (''--a  '' @ [CHR 0x22] @ ''b c'' @ [CHR 0x22] @ '' '' @ [CHR 0x00]) OptionParser_new = Some (Okay, p')
     \<and> TokenCount p' = 2 \<and> Length p' = 7"
proof -
  have "lex Plain None (''--a  '' @ [CHR 0x22] @ ''b c'' @ [CHR 0x22] @ '' '') = Some [''--a'', ''b c'']"
    by (simp add: blank_def escaped_def)
  with StartParsing_correct [of "''--a  '' @ [CHR 0x22] @ ''b c'' @ [CHR 0x22] @ '' ''" OptionParser_new "[]"] show ?thesis
    by (auto simp: OptionParser_new_def)
qed

definition quote :: "string \<Rightarrow> string" where
  "quote t = CHR 0x22 # concat (map (\<lambda>c. if c = CHR 0x22 \<or> c = CHR 0x5C then [CHR 0x5C, c] else [c]) t) @ [CHR 0x22]"

definition command_line :: "string list \<Rightarrow> string" where
  "command_line ts = concat (map (\<lambda>t. quote t @ '' '') ts)"

lemma lex_quoted:
  "lex Double (Some u) (concat (map (\<lambda>c. if c = CHR 0x22 \<or> c = CHR 0x5C then [CHR 0x5C, c] else [c]) t) @ CHR 0x22 # cs) = lex Plain (Some (u @ t)) cs"
  by (induction t arbitrary: u) (auto simp: escaped_def)

lemma lex_command_line: "lex Plain None (command_line ts) = Some ts"
  by (induction ts) (simp_all add: command_line_def quote_def lex_quoted blank_def)

text \<open>
  C31. Round trip. Tokens that are quoted, with the quotes and escapes in them escaped, and separated by blanks are
  what the parser finds, whatever characters other than NUL they consist of.\<close>

theorem StartParsing_quoted_roundtrip:
  assumes "\<forall>t \<in> set ts. CHR 0x00 \<notin> set t" "\<not> Started p"
  shows "\<exists>p'. StartParsing (command_line ts @ CHR 0x00 # rest) p = Some (Okay, p') \<and> TokenCount p' = length ts
     \<and> take (length (join ts)) (InputString p') = join ts"
proof -
  have "CHR 0x00 \<notin> set (command_line ts)" using assms(1) by (auto simp: command_line_def quote_def split: if_splits)
  from StartParsing_lex [OF this assms(2), of rest] show ?thesis by (auto simp: lex_command_line parsed_def)
qed

theorem StartParsing_quoted_roundtrip_witness:
  "\<exists>p'. StartParsing (command_line [''a b'', [CHR 0x22, CHR 0x5C]] @ [CHR 0x00]) OptionParser_new = Some (Okay, p') \<and> TokenCount p' = 2
     \<and> take 7 (InputString p') = ''a b'' @ [CHR 0x00, CHR 0x22, CHR 0x5C, CHR 0x00]"
  using StartParsing_quoted_roundtrip [of "[''a b'', [CHR 0x22, CHR 0x5C]]" OptionParser_new "[]"]
  by (simp add: OptionParser_new_def numeral_eq_Suc)

text \<open>A token that a batch takes for one or more short options.\<close>

definition short_token :: "string \<Rightarrow> bool" where
  "short_token t \<longleftrightarrow> t \<noteq> [] \<and> hd t = CHR ''-'' \<and> (tl t = [] \<or> hd (tl t) \<noteq> CHR ''-'')"

lemma join_long_only:
  assumes "\<forall>t \<in> set ts. CHR 0x00 \<notin> set t \<and> \<not> short_token t" "i < length (join ts)"
    "i = 0 \<or> join ts ! (i - 1) = CHR 0x00" "join ts ! i = CHR ''-''"
  shows "i + 1 < length (join ts) \<and> join ts ! (i + 1) = CHR ''-''"
  using assms
proof (induction ts arbitrary: i)
  case (Cons t ts)
  consider "i < length t" | "i = length t" | "length t < i" by linarith
  then show ?case
  proof cases
    case 1
    have "i = 0"
    proof (rule ccontr)
      assume "i \<noteq> 0"
      with Cons.prems(3) 1 have "t ! (i - 1) = CHR 0x00" by (simp add: nth_append split: if_splits)
      moreover have "i - 1 < length t" using 1 by simp
      ultimately show False using Cons.prems(1) by (metis list.set_intros(1) nth_mem)
    qed
    with 1 Cons.prems(1,4) obtain u where "t = CHR ''-'' # CHR ''-'' # u"
      by (cases t; cases "tl t") (auto simp: short_token_def)
    with \<open>i = 0\<close> show ?thesis by simp
  next
    case 2
    with Cons.prems(4) show ?thesis by (simp add: nth_append)
  next
    case 3
    then obtain j where j: "i = length t + 1 + j" by (metis add.commute add_Suc_right less_natE plus_1_eq_Suc)
    have at: "join (t # ts) ! (length t + 1 + k) = join ts ! k" for k by (simp add: nth_append)
    have "j = 0 \<or> join ts ! (j - 1) = CHR 0x00" using Cons.prems(3) j at [of "j - 1"] by (cases j) auto
    with Cons.IH [of j] Cons.prems(1,2,4) j at [of j] at [of "j + 1"] show ?thesis by (simp add: add.assoc)
  qed
qed simp

lemma parsed_long_only:
  assumes "parsed ts p" "ts \<noteq> []" "\<forall>t \<in> set ts. CHR 0x00 \<notin> set t \<and> \<not> short_token t"
  shows "long_only (InputString p) (Length p)"
proof -
  from assms(1,2) obtain rest where "InputString p = join ts @ rest" "Length p = length (join ts) - 1" by (auto simp: parsed_def)
  with join_long_only [OF assms(3)] show ?thesis by (fastforce simp: long_only_def nth_append)
qed

text \<open>
  C32. A batch ends and is memory safe, on a command line with tokens on which no short option is looked up in vain: every option has
  a short form, or no token is a short option (nor has a NUL from an escape in it). Then repeated calls
  of \<open>Next\<close> finish after at most three more than the length of the tokens, never read outside of the buffer, leave the forms of the
  options as they are and give every option that is a flag a result. Neither condition can be dropped: see
  \<open>blank_command_line_overrun\<close> and \<open>kernel_options_null_short_form\<close>.\<close>

theorem Batch_terminates:
  assumes "StartParsing input OptionParser_new = Some (Okay, p)" "input = s @ CHR 0x00 # rest" "CHR 0x00 \<notin> set s"
    and "lex Plain None s = Some ts" "ts \<noteq> []" "\<forall>opt \<in> set opts. \<forall>lf. LongForm opt = Some lf \<longrightarrow> CHR 0x00 \<notin> set lf"
    and "(\<forall>opt \<in> set opts. ShortForm opt \<noteq> None) \<or> (\<forall>t \<in> set ts. CHR 0x00 \<notin> set t \<and> \<not> short_token t)"
    and "Length p + 3 \<le> k"
  shows "\<exists>b. run_batch k junk (StartBatch p opts) = Some b \<and> Step b = Finished \<and> same_forms opts (Head b) \<and> all_decided (Head b)"
proof -
  have "\<not> Started OptionParser_new" by (simp add: OptionParser_new_def)
  from StartParsing_lex [OF assms(3) this, of rest] assms(1,2,4) have parsed: "parsed ts p" by auto
  have "shorts_safe opts (InputString p) (Length p) 0"
    using assms(7) parsed_long_only [OF parsed assms(5)]
    by (auto simp: shorts_safe_def list_all_iff has_short_def at_token_def)
  moreover have "list_all form_ok opts" using assms(6) by (simp add: list_all_iff form_ok_def)
  ultimately show ?thesis
    using parsed_bounded [OF parsed assms(5)] assms(8) run_batch_ends [of "StartBatch p opts" k junk]
    by (simp add: StartBatch_def batch_ok_def)
qed

text \<open>The kernel's own options, on a line with long options.\<close>

definition kernel_options :: "OptionSpecification list" where
  "kernel_options = [OptionSpecification_new None (Some ''smp'') BooleanExplicit, OptionSpecification_new None (Some ''unit-tests'') BooleanByPresence,
     OptionSpecification_new None (Some ''tests'') StringType, OptionSpecification_new None (Some ''debugger'') StringType,
     OptionSpecification_new (Some ''t'') (Some ''term'') StringType]"

lemma kernel_line_parsed: "StartParsing (''--unit-tests --smp=off'' @ [CHR 0x00]) OptionParser_new =
   Some (Okay, \<lparr>InputString = ''--unit-tests'' @ [CHR 0x00] @ ''--smp=off'' @ [CHR 0x00], Length = 22, TokenCount = 2, Started = True\<rparr>)"
  by code_simp

theorem Batch_terminates_witness:
  "\<exists>p b. StartParsing (''--unit-tests --smp=off'' @ [CHR 0x00]) OptionParser_new = Some (Okay, p)
     \<and> run_batch 25 0 (StartBatch p kernel_options) = Some b \<and> Step b = Finished"
proof -
  have "lex Plain None ''--unit-tests --smp=off'' = Some [''--unit-tests'', ''--smp=off'']"
    by (simp add: blank_def)
  with Batch_terminates [OF kernel_line_parsed, of "''--unit-tests --smp=off''" "[]" "[''--unit-tests'', ''--smp=off'']" kernel_options 25 0]
    kernel_line_parsed show ?thesis
    by (auto simp: kernel_options_def OptionSpecification_new_def short_token_def)
qed

section \<open>Values of options\<close>

text \<open>The loop of \<open>ParseOption\<close> steps over a token that is not an option.\<close>

lemma find_option_skip:
  assumes buf: "InputString p = join done @ (t @ CHR 0x00 # rest)" and t: "CHR 0x00 \<notin> set t" "t = [] \<or> hd t \<noteq> CHR ''-''"
    and more: "length (join done) + length t + 1 < Length p"
  shows "find_option p opt (length (join done)) = find_option p opt (length (join (done @ [t])))"
proof -
  let ?i = "length (join done)"
  have "strlen (InputString p) ?i = Some (length t)" unfolding strlen_def buf by (simp add: cstr_append [OF t(1)])
  moreover have "rd (InputString p) ?i = Some (hd (t @ [CHR 0x00]))" by (cases t) (simp_all add: rd_def buf nth_append)
  moreover have "hd (t @ [CHR 0x00]) \<noteq> CHR ''-''" using t(2) by (cases t) auto
  ultimately show ?thesis using more by (subst find_option.simps) (simp add: algebra_simps)
qed

lemma strncmp_found:
  assumes "CHR 0x00 \<notin> set s"
  shows "strncmp_eq (pre @ s @ rest) (length pre) s (length s) = Some True"
  using assms
proof (induction s arbitrary: pre)
  case (Cons c s)
  from Cons.IH [of "pre @ [c]"] Cons.prems show ?case by (simp add: rd_def char_at_def is_NUL_def nth_append)
qed simp

lemma find_option_long:
  assumes buf: "InputString p = join done @ (''--'' @ lf @ e # rest)" and e: "e = CHR 0x00 \<or> e = CHR ''=''"
    and nul: "CHR 0x00 \<notin> set lf" "list_ex is_NUL rest \<or> e = CHR 0x00" and opt: "LongForm opt = Some lf"
    and more: "length (join done) + 2 + length lf < Length p"
  shows "find_option p opt (length (join done)) = Some (Some (length (join done) + 3 + length lf))"
proof -
  let ?i = "length (join done)"
  have drop_i: "drop ?i (InputString p) = ''--'' @ lf @ e # rest" by (simp add: buf)
  obtain l where l: "strlen (InputString p) ?i = Some l" using nul(2) by (auto simp: strlen_def cstr_def drop_i is_NUL_def)
  have rds: "rd (InputString p) ?i = Some (CHR ''-'')" "rd (InputString p) (?i + 1) = Some (CHR ''-'')"
    "rd (InputString p) (?i + 2 + length lf) = Some e"
    by (simp_all add: rd_def buf nth_append)
  have "strncmp_eq (InputString p) (?i + 2) lf (length lf) = Some True"
    using strncmp_found [OF nul(1), of "join done @ ''--''" "e # rest"] by (simp add: buf)
  with l rds e opt more show ?thesis by (subst find_option.simps) (auto simp: is_NUL_def)
qed

lemma find_option_skips:
  assumes "InputString p = join (done @ pre) @ rest" "\<forall>t \<in> set pre. CHR 0x00 \<notin> set t \<and> (t = [] \<or> hd t \<noteq> CHR ''-'')"
    and "length (join (done @ pre)) < Length p"
  shows "find_option p opt (length (join done)) = find_option p opt (length (join (done @ pre)))"
  using assms
proof (induction pre arbitrary: "done")
  case (Cons t pre)
  have "find_option p opt (length (join done)) = find_option p opt (length (join (done @ [t])))"
    using Cons.prems by (intro find_option_skip [of _ _ _ "join pre @ rest"]) auto
  also have "\<dots> = find_option p opt (length (join ((done @ [t]) @ pre)))" using Cons.prems by (intro Cons.IH) auto
  finally show ?case by simp
qed simp

text \<open>
  The value of a long option. If the tokens before are not options, \<open>ParseOption\<close> finds the long form of
  an option and takes as its value what follows the equality sign or else the next token, whatever that consists of.\<close>

theorem ParseOption_long_value:
  assumes p: "parsed ts p" and ts: "ts = pre @ (''--'' @ lf @ ''='' @ v) # post \<or> ts = pre @ (''--'' @ lf) # v # post"
    and pre: "\<forall>t \<in> set pre. CHR 0x00 \<notin> set t \<and> (t = [] \<or> hd t \<noteq> CHR ''-'')"
    and nul: "CHR 0x00 \<notin> set lf" "CHR 0x00 \<notin> set v" and opt: "LongForm opt = Some lf" "ParsingResult opt \<noteq> Some Okay"
  shows "\<exists>off. cstr (InputString p) off = Some v \<and> ParseOption junk opt p = set_value junk (InputString p) opt off"
proof -
  obtain rest where buf0: "InputString p = join ts @ rest" using p by (auto simp: parsed_def)
  have L: "Length p = length (join ts) - 1" using p ts by (auto simp: parsed_def)
  define e where "e = (if ts = pre @ (''--'' @ lf @ ''='' @ v) # post then CHR ''='' else CHR 0x00)"
  have buf: "InputString p = join pre @ (''--'' @ lf @ e # v @ CHR 0x00 # join post @ rest)" using ts buf0 by (auto simp: e_def)
  have len: "length (join ts) = length (join pre) + 2 + length lf + 1 + length v + 1 + length (join post)" using ts by auto
  let ?off = "length (join pre) + 3 + length lf"
  have "find_option p opt 0 = find_option p opt (length (join pre))"
    using find_option_skips [of p "[]" pre "''--'' @ lf @ e # v @ CHR 0x00 # join post @ rest" opt] buf pre L len by simp
  also have "\<dots> = Some (Some ?off)"
  proof (rule find_option_long [OF buf _ nul(1) _ opt(1)])
    show "list_ex is_NUL (v @ CHR 0x00 # join post @ rest) \<or> e = CHR 0x00" by (simp add: is_NUL_def)
  qed (use L len in \<open>simp_all add: e_def\<close>)
  finally have "ParseOption junk opt p = set_value junk (InputString p) opt ?off" using opt(2) by (simp add: ParseOption_def)
  moreover have "cstr (InputString p) ?off = Some v"
    using cstr_append [OF nul(2), of "join pre @ ''--'' @ lf @ [e]" "join post @ rest"] by (simp add: buf numeral_3_eq_3)
  ultimately show ?thesis by blast
qed

theorem ParseOption_long_value_witness:
  "\<exists>off. cstr (''--n=12'' @ [CHR 0x00]) off = Some ''12''
     \<and> ParseOption 0 (OptionSpecification_new None (Some ''n'') UnsignedInteger) \<lparr>InputString = ''--n=12'' @ [CHR 0x00], Length = 6, TokenCount = 1, Started = True\<rparr>
       = set_value 0 (''--n=12'' @ [CHR 0x00]) (OptionSpecification_new None (Some ''n'') UnsignedInteger) off"
  using ParseOption_long_value [of "[''--n=12'']" "\<lparr>InputString = ''--n=12'' @ [CHR 0x00], Length = 6, TokenCount = 1, Started = True\<rparr>" "[]"
      "''n''" "''12''" "[]" "OptionSpecification_new None (Some ''n'') UnsignedInteger" 0]
  by (simp add: parsed_def OptionSpecification_new_def)

section \<open>Deviations\<close>

text \<open>
  After a long option that does not match, \<open>ParseOption\<close> advances by the length of the long form it looked for and
  not by that of the token: the flag \<open>-x\<close> after it is missed.
\<close>

lemma ParseOption_misses_flag:
  "map_option (\<lambda>(res, opt). (res, BooleanValue opt))
     (ParseOption 0 (OptionSpecification_new (Some ''x'') (Some ''verbose'') BooleanByPresence)
       \<lparr>InputString = join [''--a'', ''-x''], Length = 6, TokenCount = 2, Started = True\<rparr>) = Some (Okay, False)"
  by code_simp

text \<open>A blank command line has the length \<open>2 ^ 64 - 1\<close>, and the first call of \<open>Next\<close> reads beyond it.\<close>

lemma blank_command_line_overrun:
  "Option.bind (StartParsing ('' '' @ [CHR 0x00]) OptionParser_new) (\<lambda>(res, p). Next 0 (StartBatch p [])) = None"
proof -
  have "StartParsing ('' '' @ [CHR 0x00]) OptionParser_new =
      Some (Okay, \<lparr>InputString = [CHR 0x00, CHR 0x00], Length = 2 ^ 64 - 1, TokenCount = 0, Started = True\<rparr>)"
    by (simp add: StartParsing_def OptionParser_new_def strlen_def cstr_def is_NUL_def first_pass.simps second_pass.simps first_char_def
        second_char_def no_quoting_def unfinished_def Let_def)
  then show ?thesis
    by (simp add: Next_def StartBatch_def BatchInnerNext.simps strlen_def cstr_def is_NUL_def rd_def)
qed

text \<open>The kernel's own options have no short forms but one, and a batch reads those of all that are not set: \<open>-t\<close> follows a null pointer.\<close>

lemma kernel_options_null_short_form:
  "Option.bind (StartParsing (''-t vga'' @ [CHR 0x00]) OptionParser_new) (\<lambda>(res, p). Next 0 (StartBatch p kernel_options)) = None"
  by code_simp

end
