(* ===== verification/Rw_Spinlock.thy ===== *)
theory Rw_Spinlock
  imports Beel_Prelude
begin

text \<open>
  \<^verbatim>\<open>sysheaders/common/beel/sync/rw.spinlock.hpp\<close>: the readers-writer spinlock of multiprocessor builds.
  The lock is one 32-bit word: bit 0 says that a writer waits, bit 1 that there is a writer, the
  other bits count the readers. Every operation is split at its atomic accesses to the word.
\<close>

section \<open>The lock word\<close>

definition rws_Wait :: u32 where "rws_Wait = 1"

definition rws_Write :: u32 where "rws_Write = 2"

definition rws_Read :: u32 where "rws_Read = 4"

definition rws_ReadMask :: u32 where "rws_ReadMask = NOT (rws_Wait OR rws_Write)"

definition rws_WriteBit :: nat where "rws_WriteBit = 1"

definition rws_ReadBit :: nat where "rws_ReadBit = 2"

definition rws_Reset :: u32 where "rws_Reset = 0"

section \<open>Atomic accesses\<close>

text \<open>The members of \<open>Atomic\<close> the lock calls: the answer, and the word afterwards.\<close>

definition FetchAdd :: "u32 \<Rightarrow> u32 \<Rightarrow> u32 \<times> u32" where
  "FetchAdd x v = (v, v + x)"

definition FetchSub :: "u32 \<Rightarrow> u32 \<Rightarrow> u32 \<times> u32" where
  "FetchSub x v = (v, v - x)"

text \<open>The exchange writes the word it has found back to \<open>expected\<close>; its answer has both.\<close>

definition CmpXchgStrong :: "u32 \<Rightarrow> u32 \<Rightarrow> u32 \<Rightarrow> (bool \<times> u32) \<times> u32" where
  "CmpXchgStrong expected desired v =
     (if v = expected then ((True, expected), desired) else ((False, v), v))"

definition TestSet :: "nat \<Rightarrow> u32 \<Rightarrow> bool \<times> u32" where
  "TestSet b v = (bit v b, set_bit b v)"

section \<open>Operations\<close>

definition rws_HasWriter :: "u32 \<Rightarrow> bool" where
  "rws_HasWriter v \<longleftrightarrow> v AND (rws_Wait OR rws_Write) \<noteq> 0"

definition rws_GetReaderCount :: "u32 \<Rightarrow> u64" where
  "rws_GetReaderCount v = ucast (drop_bit rws_ReadBit (v AND rws_ReadMask))"

text \<open>
  What a thread is doing between two accesses. The attempts and the loops of the readers:
  \<open>TR_Undo\<close> and \<open>AR_Undo\<close> have counted themselves and found a writer, \<open>AR_Spin\<close> is in the inner loop
  of \<open>AcquireAsReader\<close> and \<open>AR_Add\<close> has left it. The writers: \<open>TW_Xchg\<close> has loaded the word,
  \<open>AW_Top\<close> is at the start of a round of \<open>AcquireAsWriter\<close> with its variable \<open>val\<close>, \<open>AW_Mark\<close> will set the
  wait bit, \<open>AW_Spin\<close> is in the inner loop. \<open>Up_Sub\<close> and \<open>Up_Spin\<close> are the rest of \<open>UpgradeToWriter\<close>
  after the write bit is set, and \<open>Dn_And\<close> is the rest of \<open>DowngradeToReader\<close>.
\<close>

datatype rws_thread =
    S_Out | TR_Undo | AR_Spin | AR_Add | AR_Undo | S_Reading
  | TW_Xchg u32 | AW_Top u32 | AW_Mark | AW_Spin | S_Writing
  | Up_Sub | Up_Spin | Dn_And

text \<open>
  Each access: the word before gives the word after and what the thread does next.
\<close>

definition rws_TryAcquireAsReader_add :: "u32 \<Rightarrow> u32 \<times> rws_thread" where
  "rws_TryAcquireAsReader_add v =
     (case FetchAdd rws_Read v of (val, v') \<Rightarrow>
        (v', if 0 \<noteq> val AND (rws_Wait OR rws_Write) then TR_Undo else S_Reading))"

definition rws_TryAcquireAsReader_undo :: "u32 \<Rightarrow> u32 \<times> rws_thread" where
  "rws_TryAcquireAsReader_undo v = (case FetchSub rws_Read v of (_, v') \<Rightarrow> (v', S_Out))"

definition rws_AcquireAsReader_load :: "u32 \<Rightarrow> u32 \<times> rws_thread" where
  "rws_AcquireAsReader_load v =
     (v, if v AND (rws_Wait OR rws_Write) \<noteq> 0 then AR_Spin else AR_Add)"

definition rws_AcquireAsReader_add :: "u32 \<Rightarrow> u32 \<times> rws_thread" where
  "rws_AcquireAsReader_add v =
     (case FetchAdd rws_Read v of (val, v') \<Rightarrow>
        (v', if val AND (rws_Wait OR rws_Write) = 0 then S_Reading else AR_Undo))"

definition rws_AcquireAsReader_undo :: "u32 \<Rightarrow> u32 \<times> rws_thread" where
  "rws_AcquireAsReader_undo v = (v - rws_Read, AR_Spin)"

definition rws_TryAcquireAsWriter_load :: "u32 \<Rightarrow> u32 \<times> rws_thread" where
  "rws_TryAcquireAsWriter_load v = (v, if v \<ge> rws_Write then S_Out else TW_Xchg v)"

definition rws_TryAcquireAsWriter_xchg :: "u32 \<Rightarrow> u32 \<Rightarrow> u32 \<times> rws_thread" where
  "rws_TryAcquireAsWriter_xchg val v =
     (case CmpXchgStrong val (val OR rws_Write) v of ((ok, _), v') \<Rightarrow>
        (v', if ok then S_Writing else S_Out))"

definition rws_AcquireAsWriter_load :: "u32 \<Rightarrow> u32 \<times> rws_thread" where
  "rws_AcquireAsWriter_load v = (v, AW_Top v)"

definition rws_check_wait :: "u32 \<Rightarrow> rws_thread" where
  "rws_check_wait val = (if 0 = val AND rws_Wait then AW_Mark else AW_Spin)"

definition rws_AcquireAsWriter_round :: "u32 \<Rightarrow> u32 \<Rightarrow> u32 \<times> rws_thread" where
  "rws_AcquireAsWriter_round val v =
     (if val < rws_Write
      then case CmpXchgStrong val rws_Write v of ((ok, val'), v') \<Rightarrow>
             (v', if ok then S_Writing else rws_check_wait val')
      else (v, rws_check_wait val))"

definition rws_AcquireAsWriter_mark :: "u32 \<Rightarrow> u32 \<times> rws_thread" where
  "rws_AcquireAsWriter_mark v = (v OR rws_Wait, AW_Spin)"

definition rws_AcquireAsWriter_spin :: "u32 \<Rightarrow> u32 \<times> rws_thread" where
  "rws_AcquireAsWriter_spin v = (v, if v > rws_Wait then AW_Spin else AW_Top v)"

definition rws_UpgradeToWriter_set :: "u32 \<Rightarrow> u32 \<times> rws_thread" where
  "rws_UpgradeToWriter_set v =
     (case TestSet rws_WriteBit v of (res, v') \<Rightarrow> (v', if res then S_Reading else Up_Sub))"

definition rws_UpgradeToWriter_sub :: "u32 \<Rightarrow> u32 \<times> rws_thread" where
  "rws_UpgradeToWriter_sub v = (v - rws_Read, Up_Spin)"

definition rws_UpgradeToWriter_spin :: "u32 \<Rightarrow> u32 \<times> rws_thread" where
  "rws_UpgradeToWriter_spin v = (v, if v AND rws_ReadMask \<noteq> 0 then Up_Spin else S_Writing)"

definition rws_ReleaseAsReader :: "u32 \<Rightarrow> u32 \<times> rws_thread" where
  "rws_ReleaseAsReader v = (v - rws_Read, S_Out)"

definition rws_ReleaseAsWriter :: "u32 \<Rightarrow> u32 \<times> rws_thread" where
  "rws_ReleaseAsWriter v = (v AND NOT rws_Write, S_Out)"

definition rws_DowngradeToReader_add :: "u32 \<Rightarrow> u32 \<times> rws_thread" where
  "rws_DowngradeToReader_add v = (v + rws_Read, Dn_And)"

definition rws_DowngradeToReader_and :: "u32 \<Rightarrow> u32 \<times> rws_thread" where
  "rws_DowngradeToReader_and v = (v AND NOT rws_Write, S_Reading)"

section \<open>Threads\<close>

text \<open>
  One access of one thread. A thread that is outside starts any of the four acquisitions, a reader
  releases or upgrades, the writer releases or downgrades.
\<close>

inductive rws_access :: "rws_thread \<Rightarrow> u32 \<Rightarrow> u32 \<times> rws_thread \<Rightarrow> bool" where
  try_reader: "rws_access S_Out v (rws_TryAcquireAsReader_add v)"
| try_reader_undo: "rws_access TR_Undo v (rws_TryAcquireAsReader_undo v)"
| reader: "rws_access S_Out v (rws_AcquireAsReader_load v)"
| reader_spin: "rws_access AR_Spin v (rws_AcquireAsReader_load v)"
| reader_add: "rws_access AR_Add v (rws_AcquireAsReader_add v)"
| reader_undo: "rws_access AR_Undo v (rws_AcquireAsReader_undo v)"
| try_writer: "rws_access S_Out v (rws_TryAcquireAsWriter_load v)"
| try_writer_xchg: "rws_access (TW_Xchg val) v (rws_TryAcquireAsWriter_xchg val v)"
| writer: "rws_access S_Out v (rws_AcquireAsWriter_load v)"
| writer_round: "rws_access (AW_Top val) v (rws_AcquireAsWriter_round val v)"
| writer_mark: "rws_access AW_Mark v (rws_AcquireAsWriter_mark v)"
| writer_spin: "rws_access AW_Spin v (rws_AcquireAsWriter_spin v)"
| upgrade: "rws_access S_Reading v (rws_UpgradeToWriter_set v)"
| upgrade_sub: "rws_access Up_Sub v (rws_UpgradeToWriter_sub v)"
| upgrade_spin: "rws_access Up_Spin v (rws_UpgradeToWriter_spin v)"
| release_reader: "rws_access S_Reading v (rws_ReleaseAsReader v)"
| release_writer: "rws_access S_Writing v (rws_ReleaseAsWriter v)"
| downgrade: "rws_access S_Writing v (rws_DowngradeToReader_add v)"
| downgrade_and: "rws_access Dn_And v (rws_DowngradeToReader_and v)"

inductive_cases rws_accessE: "rws_access l v r"

type_synonym rws_state = "u32 \<times> (nat \<Rightarrow> rws_thread)"

inductive rws_step :: "nat \<Rightarrow> rws_state \<Rightarrow> rws_state \<Rightarrow> bool" for N where
  "t < N \<Longrightarrow> rws_access (T t) v (v', l) \<Longrightarrow> rws_step N (v, T) (v', T(t := l))"

inductive_cases rws_stepE: "rws_step N s s'"

text \<open>Who holds the lock, who is counted in the readers' bits, and who owns the write bit.\<close>

definition rws_reads :: "rws_thread \<Rightarrow> bool" where
  "rws_reads l \<longleftrightarrow> l = S_Reading"

definition rws_writes :: "rws_thread \<Rightarrow> bool" where
  "rws_writes l \<longleftrightarrow> l = S_Writing \<or> l = Dn_And"

definition rws_counted :: "rws_thread \<Rightarrow> bool" where
  "rws_counted l \<longleftrightarrow> l \<in> {TR_Undo, AR_Undo, S_Reading, Up_Sub, Dn_And}"

definition rws_owns :: "rws_thread \<Rightarrow> bool" where
  "rws_owns l \<longleftrightarrow> l \<in> {S_Writing, Up_Sub, Up_Spin, Dn_And}"

text \<open>
  The specification: the set of readers and the set of writers. A reader enters while nobody writes,
  a writer while nobody is inside.
\<close>

type_synonym rws_spec = "nat set \<times> nat set"

inductive rws_spec_step :: "rws_spec \<Rightarrow> rws_spec \<Rightarrow> bool" where
  start_read: "t \<notin> R \<Longrightarrow> rws_spec_step (R, {}) (insert t R, {})"
| stop_read: "t \<in> R \<Longrightarrow> rws_spec_step (R, {}) (R - {t}, {})"
| start_write: "rws_spec_step ({}, {}) ({}, {t})"
| stop_write: "rws_spec_step ({}, {t}) ({}, {})"
| write_to_read: "rws_spec_step ({}, {t}) ({t}, {})"

definition rws_abs :: "(nat \<Rightarrow> rws_thread) \<Rightarrow> rws_spec" where
  "rws_abs T = ({t. rws_reads (T t)}, {t. rws_writes (T t)})"

text \<open>A thread in the loop of \<open>AcquireAsWriter\<close>.\<close>

definition rws_awaits :: "rws_thread \<Rightarrow> bool" where
  "rws_awaits l \<longleftrightarrow> l = AW_Mark \<or> l = AW_Spin \<or> (\<exists>val. l = AW_Top val)"

text \<open>What the attempt to write has loaded lets it go on.\<close>

definition rws_local :: "rws_thread \<Rightarrow> bool" where
  "rws_local l \<longleftrightarrow> (case l of TW_Xchg val \<Rightarrow> val < rws_Write | _ \<Rightarrow> True)"

text \<open>The word with \<open>n\<close> counted threads, write bit \<open>w\<close> and wait bit \<open>b\<close>.\<close>

definition rws_word :: "nat \<Rightarrow> bool \<Rightarrow> bool \<Rightarrow> u32" where
  "rws_word n w b = 4 * of_nat n + 2 * of_bool w + of_bool b"

definition rws_inv :: "nat \<Rightarrow> rws_state \<Rightarrow> bool" where
  "rws_inv N s \<longleftrightarrow> (case s of (v, T) \<Rightarrow>
     (\<forall>t. T t \<noteq> S_Out \<longrightarrow> t < N) \<and> (\<forall>t. rws_local (T t))
     \<and> (\<forall>t u. rws_owns (T t) \<and> rws_owns (T u) \<longrightarrow> t = u)
     \<and> (\<forall>t u. rws_writes (T t) \<longrightarrow> \<not> rws_reads (T u))
     \<and> (\<exists>b. v = rws_word (card {t. rws_counted (T t)}) (\<exists>t. rws_owns (T t)) b
            \<and> (b \<longrightarrow> (\<exists>t. rws_awaits (T t)))))"

end
