(* ===== verification/Rw_Spinlock_Theorems.thy ===== *)
theory Rw_Spinlock_Theorems
  imports Rw_Spinlock
begin

text \<open>
  The readers-writer spinlock: its word always has the number of counted threads, the write bit of
  the owner and a wait bit that some writer stands behind. Exclusion and the absence of deadlock
  follow.
\<close>

section \<open>The word\<close>

lemmas rws_consts = rws_Wait_def rws_Write_def rws_Read_def rws_ReadMask_def rws_WriteBit_def rws_ReadBit_def

lemmas rws_ops = rws_TryAcquireAsReader_add_def rws_TryAcquireAsReader_undo_def rws_AcquireAsReader_load_def
  rws_AcquireAsReader_add_def rws_AcquireAsReader_undo_def rws_TryAcquireAsWriter_load_def
  rws_TryAcquireAsWriter_xchg_def rws_AcquireAsWriter_load_def rws_AcquireAsWriter_round_def
  rws_AcquireAsWriter_mark_def rws_AcquireAsWriter_spin_def rws_UpgradeToWriter_set_def
  rws_UpgradeToWriter_sub_def rws_UpgradeToWriter_spin_def rws_ReleaseAsReader_def
  rws_ReleaseAsWriter_def rws_DowngradeToReader_add_def rws_DowngradeToReader_and_def
  rws_check_wait_def FetchAdd_def FetchSub_def CmpXchgStrong_def TestSet_def

lemmas rws_roles = rws_reads_def rws_writes_def rws_counted_def rws_owns_def rws_awaits_def rws_local_def

lemma rws_word_or: "rws_word n w b = push_bit 2 (of_nat n) OR push_bit 1 (of_bool w) OR of_bool b"
proof -
  have "rws_word n w b = push_bit 2 (of_nat n) + push_bit 1 (of_bool w) + of_bool b"
    by (simp add: rws_word_def push_bit_eq_mult)
  also have "push_bit 2 (of_nat n :: u32) + push_bit 1 (of_bool w) = push_bit 2 (of_nat n) OR push_bit 1 (of_bool w)"
    by (rule disjunctive_add_eq_or) (rule bit_word_eqI, auto simp: bit_simps bit_1_iff)
  also have "\<dots> + of_bool b = push_bit 2 (of_nat n) OR push_bit 1 (of_bool w) OR of_bool b"
    by (subst disjunctive_add_eq_or) (rule bit_word_eqI, auto simp: bit_simps bit_1_iff ac_simps)
  finally show ?thesis .
qed

lemma bit_rws_word:
  "bit (rws_word n w b) i \<longleftrightarrow> (i = 0 \<and> b) \<or> (i = 1 \<and> w) \<or> (2 \<le> i \<and> i < 32 \<and> bit (of_nat n :: u32) (i - 2))"
  by (cases "i < 2") (auto simp: rws_word_or bit_simps bit_1_iff less_2_cases_iff)

lemma rws_word_add: "rws_word n w b + rws_Read = rws_word (Suc n) w b"
  by (simp add: rws_word_def rws_consts algebra_simps)

lemma rws_word_sub: "0 < n \<Longrightarrow> rws_word n w b - rws_Read = rws_word (n - 1) w b"
  by (cases n) (simp_all add: rws_word_def rws_consts algebra_simps)

lemma rws_word_set_wait: "rws_word n w b OR rws_Wait = rws_word n w True"
  by (rule bit_word_eqI) (auto simp: bit_rws_word rws_consts bit_simps bit_1_iff)

lemma rws_word_set_write: "set_bit rws_WriteBit (rws_word n w b) = rws_word n True b"
  by (rule bit_word_eqI) (auto simp: bit_rws_word rws_consts bit_simps)

lemma rws_word_or_write: "rws_word n w b OR rws_Write = rws_word n True b"
  by (rule bit_word_eqI) (auto simp: bit_rws_word rws_consts bit_simps)

lemma rws_word_clear_write: "rws_word n w b AND NOT rws_Write = rws_word n False b"
  by (rule bit_word_eqI) (auto simp: bit_rws_word rws_consts bit_simps)

lemma bit_rws_word_write: "bit (rws_word n w b) rws_WriteBit = w"
  by (auto simp: bit_rws_word rws_consts)

lemma rws_word_small: "n < 2 ^ 30 \<Longrightarrow> unat (rws_word n w b) = 4 * n + 2 * of_bool w + of_bool b"
  unfolding rws_word_def by (cases w; cases b) (simp_all add: unat_word_ariths unat_of_nat take_bit_eq_mod)

lemma bit_rws_Wait: "bit rws_Wait i \<longleftrightarrow> i = 0" and bit_rws_Write: "bit rws_Write i \<longleftrightarrow> i = 1"
  unfolding rws_consts bit_1_iff using bit_exp_iff [where 'a = u32, of 1 i] by auto

lemma rws_word_blocked: "rws_word n w b AND (rws_Wait OR rws_Write) = 0 \<longleftrightarrow> \<not> w \<and> \<not> b"
proof -
  have "rws_word n w b AND (rws_Wait OR rws_Write) = rws_word 0 w b"
    by (rule bit_word_eqI) (auto simp: bit_rws_word bit_rws_Wait bit_rws_Write bit_and_iff bit_or_iff)
  then show ?thesis by (simp add: rws_word_def)
qed

lemma rws_word_wait: "0 = rws_word n w b AND rws_Wait \<longleftrightarrow> \<not> b"
proof -
  have "rws_word n w b AND rws_Wait = rws_word 0 False b"
    by (rule bit_word_eqI) (auto simp: bit_rws_word rws_consts bit_simps bit_1_iff)
  then show ?thesis by (simp add: rws_word_def)
qed

lemma rws_word_less: "n < 2 ^ 30 \<Longrightarrow> rws_word n w b < rws_Write \<longleftrightarrow> n = 0 \<and> \<not> w"
  by (simp add: word_less_nat_alt rws_word_small rws_consts)

lemma rws_word_gt_wait: "n < 2 ^ 30 \<Longrightarrow> rws_Wait < rws_word n w b \<longleftrightarrow> n \<noteq> 0 \<or> w"
  by (auto simp: word_less_nat_alt rws_word_small rws_consts)

lemma rws_word_readers: "rws_word n w b AND rws_ReadMask = rws_word n False False"
  unfolding rws_ReadMask_def
  by (rule bit_word_eqI) (auto simp: bit_rws_word bit_rws_Wait bit_rws_Write bit_and_iff bit_or_iff bit_not_iff)

lemma rws_word_no_readers: "n < 2 ^ 30 \<Longrightarrow> rws_word n False False = 0 \<longleftrightarrow> n = 0"
  using rws_word_small [of n False False] by (metis add_0 add_0_right mult_eq_0_iff of_bool_eq(1) unat_eq_zero zero_neq_numeral)

lemma rws_Write_word: "\<exists>b'. rws_Write = rws_word 0 True b' \<and> \<not> b'"
  by (rule exI [of _ False]) (simp add: rws_word_def rws_consts)

lemma GetReaderCount_word: "n < 2 ^ 30 \<Longrightarrow> rws_GetReaderCount (rws_word n w b) = of_nat n"
proof -
  assume n: "n < 2 ^ 30"
  have "unat (rws_GetReaderCount (rws_word n w b)) = unat (rws_word n False False) div 4"
    by (simp add: rws_GetReaderCount_def rws_word_readers rws_ReadBit_def unat_ucast_up unat_drop_bit)
  also have "\<dots> = unat (of_nat n :: u64)" using n by (simp add: rws_word_small unat_of_nat take_bit_eq_mod)
  finally show ?thesis by (rule unsigned_word_eqI)
qed

section \<open>One access\<close>

text \<open>
  How an access changes the word, given the word it finds: the count follows what the thread was and
  is, the write bit its ownership, and the wait bit stays only while a writer waits.
\<close>

lemmas rws_word_simps = rws_word_add rws_word_sub rws_word_set_wait rws_word_set_write rws_word_or_write
  rws_word_clear_write bit_rws_word_write rws_word_blocked rws_word_wait rws_word_less rws_word_gt_wait
  rws_word_readers rws_word_no_readers

lemma rws_access_word:
  assumes "rws_access old v (v', l)" "v = rws_word n w b" "n < 2 ^ 30" "rws_local old"
    "rws_counted old \<Longrightarrow> 0 < n" "rws_owns old \<Longrightarrow> w"
  shows "\<exists>b'. v' = rws_word (n - of_bool (rws_counted old) + of_bool (rws_counted l)) (rws_owns l \<or> w \<and> \<not> rws_owns old) b'
      \<and> (b' \<longrightarrow> rws_awaits l \<or> b \<and> \<not> rws_awaits old)"
    and "rws_local l" and "rws_owns l \<Longrightarrow> rws_owns old \<or> \<not> w"
    and "rws_writes l \<Longrightarrow> rws_writes old \<or> n = 0"
    and "rws_reads l \<Longrightarrow> rws_reads old \<or> rws_writes old \<or> \<not> w"
proof -
  show "rws_local l" "rws_owns l \<Longrightarrow> rws_owns old \<or> \<not> w" "rws_writes l \<Longrightarrow> rws_writes old \<or> n = 0"
    "rws_reads l \<Longrightarrow> rws_reads old \<or> rws_writes old \<or> \<not> w"
    using assms by (auto elim!: rws_accessE simp: rws_ops rws_roles rws_word_simps not_le split: if_splits)
  show "\<exists>b'. v' = rws_word (n - of_bool (rws_counted old) + of_bool (rws_counted l)) (rws_owns l \<or> w \<and> \<not> rws_owns old) b'
      \<and> (b' \<longrightarrow> rws_awaits l \<or> b \<and> \<not> rws_awaits old)"
    using assms by (elim rws_accessE) (auto simp: rws_ops rws_roles rws_word_simps not_le split: if_splits intro: exI [of _ b] exI [of _ True] rws_Write_word)
qed

section \<open>Steps\<close>

lemma rws_inv_count:
  assumes "\<forall>t. T t \<noteq> S_Out \<longrightarrow> t < N"
  shows "finite {t. rws_counted (T t)}" "card {t. rws_counted (T t)} \<le> N"
proof -
  have sub: "{t. rws_counted (T t)} \<subseteq> {..<N}" using assms by (fastforce simp: rws_counted_def)
  then show "finite {t. rws_counted (T t)}" by (rule finite_subset) simp
  show "card {t. rws_counted (T t)} \<le> N" using card_mono [OF _ sub] by simp
qed

lemma rws_card_update:
  assumes "finite {t. rws_counted (T t)}"
  shows "card {u. rws_counted ((T(t := l)) u)}
    = card {u. rws_counted (T u)} - of_bool (rws_counted (T t)) + of_bool (rws_counted l)"
proof -
  let ?A = "{u. rws_counted (T u)}"
  have "{u. rws_counted ((T(t := l)) u)} = (if rws_counted l then insert t (?A - {t}) else ?A - {t})" by auto
  moreover have "rws_counted (T t) \<Longrightarrow> 0 < card ?A" using assms by (auto simp: card_gt_0_iff)
  ultimately show ?thesis using assms by (simp add: card_Diff_singleton_if card_insert_if)
qed

lemma rws_step_inv:
  assumes inv: "rws_inv N (v, T)" and N: "N < 2 ^ 30" "t < N" and acc: "rws_access (T t) v (v', l)"
  shows "rws_inv N (v', T(t := l))"
proof -
  let ?n = "card {t. rws_counted (T t)}" and ?w = "\<exists>t. rws_owns (T t)"
  obtain b where out: "\<forall>t. T t \<noteq> S_Out \<longrightarrow> t < N" and loc: "\<forall>t. rws_local (T t)"
    and one: "\<And>t u. rws_owns (T t) \<Longrightarrow> rws_owns (T u) \<Longrightarrow> t = u"
    and excl: "\<And>t u. rws_writes (T t) \<Longrightarrow> \<not> rws_reads (T u)"
    and v: "v = rws_word ?n ?w b" and b: "b \<longrightarrow> (\<exists>t. rws_awaits (T t))"
    using inv unfolding rws_inv_def prod.case by metis
  note fin = rws_inv_count [OF out]
  have n: "?n < 2 ^ 30" using fin(2) N by linarith
  have pos: "rws_counted (T u) \<Longrightarrow> 0 < ?n" for u using fin(1) by (auto simp: card_gt_0_iff)
  have own: "rws_owns (T u) \<Longrightarrow> ?w" for u by blast
  note ok = rws_access_word [OF acc v n loc [rule_format] pos [of t] own [of t]]
  obtain b' where v': "v' = rws_word (?n - of_bool (rws_counted (T t)) + of_bool (rws_counted l)) (rws_owns l \<or> ?w \<and> \<not> rws_owns (T t)) b'"
    and b': "b' \<longrightarrow> rws_awaits l \<or> b \<and> \<not> rws_awaits (T t)" using ok(1) by blast
  have owns: "(\<exists>u. rws_owns ((T(t := l)) u)) = (rws_owns l \<or> ?w \<and> \<not> rws_owns (T t))"
    using one by (metis fun_upd_apply)
  have roles: "rws_writes x \<Longrightarrow> rws_owns x" "rws_reads x \<Longrightarrow> rws_counted x" for x by (auto simp: rws_roles)
  have "t' = u" if "rws_owns ((T(t := l)) t')" "rws_owns ((T(t := l)) u)" for t' u
    using that one ok(3) by (auto split: if_splits)
  moreover have "\<not> rws_reads ((T(t := l)) u)" if w: "rws_writes ((T(t := l)) t')" for t' u
  proof
    assume r: "rws_reads ((T(t := l)) u)"
    show False
    proof (cases "t' = t")
      case True
      with w have "rws_writes l" by simp
      moreover have "u \<noteq> t" using r \<open>rws_writes l\<close> by (auto simp: rws_roles)
      ultimately show False using r excl ok(4) pos roles(2) by (metis fun_upd_apply less_irrefl)
    next
      case False
      then have "rws_writes (T t')" "rws_owns (T t')" using w roles(1) by auto
      then have "u = t" using r excl by (auto split: if_splits)
      then have "rws_reads (T t) \<or> rws_writes (T t)" using r ok(5) own \<open>rws_owns (T t')\<close> by auto
      then show False using excl [OF \<open>rws_writes (T t')\<close>] one [OF \<open>rws_owns (T t')\<close> roles(1)] False by blast
    qed
  qed
  moreover have "b' \<longrightarrow> (\<exists>u. rws_awaits ((T(t := l)) u))" using b b' by auto
  moreover have "v' = rws_word (card {u. rws_counted ((T(t := l)) u)}) (\<exists>u. rws_owns ((T(t := l)) u)) b'"
    unfolding owns rws_card_update [OF fin(1)] by (rule v')
  moreover have "\<forall>u. (T(t := l)) u \<noteq> S_Out \<longrightarrow> u < N" "\<forall>u. rws_local ((T(t := l)) u)"
    using out loc N(2) ok(2) by auto
  ultimately show ?thesis unfolding rws_inv_def prod.case by blast
qed

text \<open>The same step on the specification.\<close>

lemma rws_step_abs:
  assumes inv: "rws_inv N (v, T)" and N: "N < 2 ^ 30" "t < N" and acc: "rws_access (T t) v (v', l)"
  shows "rws_spec_step (rws_abs T) (rws_abs (T(t := l))) \<or> rws_abs (T(t := l)) = rws_abs T"
proof -
  note inv' = rws_step_inv [OF assms]
  let ?R = "{u. rws_reads (T u)}" and ?W = "{u. rws_writes (T u)}"
  have writer: "{u. rws_writes (T' u)} = {u} \<and> {u. rws_reads (T' u)} = {}" if "rws_inv N (x, T')" "rws_writes (T' u)" for x T' u
    using that unfolding rws_inv_def prod.case by (fastforce simp: rws_roles)
  have R': "{u. rws_reads ((T(t := l)) u)} = (if rws_reads l then insert t ?R else ?R - {t})"
    and W': "{u. rws_writes ((T(t := l)) u)} = (if rws_writes l then insert t ?W else ?W - {t})" by auto
  consider "rws_writes (T t)" | "rws_writes l" "\<not> rws_writes (T t)" | "\<not> rws_writes l" "\<not> rws_writes (T t)" by blast
  then show ?thesis
  proof cases
    case 1
    then have "?W = {t}" "?R = {}" using writer [OF inv] by auto
    then show ?thesis using R' W' by (auto simp: rws_abs_def rws_roles intro: rws_spec_step.intros)
  next
    case 2
    have "\<not> rws_reads (T t)" using acc 2(1) by (auto elim!: rws_accessE simp: rws_ops rws_roles split: if_splits)
    then have "?R = {}" "?W = {}" "\<not> rws_reads l"
      using writer [OF inv', of t] R' W' 2 by (auto simp: rws_roles split: if_splits)
    with 2 R' W' show ?thesis by (simp add: rws_abs_def rws_spec_step.start_write)
  next
    case 3
    then have W: "{u. rws_writes ((T(t := l)) u)} = ?W" using W' by auto
    have "?W = {}" if "rws_reads l \<or> rws_reads (T t)"
    proof (rule ccontr)
      assume "?W \<noteq> {}"
      then obtain u where "rws_writes (T u)" "rws_writes ((T(t := l)) u)" using W by blast
      with writer [OF inv, of u] writer [OF inv', of u] that show False by (metis (mono_tags) empty_Collect_eq fun_upd_same)
    qed
    then show ?thesis using R' W rws_spec_step.start_read [of t ?R] rws_spec_step.stop_read [of t ?R]
      by (cases "rws_reads l"; cases "rws_reads (T t)") (auto simp: rws_abs_def insert_absorb)
  qed
qed

lemma rws_step_simulates:
  assumes "rws_inv N s \<and> a = rws_abs (snd s)" "rws_step N s s'" "N < 2 ^ 30"
  shows "\<exists>a'. (rws_spec_step a a' \<or> a' = a) \<and> rws_inv N s' \<and> a' = rws_abs (snd s')"
  using assms(2)
proof (cases rule: rws_step.cases)
  case (1 t T v v' l)
  with assms(1,3) rws_step_inv [of N v T t v' l] rws_step_abs [of N v T t v' l] show ?thesis
    by (intro exI [of _ "rws_abs (T(t := l))"]) auto
qed

interpretation rws: simulation "rws_step (min N (2 ^ 30 - 1))" rws_spec_step
    "\<lambda>s a. rws_inv (min N (2 ^ 30 - 1)) s \<and> a = rws_abs (snd s)" for N
  by unfold_locales (rule rws_step_simulates, simp_all add: min_less_iff_disj)

lemma rws_inv_Reset: "rws_inv N (rws_Reset, \<lambda>_. S_Out)"
  by (auto simp: rws_inv_def rws_Reset_def rws_roles rws_word_def intro: exI [of _ False])

lemma rws_reachable:
  assumes "N < 2 ^ 30" "rtranclp (rws_step N) (rws_Reset, \<lambda>_. S_Out) (v, T)"
  shows "rws_inv N (v, T)" "rtranclp rws_spec_step ({}, {}) (rws_abs T)"
  using rws.reachable_simulates [of N "(rws_Reset, \<lambda>_. S_Out)" "(v, T)" "({}, {})"] assms rws_inv_Reset
  by (simp_all add: min_absorb1 rws_abs_def rws_roles)

section \<open>Theorems\<close>

text \<open>
  C33. The readers-writer spinlock excludes: however fewer than \<open>2 ^ 30\<close> threads interleave the atomic
  accesses of attempts, acquisitions, upgrades, downgrades and releases, the threads inside follow
  the specification, a writer is alone, the count of readers is the number of threads that have
  counted themselves, the write bit of a writer shows in \<open>HasWriter\<close>, and \<open>HasWriter\<close> answers true only
  while some thread owns the write bit or waits for it.
\<close>

theorem RwSpinlock_exclusion:
  assumes "N < 2 ^ 30" "rtranclp (rws_step N) (rws_Reset, \<lambda>_. S_Out) (v, T)"
  shows "rtranclp rws_spec_step ({}, {}) (rws_abs T)
    \<and> (rws_writes (T t) \<longrightarrow> rws_abs T = ({}, {t}) \<and> rws_HasWriter v)
    \<and> rws_GetReaderCount v = of_nat (card {u. rws_counted (T u)})
    \<and> (rws_HasWriter v \<longrightarrow> (\<exists>u. rws_owns (T u) \<or> rws_awaits (T u)))"
proof -
  note inv = rws_reachable(1) [OF assms]
  then obtain b where out: "\<forall>t. T t \<noteq> S_Out \<longrightarrow> t < N"
    and one: "\<And>t u. rws_owns (T t) \<Longrightarrow> rws_owns (T u) \<Longrightarrow> t = u"
    and excl: "\<And>t u. rws_writes (T t) \<Longrightarrow> \<not> rws_reads (T u)"
    and v: "v = rws_word (card {t. rws_counted (T t)}) (\<exists>t. rws_owns (T t)) b" and b: "b \<longrightarrow> (\<exists>t. rws_awaits (T t))"
    unfolding rws_inv_def prod.case by metis
  have "card {t. rws_counted (T t)} < 2 ^ 30" using rws_inv_count(2) [OF out] assms(1) by linarith
  then have "rws_GetReaderCount v = of_nat (card {u. rws_counted (T u)})" by (simp add: v GetReaderCount_word)
  moreover have has: "rws_HasWriter v \<longleftrightarrow> (\<exists>t. rws_owns (T t)) \<or> b" by (simp add: rws_HasWriter_def v rws_word_blocked)
  moreover have "rws_abs T = ({}, {t}) \<and> rws_owns (T t)" if "rws_writes (T t)"
    using that one [of _ t] excl by (auto simp: rws_abs_def rws_roles)
  ultimately show ?thesis using rws_reachable(2) [OF assms] b has by blast
qed

text \<open>Thread 0 reads, thread 1 waits to write and thread 2 was turned away and takes its count back.\<close>

definition demo_rws_threads :: "nat \<Rightarrow> rws_thread" where
  "demo_rws_threads = (\<lambda>_. S_Out)(0 := S_Reading, 1 := AW_Spin, 2 := TR_Undo)"

lemma rws_step_at:
  "t < N \<Longrightarrow> rws_access (T t) v r \<Longrightarrow> rtranclp (rws_step N) s (v, T) \<Longrightarrow> rtranclp (rws_step N) s (fst r, T(t := snd r))"
  by (metis prod.collapse rtranclp.rtrancl_into_rtrancl rws_step.intros)

lemma demo_rws_waiting: "rtranclp (rws_step 3) (rws_Reset, \<lambda>_. S_Out) (5, (\<lambda>_. S_Out)(0 := S_Reading, 1 := AW_Spin))"
proof -
  let ?T = "\<lambda>_ :: nat. S_Out" and ?r = "rtranclp (rws_step 3) (rws_Reset, \<lambda>_. S_Out)"
  have "?r (rws_Reset, ?T)" by simp
  from rws_step_at [OF _ _ this, of 0 "rws_TryAcquireAsReader_add 0"]
  have "?r (4, ?T(0 := S_Reading))" by (simp add: rws_Reset_def rws_access.try_reader) (simp add: rws_ops rws_consts)
  from rws_step_at [OF _ _ this, of 1 "rws_AcquireAsWriter_load 4"]
  have "?r (4, ?T(0 := S_Reading, 1 := AW_Top 4))" by (simp add: rws_access.writer) (simp add: rws_ops)
  from rws_step_at [OF _ _ this, of 1 "rws_AcquireAsWriter_round 4 4"]
  have "?r (4, ?T(0 := S_Reading, 1 := AW_Mark))" by (simp add: rws_access.writer_round) (simp add: rws_ops rws_consts)
  from rws_step_at [OF _ _ this, of 1 "rws_AcquireAsWriter_mark 4"]
  show ?thesis by (simp add: rws_access.writer_mark) (simp add: rws_ops rws_consts)
qed

lemma demo_rws_reachable: "rtranclp (rws_step 3) (rws_Reset, \<lambda>_. S_Out) (9, demo_rws_threads)"
  using rws_step_at [OF _ _ demo_rws_waiting, of 2 "rws_TryAcquireAsReader_add 5"]
  by (simp add: rws_access.try_reader) (simp add: rws_ops rws_consts demo_rws_threads_def)

lemma demo_rws_alone: "rtranclp (rws_step 3) (rws_Reset, \<lambda>_. S_Out) (1, (\<lambda>_. S_Out)(1 := AW_Spin))"
  using rws_step_at [OF _ _ demo_rws_waiting, of 0 "rws_ReleaseAsReader 5"]
  by (simp add: rws_access.release_reader fun_upd_twist) (simp add: rws_ops rws_consts fun_upd_idem)

theorem RwSpinlock_exclusion_witness:
  "rws_GetReaderCount 9 = of_nat (card {u. rws_counted (demo_rws_threads u)})
   \<and> rtranclp rws_spec_step ({}, {}) (rws_abs demo_rws_threads)"
proof -
  have "(3 :: nat) < 2 ^ 30" by simp
  from RwSpinlock_exclusion [OF this demo_rws_reachable] show ?thesis by blast
qed

text \<open>
  C34. The spinlock does not deadlock: when every thread is outside or spins in an acquisition, and some
  thread spins, then a spinning thread can get the lock by steps of its own. (The wait bit alone
  keeps the readers out, and it is never left behind without a writer that waits.)
\<close>

theorem RwSpinlock_no_deadlock:
  assumes "N < 2 ^ 30" "rtranclp (rws_step N) (rws_Reset, \<lambda>_. S_Out) (v, T)"
    "\<forall>u. T u = S_Out \<or> T u = AR_Spin \<or> T u = AW_Spin" "T t \<noteq> S_Out"
  shows "\<exists>u v' l. T u \<noteq> S_Out \<and> l \<in> {S_Reading, S_Writing} \<and> rtranclp (rws_step N) (v, T) (v', T(u := l))"
proof -
  obtain b where out: "\<And>t. T t \<noteq> S_Out \<Longrightarrow> t < N" and v: "v = rws_word (card {t. rws_counted (T t)}) (\<exists>t. rws_owns (T t)) b"
    and b: "b \<longrightarrow> (\<exists>t. rws_awaits (T t))"
    using rws_reachable(1) [OF assms(1,2)] unfolding rws_inv_def prod.case by metis
  have "\<not> rws_counted (T u)" "\<not> rws_owns (T u)" for u using assms(3) [rule_format, of u] by (auto simp: rws_roles)
  then have v: "v = rws_word 0 False b" using v by simp
  show ?thesis
  proof (cases "\<exists>u. T u = AW_Spin")
    case True
    then obtain u where u: "T u = AW_Spin" "u < N" using out by force
    have "rtranclp (rws_step N) (v, T) (v, T(u := AW_Top v))"
      using rws_step_at [OF u(2), of T v "rws_AcquireAsWriter_spin v" "(v, T)"] u(1) rws_access.writer_spin [of v]
      by (simp add: rws_ops v rws_word_gt_wait)
    from rws_step_at [OF u(2) _ this, of "rws_AcquireAsWriter_round v v"] rws_access.writer_round [of v v]
    have "rtranclp (rws_step N) (v, T) (rws_Write, T(u := S_Writing))"
      by (simp add: rws_ops v rws_word_less)
    with u(1) show ?thesis by (metis insert_iff rws_thread.distinct(17))
  next
    case False
    then have t: "T t = AR_Spin" "t < N" using assms(3,4) out by auto
    have "\<not> rws_awaits (T u)" for u using assms(3) [rule_format, of u] False by (auto simp: rws_awaits_def)
    with b have "\<not> b" by blast
    then have v0: "v AND (rws_Wait OR rws_Write) = 0" by (simp add: v rws_word_blocked)
    have "rtranclp (rws_step N) (v, T) (v, T(t := AR_Add))"
      using rws_step_at [OF t(2), of T v "rws_AcquireAsReader_load v" "(v, T)"] t(1) rws_access.reader_spin [of v] v0
      by (simp add: rws_ops)
    from rws_step_at [OF t(2) _ this, of "rws_AcquireAsReader_add v"] rws_access.reader_add [of v]
    have "rtranclp (rws_step N) (v, T) (v + rws_Read, T(t := S_Reading))"
      using v0 by (simp add: rws_ops)
    with t(1) show ?thesis by (metis insert_iff rws_thread.distinct(3))
  qed
qed

theorem RwSpinlock_no_deadlock_witness:
  "\<exists>u v' l. ((\<lambda>_. S_Out)(1 := AW_Spin)) u \<noteq> S_Out \<and> l \<in> {S_Reading, S_Writing}
     \<and> rtranclp (rws_step 3) (1, (\<lambda>_. S_Out)(1 := AW_Spin)) (v', ((\<lambda>_. S_Out)(1 := AW_Spin))(u := l))"
  by (rule RwSpinlock_no_deadlock [OF _ demo_rws_alone, of 1]) simp_all

end
