(* ===== verification/Mem_Strings.thy ===== *)
theory Mem_Strings
  imports Beel_Prelude "HOL-Library.Monad_Syntax"
begin

text \<open>
  \<^verbatim>\<open>libs/common/x86/src/string.c\<close> and \<^verbatim>\<open>libs/common/src/string.c\<close>: the functions on memory and on strings that
  kernel and applications share. Memory is a function from addresses to bytes. The first file is written with the string
  instructions of the processor, which are modelled first; the loops of the second one that run up to a terminating NUL take
  fuel, and \<open>None\<close> is a run that has not ended.
\<close>

type_synonym memory = "u64 \<Rightarrow> u8"

section \<open>String instructions\<close>

definition stride :: "bool \<Rightarrow> u64" where
  "stride df = (if df then - 1 else 1)"

lemma count_down [termination_simp]: "rcx \<noteq> 0 \<Longrightarrow> unat (rcx - 1 :: 'a::len word) < unat rcx"
  by (simp add: unat_minus_one unat_gt_0)

lemma count_down_next: "len \<noteq> 1 \<Longrightarrow> unat (len - 2 :: 'a::len word) < unat (len - 1)"
  using count_down [of "len - 1"] by simp

text \<open>\<open>rep movsb\<close> with the direction flag: the registers and the memory afterwards.\<close>

function rep_movsb :: "bool \<Rightarrow> u64 \<Rightarrow> u64 \<Rightarrow> u64 \<Rightarrow> memory \<Rightarrow> u64 \<times> u64 \<times> memory" where
  "rep_movsb df rcx rdi rsi m =
     (if rcx = 0 then (rdi, rsi, m)
      else rep_movsb df (rcx - 1) (rdi + stride df) (rsi + stride df) (m(rdi := m rsi)))"
  by pat_completeness auto
termination by (relation "measure (\<lambda>(_, rcx, _). unat rcx)") (auto simp: count_down)

text \<open>\<open>repe cmpsb\<close>: the zero flag afterwards. With a count of zero it is the flag from before.\<close>

function repe_cmpsb :: "bool \<Rightarrow> u64 \<Rightarrow> u64 \<Rightarrow> u64 \<Rightarrow> memory \<Rightarrow> bool" where
  "repe_cmpsb zf rcx rdi rsi m =
     (if rcx = 0 then zf
      else if m rsi = m rdi then repe_cmpsb True (rcx - 1) (rdi + 1) (rsi + 1) m else False)"
  by pat_completeness auto
termination by (relation "measure (\<lambda>(_, rcx, _). unat rcx)") (auto simp: count_down)

text \<open>\<open>repne scasb\<close>: the count and the address afterwards.\<close>

function repne_scasb :: "u8 \<Rightarrow> u64 \<Rightarrow> u64 \<Rightarrow> memory \<Rightarrow> u64 \<times> u64" where
  "repne_scasb al rcx rdi m =
     (if rcx = 0 then (rcx, rdi)
      else if m rdi = al then (rcx - 1, rdi + 1) else repne_scasb al (rcx - 1) (rdi + 1) m)"
  by pat_completeness auto
termination by (relation "measure (\<lambda>(_, rcx, _). unat rcx)") (auto simp: count_down)

text \<open>\<open>rep stosb\<close>, \<open>stosw\<close> and \<open>stosl\<close>: elements of \<open>w\<close> bytes, lowest byte first.\<close>

fun store_le :: "nat \<Rightarrow> u64 \<Rightarrow> u64 \<Rightarrow> memory \<Rightarrow> memory" where
  "store_le 0 a v m = m"
| "store_le (Suc w) a v m = store_le w (a + 1) (drop_bit 8 v) (m(a := ucast v))"

function rep_stos :: "nat \<Rightarrow> u64 \<Rightarrow> u64 \<Rightarrow> u64 \<Rightarrow> memory \<Rightarrow> u64 \<times> memory" where
  "rep_stos w rax rcx rdi m =
     (if rcx = 0 then (rdi, m)
      else rep_stos w rax (rcx - 1) (rdi + of_nat w) (store_le w rdi rax m))"
  by pat_completeness auto
termination by (relation "measure (\<lambda>(_, _, rcx, _). unat rcx)") (auto simp: count_down)

declare rep_movsb.simps [simp del] repe_cmpsb.simps [simp del] repne_scasb.simps [simp del] rep_stos.simps [simp del]

section \<open>Memory\<close>

text \<open>\<open>zf\<close> is the zero flag the compiled code happens to have where the instruction starts.\<close>

definition memeq :: "bool \<Rightarrow> u64 \<Rightarrow> u64 \<Rightarrow> u64 \<Rightarrow> memory \<Rightarrow> bool" where
  "memeq zf src1 src2 len m = (if src1 = src2 then True else repe_cmpsb zf len src1 src2 m)"

text \<open>
  \<open>sete\<close> writes the lowest byte of the result register, an \<open>int\<close>; the three others keep what the register
  \<open>eax\<close> holds there, since the variable is an output of the instruction only.
\<close>

definition memcmp :: "bool \<Rightarrow> u32 \<Rightarrow> u64 \<Rightarrow> u64 \<Rightarrow> u64 \<Rightarrow> memory \<Rightarrow> int" where
  "memcmp zf eax src1 src2 len m =
     (if src1 = src2 then 0 else sint ((eax AND NOT 255) OR of_bool (repe_cmpsb zf len src1 src2 m)))"

definition memcpy :: "u64 \<Rightarrow> u64 \<Rightarrow> u64 \<Rightarrow> memory \<Rightarrow> u64 \<times> memory" where
  "memcpy dst src len m =
     (if src \<noteq> dst then case rep_movsb False len dst src m of (_, _, m') \<Rightarrow> (dst, m') else (dst, m))"

definition memmove :: "u64 \<Rightarrow> u64 \<Rightarrow> u64 \<Rightarrow> memory \<Rightarrow> u64 \<times> memory" where
  "memmove dst src len m =
     (if src > dst then case rep_movsb False len dst src m of (_, _, m') \<Rightarrow> (dst, m')
      else if src < dst then case rep_movsb True len (dst + len - 1) (src + len - 1) m of (_, _, m') \<Rightarrow> (dst, m')
      else (dst, m))"

definition mempcpy :: "u64 \<Rightarrow> u64 \<Rightarrow> u64 \<Rightarrow> memory \<Rightarrow> u64 \<times> memory" where
  "mempcpy dst src len m =
     (if src \<noteq> dst then case rep_movsb False len dst src m of (dst', _, m') \<Rightarrow> (dst', m') else (dst, m))"

definition mempmove :: "u64 \<Rightarrow> u64 \<Rightarrow> u64 \<Rightarrow> memory \<Rightarrow> u64 \<times> memory" where
  "mempmove dst src len m =
     (if src > dst then case rep_movsb False len dst src m of (dst', _, m') \<Rightarrow> (dst', m')
      else if src < dst then
        let dst' = dst + len - 1; src' = src + len - 1; ret = dst' + 1
        in case rep_movsb True len dst' src' m of (_, _, m') \<Rightarrow> (ret, m')
      else (dst + len, m))"

definition memset :: "u64 \<Rightarrow> u64 \<Rightarrow> u64 \<Rightarrow> memory \<Rightarrow> u64 \<times> memory" where
  "memset dst val len m = (dst, snd (rep_stos 1 val len dst m))"

definition mempset :: "u64 \<Rightarrow> u64 \<Rightarrow> u64 \<Rightarrow> memory \<Rightarrow> u64 \<times> memory" where
  "mempset dst val len m = rep_stos 1 val len dst m"

definition memset16 :: "u64 \<Rightarrow> u64 \<Rightarrow> u64 \<Rightarrow> memory \<Rightarrow> u64 \<times> memory" where
  "memset16 dst val cnt m = (dst, snd (rep_stos 2 val cnt dst m))"

definition mempset16 :: "u64 \<Rightarrow> u64 \<Rightarrow> u64 \<Rightarrow> memory \<Rightarrow> u64 \<times> memory" where
  "mempset16 dst val cnt m = rep_stos 2 val cnt dst m"

definition memset32 :: "u64 \<Rightarrow> u64 \<Rightarrow> u64 \<Rightarrow> memory \<Rightarrow> u64 \<times> memory" where
  "memset32 dst val cnt m = (dst, snd (rep_stos 4 val cnt dst m))"

definition mempset32 :: "u64 \<Rightarrow> u64 \<Rightarrow> u64 \<Rightarrow> memory \<Rightarrow> u64 \<times> memory" where
  "mempset32 dst val cnt m = rep_stos 4 val cnt dst m"

function memchr :: "u64 \<Rightarrow> u8 \<Rightarrow> u64 \<Rightarrow> memory \<Rightarrow> u64 option" where
  "memchr s bVal len m =
     (if len > 0 then if m s = bVal then Some s else memchr (s + 1) bVal (len - 1) m else None)"
  by pat_completeness auto
termination by (relation "measure (\<lambda>(_, _, len, _). unat len)") (auto simp: count_down word_greater_zero_iff)

declare memchr.simps [simp del]

section \<open>Lengths\<close>

definition strlen_mem :: "u64 \<Rightarrow> memory \<Rightarrow> u64" where
  "strlen_mem str m = (case repne_scasb 0 (NOT 0) str m of (ret, _) \<Rightarrow> NOT ret - 1)"

definition strnlen :: "u64 \<Rightarrow> u64 \<Rightarrow> memory \<Rightarrow> u64" where
  "strnlen str len m =
     (if len = 0 then 0
      else case repne_scasb 0 len str m of (_, str') \<Rightarrow>
        let null = str' - str in if m (str' - 1) = 0 then null - 1 else null)"

section \<open>Copies\<close>

text \<open>The loop of \<open>strcpy\<close> and \<open>strcat\<close>.\<close>

fun strcpy_loop :: "nat \<Rightarrow> u64 \<Rightarrow> u64 \<Rightarrow> memory \<Rightarrow> memory option" where
  "strcpy_loop 0 tmp src m = None"
| "strcpy_loop (Suc fuel) tmp src m =
     (let c = m src; m' = m(tmp := c) in
      if c \<noteq> 0 then strcpy_loop fuel (tmp + 1) (src + 1) m' else Some m')"

definition strcpy :: "nat \<Rightarrow> u64 \<Rightarrow> u64 \<Rightarrow> memory \<Rightarrow> (u64 \<times> memory) option" where
  "strcpy fuel dst src m = map_option (Pair dst) (strcpy_loop fuel dst src m)"

definition strcat :: "nat \<Rightarrow> u64 \<Rightarrow> u64 \<Rightarrow> memory \<Rightarrow> (u64 \<times> memory) option" where
  "strcat fuel dst src m = map_option (Pair dst) (strcpy_loop fuel (dst + strlen_mem dst m) src m)"

text \<open>The loop of \<open>strncpy\<close> and \<open>strncat\<close>: the last character, the end and the memory. The limit is decremented first.\<close>

function strncpy_loop :: "u64 \<Rightarrow> u64 \<Rightarrow> u64 \<Rightarrow> memory \<Rightarrow> u8 \<times> u64 \<times> memory" where
  "strncpy_loop tmp src len m =
     (let c = m src; m' = m(tmp := c) in
      if c \<noteq> 0 \<and> len - 1 > 0 then strncpy_loop (tmp + 1) (src + 1) (len - 1) m' else (c, tmp + 1, m'))"
  by pat_completeness auto
termination
  by (relation "measure (\<lambda>(_, _, len, _). unat (len - 1))") (auto simp: word_greater_zero_iff count_down_next)

declare strncpy_loop.simps [simp del]

definition strncpy :: "u64 \<Rightarrow> u64 \<Rightarrow> u64 \<Rightarrow> memory \<Rightarrow> u64 \<times> memory" where
  "strncpy dst src len m = (case strncpy_loop dst src len m of (_, _, m') \<Rightarrow> (dst, m'))"

definition strncat :: "u64 \<Rightarrow> u64 \<Rightarrow> u64 \<Rightarrow> memory \<Rightarrow> u64 \<times> memory" where
  "strncat dst src len m =
     (case strncpy_loop (dst + strlen_mem dst m) src len m of (c, tmp, m') \<Rightarrow>
        (dst, if c \<noteq> 0 then m'(tmp := 0) else m'))"

section \<open>Comparisons\<close>

definition char_diff :: "u8 \<Rightarrow> u8 \<Rightarrow> int" where
  "char_diff c1 c2 = sint c1 - sint c2"

fun strcmp_loop :: "nat \<Rightarrow> u64 \<Rightarrow> u64 \<Rightarrow> memory \<Rightarrow> int option" where
  "strcmp_loop 0 src1 src2 m = None"
| "strcmp_loop (Suc fuel) src1 src2 m =
     (let c1 = m src1; c2 = m src2; res = char_diff c1 c2 in
      if res = 0 \<and> (c1 \<noteq> 0 \<or> c2 \<noteq> 0) then strcmp_loop fuel (src1 + 1) (src2 + 1) m else Some res)"

definition strcmp :: "nat \<Rightarrow> u64 \<Rightarrow> u64 \<Rightarrow> memory \<Rightarrow> int option" where
  "strcmp fuel src1 src2 m = (if src1 = src2 then Some 0 else strcmp_loop fuel src1 src2 m)"

function strncmp_loop :: "u64 \<Rightarrow> u64 \<Rightarrow> u64 \<Rightarrow> memory \<Rightarrow> int" where
  "strncmp_loop src1 src2 len m =
     (let c1 = m src1; c2 = m src2; res = char_diff c1 c2 in
      if res = 0 \<and> len - 1 > 0 \<and> (c1 \<noteq> 0 \<or> c2 \<noteq> 0) then strncmp_loop (src1 + 1) (src2 + 1) (len - 1) m else res)"
  by pat_completeness auto
termination
  by (relation "measure (\<lambda>(_, _, len, _). unat (len - 1))") (auto simp: word_greater_zero_iff count_down_next)

declare strncmp_loop.simps [simp del]

definition strncmp :: "u64 \<Rightarrow> u64 \<Rightarrow> u64 \<Rightarrow> memory \<Rightarrow> int" where
  "strncmp src1 src2 len m = (if src1 = src2 then 0 else strncmp_loop src1 src2 len m)"

text \<open>
  One pair of characters of the comparisons without case: the difference, zero when the code takes them for the two cases of
  a letter. The second test compares with \<open>'A'\<close> twice.
\<close>

definition case_diff :: "u8 \<Rightarrow> u8 \<Rightarrow> int" where
  "case_diff c1 c2 =
     (let res = char_diff c1 c2 in
      if res \<noteq> 0 then
        if res = 32 \<and> 97 \<le> sint c1 \<and> sint c1 \<le> 122 then 0
        else if res = - 32 \<and> 65 \<le> sint c1 \<and> sint c1 \<le> 65 then 0
        else res
      else res)"

fun strcasecmp_loop :: "nat \<Rightarrow> u64 \<Rightarrow> u64 \<Rightarrow> memory \<Rightarrow> int option" where
  "strcasecmp_loop 0 src1 src2 m = None"
| "strcasecmp_loop (Suc fuel) src1 src2 m =
     (let c1 = m src1; c2 = m src2; res = case_diff c1 c2 in
      if res \<noteq> 0 then Some res
      else if c1 \<noteq> 0 \<or> c2 \<noteq> 0 then strcasecmp_loop fuel (src1 + 1) (src2 + 1) m else Some res)"

definition strcasecmp :: "nat \<Rightarrow> u64 \<Rightarrow> u64 \<Rightarrow> memory \<Rightarrow> int option" where
  "strcasecmp fuel src1 src2 m = (if src1 = src2 then Some 0 else strcasecmp_loop fuel src1 src2 m)"

function strcasencmp_loop :: "u64 \<Rightarrow> u64 \<Rightarrow> u64 \<Rightarrow> memory \<Rightarrow> int" where
  "strcasencmp_loop src1 src2 len m =
     (let c1 = m src1; c2 = m src2; res = case_diff c1 c2 in
      if res \<noteq> 0 then res
      else if len - 1 > 0 \<and> (c1 \<noteq> 0 \<or> c2 \<noteq> 0) then strcasencmp_loop (src1 + 1) (src2 + 1) (len - 1) m else res)"
  by pat_completeness auto
termination
  by (relation "measure (\<lambda>(_, _, len, _). unat (len - 1))") (auto simp: word_greater_zero_iff count_down_next)

declare strcasencmp_loop.simps [simp del]

definition strcasencmp :: "u64 \<Rightarrow> u64 \<Rightarrow> u64 \<Rightarrow> memory \<Rightarrow> int" where
  "strcasencmp src1 src2 len m = (if src1 = src2 then 0 else strcasencmp_loop src1 src2 len m)"

section \<open>Searches\<close>

text \<open>\<open>Some None\<close> is a null pointer.\<close>

fun strchr :: "nat \<Rightarrow> u64 \<Rightarrow> int \<Rightarrow> memory \<Rightarrow> u64 option option" where
  "strchr 0 haystack needle m = None"
| "strchr (Suc fuel) haystack needle m =
     (let c = m haystack in
      if c \<noteq> 0 then if sint c = needle then Some (Some haystack) else strchr fuel (haystack + 1) needle m
      else Some None)"

fun strpbrk_loop :: "nat \<Rightarrow> u64 \<Rightarrow> u64 \<Rightarrow> u64 \<Rightarrow> memory \<Rightarrow> u64 option option" where
  "strpbrk_loop 0 haystack needle nLen m = None"
| "strpbrk_loop (Suc fuel) haystack needle nLen m =
     (let c = m haystack in
      if memchr needle c nLen m \<noteq> None then Some (Some haystack)
      else if c \<noteq> 0 then strpbrk_loop fuel (haystack + 1) needle nLen m else Some None)"

definition strpbrk :: "nat \<Rightarrow> u64 \<Rightarrow> u64 \<Rightarrow> memory \<Rightarrow> u64 option option" where
  "strpbrk fuel haystack needle m = strpbrk_loop fuel haystack needle (strlen_mem needle m) m"

function strnpbrk_loop :: "u64 \<Rightarrow> u64 \<Rightarrow> u64 \<Rightarrow> u64 \<Rightarrow> memory \<Rightarrow> u64 option" where
  "strnpbrk_loop haystack needle nLen len m =
     (let c = m haystack in
      if memchr needle c nLen m \<noteq> None then Some haystack
      else if c \<noteq> 0 \<and> len - 1 > 0 then strnpbrk_loop (haystack + 1) needle nLen (len - 1) m else None)"
  by pat_completeness auto
termination
  by (relation "measure (\<lambda>(_, _, _, len, _). unat (len - 1))") (auto simp: word_greater_zero_iff count_down_next)

declare strnpbrk_loop.simps [simp del]

definition strnpbrk :: "u64 \<Rightarrow> u64 \<Rightarrow> u64 \<Rightarrow> memory \<Rightarrow> u64 option" where
  "strnpbrk haystack needle len m = strnpbrk_loop haystack needle (strlen_mem needle m) len m"

text \<open>The loop of \<open>strstr\<close> from \<open>i\<close> to \<open>lenDiff\<close>; it counts up to \<open>2 ^ 64\<close> and takes fuel for that.\<close>

fun strstr_loop :: "nat \<Rightarrow> bool \<Rightarrow> u64 \<Rightarrow> u64 \<Rightarrow> u64 \<Rightarrow> u64 \<Rightarrow> u64 \<Rightarrow> memory \<Rightarrow> u64 option option" where
  "strstr_loop 0 zf haystack needle nLen lenDiff i m = None"
| "strstr_loop (Suc fuel) zf haystack needle nLen lenDiff i m =
     (if i \<le> lenDiff
      then if memeq zf (haystack + i) needle nLen m then Some (Some (haystack + i))
           else strstr_loop fuel zf haystack needle nLen lenDiff (i + 1) m
      else Some None)"

definition strstr :: "nat \<Rightarrow> bool \<Rightarrow> u64 \<Rightarrow> u64 \<Rightarrow> memory \<Rightarrow> u64 option option" where
  "strstr fuel zf haystack needle m =
     (let hLen = strlen_mem haystack m; nLen = strlen_mem needle m in
      if hLen < nLen then Some None
      else strstr_loop fuel zf haystack needle nLen (hLen - nLen) 0 m)"

text \<open>The position of the next separator, from \<open>j\<close> on.\<close>

fun find_separator :: "nat \<Rightarrow> u64 \<Rightarrow> u64 \<Rightarrow> u64 \<Rightarrow> u64 \<Rightarrow> memory \<Rightarrow> u64 option" where
  "find_separator 0 haystack seps sLen j m = None"
| "find_separator (Suc fuel) haystack seps sLen j m =
     (if memchr seps (m (haystack + j)) sLen m = None then find_separator fuel haystack seps sLen (j + 1) m
      else Some j)"

text \<open>The loop of \<open>strstrex\<close> and \<open>strcasestrex\<close>, over the test of a word at an address.\<close>

fun strstrex_loop :: "nat \<Rightarrow> (u64 \<Rightarrow> bool) \<Rightarrow> u64 \<Rightarrow> u64 \<Rightarrow> u64 \<Rightarrow> u64 \<Rightarrow> u64 \<Rightarrow> u64 \<Rightarrow> memory \<Rightarrow> u64 option option" where
  "strstrex_loop 0 same haystack seps nLen sLen lenDiff i m = None"
| "strstrex_loop (Suc fuel) same haystack seps nLen sLen lenDiff i m =
     (if i \<le> lenDiff
      then do {
        j \<leftarrow> find_separator fuel haystack seps sLen i m;
        if j - i = nLen \<and> same (haystack + i) then Some (Some (haystack + i))
        else strstrex_loop fuel same haystack seps nLen sLen lenDiff (j + 1) m }
      else Some None)"

definition strstrex :: "nat \<Rightarrow> bool \<Rightarrow> u64 \<Rightarrow> u64 \<Rightarrow> u64 \<Rightarrow> memory \<Rightarrow> u64 option option" where
  "strstrex fuel zf haystack needle seps m =
     (let hLen = strlen_mem haystack m; nLen = strlen_mem needle m in
      if hLen < nLen then Some None
      else strstrex_loop fuel (\<lambda>a. memeq zf a needle nLen m) haystack seps nLen (strlen_mem seps m + 1) (hLen - nLen) 0 m)"

definition strcasestrex :: "nat \<Rightarrow> u64 \<Rightarrow> u64 \<Rightarrow> u64 \<Rightarrow> memory \<Rightarrow> u64 option option" where
  "strcasestrex fuel haystack needle seps m =
     (let hLen = strlen_mem haystack m; nLen = strlen_mem needle m in
      if hLen < nLen then Some None
      else strstrex_loop fuel (\<lambda>a. strcasencmp a needle nLen m = 0) haystack seps nLen (strlen_mem seps m + 1) (hLen - nLen) 0 m)"

end
