(* ===== verification/Mem_Strings_Props.thy ===== *)
theory Mem_Strings_Props
  imports Mem_Strings "HOL-Library.Sublist"
begin

text \<open>
  What the memory and string functions compute, in terms of the bytes at an address and of the string that starts there.
  Overlap of a source and a destination is a statement on the difference of their addresses, so the lemmas hold for ranges
  that wrap around the end of the address space as well.
\<close>

section \<open>Counts\<close>

lemma unat_count: "n < 2 ^ 64 \<Longrightarrow> unat (of_nat n :: u64) = n"
  by (simp add: unat_of_nat take_bit_eq_mod)

lemma u64_bound: "unat (x :: u64) < 2 ^ 64"
  using unsigned_less [of x] by simp

lemma count_nonzero: "Suc n < 2 ^ 64 \<Longrightarrow> 1 + (of_nat n :: u64) \<noteq> 0"
  using unat_count [of "Suc n"] by (metis Suc_neq_Zero of_nat_Suc unsigned_0)

lemma unat_pred: "x \<noteq> 0 \<Longrightarrow> unat (x - 1 :: u64) = unat x - 1"
  by (rule unat_minus_one)

lemma offset_word: "i < 2 ^ 64 \<Longrightarrow> unat ((a + of_nat i) - a :: u64) = i"
  by (simp add: unat_count)

lemma offset_inj: "i < 2 ^ 64 \<Longrightarrow> j < 2 ^ 64 \<Longrightarrow> (a :: u64) + of_nat i = a + of_nat j \<longleftrightarrow> i = j"
  by (metis add_left_cancel unat_count)

lemma unat_diffs:
  assumes "a \<noteq> b"
  shows "unat (a - b :: u64) + unat (b - a) = 2 ^ 64"
proof -
  have "(a - b) + (b - a) = 0" by simp
  then have "(unat (a - b) + unat (b - a)) mod 2 ^ 64 = 0" using unat_word_ariths(1) [of "a - b" "b - a"] by simp
  moreover have "0 < unat (a - b)" using assms by (simp add: unat_gt_0)
  moreover have "unat (a - b) < 2 ^ 64" "unat (b - a) < 2 ^ 64" using unsigned_less [of "a - b"] unsigned_less [of "b - a"] by simp_all
  ultimately show ?thesis by (auto simp: mod_eq_0_iff_dvd elim!: dvdE)
qed

section \<open>Copies of blocks\<close>

text \<open>The memory after \<open>n\<close> bytes at \<open>s\<close> have been copied to \<open>d\<close>.\<close>

definition copied :: "memory \<Rightarrow> u64 \<Rightarrow> u64 \<Rightarrow> nat \<Rightarrow> memory" where
  "copied m d s n = (\<lambda>x. if unat (x - d) < n then m (s + (x - d)) else m x)"

text \<open>The destination does not start inside the source, after its start.\<close>

definition no_overrun :: "u64 \<Rightarrow> u64 \<Rightarrow> nat \<Rightarrow> bool" where
  "no_overrun d s n \<longleftrightarrow> d = s \<or> n \<le> unat (d - s)"

lemma copied_0 [simp]: "copied m d s 0 = m"
  by (simp add: copied_def)

lemma copied_Suc:
  assumes "no_overrun d s (Suc n)" "Suc n < 2 ^ 64"
  shows "copied (m(d := m s)) (d + 1) (s + 1) n = copied m d s (Suc n)"
proof
  fix x
  show "copied (m(d := m s)) (d + 1) (s + 1) n x = copied m d s (Suc n) x"
  proof (cases "x = d")
    case True
    have "unat (- 1 :: u64) = 2 ^ 64 - 1" by (simp add: unsigned_minus_1_eq_mask mask_eq_exp_minus_1)
    with assms(2) True show ?thesis by (simp add: copied_def)
  next
    case False
    then have "unat (x - (d + 1)) = unat (x - d) - 1" "0 < unat (x - d)"
      using unat_pred [of "x - d"] by (simp_all add: algebra_simps unat_gt_0)
    moreover have "s + (x - d) \<noteq> d" if "unat (x - d) < Suc n"
    proof
      assume "s + (x - d) = d"
      then have "x - d = d - s" by (simp add: algebra_simps)
      with that assms(1) False show False by (auto simp: no_overrun_def)
    qed
    ultimately show ?thesis using False by (auto simp: copied_def algebra_simps)
  qed
qed

lemma no_overrun_Suc: "no_overrun d s (Suc n) \<Longrightarrow> no_overrun (d + 1) (s + 1) n"
  by (auto simp: no_overrun_def)

lemma rep_movsb_forward:
  assumes "n < 2 ^ 64" "no_overrun d s n"
  shows "rep_movsb False (of_nat n) d s m = (d + of_nat n, s + of_nat n, copied m d s n)"
  using assms
proof (induction n arbitrary: d s m)
  case (Suc n)
  have "rep_movsb False (of_nat (Suc n)) d s m = rep_movsb False (of_nat n) (d + 1) (s + 1) (m(d := m s))"
    by (subst rep_movsb.simps) (use count_nonzero Suc.prems(1) in \<open>simp add: stride_def\<close>)
  also have "\<dots> = (d + 1 + of_nat n, s + 1 + of_nat n, copied (m(d := m s)) (d + 1) (s + 1) n)"
    using Suc.prems by (intro Suc.IH no_overrun_Suc) simp_all
  finally show ?case using copied_Suc [OF Suc.prems(2,1)] by (simp add: algebra_simps)
qed (simp add: rep_movsb.simps)

lemma copied_last:
  assumes "no_overrun s d (Suc n)" "Suc n < 2 ^ 64"
  shows "copied (m(d + of_nat n := m (s + of_nat n))) d s n = copied m d s (Suc n)"
proof
  fix x
  let ?e = "d + of_nat n :: u64"
  have e: "unat (x - d) = n \<longleftrightarrow> x = ?e" using unat_count [of n] assms(2) by (metis Suc_lessD add_diff_cancel_left' diff_add_cancel add.commute of_nat_unat ucast_id)
  moreover have "s + (x - d) \<noteq> ?e" if "unat (x - d) < n"
  proof
    assume "s + (x - d) = ?e"
    then have "s - d = of_nat n - (x - d)" by (simp add: algebra_simps)
    also have "\<dots> = of_nat (n - unat (x - d))" using that by (simp add: of_nat_diff)
    finally have "unat (s - d) = n - unat (x - d)" using assms(2) by (simp add: unat_count)
    with that assms(1) show False by (auto simp: no_overrun_def)
  qed
  ultimately show "copied (m(?e := m (s + of_nat n))) d s n x = copied m d s (Suc n) x"
    by (auto simp: copied_def less_Suc_eq)
qed

lemma rep_movsb_backward:
  assumes "n < 2 ^ 64" "no_overrun s d n"
  shows "snd (snd (rep_movsb True (of_nat n) (d + of_nat n - 1) (s + of_nat n - 1) m)) = copied m d s n"
  using assms
proof (induction n arbitrary: m)
  case (Suc n)
  have "rep_movsb True (of_nat (Suc n)) (d + of_nat (Suc n) - 1) (s + of_nat (Suc n) - 1) m
      = rep_movsb True (of_nat n) (d + of_nat n - 1) (s + of_nat n - 1) (m(d + of_nat n := m (s + of_nat n)))"
    by (subst rep_movsb.simps) (use count_nonzero Suc.prems(1) in \<open>simp add: stride_def algebra_simps\<close>)
  moreover have "no_overrun s d n" using Suc.prems(2) by (auto simp: no_overrun_def)
  ultimately show ?case using Suc copied_last [OF Suc.prems(2,1)] by simp
qed (simp add: rep_movsb.simps)

lemma memmove_copied:
  assumes "unat src + unat len \<le> 2 ^ 64" "unat dst + unat len \<le> 2 ^ 64"
  shows "memmove dst src len m = (dst, copied m dst src (unat len))"
proof -
  let ?n = "unat len"
  have n: "?n < 2 ^ 64" using unsigned_less [of len] by simp
  have len: "of_nat ?n = len" by simp
  consider "src > dst" | "src < dst" | "src = dst" by fastforce
  then show ?thesis
  proof cases
    case 1
    then have "unat (dst - src) + unat (src - dst) = 2 ^ 64" by (intro unat_diffs) simp
    moreover have "unat (src - dst) \<le> unat src" using 1 by (simp add: unat_sub less_imp_le)
    ultimately have "no_overrun dst src ?n" using assms(1) by (simp add: no_overrun_def)
    with rep_movsb_forward [OF n] 1 show ?thesis by (simp add: memmove_def)
  next
    case 2
    then have "unat (dst - src) + unat (src - dst) = 2 ^ 64" by (intro unat_diffs) simp
    moreover have "unat (dst - src) \<le> unat dst" using 2 by (simp add: unat_sub less_imp_le)
    ultimately have "no_overrun src dst ?n" using assms(2) by (simp add: no_overrun_def)
    with rep_movsb_backward [OF n, of src dst m] 2 show ?thesis by (auto simp: memmove_def split: prod.splits)
  next
    case 3
    then show ?thesis by (auto simp: memmove_def copied_def)
  qed
qed

lemma memcpy_copied:
  assumes "no_overrun dst src (unat len)"
  shows "memcpy dst src len m = (dst, copied m dst src (unat len))"
proof -
  have "unat len < 2 ^ 64" using unsigned_less [of len] by simp
  from rep_movsb_forward [OF this assms] show ?thesis by (auto simp: memcpy_def copied_def)
qed

section \<open>Filling\<close>

text \<open>The memory after \<open>n\<close> elements of \<open>w\<close> bytes have been set to \<open>v\<close>.\<close>

definition filled :: "memory \<Rightarrow> nat \<Rightarrow> u64 \<Rightarrow> u64 \<Rightarrow> nat \<Rightarrow> memory" where
  "filled m w v d n = (\<lambda>x. if unat (x - d) < n * w then ucast (drop_bit (8 * (unat (x - d) mod w)) v) else m x)"

lemma store_le_at:
  assumes "w < 2 ^ 64"
  shows "store_le w a v m x = (if unat (x - a) < w then ucast (drop_bit (8 * unat (x - a)) v) else m x)"
  using assms
proof (induction w arbitrary: a v m)
  case (Suc w)
  show ?case
  proof (cases "x = a")
    case True
    have "unat (- 1 :: u64) = 2 ^ 64 - 1" by (simp add: unsigned_minus_1_eq_mask mask_eq_exp_minus_1)
    with Suc True show ?thesis by simp
  next
    case False
    then have "unat (x - (a + 1)) = unat (x - a) - 1" "0 < unat (x - a)"
      using unat_pred [of "x - a"] by (simp_all add: algebra_simps unat_gt_0)
    then show ?thesis using Suc False by (auto simp: algebra_simps)
  qed
qed simp

lemma filled_Suc:
  assumes "Suc n * w < 2 ^ 64"
  shows "filled (store_le w d v m) w v (d + of_nat w) n = filled m w v d (Suc n)"
proof
  fix x
  let ?k = "unat (x - d)"
  have w: "w < 2 ^ 64" using assms by simp
  show "filled (store_le w d v m) w v (d + of_nat w) n x = filled m w v d (Suc n) x"
  proof (cases "?k < w")
    case True
    have "of_nat w - (x - d) = of_nat (w - ?k)" using True by (simp add: of_nat_diff)
    then have "d + of_nat w - x = of_nat (w - ?k)" by (simp add: algebra_simps)
    then have "unat (d + of_nat w - x) = w - ?k" using w by (simp add: unat_count)
    moreover have "d + of_nat w \<noteq> x" using True calculation by auto
    ultimately have "unat (x - (d + of_nat w)) = 2 ^ 64 - (w - ?k)" using unat_diffs [of x "d + of_nat w"] by simp
    then have "\<not> unat (x - (d + of_nat w)) < n * w" using assms True by auto
    with True w show ?thesis by (simp add: filled_def store_le_at)
  next
    case False
    then have "of_nat (?k - w) = x - (d + of_nat w)" by (simp add: of_nat_diff algebra_simps)
    moreover have "?k < 2 ^ 64" using unsigned_less [of "x - d"] by simp
    then have "unat (of_nat (?k - w) :: u64) = ?k - w" by (intro unat_count) simp
    ultimately have k: "unat (x - (d + of_nat w)) = ?k - w" by simp
    have "(?k - w) mod w = ?k mod w" using False by (metis le_mod_geq not_le)
    with k False w show ?thesis by (auto simp: filled_def store_le_at)
  qed
qed

lemma rep_stos_filled:
  assumes "n * w < 2 ^ 64" "n < 2 ^ 64"
  shows "rep_stos w v (of_nat n) d m = (d + of_nat (n * w), filled m w v d n)"
  using assms
proof (induction n arbitrary: d m)
  case (Suc n)
  have "rep_stos w v (of_nat (Suc n)) d m = rep_stos w v (of_nat n) (d + of_nat w) (store_le w d v m)"
    by (subst rep_stos.simps) (use count_nonzero Suc.prems(2) in simp)
  also have "\<dots> = (d + of_nat w + of_nat (n * w), filled (store_le w d v m) w v (d + of_nat w) n)"
    using Suc.prems by (intro Suc.IH) simp_all
  finally show ?case using filled_Suc [OF Suc.prems(1)] by (simp add: algebra_simps)
qed (simp add: rep_stos.simps filled_def)

section \<open>Strings\<close>

text \<open>The C string \<open>s\<close> is at address \<open>a\<close>.\<close>

definition cstring :: "memory \<Rightarrow> u64 \<Rightarrow> u8 list \<Rightarrow> bool" where
  "cstring m a s \<longleftrightarrow> length s < 2 ^ 64 - 1 \<and> 0 \<notin> set s \<and> (\<forall>i < length s. m (a + of_nat i) = s ! i) \<and> m (a + of_nat (length s)) = 0"

lemma all_less_Suc: "(\<forall>i < Suc n. P i) \<longleftrightarrow> P 0 \<and> (\<forall>i < n. P (Suc i))"
  using less_Suc_eq_0_disj by auto

lemma cstring_Nil: "cstring m a [] \<longleftrightarrow> m a = 0"
  by (simp add: cstring_def)

lemma cstring_Cons: "Suc (length s) < 2 ^ 64 - 1 \<Longrightarrow> cstring m a (c # s) \<longleftrightarrow> c \<noteq> 0 \<and> m a = c \<and> cstring m (a + 1) s"
  by (auto simp: cstring_def all_less_Suc algebra_simps)

lemma cstring_ConsD: "cstring m a (c # s) \<Longrightarrow> c \<noteq> 0 \<and> m a = c \<and> cstring m (a + 1) s"
  using cstring_Cons [of s m a c] by (simp add: cstring_def)

lemma cstring_Cons_length: "cstring m a s \<Longrightarrow> length s < 2 ^ 64 - 1"
  by (simp add: cstring_def)

lemma cstring_drop: "cstring m a s \<Longrightarrow> i \<le> length s \<Longrightarrow> cstring m (a + of_nat i) (drop i s)"
proof (induction i arbitrary: a s)
  case (Suc i)
  then obtain c t where s: "s = c # t" by (cases s) auto
  with Suc have "cstring m (a + 1 + of_nat i) (drop i t)" by (intro Suc.IH) (auto dest: cstring_ConsD)
  with s show ?case by (simp add: algebra_simps)
qed simp

lemma repne_scasb_string:
  assumes "cstring m a s" "length s < unat rcx"
  shows "repne_scasb 0 rcx a m = (rcx - of_nat (length s) - 1, a + of_nat (length s) + 1)"
  using assms
proof (induction s arbitrary: a rcx)
  case Nil
  then show ?case by (subst repne_scasb.simps) (auto simp: cstring_Nil)
next
  case (Cons c s)
  then have c: "c \<noteq> 0" "m a = c" "cstring m (a + 1) s" by (auto dest: cstring_ConsD)
  moreover have r: "rcx \<noteq> 0" using Cons.prems(2) by auto
  ultimately have "repne_scasb 0 rcx a m = repne_scasb 0 (rcx - 1) (a + 1) m"
    by (subst repne_scasb.simps) simp
  also have "\<dots> = (rcx - 1 - of_nat (length s) - 1, a + 1 + of_nat (length s) + 1)"
    using c r Cons.prems(2) by (intro Cons.IH) (simp_all add: unat_pred)
  finally show ?case by (simp add: algebra_simps)
qed

lemma strlen_string:
  assumes "cstring m a s"
  shows "strlen_mem a m = of_nat (length s)"
proof -
  have "unat (NOT 0 :: u64) = 2 ^ 64 - 1" by (simp add: unsigned_minus_1_eq_mask mask_eq_exp_minus_1)
  then have "repne_scasb 0 (NOT 0) a m = (NOT 0 - of_nat (length s) - 1, a + of_nat (length s) + 1)"
    using assms by (intro repne_scasb_string) (simp_all add: cstring_def)
  then show ?thesis by (simp add: strlen_mem_def not_eq_complement)
qed

lemma repe_cmpsb_bytes:
  assumes "n < 2 ^ 64"
  shows "repe_cmpsb zf (of_nat n) a b m \<longleftrightarrow> (n = 0 \<longrightarrow> zf) \<and> (\<forall>i < n. m (b + of_nat i) = m (a + of_nat i))"
  using assms
proof (induction n arbitrary: zf a b)
  case (Suc n)
  have "repe_cmpsb zf (of_nat (Suc n)) a b m \<longleftrightarrow> m b = m a \<and> repe_cmpsb True (of_nat n) (a + 1) (b + 1) m"
    by (subst repe_cmpsb.simps) (use count_nonzero Suc.prems in simp)
  with Suc show ?case by (simp add: all_less_Suc algebra_simps)
qed (simp add: repe_cmpsb.simps)

lemma memeq_bytes:
  assumes "n < 2 ^ 64" "0 < n"
  shows "memeq zf a b (of_nat n) m \<longleftrightarrow> (\<forall>i < n. m (a + of_nat i) = m (b + of_nat i))"
  using assms by (auto simp: memeq_def repe_cmpsb_bytes)

text \<open>A comparison of the bytes of a string with those of another one.\<close>

lemma string_prefix_bytes:
  assumes "cstring m a s" "cstring m b t"
  shows "(\<forall>i < length t. m (a + of_nat i) = m (b + of_nat i)) \<longleftrightarrow> prefix t s"
  using assms
proof (induction t arbitrary: a b s)
  case (Cons c t)
  then have b: "c \<noteq> 0" "m b = c" "cstring m (b + 1) t" by (auto dest: cstring_ConsD)
  show ?case
  proof (cases s)
    case Nil
    with Cons b show ?thesis by (auto simp: cstring_Nil intro: exI [of _ 0])
  next
    case (Cons d s')
    then have "d \<noteq> 0" "m a = d" "cstring m (a + 1) s'" using \<open>cstring m a s\<close> by (auto dest: cstring_ConsD)
    with b Cons.IH [of "a + 1" s' "b + 1"] Cons show ?thesis by (auto simp: all_less_Suc algebra_simps)
  qed
qed simp

section \<open>Searches\<close>

text \<open>The first position at which \<open>t\<close> occurs in \<open>s\<close>.\<close>

definition occurrence :: "u8 list \<Rightarrow> u8 list \<Rightarrow> nat option" where
  "occurrence t s = find (\<lambda>k. prefix t (drop k s)) [0..<Suc (length s)]"

lemma memeq_at:
  assumes "cstring m a s" "cstring m b t" "t \<noteq> []" "k \<le> length s"
  shows "memeq zf (a + of_nat k) b (of_nat (length t)) m \<longleftrightarrow> prefix t (drop k s)"
  using memeq_bytes [of "length t" zf "a + of_nat k" b m] string_prefix_bytes [OF cstring_drop [OF assms(1,4)] assms(2)]
    assms(2,3) by (simp add: cstring_def)

lemma strstr_loop_find:
  assumes "cstring m a s" "cstring m b t" "t \<noteq> []" "ld = length s - length t" "i \<le> Suc ld" "ld + 2 \<le> fuel + i"
  shows "strstr_loop fuel zf a b (of_nat (length t)) (of_nat ld) (of_nat i) m
      = Some (map_option (\<lambda>k. a + of_nat k) (find (\<lambda>k. prefix t (drop k s)) [i..<Suc ld]))"
  using assms(5,6)
proof (induction fuel arbitrary: i)
  case (Suc fuel)
  have small: "Suc ld < 2 ^ 64" using cstring_Cons_length [OF assms(1)] assms(4) by linarith
  then have le: "(of_nat i :: u64) \<le> of_nat ld \<longleftrightarrow> i \<le> ld"
    using Suc.prems(1) by (simp add: word_le_nat_alt unat_count)
  show ?case
  proof (cases "i \<le> ld")
    case True
    then have "[i..<Suc ld] = i # [Suc i..<Suc ld]" by (simp add: upt_conv_Cons)
    moreover have "memeq zf (a + of_nat i) b (of_nat (length t)) m \<longleftrightarrow> prefix t (drop i s)"
      using True assms(4) by (intro memeq_at assms(1,2,3)) simp
    moreover have "strstr_loop fuel zf a b (of_nat (length t)) (of_nat ld) (of_nat i + 1) m
        = Some (map_option (\<lambda>k. a + of_nat k) (find (\<lambda>k. prefix t (drop k s)) [Suc i..<Suc ld]))"
      using Suc.IH [of "Suc i"] Suc.prems True by (simp add: add.commute del: upt_Suc)
    ultimately show ?thesis using True le by (simp del: upt_Suc)
  next
    case False
    then show ?thesis using le by simp
  qed
qed simp

lemma find_upt_extend:
  assumes "\<And>k. n \<le> k \<Longrightarrow> k < m \<Longrightarrow> \<not> P k" "n \<le> m"
  shows "find P [0..<m] = find P [0..<n]"
proof -
  have "[0..<m] = [0..<n] @ [n..<m]" using assms(2) by (metis le_add_diff_inverse upt_add_eq_append zero_le)
  moreover have "find P (xs @ [n..<m]) = find P xs" for xs
    using assms(1) by (induction xs) (auto simp: find_None_iff)
  ultimately show ?thesis by simp
qed

lemma strstr_find:
  assumes "cstring m a s" "cstring m b t" "t \<noteq> []" "length s + 2 \<le> fuel"
  shows "strstr fuel zf a b m = Some (map_option (\<lambda>k. a + of_nat k) (occurrence t s))"
proof -
  have big: "length s < 2 ^ 64" "length t < 2 ^ 64" using assms(1,2) by (simp_all add: cstring_def)
  have len: "strlen_mem a m = of_nat (length s)" "strlen_mem b m = of_nat (length t)"
    using assms(1,2) by (simp_all add: strlen_string)
  have short: "\<not> prefix t (drop k s)" if "length s < k + length t" for k
    using that assms(3) prefix_length_le [of t "drop k s"] by (cases "k \<le> length s") auto
  show ?thesis
  proof (cases "length s < length t")
    case True
    then have "(of_nat (length s) :: u64) < of_nat (length t)" using big by (simp add: word_less_nat_alt unat_count)
    moreover have "occurrence t s = None" using True short by (simp add: occurrence_def find_None_iff)
    ultimately show ?thesis by (simp add: strstr_def len)
  next
    case False
    then have "\<not> (of_nat (length s) :: u64) < of_nat (length t)" using big by (simp add: word_less_nat_alt unat_count)
    moreover have "(of_nat (length s) - of_nat (length t) :: u64) = of_nat (length s - length t)"
      using False by (simp add: of_nat_diff)
    moreover have "occurrence t s = find (\<lambda>k. prefix t (drop k s)) [0..<Suc (length s - length t)]"
      unfolding occurrence_def using assms(3) by (intro find_upt_extend short) (auto simp: Suc_le_eq)
    ultimately show ?thesis
      using strstr_loop_find [OF assms(1-3) refl, of 0 fuel zf] assms(4) by (simp add: strstr_def len Let_def)
  qed
qed

section \<open>Copies of strings\<close>

lemma cstring_upd:
  assumes "cstring m a s" "length s < unat (x - a)"
  shows "cstring (m(x := v)) a s"
proof -
  have "x \<noteq> a + of_nat i" if "i \<le> length s" for i
  proof
    assume "x = a + of_nat i"
    then have "unat (x - a) = i" using that assms(1) by (simp add: cstring_def unat_count)
    with that assms(2) show False by simp
  qed
  then have "(m(x := v)) (a + of_nat i) = m (a + of_nat i)" if "i \<le> length s" for i using that by auto
  with assms(1) show ?thesis by (simp add: cstring_def)
qed

lemma strcpy_loop_string:
  assumes "cstring m src t" "no_overrun tmp src (Suc (length t))" "length t < fuel"
  shows "strcpy_loop fuel tmp src m = Some (copied m tmp src (Suc (length t)))"
  using assms
proof (induction t arbitrary: fuel tmp src m)
  case Nil
  then obtain f where "fuel = Suc f" by (cases fuel) auto
  with Nil copied_Suc [of tmp src 0 m] show ?case by (simp add: cstring_Nil Let_def)
next
  case (Cons c t)
  then obtain f where f: "fuel = Suc f" by (cases fuel) auto
  have c: "c \<noteq> 0" "m src = c" "cstring m (src + 1) t" using Cons.prems(1) by (auto dest: cstring_ConsD)
  have small: "Suc (length t) < 2 ^ 64 - 1" using Cons.prems(1) by (simp add: cstring_def)
  have far: "length t < unat (tmp - (src + 1))"
  proof (cases "tmp = src")
    case True
    have "unat (- 1 :: u64) = 2 ^ 64 - 1" by (simp add: unsigned_minus_1_eq_mask mask_eq_exp_minus_1)
    with True small show ?thesis by simp
  next
    case False
    then have "unat (tmp - (src + 1)) = unat (tmp - src) - 1" using unat_pred [of "tmp - src"] by (simp add: algebra_simps)
    with False Cons.prems(2) show ?thesis by (simp add: no_overrun_def)
  qed
  have "strcpy_loop fuel tmp src m = strcpy_loop f (tmp + 1) (src + 1) (m(tmp := m src))"
    using c f by (simp add: Let_def)
  also have "\<dots> = Some (copied (m(tmp := m src)) (tmp + 1) (src + 1) (Suc (length t)))"
    using Cons.prems(2,3) f c(3) far by (intro Cons.IH cstring_upd no_overrun_Suc) simp_all
  finally show ?case using copied_Suc [of tmp src "Suc (length t)" m] Cons.prems(2) small by simp
qed

lemma copied_at:
  assumes "i < n" "n \<le> 2 ^ 64"
  shows "copied m d s n (d + of_nat i) = m (s + of_nat i)"
  using assms by (simp add: copied_def unat_count)

lemma copied_elsewhere: "n \<le> unat (x - d) \<Longrightarrow> copied m d s n x = m x"
  by (simp add: copied_def)

lemma copied_string:
  assumes "cstring m a s"
  shows "cstring (copied m d a (Suc (length s))) d s"
  using assms by (auto simp: cstring_def copied_at)

lemma cstring_append:
  assumes "\<forall>i < length s. m (a + of_nat i) = s ! i" "0 \<notin> set s" "cstring m (a + of_nat (length s)) t"
    "length s + length t < 2 ^ 64 - 1"
  shows "cstring m a (s @ t)"
proof -
  have "m (a + of_nat i) = (s @ t) ! i" if "i < length (s @ t)" for i
  proof (cases "i < length s")
    case False
    then obtain k where k: "i = length s + k" using le_Suc_ex [of "length s" i] by auto
    with that assms(3) show ?thesis by (simp add: cstring_def nth_append add.assoc)
  qed (use assms(1) in \<open>simp add: nth_append\<close>)
  with assms(2-4) show ?thesis by (simp add: cstring_def add.assoc)
qed

lemma strcat_string:
  assumes "cstring m dst s" "cstring m src t" "no_overrun (dst + of_nat (length s)) src (Suc (length t))"
    "length s + length t < 2 ^ 64 - 1" "length t < fuel"
  defines "m' \<equiv> copied m (dst + of_nat (length s)) src (Suc (length t))"
  shows "strcat fuel dst src m = Some (dst, m')" "cstring m' dst (s @ t)"
proof -
  let ?e = "dst + of_nat (length s) :: u64"
  show "strcat fuel dst src m = Some (dst, m')"
    using strcpy_loop_string [OF assms(2,3,5)] strlen_string [OF assms(1)] by (simp add: strcat_def m'_def)
  have "m' (dst + of_nat i) = s ! i" if i: "i < length s" for i
  proof -
    have "?e - (dst + of_nat i) = of_nat (length s - i)" using i by (simp add: of_nat_diff)
    then have "unat (?e - (dst + of_nat i)) = length s - i" using assms(4) by (simp add: unat_count)
    moreover have "dst + of_nat i \<noteq> ?e" using offset_inj [of i "length s" dst] i assms(4) by simp
    ultimately have "unat (dst + of_nat i - ?e) = 2 ^ 64 - (length s - i)" using unat_diffs [of "dst + of_nat i" ?e] by simp
    then have "Suc (length t) \<le> unat (dst + of_nat i - ?e)" using assms(4) by linarith
    with i assms(1) show ?thesis by (simp add: m'_def copied_elsewhere cstring_def)
  qed
  with copied_string [OF assms(2)] assms(1,4) show "cstring m' dst (s @ t)"
    unfolding m'_def by (intro cstring_append) (auto simp: cstring_def)
qed

section \<open>Comparisons\<close>

text \<open>The order \<open>strcmp\<close> decides: the difference of the first signed characters that differ, a NUL ending both.\<close>

fun string_diff :: "u8 list \<Rightarrow> u8 list \<Rightarrow> int" where
  "string_diff [] [] = 0"
| "string_diff (c # s) [] = sint c"
| "string_diff [] (d # t) = - sint d"
| "string_diff (c # s) (d # t) = (if c = d then string_diff s t else sint c - sint d)"

lemma sint_inj: "sint (c :: u8) = sint d \<longleftrightarrow> c = d"
  by (auto simp: signed_word_eqI)

lemma char_diff_0 [simp]: "char_diff c d = 0 \<longleftrightarrow> c = d"
  by (simp add: char_diff_def sint_inj)

lemma sint_0_iff: "sint (c :: u8) = 0 \<longleftrightarrow> c = 0"
  using sint_inj [of c 0] by simp

lemma string_diff_0: "0 \<notin> set s \<Longrightarrow> 0 \<notin> set t \<Longrightarrow> string_diff s t = 0 \<longleftrightarrow> s = t"
  by (induction s t rule: string_diff.induct) (auto simp: sint_0_iff sint_inj)

lemma strcmp_loop_string:
  assumes "cstring m a s" "cstring m b t" "length s < fuel"
  shows "strcmp_loop fuel a b m = Some (string_diff s t)"
  using assms
proof (induction fuel arbitrary: a b s t)
  case (Suc fuel)
  show ?case
  proof (cases s; cases t)
    fix c s' d t'
    assume st: "s = c # s'" "t = d # t'"
    with Suc.prems have "m a = c" "m b = d" "c \<noteq> 0" "cstring m (a + 1) s'" "cstring m (b + 1) t'"
      by (auto dest: cstring_ConsD)
    with Suc.IH [of "a + 1" s' "b + 1" t'] Suc.prems(3) st show ?thesis by (simp add: Let_def) (simp add: char_diff_def)
  qed (use Suc.prems in \<open>auto simp: cstring_Nil char_diff_def sint_0_iff dest!: cstring_ConsD\<close>)
qed simp

lemma strcmp_string:
  assumes "cstring m a s" "cstring m b t" "length s < fuel"
  shows "strcmp fuel a b m = Some (if a = b then 0 else string_diff s t)"
  using strcmp_loop_string [OF assms] by (simp add: strcmp_def)

lemma strncmp_loop_string:
  assumes "cstring m a s" "cstring m b t" "0 < n" "n < 2 ^ 64"
  shows "strncmp_loop a b (of_nat n) m = string_diff (take n s) (take n t)"
  using assms
proof (induction n arbitrary: a b s t)
  case (Suc n)
  have more: "of_nat (Suc n) - (1 :: u64) = of_nat n" "(0 :: u64) < of_nat n \<longleftrightarrow> 0 < n"
    using Suc.prems(4) by (simp_all add: word_less_nat_alt unat_count)
  show ?case
  proof (cases s; cases t)
    fix c s' d t'
    assume st: "s = c # s'" "t = d # t'"
    with Suc.prems have "m a = c" "m b = d" "c \<noteq> 0" "cstring m (a + 1) s'" "cstring m (b + 1) t'"
      by (auto dest: cstring_ConsD)
    with Suc.IH [of "a + 1" s' "b + 1" t'] Suc.prems(4) st more show ?thesis
      by (subst strncmp_loop.simps) (auto simp: Let_def char_diff_def sint_inj)
  qed (use Suc.prems more in \<open>auto simp: strncmp_loop.simps [of a b] cstring_Nil char_diff_def sint_0_iff Let_def dest!: cstring_ConsD\<close>)
qed simp

end
