(* ===== verification/Mem_Strings_Theorems.thy ===== *)
theory Mem_Strings_Theorems
  imports Mem_Strings_Props
begin

text \<open>The contracts of the memory and string functions, and where the code departs from them.\<close>

section \<open>Blocks of memory\<close>

text \<open>
  C35. \<open>memmove\<close> is right for every overlap: when neither range runs past the end of the address space, it
  returns the destination, which then has the bytes the source had, and it changes no other byte.
\<close>

theorem memmove_correct:
  assumes "unat src + unat len \<le> 2 ^ 64" "unat dst + unat len \<le> 2 ^ 64" "memmove dst src len m = (ret, m')"
  shows "ret = dst \<and> (\<forall>i < unat len. m' (dst + of_nat i) = m (src + of_nat i))
    \<and> (\<forall>x. (\<forall>i < unat len. x \<noteq> dst + of_nat i) \<longrightarrow> m' x = m x)"
proof -
  have r: "ret = dst" "m' = copied m dst src (unat len)" using memmove_copied [OF assms(1,2), of m] assms(3) by auto
  have len: "unat len \<le> 2 ^ 64" using assms(1) by linarith
  have "m' x = m x" if "\<forall>i < unat len. x \<noteq> dst + of_nat i" for x
  proof -
    have "x = dst + of_nat (unat (x - dst))" by simp
    with that have "unat len \<le> unat (x - dst)" by (metis not_le)
    then show ?thesis by (simp add: r copied_elsewhere)
  qed
  with len show ?thesis by (simp add: r copied_at)
qed

theorem memmove_correct_witness:
  "(case memmove 12 10 5 (\<lambda>x. ucast x) of (ret, m') \<Rightarrow> ret = 12 \<and> m' 13 = 11 \<and> m' 16 = 14 \<and> m' 11 = 11)"
proof -
  obtain ret m' where mv: "memmove 12 10 5 (\<lambda>x. ucast x) = (ret, m')" by (cases "memmove 12 10 5 (\<lambda>x. ucast x)") auto
  have out: "(11 :: u64) \<noteq> 12 + of_nat i" if "i < unat (5 :: u64)" for i
  proof -
    have "i < 5" using that by simp
    then have "i \<in> {0, 1, 2, 3, 4}" by auto
    then show ?thesis by auto
  qed
  have "unat (10 :: u64) + unat (5 :: u64) \<le> 2 ^ 64" "unat (12 :: u64) + unat (5 :: u64) \<le> 2 ^ 64" by simp_all
  note c = memmove_correct [OF this mv]
  then have at: "\<And>i. i < unat (5 :: u64) \<Longrightarrow> m' (12 + of_nat i) = ucast (10 + of_nat i :: u64)" by blast
  have "m' (12 + of_nat 1) = ucast (10 + of_nat 1 :: u64)" "m' (12 + of_nat 4) = ucast (10 + of_nat 4 :: u64)"
    by (rule at, simp)+
  moreover have "m' 11 = ucast (11 :: u64)" using c out by blast
  ultimately show ?thesis using c mv by simp
qed

text \<open>\<open>memcpy\<close> copies upwards only: moved up by one, the first byte is repeated.\<close>

lemma memcpy_repeats: "snd (memcpy 1 0 3 m) 3 = m 0"
  by (simp add: memcpy_def rep_movsb.simps stride_def)

text \<open>\<open>memset\<close>, \<open>memset16\<close> and \<open>memset32\<close> set exactly their elements.\<close>

lemma memset_filled:
  "unat len < 2 ^ 64 \<Longrightarrow> memset dst val len m = (dst, filled m 1 val dst (unat len))"
  "2 * unat cnt < 2 ^ 64 \<Longrightarrow> memset16 dst val cnt m = (dst, filled m 2 val dst (unat cnt))"
  "4 * unat cnt < 2 ^ 64 \<Longrightarrow> memset32 dst val cnt m = (dst, filled m 4 val dst (unat cnt))"
  using rep_stos_filled [of "unat len" 1 val dst m] rep_stos_filled [of "unat cnt" 2 val dst m]
    rep_stos_filled [of "unat cnt" 4 val dst m]
  by (simp_all add: memset_def memset16_def memset32_def)

text \<open>
  \<open>memcmp\<close> answers the wrong way round: for two different addresses it is not zero when the bytes are the
  same, and when they differ it is what the upper bytes of the register happened to be, zero if they were.
\<close>

lemma memcmp_inverted:
  assumes "a \<noteq> b" "0 < n" "n < 2 ^ 64"
  shows "(\<forall>i < n. m (b + of_nat i) = m (a + of_nat i)) \<Longrightarrow> memcmp zf eax a b (of_nat n) m \<noteq> 0"
    and "\<not> (\<forall>i < n. m (b + of_nat i) = m (a + of_nat i)) \<Longrightarrow>
      memcmp zf eax a b (of_nat n) m = sint (eax AND NOT 255)"
proof -
  have "bit ((eax AND NOT 255) OR 1) 0"
    by (simp add: bit_simps)
  hence "(eax AND NOT 255) OR 1 \<noteq> 0"
    by auto
  with assms show "(\<forall>i < n. m (b + of_nat i) = m (a + of_nat i)) \<Longrightarrow> memcmp zf eax a b (of_nat n) m \<noteq> 0"
    by (simp add: memcmp_def repe_cmpsb_bytes signed_eq_0_iff)
  show "\<not> (\<forall>i < n. m (b + of_nat i) = m (a + of_nat i)) \<Longrightarrow>
      memcmp zf eax a b (of_nat n) m = sint (eax AND NOT 255)"
    using assms by (auto simp: memcmp_def repe_cmpsb_bytes)
qed

section \<open>Strings\<close>

text \<open>
  C36. \<open>strstr\<close> finds the first occurrence: for two strings in memory, the needle not being empty, it ends and
  returns the address of the first position at which the needle occurs, and a null pointer
  exactly when it occurs nowhere. The two strings may share memory.
\<close>

theorem strstr_correct:
  assumes "cstring m haystack s" "cstring m needle t" "t \<noteq> []" "length s + 2 \<le> fuel"
  shows "(\<exists>k \<le> length s. strstr fuel zf haystack needle m = Some (Some (haystack + of_nat k))
            \<and> prefix t (drop k s) \<and> (\<forall>j < k. \<not> prefix t (drop j s)))
       \<or> strstr fuel zf haystack needle m = Some None \<and> \<not> sublist t s"
proof (cases "occurrence t s")
  case None
  then have "\<not> prefix t (drop k s)" if "k \<le> length s" for k using that by (auto simp: occurrence_def find_None_iff simp del: upt_Suc)
  then have "\<not> sublist t s"
    by (metis append.assoc append_eq_conv_conj length_append le_add1 prefix_def sublist_def)
  with None strstr_find [OF assms] show ?thesis by simp
next
  case (Some k)
  then have "k \<le> length s" "prefix t (drop k s)" "\<forall>j < k. \<not> prefix t (drop j s)"
    unfolding occurrence_def find_Some_iff by (auto simp del: upt_Suc)
  with Some strstr_find [OF assms] show ?thesis by auto
qed

text \<open>Two strings in memory: \<open>abcab\<close> at address 0 and \<open>ca\<close> at address 16.\<close>

definition demo_strings :: memory where
  "demo_strings = (\<lambda>_. 0)(0 := 97, 1 := 98, 2 := 99, 3 := 97, 4 := 98, 16 := 99, 17 := 97)"

lemma demo_cstrings: "cstring demo_strings 0 [97, 98, 99, 97, 98]" "cstring demo_strings 16 [99, 97]"
  by (simp_all add: cstring_Cons cstring_Nil demo_strings_def)

theorem strstr_correct_witness: "strstr 7 False 0 16 demo_strings = Some (Some 2)"
proof -
  have "sublist [99, 97] ([97, 98, 99, 97, 98] :: u8 list)" unfolding sublist_def by (rule exI [of _ "[97, 98]"], rule exI [of _ "[98]"]) simp
  then obtain k where k: "k \<le> 5" "strstr 7 False 0 16 demo_strings = Some (Some (of_nat k))"
    "prefix [99, 97] (drop k ([97, 98, 99, 97, 98] :: u8 list))"
    using strstr_correct [OF demo_cstrings, of 7 False] by (force simp: numeral_eq_Suc)
  then have "k = 2" by (auto simp: le_Suc_eq numeral_eq_Suc)
  with k show ?thesis by simp
qed

text \<open>
  \<open>strcat\<close> appends: it ends, and afterwards the destination has the two strings one after the other, so
  that \<open>strlen\<close> there is the sum of the lengths; bytes after the new string are unchanged. The
  source may not reach over the end of the destination.
\<close>

theorem strcat_correct:
  assumes "cstring m dst s" "cstring m src t" "no_overrun (dst + of_nat (length s)) src (Suc (length t))"
    "length s + length t < 2 ^ 64 - 1" "length t < fuel"
  shows "\<exists>m'. strcat fuel dst src m = Some (dst, m') \<and> cstring m' dst (s @ t)
    \<and> strlen_mem dst m' = strlen_mem dst m + strlen_mem src m
    \<and> (\<forall>x. length s + length t < unat (x - dst) \<longrightarrow> m' x = m x)"
proof -
  let ?m = "copied m (dst + of_nat (length s)) src (Suc (length t))"
  note c = strcat_string [OF assms]
  have "?m x = m x" if far: "length s + length t < unat (x - dst)" for x
  proof -
    have "x - (dst + of_nat (length s)) = of_nat (unat (x - dst) - length s)" using far by (simp add: of_nat_diff)
    moreover have "unat (x - dst) < 2 ^ 64" using unsigned_less [of "x - dst"] by simp
    ultimately have "unat (x - (dst + of_nat (length s))) = unat (x - dst) - length s" by (simp add: unat_count)
    with far show ?thesis by (simp add: copied_elsewhere)
  qed
  moreover have "strlen_mem dst ?m = strlen_mem dst m + strlen_mem src m"
    using strlen_string [OF c(2)] strlen_string [OF assms(1)] strlen_string [OF assms(2)] by simp
  ultimately show ?thesis using c by blast
qed

theorem strcat_correct_witness:
  "\<exists>m'. strcat 3 0 16 demo_strings = Some (0, m') \<and> cstring m' 0 [97, 98, 99, 97, 98, 99, 97]"
proof -
  have "no_overrun (0 + of_nat (length [97, 98, 99, 97, 98 :: u8])) 16 (Suc (length [99, 97 :: u8]))"
    by (simp add: no_overrun_def)
  from strcat_correct [OF demo_cstrings this, of 3] show ?thesis by auto
qed

text \<open>\<open>strcmp\<close> is zero exactly for equal strings.\<close>

lemma strcmp_equal:
  assumes "cstring m a s" "cstring m b t" "length s < fuel"
  shows "strcmp fuel a b m = Some 0 \<longleftrightarrow> s = t"
proof -
  have "s = t" if "a = b"
  proof -
    have "prefix s t" "prefix t s"
      using string_prefix_bytes [OF assms(2) assms(1)] string_prefix_bytes [OF assms(1) assms(2)] that by simp_all
    then show ?thesis by (simp add: prefix_order.antisym)
  qed
  moreover have "0 \<notin> set s" "0 \<notin> set t" using assms(1,2) by (simp_all add: cstring_def)
  ultimately show ?thesis using strcmp_string [OF assms] string_diff_0 by auto
qed

text \<open>
  The comparisons without case compare a capital letter with its small one correctly only when the small one is in the
  first string, or when the letter is an A.
\<close>

lemma case_diff_letters:
  "case_diff 98 66 = 0" "case_diff 66 98 = - 32" "case_diff 65 97 = 0"
  by (simp_all add: case_diff_def char_diff_def)

end
