(* ===== verification/Init_Rd.thy ===== *)
theory Init_Rd
  imports Handles Mem_Strings
begin

text \<open>
  \<^verbatim>\<open>libs/common/src/utils/tar.cpp\<close>, \<^verbatim>\<open>sysheaders/common/beel/utils/tar.hpp\<close>: the headers of a tape archive;
  \<^verbatim>\<open>beelzebub/src/initrd.cpp\<close>: the initial RAM disk, which is such an archive in memory; and
  \<open>HandlePointer\<close> of \<^verbatim>\<open>sysheaders/common/beel/handles.h\<close>, which packs the address of a header and a part of its checksum
  into a handle. A header is given by its address, 0 being the null pointer; loops over the archive take fuel.
\<close>

section \<open>Pointers in handles\<close>

definition GetExtendedPointer :: "u64 \<Rightarrow> u64" where
  "GetExtendedPointer ptr = (if 0 \<noteq> ptr AND 0x0000800000000000 then ptr OR 0xFFFF000000000000 else ptr)"

definition PointerMask :: u64 where "PointerMask = 0x0000FFFFFFFFFFFF"

definition DataMask :: "nat \<Rightarrow> u64" where
  "DataMask OFFSET = (push_bit (7 + OFFSET) 1 - 1) AND 0x007FFFFFFFFFFFFF"

definition DataOffset :: "nat \<Rightarrow> nat" where "DataOffset OFFSET = 48 - OFFSET"

definition GetIndex_of :: "Handle \<Rightarrow> HandleType \<Rightarrow> u64" where
  "GetIndex_of h type = (if IsType h type then drop_bit 8 (h AND IndexBits) else NOT 0)"

definition HandlePointer_of_handle :: "HandleType \<Rightarrow> Handle \<Rightarrow> u64" where
  "HandlePointer_of_handle HTYPE h = GetIndex_of h HTYPE"

definition HandlePointer_new :: "nat \<Rightarrow> u64 \<Rightarrow> u64 \<Rightarrow> u64" where
  "HandlePointer_new OFFSET ptr data =
     drop_bit OFFSET (ptr AND PointerMask) OR push_bit (DataOffset OFFSET) (data AND DataMask OFFSET)"

definition ToHandle :: "HandleType \<Rightarrow> u64 \<Rightarrow> bool \<Rightarrow> Handle" where
  "ToHandle HTYPE val glob = Handle_of_index HTYPE val glob"

definition hp_SetPointer :: "nat \<Rightarrow> u64 \<Rightarrow> u64 \<Rightarrow> u64" where
  "hp_SetPointer OFFSET ptr val =
     (let ptr64 = drop_bit OFFSET (ptr AND PointerMask)
      in (val AND push_bit (DataOffset OFFSET) (DataMask OFFSET)) OR ptr64)"

definition hp_SetData :: "nat \<Rightarrow> u64 \<Rightarrow> u64 \<Rightarrow> u64" where
  "hp_SetData OFFSET data val =
     (val AND drop_bit OFFSET PointerMask) OR push_bit (DataOffset OFFSET) (data AND DataMask OFFSET)"

definition hp_GetPointer :: "nat \<Rightarrow> u64 \<Rightarrow> u64" where
  "hp_GetPointer OFFSET val = GetExtendedPointer (push_bit OFFSET (val AND drop_bit OFFSET PointerMask))"

definition hp_GetData :: "nat \<Rightarrow> u64 \<Rightarrow> u64" where
  "hp_GetData OFFSET val = drop_bit (DataOffset OFFSET) val AND DataMask OFFSET"

section \<open>Headers of the archive\<close>

datatype TarHeaderType =
    NoneType | FileType | LinkType | Reserved1 | CharacterSpecial | BlockSpecial | DirectoryType | FifoSpecial | Reserved2

fun TarHeaderType_code :: "TarHeaderType \<Rightarrow> u8" where
  "TarHeaderType_code NoneType = 0"
| "TarHeaderType_code FileType = 48"
| "TarHeaderType_code LinkType = 49"
| "TarHeaderType_code Reserved1 = 50"
| "TarHeaderType_code CharacterSpecial = 51"
| "TarHeaderType_code BlockSpecial = 52"
| "TarHeaderType_code DirectoryType = 53"
| "TarHeaderType_code FifoSpecial = 54"
| "TarHeaderType_code Reserved2 = 55"

text \<open>The fields the code reads, as their offsets in the 512 bytes of a header.\<close>

definition tar_Mode :: u64 where "tar_Mode = 100"
definition tar_UID :: u64 where "tar_UID = 108"
definition tar_GID :: u64 where "tar_GID = 116"
definition tar_Size :: u64 where "tar_Size = 124"
definition tar_Checksum :: u64 where "tar_Checksum = 148"
definition tar_TypeFlag :: u64 where "tar_TypeFlag = 156"
definition sizeof_TarHeader :: u64 where "sizeof_TarHeader = 512"

text \<open>The cases of the switch in \<open>GetNumber\<close> fall through; the digits are signed characters.\<close>

fun GetNumber_case :: "memory \<Rightarrow> u64 \<Rightarrow> nat \<Rightarrow> nat \<Rightarrow> u64 \<Rightarrow> u64" where
  "GetNumber_case m str sz 0 val = val"
| "GetNumber_case m str sz (Suc num) val =
     GetNumber_case m str sz num (val + push_bit (3 * num) (scast (m (str + of_nat (sz - Suc num))) - 48))"

definition GetNumber :: "memory \<Rightarrow> u64 \<Rightarrow> nat \<Rightarrow> u64" where
  "GetNumber m str sz = (if sz \<le> 12 then GetNumber_case m str sz sz 0 else NOT 0)"

definition GetUid :: "memory \<Rightarrow> u64 \<Rightarrow> u64" where "GetUid m this = GetNumber m (this + tar_UID) 7"

definition GetGid :: "memory \<Rightarrow> u64 \<Rightarrow> u64" where "GetGid m this = GetNumber m (this + tar_GID) 7"

definition GetSize :: "memory \<Rightarrow> u64 \<Rightarrow> u64" where "GetSize m this = GetNumber m (this + tar_Size) 11"

definition GetChecksum :: "memory \<Rightarrow> u64 \<Rightarrow> u64" where "GetChecksum m this = GetNumber m (this + tar_Checksum) 7"

definition IsFile :: "memory \<Rightarrow> u64 \<Rightarrow> bool" where
  "IsFile m this \<longleftrightarrow> m (this + tar_TypeFlag) = TarHeaderType_code FileType"

definition IsDirectory :: "memory \<Rightarrow> u64 \<Rightarrow> bool" where
  "IsDirectory m this \<longleftrightarrow> m (this + tar_TypeFlag) = TarHeaderType_code DirectoryType"

definition IsZero :: "memory \<Rightarrow> u64 \<Rightarrow> bool" where
  "IsZero m this \<longleftrightarrow> m (this + tar_Size) = 0 \<or> m (this + tar_UID) = 0 \<or> m (this + tar_GID) = 0
     \<or> m (this + tar_Mode) = 0 \<or> m (this + tar_TypeFlag) = TarHeaderType_code NoneType"

definition GetNext :: "memory \<Rightarrow> u64 \<Rightarrow> u64" where
  "GetNext m this =
     (if IsZero m this then 0
      else this + sizeof_TarHeader * ((GetSize m this + 2 * sizeof_TarHeader - 1) div sizeof_TarHeader))"

text \<open>Both comparisons skip a leading dot and then a leading slash.\<close>

definition skip_root :: "memory \<Rightarrow> u64 \<Rightarrow> u64" where
  "skip_root m str =
     (let str' = (if m str = 46 then str + 1 else str) in if m str' = 47 then str' + 1 else str')"

definition CompareName :: "memory \<Rightarrow> u64 \<Rightarrow> u64 \<Rightarrow> int" where
  "CompareName m this str = strncmp (skip_root m this) (skip_root m str) 99 m"

text \<open>
  The conditional binds weaker than the conjunction: a directory with a separator at its end answers \<open>startsEqual\<close>
  alone, and the increment of the name shows in the last test.
\<close>

definition IsInDirectory :: "bool \<Rightarrow> memory \<Rightarrow> u64 \<Rightarrow> u64 \<Rightarrow> bool \<Rightarrow> bool" where
  "IsInDirectory zf m this dir includeSelf =
     (let myName = skip_root m this;
          dir' = skip_root m dir;
          dirlen = strnlen dir' 99 m;
          startsEqual = memeq zf myName dir' dirlen m
      in if m (dir' + (dirlen - 1)) = 47 then startsEqual
         else startsEqual \<and> m (myName + dirlen) = 47 \<and> (includeSelf \<or> m (myName + 1 + dirlen) \<noteq> 0))"

section \<open>The initial RAM disk\<close>

record InitRd =
  TarStart :: u64
  TarEnd :: u64
  Loaded :: bool

record FileBoundaries =
  fb_Start :: u64
  fb_Size :: u64
  fb_AlignedSize :: u64

fun InitRd_Initialize_loop :: "nat \<Rightarrow> memory \<Rightarrow> u64 \<Rightarrow> u64 \<Rightarrow> u64 \<Rightarrow> HandleResult option" where
  "InitRd_Initialize_loop 0 m vaddr sz cursor = None"
| "InitRd_Initialize_loop (Suc fuel) m vaddr sz cursor =
     (if cursor = 0 then Some Okay
      else if cursor + sizeof_TarHeader > vaddr + sz then Some IntegrityFailure
      else if cursor mod sizeof_TarHeader \<noteq> 0 then Some AlignmentFailure
      else InitRd_Initialize_loop fuel m vaddr sz (GetNext m cursor))"

definition InitRd_Initialize :: "nat \<Rightarrow> memory \<Rightarrow> u64 \<Rightarrow> u64 \<Rightarrow> InitRd \<Rightarrow> (Handle \<times> InitRd) option" where
  "InitRd_Initialize fuel m vaddr sz st =
     (let st' = st\<lparr>TarStart := vaddr, TarEnd := vaddr + sz\<rparr> in
      map_option (\<lambda>res. (Handle_of_result res, if res = Okay then st'\<lparr>Loaded := True\<rparr> else st'))
        (InitRd_Initialize_loop fuel m vaddr sz vaddr))"

fun FindItem_loop :: "nat \<Rightarrow> memory \<Rightarrow> u64 \<Rightarrow> u64 \<Rightarrow> Handle option" where
  "FindItem_loop 0 m name cursor = None"
| "FindItem_loop (Suc fuel) m name cursor =
     (if cursor = 0 then Some (Handle_of_result NotFound)
      else if CompareName m cursor name = 0 then
        if m (cursor + tar_TypeFlag) = TarHeaderType_code FileType
        then Some (ToHandle InitRdFile (HandlePointer_new 9 cursor (GetChecksum m cursor)) True)
        else if m (cursor + tar_TypeFlag) = TarHeaderType_code DirectoryType
        then Some (ToHandle InitRdDirectory (HandlePointer_new 9 cursor (GetChecksum m cursor)) True)
        else Some (Handle_of_result UnsupportedOperation)
      else FindItem_loop fuel m name (GetNext m cursor))"

definition FindItem :: "nat \<Rightarrow> memory \<Rightarrow> u64 \<Rightarrow> InitRd \<Rightarrow> Handle option" where
  "FindItem fuel m name st =
     (if TarStart st = 0 \<or> TarEnd st = 0 then Some (Handle_of_result UnsupportedOperation)
      else FindItem_loop fuel m name (TarStart st))"

definition GetFileBoundaries :: "memory \<Rightarrow> Handle \<Rightarrow> FileBoundaries" where
  "GetFileBoundaries m file =
     (if \<not> IsType file InitRdFile then \<lparr>fb_Start = 0, fb_Size = 0, fb_AlignedSize = 0\<rparr>
      else let hptr = HandlePointer_of_handle InitRdFile file; thdr = hp_GetPointer 9 hptr in
        if hp_GetData 9 hptr \<noteq> GetChecksum m thdr AND DataMask 9 then \<lparr>fb_Start = 0, fb_Size = 0, fb_AlignedSize = 0\<rparr>
        else let sz = GetSize m thdr
             in \<lparr>fb_Start = thdr + sizeof_TarHeader, fb_Size = sz, fb_AlignedSize = RoundUp sz sizeof_TarHeader\<rparr>)"

end
