(* ===== verification/Init_Rd_Props.thy ===== *)
theory Init_Rd_Props
  imports Init_Rd Mem_Strings_Props
begin

text \<open>
  An archive in memory as a list of its entries, and what the functions on headers and handles compute for it.
\<close>

section \<open>Octal numbers\<close>

text \<open>The \<open>w\<close> octal digits of \<open>n\<close> in ASCII, and the bytes of a field.\<close>

definition octal :: "nat \<Rightarrow> nat \<Rightarrow> u8 list" where
  "octal w n = map (\<lambda>i. 48 + of_nat (n div 8 ^ (w - 1 - i) mod 8)) [0..<w]"

definition field :: "memory \<Rightarrow> u64 \<Rightarrow> nat \<Rightarrow> u8 list" where
  "field m a w = map (\<lambda>i. m (a + of_nat i)) [0..<w]"

lemma digit_value:
  assumes "d < 8"
  shows "(scast (48 + of_nat d :: u8) - 48 :: u64) = of_nat d" "48 + of_nat d \<noteq> (0 :: u8)"
proof -
  have "d \<in> {0, 1, 2, 3, 4, 5, 6, 7}" using assms by auto
  then show "(scast (48 + of_nat d :: u8) - 48 :: u64) = of_nat d" "48 + of_nat d \<noteq> (0 :: u8)" by auto
qed

lemma GetNumber_case_octal:
  assumes "field m a w = octal w n" "num \<le> w"
  shows "GetNumber_case m a w num val = val + of_nat (n mod 8 ^ num)"
  using assms(2)
proof (induction num arbitrary: val)
  case (Suc num)
  let ?d = "n div 8 ^ num mod 8"
  have "m (a + of_nat (w - Suc num)) = field m a w ! (w - Suc num)" using Suc.prems by (simp add: field_def)
  also have "\<dots> = 48 + of_nat ?d" using Suc.prems by (simp add: assms(1) octal_def)
  finally have "(scast (m (a + of_nat (w - Suc num))) - 48 :: u64) = of_nat ?d" by (simp add: digit_value)
  moreover have "push_bit (3 * num) (of_nat ?d :: u64) = of_nat (8 ^ num * ?d)"
    by (simp add: push_bit_eq_mult power_mult)
  moreover have "n mod 8 ^ Suc num = 8 ^ num * ?d + n mod 8 ^ num" by (metis mod_mult2_eq power_Suc2)
  ultimately show ?case using Suc by (simp add: add.assoc)
qed simp

lemma GetNumber_octal:
  assumes "field m a w = octal w n" "w \<le> 12" "n < 8 ^ w"
  shows "GetNumber m a w = of_nat n"
  using GetNumber_case_octal [OF assms(1), of w 0] assms by (simp add: GetNumber_def)

section \<open>Pointers in handles\<close>

definition canonical :: "u64 \<Rightarrow> bool" where
  "canonical a \<longleftrightarrow> signed_take_bit 47 a = a"

lemma PointerMask_mask [mask_bits]: "PointerMask = mask 48"
  by (simp add: PointerMask_def mask_eq_exp_minus_1)

lemma DataMask_mask [mask_bits]: "DataMask 9 = mask 16"
  by (simp add: DataMask_def mask_eq_exp_minus_1 push_bit_eq_mult)

lemma DataOffset_9: "DataOffset 9 = 39"
  by (simp add: DataOffset_def)

lemma aligned_bit: "a mod 512 = 0 \<Longrightarrow> n < 9 \<Longrightarrow> \<not> bit (a :: u64) n"
proof -
  assume "a mod 512 = 0" "n < 9"
  then have "take_bit 9 a = 0" by (simp add: take_bit_eq_mod)
  then show ?thesis using \<open>n < 9\<close> by (metis bit_0_eq bit_take_bit_iff bot_apply bot_bool_def)
qed

lemma HandlePointer_bits:
  "bit (HandlePointer_new 9 a d) n \<longleftrightarrow> (if n < 39 then bit a (9 + n) else n < 55 \<and> bit d (n - 39))"
  by (auto simp: HandlePointer_new_def mask_bits DataOffset_9 bit_simps)

lemma GetExtendedPointer_canonical:
  assumes "canonical a"
  shows "GetExtendedPointer (a AND mask 48) = a"
proof -
  have bits: "bit a n \<longleftrightarrow> bit a 47" if "47 \<le> n" "n < 64" for n
  proof -
    have "bit a n = bit (signed_take_bit 47 a) n" using assms by (simp add: canonical_def)
    then show ?thesis using that by (simp add: bit_simps)
  qed
  have m: "(0x0000800000000000 :: u64) = push_bit 47 1" "(0xFFFF000000000000 :: u64) = NOT (mask 48)"
    by (simp_all add: push_bit_eq_mult mask_eq_exp_minus_1)
  have "(a AND mask 48) AND push_bit 47 1 = 0 \<longleftrightarrow> \<not> bit a 47"
    by (simp only: push_bit_of_1 and_exp_eq_0_iff_not_bit) (simp add: bit_simps)
  moreover have "(a AND mask 48) OR NOT (mask 48) = a" if "bit a 47"
  proof (rule bit_word_eqI)
    fix n
    assume "n < LENGTH(64)"
    with that bits [of n] show "bit ((a AND mask 48) OR NOT (mask 48)) n = bit a n" by (cases "n < 48") (simp_all add: bit_simps)
  qed
  moreover have "a AND mask 48 = a" if "\<not> bit a 47"
  proof (rule bit_word_eqI)
    fix n
    assume "n < LENGTH(64)"
    with that bits [of n] show "bit (a AND mask 48) n = bit a n" by (cases "n < 48") (simp_all add: bit_simps)
  qed
  ultimately show ?thesis unfolding GetExtendedPointer_def m by metis
qed

lemma HandlePointer_roundtrip:
  assumes "canonical a" "a mod 512 = 0"
  shows "hp_GetPointer 9 (HandlePointer_new 9 a d) = a" "hp_GetData 9 (HandlePointer_new 9 a d) = d AND DataMask 9"
proof -
  have "push_bit 9 (HandlePointer_new 9 a d AND drop_bit 9 (mask 48)) = a AND mask 48"
  proof (rule bit_word_eqI)
    fix n
    assume "n < LENGTH(64)"
    with aligned_bit [OF assms(2), of n]
    show "bit (push_bit 9 (HandlePointer_new 9 a d AND drop_bit 9 (mask 48))) n = bit (a AND mask 48) n"
      by (cases "n < 9") (auto simp: bit_simps HandlePointer_bits)
  qed
  then show "hp_GetPointer 9 (HandlePointer_new 9 a d) = a"
    by (simp add: hp_GetPointer_def mask_bits GetExtendedPointer_canonical [OF assms(1)])
  show "hp_GetData 9 (HandlePointer_new 9 a d) = d AND DataMask 9"
    by (rule bit_word_eqI) (auto simp: hp_GetData_def mask_bits DataOffset_9 bit_simps HandlePointer_bits)
qed

lemma ToHandle_roundtrip:
  assumes "t \<noteq> Result" "t \<noteq> Invalid"
  shows "IsType (ToHandle t (HandlePointer_new 9 a d) g) t'  \<longleftrightarrow> t' = t"
    "HandlePointer_of_handle t (ToHandle t (HandlePointer_new 9 a d) g) = HandlePointer_new 9 a d"
proof -
  let ?v = "HandlePointer_new 9 a d"
  have "take_bit 55 ?v = ?v" by (rule bit_word_eqI) (auto simp: bit_simps HandlePointer_bits)
  then have "unat ?v = unat ?v mod 2 ^ 55" by (metis take_bit_eq_mod unsigned_take_bit_eq)
  moreover have "unat ?v mod 2 ^ 55 < 2 ^ 55" by simp
  ultimately have "?v < 2 ^ 55" by (simp add: word_less_nat_alt)
  then have r: "GetIndex (Handle_of_index t ?v g) = ?v" "IsType (Handle_of_index t ?v g) t"
    using Handle_of_index_roundtrip [OF _ assms] by blast+
  then show "IsType (ToHandle t ?v g) t' \<longleftrightarrow> t' = t"
    using type_code_inj [of t t'] by (auto simp: ToHandle_def IsType_def)
  show "HandlePointer_of_handle t (ToHandle t ?v g) = ?v"
    using r assms by (auto simp: HandlePointer_of_handle_def GetIndex_of_def ToHandle_def GetIndex_def IsType_def type_code_inj
        simp del: HandleType_code.simps)
qed

section \<open>Names\<close>

definition root_name :: "u8 list \<Rightarrow> u8 list" where
  "root_name s =
     (let s' = (case s of c # t \<Rightarrow> if c = 46 then t else s | [] \<Rightarrow> s)
      in case s' of c # t \<Rightarrow> if c = 47 then t else s' | [] \<Rightarrow> s')"

definition same_name :: "u8 list \<Rightarrow> u8 list \<Rightarrow> bool" where
  "same_name s t \<longleftrightarrow> take 99 (root_name s) = take 99 (root_name t)"

lemma cstring_skip:
  assumes "cstring m a s" "c \<noteq> 0"
  shows "cstring m (if m a = c then a + 1 else a) (case s of d # t \<Rightarrow> if d = c then t else s | [] \<Rightarrow> s)"
  using assms by (cases s) (auto simp: cstring_Nil dest: cstring_ConsD)

lemma skip_root_string: "cstring m a s \<Longrightarrow> cstring m (skip_root m a) (root_name s)"
  unfolding skip_root_def root_name_def Let_def by (intro cstring_skip) simp_all

lemma cstring_unique: "cstring m a s \<Longrightarrow> cstring m a t \<Longrightarrow> s = t"
  using string_prefix_bytes [of m a s a t] string_prefix_bytes [of m a t a s] by (simp add: prefix_order.antisym)

lemma CompareName_same:
  assumes "cstring m a s" "cstring m b t"
  shows "CompareName m a b = 0 \<longleftrightarrow> same_name s t"
proof (cases "skip_root m a = skip_root m b")
  case True
  with skip_root_string [OF assms(1)] skip_root_string [OF assms(2)] have "root_name s = root_name t"
    by (auto intro: cstring_unique)
  with True show ?thesis by (simp add: CompareName_def strncmp_def same_name_def)
next
  case False
  note s = skip_root_string [OF assms(1)] and t = skip_root_string [OF assms(2)]
  have "strncmp_loop (skip_root m a) (skip_root m b) (of_nat 99) m = string_diff (take 99 (root_name s)) (take 99 (root_name t))"
    by (rule strncmp_loop_string [OF s t]) simp_all
  moreover have "0 \<notin> set (take 99 (root_name s))" "0 \<notin> set (take 99 (root_name t))"
    using s t by (auto simp: cstring_def dest: in_set_takeD)
  ultimately show ?thesis using False by (simp add: CompareName_def strncmp_def same_name_def string_diff_0)
qed

section \<open>Archives\<close>

record tar_entry =
  e_name :: "u8 list"
  e_type :: TarHeaderType
  e_size :: nat
  e_sum :: nat

definition blocks :: "tar_entry \<Rightarrow> nat" where
  "blocks e = 1 + (e_size e + 511) div 512"

definition entry_at :: "memory \<Rightarrow> u64 \<Rightarrow> tar_entry \<Rightarrow> bool" where
  "entry_at m p e \<longleftrightarrow> cstring m p (e_name e) \<and> m (p + tar_Mode) \<noteq> 0 \<and> m (p + tar_UID) \<noteq> 0 \<and> m (p + tar_GID) \<noteq> 0
     \<and> m (p + tar_TypeFlag) = TarHeaderType_code (e_type e) \<and> e_type e \<noteq> NoneType
     \<and> e_size e < 8 ^ 11 \<and> field m (p + tar_Size) 11 = octal 11 (e_size e)
     \<and> e_sum e < 8 ^ 7 \<and> field m (p + tar_Checksum) 7 = octal 7 (e_sum e)"

text \<open>The entries of the archive at \<open>p\<close>, with a block of zeros at its end; and the addresses of the headers.\<close>

fun archive :: "memory \<Rightarrow> u64 \<Rightarrow> tar_entry list \<Rightarrow> bool" where
  "archive m p [] \<longleftrightarrow> (\<forall>i < 512. m (p + of_nat i) = 0)"
| "archive m p (e # es) \<longleftrightarrow> entry_at m p e \<and> archive m (p + of_nat (512 * blocks e)) es"

fun archive_size :: "tar_entry list \<Rightarrow> nat" where
  "archive_size [] = 512"
| "archive_size (e # es) = 512 * blocks e + archive_size es"

fun places :: "u64 \<Rightarrow> tar_entry list \<Rightarrow> (u64 \<times> tar_entry) list" where
  "places p [] = []"
| "places p (e # es) = (p, e) # places (p + of_nat (512 * blocks e)) es"

lemma TarHeaderType_code_inj: "TarHeaderType_code a = TarHeaderType_code b \<longleftrightarrow> a = b"
  by (cases a; cases b) simp_all

lemma octal_first: "octal 11 n ! 0 \<noteq> 0"
  using digit_value(2) [of "n div 8 ^ 10 mod 8"] by (simp add: octal_def)

lemma entry_not_zero: "entry_at m p e \<Longrightarrow> \<not> IsZero m p"
proof -
  assume e: "entry_at m p e"
  then have "field m (p + tar_Size) 11 ! 0 \<noteq> 0" using octal_first by (simp add: entry_at_def)
  then have "m (p + tar_Size) \<noteq> 0" by (simp add: field_def)
  with e TarHeaderType_code_inj [of "e_type e" NoneType] show ?thesis by (auto simp: IsZero_def entry_at_def)
qed

lemma entry_numbers:
  assumes "entry_at m p e"
  shows "GetSize m p = of_nat (e_size e)" "GetChecksum m p = of_nat (e_sum e)"
  using assms by (simp_all add: GetSize_def GetChecksum_def entry_at_def GetNumber_octal)

lemma of_nat_div_512:
  assumes "n < 2 ^ 64"
  shows "(of_nat n div 512 :: u64) = of_nat (n div 512)"
proof (rule unsigned_word_eqI)
  show "unat (of_nat n div 512 :: u64) = unat (of_nat (n div 512) :: u64)"
    using assms by (simp add: unat_div unat_count)
qed

lemma entry_next:
  assumes "entry_at m p e"
  shows "GetNext m p = p + of_nat (512 * blocks e)"
proof -
  have size: "e_size e < 2 ^ 33" using assms by (simp add: entry_at_def)
  have "(1023 + of_nat (e_size e) :: u64) = of_nat (e_size e + 1023)" by simp
  moreover have "(of_nat (e_size e + 1023) div 512 :: u64) = of_nat ((e_size e + 1023) div 512)"
    using size by (intro of_nat_div_512) simp
  moreover have "(e_size e + 1023) div 512 = blocks e" by (simp add: blocks_def)
  ultimately show ?thesis using entry_not_zero [OF assms]
    by (simp add: GetNext_def sizeof_TarHeader_def entry_numbers(1) [OF assms] del: of_nat_add)
qed

lemma end_is_zero: "archive m p [] \<Longrightarrow> IsZero m p"
proof -
  assume z: "archive m p []"
  have "m (p + of_nat 124) = 0" by (rule z [unfolded archive.simps, rule_format]) simp
  then show ?thesis by (simp add: IsZero_def tar_Size_def)
qed

lemma end_name: "archive m p [] \<Longrightarrow> cstring m p []"
proof -
  assume z: "archive m p []"
  have "m (p + of_nat 0) = 0" by (rule z [unfolded archive.simps, rule_format]) simp
  then show ?thesis by (simp add: cstring_Nil)
qed

text \<open>The next header of an archive that does not run past the end of the address space.\<close>

lemma next_place:
  assumes "(p :: u64) \<noteq> 0" "unat p + archive_size (e # es) \<le> 2 ^ 64"
  defines "q \<equiv> p + of_nat (512 * blocks e)"
  shows "unat q = unat p + 512 * blocks e" "q \<noteq> 0" "unat q + archive_size es \<le> 2 ^ 64"
proof -
  have pos: "0 < archive_size es" by (cases es) (simp_all add: blocks_def)
  then have "unat p + 512 * blocks e < 2 ^ 64" using assms(2) by simp
  then have "unat (of_nat (unat p + 512 * blocks e) :: u64) = unat p + 512 * blocks e" by (rule unat_count)
  moreover have "of_nat (unat p + 512 * blocks e) = q" unfolding q_def of_nat_add [of "unat p"] by simp
  ultimately show q: "unat q = unat p + 512 * blocks e" by metis
  have "0 < unat p" using assms(1) by (simp add: unat_gt_0)
  with q show "q \<noteq> 0" by auto
  show "unat q + archive_size es \<le> 2 ^ 64" using q assms(2) by simp
qed

text \<open>What \<open>FindItem\<close> answers for the entry at an address.\<close>

definition item_handle :: "u64 \<Rightarrow> tar_entry \<Rightarrow> Handle" where
  "item_handle a e =
     (if e_type e = FileType then ToHandle InitRdFile (HandlePointer_new 9 a (of_nat (e_sum e))) True
      else if e_type e = DirectoryType then ToHandle InitRdDirectory (HandlePointer_new 9 a (of_nat (e_sum e))) True
      else Handle_of_result UnsupportedOperation)"

lemma FindItem_loop_archive:
  assumes "archive m p es" "cstring m name t" "root_name t \<noteq> []" "p \<noteq> 0" "unat p + archive_size es \<le> 2 ^ 64"
    "length es + 2 \<le> fuel"
  shows "FindItem_loop fuel m name p =
    Some (case find (\<lambda>(a, e). same_name (e_name e) t) (places p es) of
            None \<Rightarrow> Handle_of_result NotFound | Some (a, e) \<Rightarrow> item_handle a e)"
  using assms(1,4-)
proof (induction es arbitrary: p fuel)
  case Nil
  then obtain f where f: "fuel = Suc (Suc f)" by (cases fuel; cases "fuel - 1") auto
  have "CompareName m p name \<noteq> 0"
    using CompareName_same [OF end_name [OF Nil(1)] assms(2)] assms(3) by (simp add: same_name_def root_name_def)
  with Nil end_is_zero [OF Nil(1)] f show ?case by (simp add: GetNext_def)
next
  case (Cons e es)
  then obtain f where f: "fuel = Suc f" by (cases fuel) auto
  have e: "entry_at m p e" "archive m (p + of_nat (512 * blocks e)) es" using Cons.prems(1) by simp_all
  then have cmp: "CompareName m p name = 0 \<longleftrightarrow> same_name (e_name e) t"
    using CompareName_same [OF _ assms(2)] by (simp add: entry_at_def)
  show ?case
  proof (cases "same_name (e_name e) t")
    case True
    have code: "m (p + tar_TypeFlag) = TarHeaderType_code (e_type e)" using e(1) by (simp add: entry_at_def)
    with True f Cons.prems(2) cmp show ?thesis
      by (simp add: item_handle_def entry_numbers(2) [OF e(1)] TarHeaderType_code_inj [of _ FileType, simplified]
          TarHeaderType_code_inj [of _ DirectoryType, simplified])
  next
    case False
    with Cons.IH [OF e(2) next_place(2,3) [OF Cons.prems(2,3)], of f] Cons.prems(2,4) f cmp entry_next [OF e(1)]
    show ?thesis by simp
  qed
qed

lemma aligned_unat: "(a :: u64) mod 512 = 0 \<longleftrightarrow> unat a mod 512 = 0"
  using unat_mod [of a 512] by (simp add: unat_eq_zero [symmetric])

text \<open>A header that lies within the disk passes the test of \<open>Initialize\<close>.\<close>

lemma header_within:
  assumes "unat p + 512 \<le> unat v"
  shows "\<not> p + sizeof_TarHeader > (v :: u64)"
proof -
  have "unat p + 512 < 2 ^ 64" using assms u64_bound [of v] by linarith
  then have "unat (p + 512) = unat p + 512" by (simp add: unat_word_ariths(1))
  with assms show ?thesis by (simp add: word_less_nat_alt sizeof_TarHeader_def)
qed

lemma Initialize_loop_archive:
  assumes "archive m p es" "p \<noteq> 0" "p mod 512 = 0" "unat p + archive_size es \<le> unat (vaddr + sz)" "length es + 2 \<le> fuel"
  shows "InitRd_Initialize_loop fuel m vaddr sz p = Some Okay"
  using assms
proof (induction es arbitrary: p fuel)
  case Nil
  then obtain f where f: "fuel = Suc (Suc f)" by (cases fuel; cases "fuel - 1") auto
  with Nil end_is_zero [OF Nil(1)] header_within [of p "vaddr + sz"] show ?case
    by (simp add: sizeof_TarHeader_def GetNext_def)
next
  case (Cons e es)
  then obtain f where f: "fuel = Suc f" by (cases fuel) auto
  have e: "entry_at m p e" "archive m (p + of_nat (512 * blocks e)) es" using Cons.prems(1) by simp_all
  have le: "unat p + archive_size (e # es) \<le> 2 ^ 64" using Cons.prems(4) u64_bound [of "vaddr + sz"] by linarith
  note q = next_place [OF Cons.prems(2) le]
  have "unat p + 512 \<le> unat (vaddr + sz)" using Cons.prems(4) by (simp add: blocks_def)
  then have in_disk: "\<not> p + sizeof_TarHeader > vaddr + sz" by (rule header_within)
  have "(p + of_nat (512 * blocks e)) mod 512 = 0"
    using Cons.prems(3) by (simp only: aligned_unat q(1) mod_mult_self1 mod_mult_self2)
  then have "InitRd_Initialize_loop f m vaddr sz (p + of_nat (512 * blocks e)) = Some Okay"
    using e(2) q Cons.prems(4,5) f by (intro Cons.IH) simp_all
  with in_disk f Cons.prems(2,3) entry_next [OF e(1)] show ?case by (simp add: sizeof_TarHeader_def)
qed

end
