(* ===== verification/Init_Rd_Theorems.thy ===== *)
theory Init_Rd_Theorems
  imports Init_Rd_Props
begin

text \<open>The initial RAM disk accepts an archive, finds its entries by name and knows where their contents are.\<close>

lemma places_entries:
  assumes "archive m p es" "p \<noteq> 0" "unat p + archive_size es \<le> 2 ^ 64" "p mod 512 = 0" "(a, e) \<in> set (places p es)"
  shows "entry_at m a e \<and> a mod 512 = 0"
  using assms
proof (induction es arbitrary: p)
  case (Cons f es)
  note q = next_place [OF Cons.prems(2,3)]
  have "(p + of_nat (512 * blocks f)) mod 512 = 0"
    using Cons.prems(4) by (simp only: aligned_unat q(1) mod_mult_self1 mod_mult_self2)
  then have "entry_at m a e \<and> a mod 512 = 0" if "(a, e) \<in> set (places (p + of_nat (512 * blocks f)) es)"
    using Cons.prems(1) q that by (intro Cons.IH) simp_all
  moreover have "(a, e) = (p, f) \<or> (a, e) \<in> set (places (p + of_nat (512 * blocks f)) es)" using Cons.prems(5) by simp
  ultimately show ?case using Cons.prems(1,4) by (metis archive.simps(2) prod.inject)
qed simp

lemma RoundUp_size:
  assumes "entry_at m a e"
  shows "RoundUp (of_nat (e_size e)) sizeof_TarHeader = of_nat (512 * (blocks e - 1))"
proof -
  have size: "e_size e < 2 ^ 33" using assms by (simp add: entry_at_def)
  have "(of_nat (e_size e) + 512 - 1 :: u64) = of_nat (e_size e + 511)" by simp
  moreover have "(of_nat (e_size e + 511) div 512 :: u64) = of_nat ((e_size e + 511) div 512)"
    using size by (intro of_nat_div_512) simp
  ultimately show ?thesis
    unfolding RoundUp_def sizeof_TarHeader_def blocks_def by (simp only: of_nat_mult) (simp add: mult.commute del: of_nat_add)
qed

lemma file_boundaries:
  assumes "entry_at m a e" "a mod 512 = 0" "canonical a" "e_type e = FileType"
  shows "GetFileBoundaries m (item_handle a e) =
    \<lparr>fb_Start = a + 512, fb_Size = of_nat (e_size e), fb_AlignedSize = of_nat (512 * (blocks e - 1))\<rparr>"
  unfolding GetFileBoundaries_def item_handle_def
  using ToHandle_roundtrip [of InitRdFile a "of_nat (e_sum e)" True] HandlePointer_roundtrip [OF assms(3,2), of "of_nat (e_sum e)"]
  by (simp add: assms(4) entry_numbers [OF assms(1)] RoundUp_size [OF assms(1)]) (simp add: sizeof_TarHeader_def)

text \<open>
  \<open>Initialize\<close> accepts every archive: an archive that starts at an aligned address, is closed by a block of
  zeros and lies within the given range is walked to its end and the disk is loaded.
\<close>

theorem InitRd_Initialize_correct:
  assumes "archive m vaddr es" "vaddr \<noteq> 0" "vaddr mod 512 = 0" "unat vaddr + archive_size es \<le> unat (vaddr + sz)"
    "length es + 2 \<le> fuel"
  shows "InitRd_Initialize fuel m vaddr sz st = Some (Handle_of_result Okay, \<lparr>TarStart = vaddr, TarEnd = vaddr + sz, Loaded = True\<rparr>)"
  using Initialize_loop_archive [OF assms] by (cases st) (simp add: InitRd_Initialize_def)

text \<open>
  C37. A file of the archive is found: \<open>FindItem\<close> ends and answers for the first entry of that name (a leading
  \<open>./\<close> apart, and as far as the first 99 characters), and \<open>GetFileBoundaries\<close> of that
  answer gives the address, the size and the rounded size of the file's content; without such an
  entry the answer is \<open>NotFound\<close>.
\<close>

theorem InitRd_FindItem_correct:
  assumes "archive m (TarStart st) es" "TarStart st \<noteq> 0" "TarStart st mod 512 = 0" "TarEnd st \<noteq> 0"
    "unat (TarStart st) + archive_size es \<le> 2 ^ 64" "cstring m name t" "root_name t \<noteq> []" "length es + 2 \<le> fuel"
  shows "(case find (\<lambda>(a, e). same_name (e_name e) t) (places (TarStart st) es) of
      None \<Rightarrow> FindItem fuel m name st = Some (Handle_of_result NotFound)
    | Some (a, e) \<Rightarrow> FindItem fuel m name st = Some (item_handle a e)
        \<and> (e_type e = FileType \<and> canonical a \<longrightarrow> GetFileBoundaries m (item_handle a e) =
             \<lparr>fb_Start = a + 512, fb_Size = of_nat (e_size e), fb_AlignedSize = of_nat (512 * (blocks e - 1))\<rparr>))"
proof -
  have loop: "FindItem fuel m name st = FindItem_loop fuel m name (TarStart st)" using assms(2,4) by (simp add: FindItem_def)
  note found = FindItem_loop_archive [OF assms(1,6,7,2,5,8)]
  show ?thesis
  proof (cases "find (\<lambda>(a, e). same_name (e_name e) t) (places (TarStart st) es)")
    case (Some r)
    then obtain a e where r: "r = (a, e)" by (cases r)
    with Some have "(a, e) \<in> set (places (TarStart st) es)" by (metis (no_types, lifting) find_Some_iff nth_mem)
    then have "entry_at m a e" "a mod 512 = 0" using places_entries [OF assms(1,2,5,3)] by blast+
    then show ?thesis using file_boundaries loop found Some r by auto
  qed (use loop found in simp)
qed

text \<open>
  An archive of one file of five bytes with the name \<open>a\<close>, at address \<open>4096\<close>, and the string \<open>/a\<close> at address \<open>8192\<close>.
\<close>

definition demo_header :: "u8 list" where
  "demo_header = [97] @ replicate 99 0 @ replicate 8 48 @ replicate 8 48 @ replicate 8 48 @ octal 11 5 @ [0] @ replicate 12 48
     @ octal 7 668 @ [0] @ [48] @ replicate 355 0"

definition demo_disk :: memory where
  "demo_disk = (\<lambda>x. if unat (x - 4096) < 512 then demo_header ! unat (x - 4096)
     else if x = 8192 then 47 else if x = 8193 then 97 else 0)"

definition demo_entry :: tar_entry where
  "demo_entry = \<lparr>e_name = [97], e_type = FileType, e_size = 5, e_sum = 668\<rparr>"

lemma demo_disk_at: "k < 512 \<Longrightarrow> demo_disk (4096 + of_nat k) = demo_header ! k"
  by (simp add: demo_disk_def unat_count)

lemma octal_length [simp]: "length (octal w n) = w"
  by (simp add: octal_def)

lemma demo_header_length: "length demo_header = 512"
  by (simp add: demo_header_def)

lemma demo_field:
  assumes "k + w \<le> 512"
  shows "field demo_disk (4096 + of_nat k) w = take w (drop k demo_header)"
proof (rule nth_equalityI)
  show "length (field demo_disk (4096 + of_nat k) w) = length (take w (drop k demo_header))"
    using assms by (simp add: field_def demo_header_length)
  fix i
  assume "i < length (field demo_disk (4096 + of_nat k) w)"
  then have i: "i < w" by (simp add: field_def)
  then have "field demo_disk (4096 + of_nat k) w ! i = demo_disk (4096 + of_nat (k + i))" by (simp add: field_def add.assoc)
  with i assms demo_disk_at [of "k + i"] show "field demo_disk (4096 + of_nat k) w ! i = take w (drop k demo_header) ! i"
    by (simp add: demo_header_length)
qed

lemma demo_entry_at: "entry_at demo_disk 4096 demo_entry"
proof -
  have "demo_header ! 0 = 97" "demo_header ! 1 = 0" "demo_header ! 100 = 48" "demo_header ! 108 = 48"
    "demo_header ! 116 = 48" "demo_header ! 156 = 48"
    by (simp_all add: demo_header_def nth_append nth_Cons')
  then have "demo_disk 4096 = 97" "demo_disk (4096 + 1) = 0" "demo_disk (4096 + 100) = 48" "demo_disk (4096 + 108) = 48"
    "demo_disk (4096 + 116) = 48" "demo_disk (4096 + 156) = 48"
    using demo_disk_at [of 0] demo_disk_at [of 1] demo_disk_at [of 100] demo_disk_at [of 108] demo_disk_at [of 116]
      demo_disk_at [of 156] by simp_all
  moreover have "take 11 (drop 124 demo_header) = octal 11 5" "take 7 (drop 148 demo_header) = octal 7 668"
    by (simp_all add: demo_header_def)
  then have "field demo_disk (4096 + 124) 11 = octal 11 5" "field demo_disk (4096 + 148) 7 = octal 7 668"
    using demo_field [of 124 11] demo_field [of 148 7] by simp_all
  ultimately show ?thesis
    by (simp add: entry_at_def demo_entry_def cstring_Cons cstring_Nil tar_Mode_def tar_UID_def tar_GID_def tar_TypeFlag_def
        tar_Size_def tar_Checksum_def)
qed

lemma demo_archive: "archive demo_disk 4096 [demo_entry]"
proof -
  have "demo_disk (4096 + of_nat (1024 + i)) = 0" if "i < 512" for i
  proof -
    have "unat (4096 + of_nat (1024 + i) - 4096 :: u64) = 1024 + i" using that offset_word [of "1024 + i" 4096] by simp
    then have "4096 + of_nat (1024 + i) \<noteq> (8192 :: u64)" "4096 + of_nat (1024 + i) \<noteq> (8193 :: u64)"
      "\<not> unat (4096 + of_nat (1024 + i) - 4096 :: u64) < 512" using that by auto
    then show ?thesis unfolding demo_disk_def by presburger
  qed
  then have "\<forall>i < 512. demo_disk (4096 + of_nat (512 * blocks demo_entry) + of_nat i) = 0"
    by (simp add: blocks_def demo_entry_def add.assoc)
  with demo_entry_at show ?thesis by simp
qed

theorem InitRd_Initialize_correct_witness:
  "InitRd_Initialize 3 demo_disk 4096 2048 \<lparr>TarStart = 0, TarEnd = 0, Loaded = False\<rparr>
     = Some (Handle_of_result Okay, \<lparr>TarStart = 4096, TarEnd = 6144, Loaded = True\<rparr>)"
  using InitRd_Initialize_correct [OF demo_archive, of 2048 3] by (simp add: demo_entry_def blocks_def)

theorem InitRd_FindItem_correct_witness:
  "\<exists>h. FindItem 3 demo_disk 8192 \<lparr>TarStart = 4096, TarEnd = 6144, Loaded = True\<rparr> = Some h
     \<and> GetFileBoundaries demo_disk h = \<lparr>fb_Start = 4608, fb_Size = 5, fb_AlignedSize = 512\<rparr>"
proof -
  have name: "cstring demo_disk 8192 [47, 97]" by (simp add: cstring_Cons cstring_Nil demo_disk_def)
  have "canonical 4096" by (simp add: canonical_def signed_take_bit_eq_if_positive bit_simps)
  moreover have "find (\<lambda>(a, e). same_name (e_name e) [47, 97]) (places 4096 [demo_entry]) = Some (4096, demo_entry)"
    by (simp add: same_name_def root_name_def demo_entry_def)
  ultimately show ?thesis
    using InitRd_FindItem_correct [of demo_disk "\<lparr>TarStart = 4096, TarEnd = 6144, Loaded = True\<rparr>" "[demo_entry]" 8192 "[47, 97]" 3]
      demo_archive name by (simp add: root_name_def demo_entry_def blocks_def)
qed

text \<open>
  A size whose last digits are \<open>/000\<close> counts as \<open>- 512\<close>: the next header is then the same one, and neither \<open>Initialize\<close> nor
  \<open>FindItem\<close> ever returns.
\<close>

definition looping_disk :: memory where
  "looping_disk = (\<lambda>x. if x = 4096 + 131 then 47 else 48)"

lemma looping_next: "GetNext looping_disk 4096 = 4096"
  by code_simp

lemma Initialize_never_returns: "InitRd_Initialize fuel looping_disk 4096 65536 st = None"
proof -
  have "InitRd_Initialize_loop fuel looping_disk 4096 65536 4096 = None"
    by (induction fuel) (simp_all add: looping_next, simp add: sizeof_TarHeader_def)
  then show ?thesis by (simp add: InitRd_Initialize_def)
qed

text \<open>
  The test for a directory includes the directory itself, asked for or not, when the name of the directory has its
  separator at the end; it does not for the name without the separator.
\<close>

definition dir_names :: memory where
  "dir_names = (\<lambda>_. 0)(0 := 100, 1 := 47, 512 := 100, 513 := 47, 1024 := 100)"

lemma IsInDirectory_includes_self:
  "IsInDirectory zf dir_names 0 512 False" "\<not> IsInDirectory zf dir_names 0 1024 False"
  by (cases zf; code_simp)+

end
