(* ===== verification/Ring_Buffer.thy ===== *)
theory Ring_Buffer
  imports Mem_Strings
begin

text \<open>
  \<^verbatim>\<open>libs/common/src/utils/ring.buffer.concurrent.cpp\<close>: the ring buffer of bytes for many producers and
  consumers. Four counters grow without bound; a position in the buffer is a counter modulo the capacity. The attempts
  \<open>TryPush\<close> and \<open>TryBeginPop\<close> and the end of a pop are split at their accesses to the counters; the waiting operations are
  modelled as they run alone.
\<close>

section \<open>State\<close>

record RingBufferConcurrent =
  TailHard :: u64
  HeadHard :: u64
  TailSoft :: u64
  HeadSoft :: u64
  rb_Buffer :: u64
  rb_Capacity :: u64

definition RingBufferConcurrent_new :: "u64 \<Rightarrow> u64 \<Rightarrow> RingBufferConcurrent" where
  "RingBufferConcurrent_new buf cap =
     \<lparr>TailHard = 0, HeadHard = 0, TailSoft = 0, HeadSoft = 0, rb_Buffer = buf, rb_Capacity = cap\<rparr>"

definition rb_IsEmpty :: "RingBufferConcurrent \<Rightarrow> bool" where
  "rb_IsEmpty r \<longleftrightarrow> TailSoft r = HeadSoft r"

text \<open>A valid cookie; an invalid one is \<open>None\<close>.\<close>

record PopCookie =
  pc_Array :: u64
  pc_Count :: u64
  pc_Tail :: u64

definition pc_GetEnd :: "PopCookie \<Rightarrow> u64" where
  "pc_GetEnd c = pc_Array c + pc_Count c"

section \<open>The attempts, access by access\<close>

text \<open>
  What a thread is doing: it has returned (\<open>Idle\<close>, \<open>Pushed\<close> with the answer of \<open>TryPush\<close>, \<open>NoCookie\<close> for an invalid cookie), it is
  at the access of \<open>TryPush\<close> or \<open>TryBeginPop\<close> that the constructor names, with the values it has loaded, or it holds a cookie.
\<close>

datatype rb_thread =
    Idle | Pushed u64 | NoCookie
  | P_HeadSoft u64 u64 u64 u64 | P_HeadHard u64 u64 u64 u64 | P_Xchg u64 u64 u64 u64 u64
  | P_Copy u64 u64 u64 u64 | P_Store u64 u64
  | C_TailHard u64 u64 u64 | C_TailSoft u64 u64 u64 u64 | C_Xchg u64 u64 u64
  | C_Holding PopCookie

definition TryPush_start :: "u64 \<Rightarrow> u64 \<Rightarrow> u64 \<Rightarrow> RingBufferConcurrent \<Rightarrow> rb_thread" where
  "TryPush_start elems count mn r =
     (if count = 0 then Pushed 0
      else let mn' = (if mn > count then count else mn) in P_HeadSoft elems count mn' (TailHard r))"

definition TryPush_HeadSoft :: "u64 \<Rightarrow> u64 \<Rightarrow> u64 \<Rightarrow> u64 \<Rightarrow> RingBufferConcurrent \<Rightarrow> rb_thread" where
  "TryPush_HeadSoft elems count mn myTH r =
     (let myHS = HeadSoft r in
      if myTH + rb_Capacity r < myHS + mn then Pushed 0 else P_HeadHard elems count myTH myHS)"

definition TryPush_HeadHard :: "u64 \<Rightarrow> u64 \<Rightarrow> u64 \<Rightarrow> u64 \<Rightarrow> RingBufferConcurrent \<Rightarrow> rb_thread" where
  "TryPush_HeadHard elems count myTH myHS r =
     (let myHH = HeadHard r in if myHS \<noteq> myHH then Pushed 0 else P_Xchg elems count myTH myHS myHH)"

definition TryPush_xchg :: "u64 \<Rightarrow> u64 \<Rightarrow> u64 \<Rightarrow> u64 \<Rightarrow> u64 \<Rightarrow> RingBufferConcurrent \<Rightarrow> RingBufferConcurrent \<times> rb_thread" where
  "TryPush_xchg elems count myTH myHS myHH r =
     (let newHS = min (myTH + rb_Capacity r) (myHS + count) in
      if HeadSoft r = myHH then (r\<lparr>HeadSoft := newHS\<rparr>, P_Copy elems myHS myHH newHS) else (r, Pushed 0))"

definition TryPush_copy :: "u64 \<Rightarrow> u64 \<Rightarrow> u64 \<Rightarrow> u64 \<Rightarrow> RingBufferConcurrent \<Rightarrow> memory \<Rightarrow> memory \<times> rb_thread" where
  "TryPush_copy elems myHS myHH newHS r m =
     (let cpycnt = newHS - myHS
      in (snd (memcpy (rb_Buffer r + myHH mod rb_Capacity r) elems cpycnt m), P_Store newHS cpycnt))"

definition TryPush_store :: "u64 \<Rightarrow> u64 \<Rightarrow> RingBufferConcurrent \<Rightarrow> RingBufferConcurrent \<times> rb_thread" where
  "TryPush_store newHS cpycnt r = (r\<lparr>HeadHard := newHS\<rparr>, Pushed cpycnt)"

definition TryBeginPop_start :: "u64 \<Rightarrow> u64 \<Rightarrow> RingBufferConcurrent \<Rightarrow> rb_thread" where
  "TryBeginPop_start mx mn r = (if mn > rb_Capacity r then NoCookie else C_TailHard mx mn (HeadHard r))"

definition TryBeginPop_TailHard :: "u64 \<Rightarrow> u64 \<Rightarrow> u64 \<Rightarrow> RingBufferConcurrent \<Rightarrow> rb_thread" where
  "TryBeginPop_TailHard mx mn myHH r = C_TailSoft mx mn myHH (TailHard r)"

definition TryBeginPop_TailSoft :: "u64 \<Rightarrow> u64 \<Rightarrow> u64 \<Rightarrow> u64 \<Rightarrow> RingBufferConcurrent \<Rightarrow> rb_thread" where
  "TryBeginPop_TailSoft mx mn myHH myTH r =
     (let myTS = TailSoft r in
      if myHH = myTS \<or> myTH \<noteq> myTS then NoCookie
      else let relTS = myTS mod rb_Capacity r;
               bufEnd = min myHH (myTH + rb_Capacity r - relTS);
               cpycnt = bufEnd - myTS
           in if cpycnt < mn then NoCookie else C_Xchg myTS relTS (if cpycnt > mx then mx else cpycnt))"

definition TryBeginPop_xchg :: "u64 \<Rightarrow> u64 \<Rightarrow> u64 \<Rightarrow> RingBufferConcurrent \<Rightarrow> RingBufferConcurrent \<times> rb_thread" where
  "TryBeginPop_xchg myTS relTS cpycnt r =
     (if TailSoft r = myTS
      then (r\<lparr>TailSoft := myTS + cpycnt\<rparr>,
            C_Holding \<lparr>pc_Array = rb_Buffer r + relTS, pc_Count = cpycnt, pc_Tail = myTS\<rparr>)
      else (r, NoCookie))"

text \<open>The store of \<open>EndPop\<close>, once its loop has seen the tail of the cookie.\<close>

definition EndPop_store :: "PopCookie \<Rightarrow> RingBufferConcurrent \<Rightarrow> RingBufferConcurrent" where
  "EndPop_store c r = r\<lparr>TailHard := pc_Tail c + pc_Count c\<rparr>"

section \<open>Threads\<close>

type_synonym rb_state = "RingBufferConcurrent \<times> memory \<times> (nat \<Rightarrow> rb_thread)"

definition rb_returned :: "rb_thread \<Rightarrow> bool" where
  "rb_returned l \<longleftrightarrow> (case l of Idle \<Rightarrow> True | Pushed _ \<Rightarrow> True | NoCookie \<Rightarrow> True | _ \<Rightarrow> False)"

text \<open>Threads in \<open>K\<close> may pop. Producers ask for at least one byte, and push less than \<open>2 ^ 63\<close> bytes at once.\<close>

inductive rb_access :: "bool \<Rightarrow> rb_thread \<Rightarrow> RingBufferConcurrent \<times> memory \<Rightarrow> (RingBufferConcurrent \<times> memory) \<times> rb_thread \<Rightarrow> bool"
  for k where
  push: "rb_returned l \<Longrightarrow> 0 < mn \<Longrightarrow> count < 2 ^ 63 \<Longrightarrow> rb_access k l (r, m) ((r, m), TryPush_start elems count mn r)"
| push_HeadSoft: "rb_access k (P_HeadSoft elems count mn th) (r, m) ((r, m), TryPush_HeadSoft elems count mn th r)"
| push_HeadHard: "rb_access k (P_HeadHard elems count th hs) (r, m) ((r, m), TryPush_HeadHard elems count th hs r)"
| push_xchg: "TryPush_xchg elems count th hs hh r = (r', l) \<Longrightarrow> rb_access k (P_Xchg elems count th hs hh) (r, m) ((r', m), l)"
| push_copy: "TryPush_copy elems hs hh new r m = (m', l) \<Longrightarrow> rb_access k (P_Copy elems hs hh new) (r, m) ((r, m'), l)"
| push_store: "TryPush_store new n r = (r', l) \<Longrightarrow> rb_access k (P_Store new n) (r, m) ((r', m), l)"
| pop: "k \<Longrightarrow> rb_returned l \<Longrightarrow> rb_access k l (r, m) ((r, m), TryBeginPop_start mx mn r)"
| pop_TailHard: "rb_access k (C_TailHard mx mn hh) (r, m) ((r, m), TryBeginPop_TailHard mx mn hh r)"
| pop_TailSoft: "rb_access k (C_TailSoft mx mn hh th) (r, m) ((r, m), TryBeginPop_TailSoft mx mn hh th r)"
| pop_xchg: "TryBeginPop_xchg ts rel n r = (r', l) \<Longrightarrow> rb_access k (C_Xchg ts rel n) (r, m) ((r', m), l)"
| end_pop: "TailHard r = pc_Tail c \<Longrightarrow> rb_access k (C_Holding c) (r, m) ((EndPop_store c r, m), Idle)"

text \<open>Steps as long as the counters are far from going round.\<close>

definition rb_small :: "RingBufferConcurrent \<Rightarrow> bool" where
  "rb_small r \<longleftrightarrow> HeadSoft r < 2 ^ 62 \<and> rb_Capacity r < 2 ^ 62"

inductive rb_step :: "nat set \<Rightarrow> rb_state \<Rightarrow> rb_state \<Rightarrow> bool" for K where
  "rb_access (t \<in> K) (T t) (r, m) ((r', m'), l) \<Longrightarrow> rb_small r'
   \<Longrightarrow> rb_step K (r, m, T) (r', m', T(t := l))"

definition rb_copying :: "rb_thread \<Rightarrow> bool" where
  "rb_copying l \<longleftrightarrow> (case l of P_Copy _ _ _ _ \<Rightarrow> True | P_Store _ _ \<Rightarrow> True | _ \<Rightarrow> False)"

definition rb_consuming :: "rb_thread \<Rightarrow> bool" where
  "rb_consuming l \<longleftrightarrow> (case l of C_TailHard _ _ _ \<Rightarrow> True | C_TailSoft _ _ _ _ \<Rightarrow> True | C_Xchg _ _ _ \<Rightarrow> True
     | C_Holding _ \<Rightarrow> True | _ \<Rightarrow> False)"

text \<open>What the values a thread has loaded say about the buffer.\<close>

definition rb_local :: "RingBufferConcurrent \<Rightarrow> rb_thread \<Rightarrow> bool" where
  "rb_local r l \<longleftrightarrow> (case l of
      P_HeadSoft _ count mn th \<Rightarrow> th \<le> TailHard r \<and> 0 < mn \<and> mn \<le> count \<and> count < 2 ^ 63
    | P_HeadHard _ count th hs \<Rightarrow> th \<le> TailHard r \<and> hs \<le> HeadSoft r \<and> unat hs < unat th + unat (rb_Capacity r)
        \<and> 0 < count \<and> count < 2 ^ 63
    | P_Xchg _ count th hs hh \<Rightarrow> th \<le> TailHard r \<and> hs = hh \<and> hh \<le> HeadHard r \<and> unat hs < unat th + unat (rb_Capacity r)
        \<and> 0 < count \<and> count < 2 ^ 63
    | P_Copy _ hs hh new \<Rightarrow> hs = HeadHard r \<and> hh = HeadHard r \<and> new = HeadSoft r \<and> HeadHard r < HeadSoft r
    | P_Store new n \<Rightarrow> new = HeadSoft r \<and> HeadHard r < HeadSoft r
    | C_TailHard mx mn hh \<Rightarrow> TailHard r = TailSoft r \<and> TailSoft r \<le> hh \<and> hh \<le> HeadHard r
    | C_TailSoft mx mn hh th \<Rightarrow> TailHard r = TailSoft r \<and> TailSoft r \<le> hh \<and> hh \<le> HeadHard r \<and> th = TailHard r
    | C_Xchg ts rel n \<Rightarrow> TailHard r = TailSoft r \<and> ts = TailSoft r \<and> rel = ts mod rb_Capacity r
        \<and> unat rel + unat n \<le> unat (rb_Capacity r) \<and> unat ts + unat n \<le> unat (HeadHard r)
    | C_Holding c \<Rightarrow> pc_Tail c = TailHard r \<and> unat (TailHard r) + unat (pc_Count c) = unat (TailSoft r)
        \<and> pc_Array c = rb_Buffer r + TailHard r mod rb_Capacity r
        \<and> unat (TailHard r mod rb_Capacity r) + unat (pc_Count c) \<le> unat (rb_Capacity r)
    | _ \<Rightarrow> True)"

definition rb_inv :: "nat set \<Rightarrow> rb_state \<Rightarrow> bool" where
  "rb_inv K s \<longleftrightarrow> (case s of (r, m, T) \<Rightarrow>
     0 < rb_Capacity r \<and> rb_small r
     \<and> TailHard r \<le> TailSoft r \<and> TailSoft r \<le> HeadHard r \<and> HeadHard r \<le> HeadSoft r
     \<and> unat (HeadSoft r) \<le> unat (TailHard r) + unat (rb_Capacity r)
     \<and> (\<forall>t. rb_local r (T t))
     \<and> (\<forall>t u. rb_copying (T t) \<and> rb_copying (T u) \<longrightarrow> t = u)
     \<and> (\<forall>t. rb_consuming (T t) \<longrightarrow> t \<in> K)
     \<and> (TailHard r = TailSoft r \<or> (\<exists>t c. T t = C_Holding c)))"

section \<open>The operations alone\<close>

definition TryPush :: "u64 \<Rightarrow> u64 \<Rightarrow> u64 \<Rightarrow> RingBufferConcurrent \<Rightarrow> memory \<Rightarrow> u64 \<times> RingBufferConcurrent \<times> memory" where
  "TryPush elems count mn r m =
     (case TryPush_start elems count mn r of
        P_HeadSoft _ _ mn' th \<Rightarrow>
          (case TryPush_HeadSoft elems count mn' th r of
             P_HeadHard _ _ _ hs \<Rightarrow>
               (case TryPush_HeadHard elems count th hs r of
                  P_Xchg _ _ _ _ hh \<Rightarrow>
                    (case TryPush_xchg elems count th hs hh r of
                       (r', P_Copy _ _ _ new) \<Rightarrow>
                         (case TryPush_copy elems hs hh new r' m of
                            (m', P_Store _ n) \<Rightarrow> (n, fst (TryPush_store new n r'), m')
                          | (m', _) \<Rightarrow> (0, r', m'))
                     | (r', _) \<Rightarrow> (0, r', m))
                | _ \<Rightarrow> (0, r, m))
           | _ \<Rightarrow> (0, r, m))
      | _ \<Rightarrow> (0, r, m))"

definition TryBeginPop :: "u64 \<Rightarrow> u64 \<Rightarrow> RingBufferConcurrent \<Rightarrow> PopCookie option \<times> RingBufferConcurrent" where
  "TryBeginPop mx mn r =
     (case TryBeginPop_start mx mn r of
        C_TailHard _ _ hh \<Rightarrow>
          (case TryBeginPop_TailHard mx mn hh r of
             C_TailSoft _ _ _ th \<Rightarrow>
               (case TryBeginPop_TailSoft mx mn hh th r of
                  C_Xchg ts rel n \<Rightarrow>
                    (case TryBeginPop_xchg ts rel n r of (r', C_Holding c) \<Rightarrow> (Some c, r') | (r', _) \<Rightarrow> (None, r'))
                | _ \<Rightarrow> (None, r))
           | _ \<Rightarrow> (None, r))
      | _ \<Rightarrow> (None, r))"

text \<open>\<open>None\<close>: the loop of \<open>EndPop\<close> waits for another consumer.\<close>

definition EndPop :: "PopCookie \<Rightarrow> RingBufferConcurrent \<Rightarrow> RingBufferConcurrent option" where
  "EndPop c r = (if TailHard r \<noteq> pc_Tail c then None else Some (EndPop_store c r))"

definition BeginPop :: "u64 \<Rightarrow> u64 \<Rightarrow> RingBufferConcurrent \<Rightarrow> PopCookie option \<times> RingBufferConcurrent" where
  "BeginPop mx mn r =
     (if mn > rb_Capacity r then (None, r)
      else let myHH = HeadHard r; myTH = TailHard r; myTS = TailSoft r in
        if myHH = myTS then (None, r)
        else let bufEnd = min myHH (myTH + rb_Capacity r); cpycnt = bufEnd - myTS in
          if cpycnt < mn then (None, r)
          else let cpycnt' = (if cpycnt > mx then mx else cpycnt)
               in (Some \<lparr>pc_Array = rb_Buffer r + myTS mod rb_Capacity r, pc_Count = cpycnt', pc_Tail = myTS\<rparr>,
                   r\<lparr>TailSoft := myTS + cpycnt'\<rparr>))"

text \<open>\<open>WaitBeginPop\<close> alone: \<open>None\<close> where the loop goes on without an end.\<close>

definition WaitBeginPop :: "u64 \<Rightarrow> u64 \<Rightarrow> RingBufferConcurrent \<Rightarrow> (PopCookie option \<times> RingBufferConcurrent) option" where
  "WaitBeginPop mx mn r =
     (if mn > rb_Capacity r then Some (None, r)
      else let myTS = TailSoft r; myHH = HeadHard r; myTH = TailHard r in
        if myHH = myTS then None
        else let bufEnd = min myHH (myTH + rb_Capacity r); cpycnt = bufEnd - myTS in
          if cpycnt < mn then None
          else let cpycnt' = (if cpycnt > mx then mx else cpycnt)
               in Some (Some \<lparr>pc_Array = rb_Buffer r + myTS mod rb_Capacity r, pc_Count = cpycnt', pc_Tail = myTS\<rparr>,
                   r\<lparr>TailSoft := myTS + cpycnt'\<rparr>))"

text \<open>
  The loop of \<open>Push\<close> alone. Each round copies at least one byte or waits for a consumer, which is \<open>None\<close>.
\<close>

fun Push_loop :: "nat \<Rightarrow> u64 \<Rightarrow> u64 \<Rightarrow> u64 \<Rightarrow> u64 \<Rightarrow> u64 \<Rightarrow> RingBufferConcurrent \<Rightarrow> memory \<Rightarrow> (RingBufferConcurrent \<times> memory) option" where
  "Push_loop 0 myHS elems count start hss r m = None"
| "Push_loop (Suc fuel) myHS elems count start hss r m =
     (if count > 0 then
        let bufEnd = rb_Capacity r + TailHard r in
        if hss \<ge> bufEnd then None
        else
          let cpycnt = min (bufEnd - hss) (min count (rb_Capacity r - start));
              m' = snd (memcpy (rb_Buffer r + start) elems cpycnt m);
              start' = start + cpycnt;
              hss' = hss + cpycnt;
              start'' = (if start' \<ge> rb_Capacity r then 0 else start');
              r' = (if HeadHard r \<ge> myHS then r\<lparr>HeadHard := hss'\<rparr> else r)
          in Push_loop fuel myHS (elems + cpycnt) (count - cpycnt) start'' hss' r' m'
      else Some (r, m))"

definition Push :: "nat \<Rightarrow> u64 \<Rightarrow> u64 \<Rightarrow> RingBufferConcurrent \<Rightarrow> memory \<Rightarrow> (RingBufferConcurrent \<times> memory) option" where
  "Push fuel elems count r m =
     (if count = 0 then Some (r, m)
      else let myHS = HeadSoft r; r1 = r\<lparr>HeadSoft := HeadSoft r + count\<rparr>; start = myHS mod rb_Capacity r in
        case Push_loop fuel myHS elems count start myHS r1 m of
          None \<Rightarrow> None
        | Some (r2, m') \<Rightarrow> if HeadHard r2 < myHS then None else Some (r2\<lparr>HeadHard := myHS\<rparr>, m'))"

end
