(* ===== verification/Ring_Buffer_Theorems.thy ===== *)
theory Ring_Buffer_Theorems
  imports Ring_Buffer Mem_Strings_Props
begin

text \<open>
  The ring buffer: with any number of producers and one consumer the attempts keep the counters in order and the ranges apart.
  A second consumer breaks that, and so do \<open>Push\<close> and the copy of \<open>TryPush\<close> at the end of the buffer.
\<close>

section \<open>One access\<close>

lemmas rb_ops = TryPush_start_def TryPush_HeadSoft_def TryPush_HeadHard_def TryPush_xchg_def TryPush_copy_def TryPush_store_def
  TryBeginPop_start_def TryBeginPop_TailHard_def TryBeginPop_TailSoft_def TryBeginPop_xchg_def EndPop_store_def

lemmas rb_roles = rb_copying_def rb_consuming_def rb_local_def rb_returned_def

lemma rb_small_upd [simp]:
  "rb_small (r\<lparr>TailSoft := x\<rparr>) = rb_small r" "rb_small (r\<lparr>TailHard := x\<rparr>) = rb_small r" "rb_small (r\<lparr>HeadHard := x\<rparr>) = rb_small r"
  by (simp_all add: rb_small_def)

text \<open>The counters only grow; the threads other than the one that makes the step keep what they know.\<close>

lemma rb_local_mono:
  assumes "rb_local r l" "TailHard r \<le> TailHard r'" "HeadHard r \<le> HeadHard r'" "HeadSoft r \<le> HeadSoft r'"
    "rb_Capacity r' = rb_Capacity r" "rb_Buffer r' = rb_Buffer r"
    "rb_copying l \<Longrightarrow> HeadHard r' = HeadHard r \<and> HeadSoft r' = HeadSoft r"
    "rb_consuming l \<Longrightarrow> TailHard r' = TailHard r \<and> TailSoft r' = TailSoft r"
  shows "rb_local r' l"
  using assms by (cases l) (auto simp: rb_roles word_le_nat_alt)

text \<open>What \<open>TryPush\<close> computes from its loads.\<close>

lemma new_head:
  assumes "unat hs < unat th + unat cap" "unat th + unat cap < 2 ^ 63" "0 < count" "count < 2 ^ 63" "unat hs < 2 ^ 63"
  shows "hs < min (th + cap) (hs + count :: u64)" "unat (min (th + cap) (hs + count)) \<le> unat th + unat cap"
proof -
  have "unat count < 2 ^ 63" using assms(4) by (simp add: word_less_nat_alt)
  then have u: "unat (th + cap) = unat th + unat cap" "unat (hs + count) = unat hs + unat count"
    using assms by (simp_all add: unat_word_ariths(1))
  have "0 < unat count" using assms(3) by (simp add: unat_gt_0 word_greater_zero_iff)
  then show "hs < min (th + cap) (hs + count)" using assms(1) by (simp add: word_less_nat_alt u min_def)
  show "unat (min (th + cap) (hs + count)) \<le> unat th + unat cap"
    using u by (auto simp: min_def word_le_nat_alt)
qed

text \<open>What \<open>TryBeginPop\<close> computes from its loads, when the hard head is not behind the tail.\<close>

lemma pop_range:
  assumes "ts \<le> hh" "0 < (cap :: u64)" "unat ts + unat cap < 2 ^ 63" "hh \<noteq> ts"
  defines "rel \<equiv> ts mod cap"
  defines "n \<equiv> min hh (ts + cap - rel) - ts"
  shows "unat rel + unat n \<le> unat cap" "unat ts + unat n \<le> unat hh"
proof -
  have "unat rel < unat cap" using assms(2) by (simp add: rel_def unat_mod word_less_nat_alt)
  then have e: "unat (ts + cap - rel) = unat ts + unat cap - unat rel"
    using assms(3) by (simp add: unat_word_ariths unat_sub word_le_nat_alt)
  have ge: "ts \<le> min hh (ts + cap - rel)" using assms(1) \<open>unat rel < unat cap\<close> by (auto simp: min_def word_le_nat_alt e)
  then have "unat n = unat (min hh (ts + cap - rel)) - unat ts" by (simp add: n_def unat_sub)
  then show "unat rel + unat n \<le> unat cap" "unat ts + unat n \<le> unat hh"
    using e ge \<open>unat rel < unat cap\<close> by (auto simp: min_def word_le_nat_alt split: if_splits)
qed

text \<open>The order of the counters.\<close>

definition rb_order :: "RingBufferConcurrent \<Rightarrow> bool" where
  "rb_order r \<longleftrightarrow> 0 < rb_Capacity r \<and> rb_small r
     \<and> TailHard r \<le> TailSoft r \<and> TailSoft r \<le> HeadHard r \<and> HeadHard r \<le> HeadSoft r
     \<and> unat (HeadSoft r) \<le> unat (TailHard r) + unat (rb_Capacity r)"

text \<open>How one access may change the buffer: nothing, or one counter under the conditions its owner has.\<close>

definition rb_change :: "rb_thread \<Rightarrow> rb_thread \<Rightarrow> RingBufferConcurrent \<Rightarrow> RingBufferConcurrent \<Rightarrow> bool" where
  "rb_change old l r r' \<longleftrightarrow>
     r' = r \<and> (rb_copying l \<longrightarrow> rb_copying old) \<and> (\<forall>c. l \<noteq> C_Holding c) \<and> (\<forall>c. old \<noteq> C_Holding c)
   \<or> r' = r\<lparr>HeadSoft := HeadSoft r'\<rparr> \<and> HeadSoft r < HeadSoft r' \<and> HeadHard r = HeadSoft r \<and> \<not> rb_consuming l \<and> \<not> rb_consuming old
   \<or> r' = r\<lparr>HeadHard := HeadSoft r\<rparr> \<and> rb_copying old \<and> \<not> rb_copying l \<and> \<not> rb_consuming l
   \<or> r' = r\<lparr>TailSoft := TailSoft r'\<rparr> \<and> TailSoft r \<le> TailSoft r' \<and> rb_consuming old \<and> \<not> rb_copying l \<and> (\<exists>c. l = C_Holding c)
   \<or> r' = r\<lparr>TailHard := TailSoft r\<rparr> \<and> rb_consuming old \<and> \<not> rb_copying l \<and> \<not> rb_consuming l"

lemma rb_changeE:
  assumes "rb_change old l r r'"
  obtains (same) "r' = r" "rb_copying l \<longrightarrow> rb_copying old" "\<forall>c. l \<noteq> C_Holding c" "\<forall>c. old \<noteq> C_Holding c"
  | (head_soft) h where "r' = r\<lparr>HeadSoft := h\<rparr>" "HeadSoft r < h" "HeadHard r = HeadSoft r" "\<not> rb_consuming l" "\<not> rb_consuming old"
  | (head_hard) "r' = r\<lparr>HeadHard := HeadSoft r\<rparr>" "rb_copying old" "\<not> rb_copying l" "\<not> rb_consuming l"
  | (tail_soft) h c where "r' = r\<lparr>TailSoft := h\<rparr>" "TailSoft r \<le> h" "rb_consuming old" "\<not> rb_copying l" "l = C_Holding c"
  | (tail_hard) "r' = r\<lparr>TailHard := TailSoft r\<rparr>" "rb_consuming old" "\<not> rb_copying l" "\<not> rb_consuming l"
  using assms unfolding rb_change_def by blast

lemma rb_access_push:
  assumes "rb_access k old (r, m) ((r', m'), l)" "rb_order r" "rb_local r old" "\<not> rb_consuming old" "\<not> rb_consuming l"
  shows "rb_local r' l \<and> rb_change old l r r' \<and> (rb_small r' \<longrightarrow> rb_order r')"
proof -
  have b: "unat (TailHard r) + unat (rb_Capacity r) < 2 ^ 63" "unat (HeadSoft r) < 2 ^ 63"
    using assms(2) by (auto simp: rb_order_def rb_small_def word_le_nat_alt word_less_nat_alt)
  from assms(1) show ?thesis
  proof (cases rule: rb_access.cases)
    case (push_HeadSoft elems count mn th)
    have "unat (th + rb_Capacity r) = unat th + unat (rb_Capacity r)" "unat (HeadSoft r + mn) = unat (HeadSoft r) + unat mn"
      using b assms(3) push_HeadSoft by (auto simp: rb_local_def unat_word_ariths(1) word_le_nat_alt word_less_nat_alt)
    moreover have "0 < unat mn" using assms(3) push_HeadSoft by (simp add: rb_local_def unat_gt_0 word_greater_zero_iff)
    ultimately show ?thesis using assms push_HeadSoft
      by (auto simp: rb_ops rb_roles rb_change_def Let_def word_less_nat_alt word_le_nat_alt)
  next
    case (push_xchg elems count th hs hh)
    then have old: "th \<le> TailHard r" "hs = hh" "hh \<le> HeadHard r" "unat hs < unat th + unat (rb_Capacity r)" "0 < count" "count < 2 ^ 63"
      using assms(3) by (auto simp: rb_local_def)
    have th: "unat th + unat (rb_Capacity r) < 2 ^ 63" "unat hs < 2 ^ 63"
      using b old(1,4) by (auto simp: word_le_nat_alt)
    note new = new_head [OF old(4) th(1) old(5,6) th(2)]
    show ?thesis
    proof (cases "HeadSoft r = hh")
      case True
      then have eq: "HeadHard r = HeadSoft r" using old(3) assms(2) by (simp add: rb_order_def)
      with True new old push_xchg assms(2) show ?thesis
        by (auto simp: rb_ops rb_roles rb_change_def rb_order_def Let_def word_le_nat_alt word_less_nat_alt)
    next
      case False
      with push_xchg assms(2) show ?thesis by (auto simp: rb_ops rb_roles rb_change_def Let_def)
    qed
  next
    case (push_store new n)
    with assms show ?thesis by (auto simp: rb_ops rb_roles rb_change_def rb_order_def)
  next
    case (push mn count elems)
    moreover have "count \<noteq> 0 \<Longrightarrow> 0 < count" by (simp add: word_greater_zero_iff)
    ultimately show ?thesis using assms(2) by (cases old) (auto simp: rb_ops rb_roles rb_change_def Let_def not_less)
  qed (use assms in \<open>auto simp: rb_ops rb_roles rb_change_def Let_def word_le_nat_alt\<close>)
qed

lemma rb_access_pop:
  assumes "rb_access k old (r, m) ((r', m'), l)" "rb_order r" "rb_local r old" "rb_consuming old \<or> rb_consuming l"
    "\<not> rb_consuming old \<Longrightarrow> k \<Longrightarrow> TailHard r = TailSoft r"
  shows "rb_local r' l \<and> rb_change old l r r' \<and> rb_order r'"
proof -
  have b: "unat (TailSoft r) + unat (rb_Capacity r) < 2 ^ 63" using assms(2) by (auto simp: rb_order_def rb_small_def word_le_nat_alt word_less_nat_alt)
  from assms(1) show ?thesis
  proof (cases rule: rb_access.cases)
    case (pop mx mn)
    with assms show ?thesis by (cases old) (auto simp: rb_ops rb_roles rb_change_def rb_order_def)
  next
    case (pop_TailHard mx mn hh)
    with assms show ?thesis by (auto simp: rb_ops rb_roles rb_change_def)
  next
    case (pop_TailSoft mx mn hh th)
    let ?rel = "TailSoft r mod rb_Capacity r"
    let ?n = "min hh (TailSoft r + rb_Capacity r - ?rel) - TailSoft r"
    have old: "TailHard r = TailSoft r" "TailSoft r \<le> hh" "hh \<le> HeadHard r" "th = TailHard r"
      using assms(3) pop_TailSoft by (simp_all add: rb_local_def)
    show ?thesis
    proof (cases "hh = TailSoft r \<or> ?n < mn")
      case True
      with old pop_TailSoft assms(2) show ?thesis by (auto simp: rb_ops rb_roles rb_change_def Let_def)
    next
      case False
      have "unat ?rel + unat ?n \<le> unat (rb_Capacity r)" "unat (TailSoft r) + unat ?n \<le> unat hh"
        using pop_range [OF old(2) _ b] False assms(2) by (simp_all add: rb_order_def)
      moreover have "unat (if ?n > mx then mx else ?n) \<le> unat ?n" by (simp add: word_less_nat_alt)
      ultimately show ?thesis using False old pop_TailSoft assms(2)
        by (auto simp: rb_ops rb_roles rb_change_def Let_def word_le_nat_alt)
    qed
  next
    case (pop_xchg ts rel n)
    then have old: "TailHard r = TailSoft r" "ts = TailSoft r" "rel = ts mod rb_Capacity r"
      "unat rel + unat n \<le> unat (rb_Capacity r)" "unat ts + unat n \<le> unat (HeadHard r)"
      using assms(3) by (auto simp: rb_local_def)
    then have "unat (ts + n) = unat ts + unat n"
      using u64_bound [of "HeadHard r"] by (simp add: unat_word_ariths(1))
    with old pop_xchg assms(2) show ?thesis
      by (auto simp: rb_ops rb_roles rb_change_def rb_order_def word_le_nat_alt)
  next
    case (end_pop c)
    then have "unat (TailHard r) + unat (pc_Count c) = unat (TailSoft r)" using assms(3) by (simp add: rb_local_def)
    then have "pc_Tail c + pc_Count c = TailSoft r"
      using end_pop by (metis of_nat_add of_nat_unat ucast_id)
    with end_pop assms(2) show ?thesis by (auto simp: rb_ops rb_roles rb_change_def rb_order_def word_le_nat_alt)
  next
    case (push mn count elems)
    then have "\<not> rb_consuming old" by (cases old) (simp_all add: rb_roles)
    moreover have "\<not> rb_consuming l" using push by (auto simp: rb_ops rb_roles Let_def)
    ultimately show ?thesis using assms(4) by blast
  qed (use assms in \<open>auto simp: rb_ops rb_roles Let_def split: if_splits\<close>)
qed

section \<open>Steps\<close>

lemma rb_local_copy: "rb_local r (P_Copy elems hs hh new) \<Longrightarrow> hs = HeadHard r \<and> hh = HeadHard r \<and> new = HeadSoft r"
  by (simp add: rb_local_def)

lemma rb_local_holding: "rb_local r (C_Holding ck) \<Longrightarrow> pc_Tail ck = TailHard r
    \<and> unat (TailHard r) + unat (pc_Count ck) = unat (TailSoft r) \<and> pc_Array ck = rb_Buffer r + TailHard r mod rb_Capacity r
    \<and> unat (TailHard r mod rb_Capacity r) + unat (pc_Count ck) \<le> unat (rb_Capacity r)"
  by (simp add: rb_local_def)

lemma rb_inv_order: "rb_inv K (r, m, T) \<longleftrightarrow> rb_order r \<and> (\<forall>t. rb_local r (T t))
    \<and> (\<forall>t u. rb_copying (T t) \<and> rb_copying (T u) \<longrightarrow> t = u) \<and> (\<forall>t. rb_consuming (T t) \<longrightarrow> t \<in> K)
    \<and> (TailHard r = TailSoft r \<or> (\<exists>t c. T t = C_Holding c))"
  by (auto simp: rb_inv_def rb_order_def)

lemma rb_access_consumer: "rb_access k old s (s', l) \<Longrightarrow> rb_consuming l \<Longrightarrow> k \<or> rb_consuming old"
  by (erule rb_access.cases) (auto simp: rb_ops rb_roles Let_def split: if_splits)

lemma rb_step_change:
  assumes inv: "rb_inv K (r, m, T)" and K: "\<And>t u. t \<in> K \<Longrightarrow> u \<in> K \<Longrightarrow> t = u"
    and acc: "rb_access (t \<in> K) (T t) (r, m) ((r', m'), l)" and small: "rb_small r'"
  shows "rb_local r' l" "rb_change (T t) l r r'" "rb_order r'"
proof -
  have ord: "rb_order r" and loc: "\<And>u. rb_local r (T u)"
    and con: "\<And>u. rb_consuming (T u) \<Longrightarrow> u \<in> K" and tail: "TailHard r = TailSoft r \<or> (\<exists>t c. T t = C_Holding c)"
    using inv unfolding rb_inv_order by blast+
  have idle: "TailHard r = TailSoft r" if "\<not> rb_consuming (T t)" "t \<in> K"
  proof (rule ccontr)
    assume "TailHard r \<noteq> TailSoft r"
    then obtain u c where u: "T u = C_Holding c" using tail by blast
    then have "rb_consuming (T u)" by (simp add: rb_consuming_def)
    with con K that have "u = t" by blast
    with u that show False by (simp add: rb_consuming_def)
  qed
  have "rb_local r' l \<and> rb_change (T t) l r r' \<and> rb_order r'"
  proof (cases "rb_consuming (T t) \<or> rb_consuming l")
    case True
    with rb_access_pop [OF acc ord loc True idle] show ?thesis by blast
  next
    case False
    with rb_access_push [OF acc ord loc] small show ?thesis by blast
  qed
  then show "rb_local r' l" "rb_change (T t) l r r'" "rb_order r'" by blast+
qed

lemma rb_step_inv:
  assumes inv: "rb_inv K (r, m, T)" and K: "\<And>t u. t \<in> K \<Longrightarrow> u \<in> K \<Longrightarrow> t = u"
    and acc: "rb_access (t \<in> K) (T t) (r, m) ((r', m'), l)" and small: "rb_small r'"
  shows "rb_inv K (r', m', T(t := l))"
proof -
  have ord: "rb_order r" and loc: "\<And>u. rb_local r (T u)" and one: "\<And>u v. rb_copying (T u) \<Longrightarrow> rb_copying (T v) \<Longrightarrow> u = v"
    and con: "\<And>u. rb_consuming (T u) \<Longrightarrow> u \<in> K" and tail: "TailHard r = TailSoft r \<or> (\<exists>t c. T t = C_Holding c)"
    using inv unfolding rb_inv_order by blast+
  have ok: "rb_local r' l" "rb_change (T t) l r r'" "rb_order r'"
    using rb_step_change [of K r m T t r' m' l] inv K acc small by blast+
  have cop: "HeadHard r < HeadSoft r" if "rb_copying (T u)" for u
    using loc [of u] that by (auto simp: rb_roles split: rb_thread.splits)
  have others: "rb_local r' (T u)" if u: "u \<noteq> t" for u
  proof -
    have "rb_copying (T u) \<Longrightarrow> \<not> rb_copying (T t)" "rb_consuming (T u) \<Longrightarrow> \<not> rb_consuming (T t)"
      using one [of u t] con [of u] con [of t] K [of u t] u by blast+
    note u = this cop [of u]
    from ok(2) show ?thesis
      by (cases rule: rb_changeE) (use u ord in \<open>auto simp: rb_order_def intro!: rb_local_mono [OF loc]\<close>)
  qed
  show ?thesis
    unfolding rb_inv_order
  proof (intro conjI allI impI)
    show "rb_order r'" by (rule ok(3))
    show "rb_local r' ((T(t := l)) u)" for u using ok(1) others by simp
    show "u \<in> K" if "rb_consuming ((T(t := l)) u)" for u
      using that con rb_access_consumer [OF acc] by (auto split: if_splits)
    show "u = v" if "rb_copying ((T(t := l)) u) \<and> rb_copying ((T(t := l)) v)" for u v
    proof -
      have "rb_copying l \<Longrightarrow> rb_copying (T t) \<or> HeadHard r = HeadSoft r" using ok(2) by (auto simp: rb_change_def)
      with that one cop show ?thesis by (auto split: if_splits)
    qed
    show "TailHard r' = TailSoft r' \<or> (\<exists>u c. (T(t := l)) u = C_Holding c)"
    proof -
      have keep: "TailHard r = TailSoft r \<or> (\<exists>u c. (T(t := l)) u = C_Holding c)" if "\<forall>c. T t \<noteq> C_Holding c"
        using tail that by (metis fun_upd_other)
      have "\<not> rb_consuming (T t) \<or> rb_copying (T t) \<Longrightarrow> \<forall>c. T t \<noteq> C_Holding c" by (auto simp: rb_roles)
      note not_holding = keep [OF this]
      from ok(2) show ?thesis
      proof (cases rule: rb_changeE)
        case (tail_soft h c)
        then show ?thesis by auto
      qed (use keep not_holding in auto)
    qed
  qed
qed


lemma rb_reachable:
  assumes "rtranclp (rb_step K) (r0, m0, \<lambda>_. Idle) s" "rb_inv K (r0, m0, \<lambda>_. Idle)" "\<And>t u. t \<in> K \<Longrightarrow> u \<in> K \<Longrightarrow> t = u"
  shows "rb_inv K s"
  using assms(1)
proof (induction rule: rtranclp_induct)
  case (step y z)
  from step(2) show ?case
  proof (cases rule: rb_step.cases)
    case (1 t T r m r' m' l)
    with step(3) assms(3) show ?thesis by (auto intro: rb_step_inv)
  qed
qed (rule assms(2))

section \<open>Schedules\<close>

text \<open>Executable steps: a thread starts a push or a pop, or goes on.\<close>

datatype rb_action = A_Push nat u64 u64 u64 | A_Pop nat u64 u64 | A_Go nat

fun rb_next :: "rb_thread \<Rightarrow> RingBufferConcurrent \<Rightarrow> memory \<Rightarrow> ((RingBufferConcurrent \<times> memory) \<times> rb_thread) option" where
  "rb_next (P_HeadSoft elems count mn th) r m = Some ((r, m), TryPush_HeadSoft elems count mn th r)"
| "rb_next (P_HeadHard elems count th hs) r m = Some ((r, m), TryPush_HeadHard elems count th hs r)"
| "rb_next (P_Xchg elems count th hs hh) r m = (case TryPush_xchg elems count th hs hh r of (r', l) \<Rightarrow> Some ((r', m), l))"
| "rb_next (P_Copy elems hs hh new) r m = (case TryPush_copy elems hs hh new r m of (m', l) \<Rightarrow> Some ((r, m'), l))"
| "rb_next (P_Store new n) r m = (case TryPush_store new n r of (r', l) \<Rightarrow> Some ((r', m), l))"
| "rb_next (C_TailHard mx mn hh) r m = Some ((r, m), TryBeginPop_TailHard mx mn hh r)"
| "rb_next (C_TailSoft mx mn hh th) r m = Some ((r, m), TryBeginPop_TailSoft mx mn hh th r)"
| "rb_next (C_Xchg ts rel n) r m = (case TryBeginPop_xchg ts rel n r of (r', l) \<Rightarrow> Some ((r', m), l))"
| "rb_next (C_Holding c) r m = (if TailHard r = pc_Tail c then Some ((EndPop_store c r, m), Idle) else None)"
| "rb_next _ r m = None"

fun rb_do :: "nat set \<Rightarrow> rb_action \<Rightarrow> rb_state \<Rightarrow> rb_state option" where
  "rb_do K (A_Push t elems count mn) (r, m, T) =
     (if rb_returned (T t) \<and> 0 < mn \<and> count < 2 ^ 63 \<and> rb_small r
      then Some (r, m, T(t := TryPush_start elems count mn r)) else None)"
| "rb_do K (A_Pop t mx mn) (r, m, T) =
     (if t \<in> K \<and> rb_returned (T t) \<and> rb_small r
      then Some (r, m, T(t := TryBeginPop_start mx mn r)) else None)"
| "rb_do K (A_Go t) (r, m, T) =
     (case rb_next (T t) r m of
        Some ((r', m'), l) \<Rightarrow> if rb_small r' then Some (r', m', T(t := l)) else None
      | None \<Rightarrow> None)"

fun rb_run :: "nat set \<Rightarrow> rb_action list \<Rightarrow> rb_state \<Rightarrow> rb_state option" where
  "rb_run K [] s = Some s"
| "rb_run K (a # as) s = (case rb_do K a s of Some s' \<Rightarrow> rb_run K as s' | None \<Rightarrow> None)"

lemma rb_next_access: "rb_next l r m = Some ((r', m'), l') \<Longrightarrow> rb_access k l (r, m) ((r', m'), l')"
  by (cases l) (auto intro: rb_access.intros split: prod.splits if_splits)

lemma rb_do_step:
  assumes "rb_do K a s = Some s'"
  shows "rb_step K s s'"
  using assms
proof (induction K a s rule: rb_do.induct)
  case (1 K t elems count mn r m T)
  then show ?case by (auto intro!: rb_step.intros rb_access.push split: if_splits)
next
  case (2 K t mx mn r m T)
  then show ?case by (auto intro!: rb_step.intros rb_access.pop split: if_splits)
next
  case (3 K t r m T)
  then show ?case by (auto intro!: rb_step.intros dest: rb_next_access split: option.splits if_splits)
qed

lemma rb_run_reachable: "rb_run K as s = Some s' \<Longrightarrow> rtranclp (rb_step K) s s'"
  by (induction as arbitrary: s) (auto split: option.splits intro: converse_rtranclp_into_rtranclp rb_do_step)

section \<open>Theorems\<close>

text \<open>
  The counters, with any number of producers and one consumer, wherever the copies go: they stay in order and the
  bytes between hard tail and soft head are at most the capacity, at most one producer is
  copying; a cookie starts at the hard tail, ends at the soft tail and lies within the buffer.
\<close>

lemma ring_buffer_counters:
  assumes "rtranclp (rb_step {c}) (RingBufferConcurrent_new buf cap, m0, \<lambda>_. Idle) (r, m, T)" "0 < cap" "cap < 2 ^ 62"
  shows "TailHard r \<le> TailSoft r \<and> TailSoft r \<le> HeadHard r \<and> HeadHard r \<le> HeadSoft r
    \<and> unat (HeadSoft r) \<le> unat (TailHard r) + unat (rb_Capacity r)
    \<and> (\<forall>t u. rb_copying (T t) \<and> rb_copying (T u) \<longrightarrow> t = u)
    \<and> (\<forall>t elems hs hh new. T t = P_Copy elems hs hh new \<longrightarrow> hs = HeadHard r \<and> hh = HeadHard r \<and> new = HeadSoft r)
    \<and> (\<forall>t ck. T t = C_Holding ck \<longrightarrow> pc_Tail ck = TailHard r \<and> unat (TailHard r) + unat (pc_Count ck) = unat (TailSoft r)
         \<and> pc_Array ck = rb_Buffer r + TailHard r mod rb_Capacity r
         \<and> unat (TailHard r mod rb_Capacity r) + unat (pc_Count ck) \<le> unat (rb_Capacity r))"
proof -
  have "rb_inv {c} (RingBufferConcurrent_new buf cap, m0, \<lambda>_. Idle)"
    using assms(2,3) by (simp add: rb_inv_def rb_small_def RingBufferConcurrent_new_def rb_roles)
  with rb_reachable [OF assms(1)] have "rb_inv {c} (r, m, T)" by simp
  then have ord: "rb_order r" and loc: "\<And>t. rb_local r (T t)"
    and one: "\<forall>t u. rb_copying (T t) \<and> rb_copying (T u) \<longrightarrow> t = u" unfolding rb_inv_order by blast+
  have "hs = HeadHard r \<and> hh = HeadHard r \<and> new = HeadSoft r" if "T t = P_Copy elems hs hh new" for t elems hs hh new
    using loc [of t] rb_local_copy that by metis
  moreover have "pc_Tail ck = TailHard r \<and> unat (TailHard r) + unat (pc_Count ck) = unat (TailSoft r)
      \<and> pc_Array ck = rb_Buffer r + TailHard r mod rb_Capacity r
      \<and> unat (TailHard r mod rb_Capacity r) + unat (pc_Count ck) \<le> unat (rb_Capacity r)" if "T t = C_Holding ck" for t ck
    using loc [of t] that rb_local_holding [of r ck] by simp
  ultimately show ?thesis using ord one unfolding rb_order_def by blast
qed

text \<open>A schedule after which a producer is copying two bytes and the consumer holds the two bytes before.\<close>

definition demo_schedule :: "rb_action list" where
  "demo_schedule = A_Push 1 1000 2 1 # replicate 5 (A_Go 1) @ A_Push 1 1000 2 1 # replicate 3 (A_Go 1)
     @ A_Pop 0 8 1 # replicate 3 (A_Go 0)"

definition rb_start :: rb_state where
  "rb_start = (RingBufferConcurrent_new 100 8, \<lambda>_. 0, \<lambda>_. Idle)"

definition race_schedule :: "rb_action list" where
  "race_schedule = A_Push 2 1000 4 1 # replicate 5 (A_Go 2) @ A_Pop 0 8 1 # A_Pop 1 8 1 # replicate 4 (A_Go 1)
     @ A_Push 2 1000 2 1 # replicate 5 (A_Go 2) @ A_Pop 1 8 1 # replicate 4 (A_Go 1) @ replicate 3 (A_Go 0)"

lemma race_schedule_runs:
  "map_option (\<lambda>(r, m, T). (r, T 0)) (rb_run {0, 1} race_schedule rb_start)
   = Some (\<lparr>TailHard = 6, HeadHard = 6, TailSoft = 14, HeadSoft = 6, rb_Buffer = 100, rb_Capacity = 8\<rparr>,
       C_Holding \<lparr>pc_Array = 106, pc_Count = 8, pc_Tail = 6\<rparr>)"
  by code_simp

text \<open>
  C39. A second consumer can take bytes that were never pushed: one consumer loads the hard head, then another one
  pops everything up to a later hard head; the first one then finds the tails equal and its old
  hard head behind them, the difference wraps around, and it gets a cookie past the hard head.
\<close>

theorem ring_buffer_two_consumers:
  "\<exists>r m T ck. rtranclp (rb_step {0, 1}) (RingBufferConcurrent_new 100 8, \<lambda>_. 0, \<lambda>_. Idle) (r, m, T)
     \<and> T 0 = C_Holding ck \<and> pc_Tail ck = HeadHard r \<and> pc_Count ck = 8 \<and> HeadSoft r < TailSoft r"
proof -
  obtain r m T where run: "rb_run {0, 1} race_schedule rb_start = Some (r, m, T)"
    and rt: "r = \<lparr>TailHard = 6, HeadHard = 6, TailSoft = 14, HeadSoft = 6, rb_Buffer = 100, rb_Capacity = 8\<rparr>"
      "T 0 = C_Holding \<lparr>pc_Array = 106, pc_Count = 8, pc_Tail = 6\<rparr>"
    using race_schedule_runs by auto
  from rb_run_reachable [OF run] rt show ?thesis by (auto simp: rb_start_def intro!: exI)
qed

section \<open>Operations without interference\<close>

text \<open>An empty buffer, all four counters at \<open>h\<close>, and a block that fits before its end.\<close>

definition rb_empty_at :: "u64 \<Rightarrow> u64 \<Rightarrow> RingBufferConcurrent \<Rightarrow> bool" where
  "rb_empty_at h count r \<longleftrightarrow> TailHard r = h \<and> TailSoft r = h \<and> HeadHard r = h \<and> HeadSoft r = h \<and> 0 < count
     \<and> rb_Capacity r < 2 ^ 62 \<and> h < 2 ^ 62 \<and> unat (h mod rb_Capacity r) + unat count \<le> unat (rb_Capacity r)"

lemma rb_empty_sums:
  assumes "rb_empty_at h count r"
  shows "unat (h + rb_Capacity r) = unat h + unat (rb_Capacity r)" "unat (h + count) = unat h + unat count"
    "unat (rb_Capacity r - h mod rb_Capacity r) = unat (rb_Capacity r) - unat (h mod rb_Capacity r)"
    "unat count \<le> unat (rb_Capacity r)" "0 < unat count"
proof -
  have b: "unat h < 2 ^ 62" "unat (rb_Capacity r) < 2 ^ 62" "unat count \<le> unat (rb_Capacity r)" "0 < unat count"
    using assms by (auto simp: rb_empty_at_def word_less_nat_alt)
  then show "unat (h + rb_Capacity r) = unat h + unat (rb_Capacity r)" "unat (h + count) = unat h + unat count"
    by (simp_all add: unat_word_ariths(1))
  show "unat (rb_Capacity r - h mod rb_Capacity r) = unat (rb_Capacity r) - unat (h mod rb_Capacity r)"
    using assms by (simp add: rb_empty_at_def unat_sub word_le_nat_alt)
  show "unat count \<le> unat (rb_Capacity r)" "0 < unat count" by fact+
qed

text \<open>A block that fits is pushed, popped as it was pushed, and the buffer is empty again.\<close>

lemma TryPush_TryBeginPop:
  fixes m :: memory
  assumes "rb_empty_at h count r" "mn \<le> count" "0 < mn" "no_overrun (rb_Buffer r + h mod rb_Capacity r) elems (unat count)"
  defines "m' \<equiv> copied m (rb_Buffer r + h mod rb_Capacity r) elems (unat count)"
  defines "ck \<equiv> \<lparr>pc_Array = rb_Buffer r + h mod rb_Capacity r, pc_Count = count, pc_Tail = h\<rparr>"
  shows "TryPush elems count mn r m = (count, r\<lparr>HeadSoft := h + count, HeadHard := h + count\<rparr>, m')"
    "TryBeginPop count mn (r\<lparr>HeadSoft := h + count, HeadHard := h + count\<rparr>)
       = (Some ck, r\<lparr>HeadSoft := h + count, HeadHard := h + count, TailSoft := h + count\<rparr>)"
    "EndPop ck (r\<lparr>HeadSoft := h + count, HeadHard := h + count, TailSoft := h + count\<rparr>)
       = Some (r\<lparr>HeadSoft := h + count, HeadHard := h + count, TailSoft := h + count, TailHard := h + count\<rparr>)"
proof -
  note sums = rb_empty_sums [OF assms(1)]
  have e: "TailHard r = h" "TailSoft r = h" "HeadHard r = h" "HeadSoft r = h" "count \<noteq> 0"
    using assms(1) by (auto simp: rb_empty_at_def)
  have "unat (h + mn) \<le> unat h + unat mn" by (simp add: unat_word_ariths(1))
  then have "\<not> h + rb_Capacity r < h + mn" using sums(1,4) assms(2) by (simp add: word_less_nat_alt word_le_nat_alt)
  moreover have "min (h + rb_Capacity r) (h + count) = h + count"
    using sums by (intro min_absorb2) (simp add: word_le_nat_alt)
  ultimately show "TryPush elems count mn r m = (count, r\<lparr>HeadSoft := h + count, HeadHard := h + count\<rparr>, m')"
    using e leD [OF assms(2)] memcpy_copied [OF assms(4)] by (simp add: TryPush_def rb_ops Let_def m'_def)
  show "TryBeginPop count mn (r\<lparr>HeadSoft := h + count, HeadHard := h + count\<rparr>)
       = (Some ck, r\<lparr>HeadSoft := h + count, HeadHard := h + count, TailSoft := h + count\<rparr>)"
  proof -
    have rel: "unat (h mod rb_Capacity r) + unat count \<le> unat (rb_Capacity r)" using assms(1) by (simp add: rb_empty_at_def)
    then have "unat (h + rb_Capacity r - h mod rb_Capacity r) = unat h + unat (rb_Capacity r) - unat (h mod rb_Capacity r)"
      using sums(1) by (simp add: unat_sub word_le_nat_alt)
    then have "min (h + count) (h + rb_Capacity r - h mod rb_Capacity r) = h + count"
      using sums(2) rel by (intro min_absorb1) (auto simp: word_le_nat_alt)
    moreover have "\<not> mn > rb_Capacity r" using sums(4) assms(2) by (simp add: word_less_nat_alt word_le_nat_alt)
    ultimately show ?thesis using e assms(2) by (simp add: TryBeginPop_def rb_ops Let_def ck_def not_less)
  qed
  show "EndPop ck (r\<lparr>HeadSoft := h + count, HeadHard := h + count, TailSoft := h + count\<rparr>)
       = Some (r\<lparr>HeadSoft := h + count, HeadHard := h + count, TailSoft := h + count, TailHard := h + count\<rparr>)"
    using e by (simp add: EndPop_def EndPop_store_def ck_def)
qed

lemma TryPush_heads_differ: "HeadSoft r \<noteq> HeadHard r \<Longrightarrow> TryPush elems count mn r m = (0, r, m)"
  by (simp add: TryPush_def TryPush_start_def TryPush_HeadSoft_def TryPush_HeadHard_def Let_def)

text \<open>\<open>TryPush\<close> does not wrap its copy: at the end of the buffer it writes behind it.\<close>

lemma TryPush_overruns:
  "snd (snd (TryPush 1000 4 1 \<lparr>TailHard = 6, HeadHard = 6, TailSoft = 6, HeadSoft = 6, rb_Buffer = 100, rb_Capacity = 8\<rparr> m)) 109 = m 1003"
  by (simp add: TryPush_def rb_ops Let_def memcpy_def rep_movsb.simps stride_def)

text \<open>\<open>BeginPop\<close> does not stop at the end of the buffer either, as \<open>TryBeginPop\<close> does.\<close>

lemma BeginPop_overruns:
  "let r = \<lparr>TailHard = 6, HeadHard = 10, TailSoft = 6, HeadSoft = 10, rb_Buffer = 100, rb_Capacity = 8\<rparr>
   in map_option pc_GetEnd (fst (BeginPop 8 1 r)) = Some 110 \<and> map_option pc_GetEnd (fst (TryBeginPop 8 1 r)) = Some 108"
  by (simp add: BeginPop_def TryBeginPop_def rb_ops Let_def pc_GetEnd_def)

text \<open>
  C40. \<open>Push\<close> loses what it pushes: on an empty buffer the block is copied and the hard head moved past it,
  but the last statement moves the hard head back. No pop then finds a byte, \<open>WaitBeginPop\<close> waits
  forever and every later \<open>TryPush\<close> fails, because soft and hard head differ.
\<close>

theorem Push_loses_bytes:
  assumes "rb_empty_at h count r" "2 \<le> fuel" "mn \<le> rb_Capacity r"
  shows "\<exists>r' m'. Push fuel elems count r m = Some (r', m') \<and> HeadHard r' = h \<and> HeadSoft r' = h + count
    \<and> TryBeginPop mx mn r' = (None, r') \<and> BeginPop mx mn r' = (None, r') \<and> WaitBeginPop mx mn r' = None
    \<and> (\<forall>src n k. TryPush src n k r' m' = (0, r', m'))"
proof -
  note sums = rb_empty_sums [OF assms(1)]
  let ?r = "r\<lparr>HeadSoft := h + count, HeadHard := h\<rparr>" and ?m = "snd (memcpy (rb_Buffer r + h mod rb_Capacity r) elems count m)"
  have e: "TailHard r = h" "TailSoft r = h" "HeadHard r = h" "HeadSoft r = h" "count \<noteq> 0" "0 < count"
    using assms(1) by (auto simp: rb_empty_at_def)
  obtain f where f: "fuel = Suc (Suc f)" using assms(2) by (cases fuel; cases "fuel - 1") auto
  have "\<not> h \<ge> rb_Capacity r + h" using sums(1,4,5) by (simp add: word_le_nat_alt add.commute)
  moreover have "count \<le> rb_Capacity r" "count \<le> rb_Capacity r - h mod rb_Capacity r"
    using sums(3,4) assms(1) by (auto simp: word_le_nat_alt rb_empty_at_def)
  then have "min (rb_Capacity r + h - h) (min count (rb_Capacity r - h mod rb_Capacity r)) = count"
    by (simp add: min_absorb1 min_absorb2)
  moreover have "h \<le> h + count" using sums(2) by (simp add: word_le_nat_alt)
  ultimately have push: "Push fuel elems count r m = Some (?r, ?m)" using e f by (simp add: Push_def Let_def)
  have "h + count \<noteq> h" using e by simp
  then have "TryPush src n k ?r ?m = (0, ?r, ?m)" for src n k by (intro TryPush_heads_differ) simp
  moreover have "TryBeginPop mx mn ?r = (None, ?r)" "BeginPop mx mn ?r = (None, ?r)" "WaitBeginPop mx mn ?r = None"
    using e assms(3) by (simp_all add: TryBeginPop_def BeginPop_def WaitBeginPop_def rb_ops Let_def not_less)
  ultimately show ?thesis using push by (intro exI [of _ ?r] exI [of _ ?m]) simp
qed

theorem Push_loses_bytes_witness:
  "\<exists>r' m'. Push 2 1000 3 (RingBufferConcurrent_new 100 8) (\<lambda>_. 7) = Some (r', m') \<and> HeadHard r' = 0 \<and> BeginPop 8 1 r' = (None, r')"
proof -
  have "rb_empty_at 0 3 (RingBufferConcurrent_new 100 8)" by (simp add: rb_empty_at_def RingBufferConcurrent_new_def)
  from Push_loses_bytes [OF this, of 2 1 1000 "\<lambda>_. 7" 8] show ?thesis by (auto simp: RingBufferConcurrent_new_def)
qed

end
