(* ===== verification/Ring_Buffer_Fifo.thy ===== *)
theory Ring_Buffer_Fifo
  imports Ring_Buffer_Theorems
begin

text \<open>
  The bytes in the ring buffer: a log of what the producers have copied, kept beside the steps, and the proof that a
  consumer finds in its cookie the bytes of the log at the positions it has taken.
\<close>

section \<open>The log of pushed bytes\<close>

text \<open>The bytes a thread copies in its next access.\<close>

definition rb_pushing :: "memory \<Rightarrow> rb_thread \<Rightarrow> u8 list" where
  "rb_pushing m l = (case l of P_Copy elems hs hh new \<Rightarrow> map (\<lambda>i. m (elems + of_nat i)) [0..<unat (new - hs)] | _ \<Rightarrow> [])"

text \<open>
  The block a producer is about to copy ends before the end of the buffer, and its source is not in the buffer. The
  program ensures neither.
\<close>

definition rb_block_fits :: "RingBufferConcurrent \<Rightarrow> rb_thread \<Rightarrow> bool" where
  "rb_block_fits r l \<longleftrightarrow> (case l of
      P_Copy elems hs hh new \<Rightarrow> unat (hh mod rb_Capacity r) + unat (new - hs) \<le> unat (rb_Capacity r)
        \<and> list_all (\<lambda>i. unat (rb_Capacity r) \<le> unat (elems + of_nat i - rb_Buffer r)) [0..<unat (new - hs)]
    | _ \<Rightarrow> True)"

inductive rb_log_step :: "nat set \<Rightarrow> rb_state \<times> u8 list \<Rightarrow> rb_state \<times> u8 list \<Rightarrow> bool" for K where
  "rb_access (t \<in> K) (T t) (r, m) ((r', m'), l) \<Longrightarrow> rb_small r' \<Longrightarrow> rb_block_fits r (T t)
   \<Longrightarrow> rb_log_step K ((r, m, T), log) ((r', m', T(t := l)), log @ rb_pushing m (T t))"

lemma rb_log_step_forget: "rb_log_step K (s, log) (s', log') \<Longrightarrow> rb_step K s s'"
  by (auto elim!: rb_log_step.cases intro!: rb_step.intros)

section \<open>The contents of the buffer\<close>

definition rb_storing :: "rb_thread \<Rightarrow> bool" where
  "rb_storing l \<longleftrightarrow> (case l of P_Store _ _ \<Rightarrow> True | _ \<Rightarrow> False)"

text \<open>Where the log ends: a block that has been copied counts although its producer has not moved the hard head yet.\<close>

definition rb_copied_to :: "RingBufferConcurrent \<Rightarrow> (nat \<Rightarrow> rb_thread) \<Rightarrow> nat" where
  "rb_copied_to r T = unat (if \<exists>t. rb_storing (T t) then HeadSoft r else HeadHard r)"

definition rb_byte :: "RingBufferConcurrent \<Rightarrow> memory \<Rightarrow> nat \<Rightarrow> u8" where
  "rb_byte r m p = m (rb_Buffer r + of_nat (p mod unat (rb_Capacity r)))"

definition rb_contents :: "memory \<Rightarrow> rb_state \<Rightarrow> u8 list \<Rightarrow> bool" where
  "rb_contents m0 s log \<longleftrightarrow> (case s of (r, m, T) \<Rightarrow>
     length log = rb_copied_to r T
     \<and> (\<forall>p. unat (TailHard r) \<le> p \<and> p < length log \<longrightarrow> rb_byte r m p = log ! p)
     \<and> (\<forall>x. unat (rb_Capacity r) \<le> unat (x - rb_Buffer r) \<longrightarrow> m x = m0 x))"

text \<open>Two positions less than the capacity apart are at different places of the buffer.\<close>

lemma mod_apart: "p mod n \<noteq> q mod n" if "p < q" "q < p + n" for p q n :: nat
proof
  assume "p mod n = q mod n"
  then have "n dvd q - p" using that(1) mod_eq_dvd_iff_nat [of p q n] by simp
  with that show False by (auto dest: dvd_imp_le)
qed

lemma mod_shift: "(q + i) mod n = q mod n + i" if "q mod n + i < n" for q i n :: nat
  using that by (metis mod_add_left_eq mod_less)

text \<open>The memory after a copy to the positions from \<open>h\<close> on.\<close>

lemma copied_bytes:
  fixes r :: RingBufferConcurrent and m :: memory and elems :: u64
  defines "cap \<equiv> unat (rb_Capacity r)"
  assumes fits: "h mod cap + n \<le> cap" and cap: "0 < cap"
  defines "m' \<equiv> copied m (rb_Buffer r + of_nat (h mod cap)) elems n"
  shows "i < n \<Longrightarrow> rb_byte r m' (h + i) = m (elems + of_nat i)"
    and "p < h \<Longrightarrow> h + n \<le> p + cap \<Longrightarrow> rb_byte r m' p = rb_byte r m p"
    and "cap \<le> unat (x - rb_Buffer r) \<Longrightarrow> m' x = m x"
proof -
  have small: "k < cap \<Longrightarrow> unat (of_nat k :: u64) = k" for k
    using u64_bound [of "rb_Capacity r"] by (intro unat_count) (simp add: cap_def)
  have cap64: "cap < 2 ^ 64" using u64_bound [of "rb_Capacity r"] by (simp add: cap_def)
  { assume i: "i < n"
    have "(h + i) mod cap = h mod cap + i" using fits i by (intro mod_shift) simp
    moreover have "unat (of_nat i :: u64) = i" using fits i by (intro small) simp
    ultimately show "rb_byte r m' (h + i) = m (elems + of_nat i)"
      using i by (simp add: rb_byte_def m'_def copied_def cap_def [symmetric]) }
  { assume p: "p < h" "h + n \<le> p + cap"
    have "\<not> unat (of_nat (p mod cap) - of_nat (h mod cap) :: u64) < n"
    proof
      assume a: "unat (of_nat (p mod cap) - of_nat (h mod cap) :: u64) < n"
      define i where "i = unat (of_nat (p mod cap) - of_nat (h mod cap) :: u64)"
      have "of_nat i = (of_nat (p mod cap) - of_nat (h mod cap) :: u64)" by (simp add: i_def)
      then have "(of_nat (p mod cap) :: u64) = of_nat (h mod cap + i)" by simp
      moreover have "h mod cap + i < cap" using a fits by (simp add: i_def)
      ultimately have "p mod cap = h mod cap + i" using small cap by (metis mod_less_divisor)
      also have "\<dots> = (h + i) mod cap" using \<open>h mod cap + i < cap\<close> by (simp add: mod_shift)
      finally show False using mod_apart [of p "h + i" cap] p a by (simp add: i_def)
    qed
    then show "rb_byte r m' p = rb_byte r m p" by (simp add: rb_byte_def m'_def copied_def cap_def [symmetric]) }
  { assume x: "cap \<le> unat (x - rb_Buffer r)"
    have "\<not> unat (x - (rb_Buffer r + of_nat (h mod cap))) < n"
    proof
      assume a: "unat (x - (rb_Buffer r + of_nat (h mod cap))) < n"
      define i where "i = unat (x - (rb_Buffer r + of_nat (h mod cap)))"
      have "of_nat i = x - (rb_Buffer r + of_nat (h mod cap))" by (simp add: i_def)
      then have "x - rb_Buffer r = of_nat (h mod cap + i)" by (simp add: algebra_simps)
      moreover have "h mod cap + i < cap" using a fits by (simp add: i_def)
      ultimately show False using x small [of "h mod cap + i"] by (simp del: of_nat_add)
    qed
    then show "m' x = m x" by (simp add: m'_def copied_def) }
qed

section \<open>Steps\<close>

lemma rb_access_memory:
  assumes "rb_access k l (r, m) ((r', m'), l')" "\<nexists>elems hs hh new. l = P_Copy elems hs hh new"
  shows "m' = m" "rb_pushing m l = []" "\<not> rb_storing l'"
  using assms by (auto elim!: rb_access.cases simp: rb_pushing_def rb_storing_def rb_ops rb_returned_def Let_def split: rb_thread.splits if_splits)

lemma rb_contents_keep:
  assumes c: "rb_contents m0 (r, m, T) log" and r: "TailHard r \<le> TailHard r'" "rb_Buffer r' = rb_Buffer r" "rb_Capacity r' = rb_Capacity r"
    and n: "rb_copied_to r' T' = rb_copied_to r T"
  shows "rb_contents m0 (r', m, T') log"
proof -
  have "unat (TailHard r) \<le> unat (TailHard r')" using r(1) by (simp add: word_le_nat_alt)
  with c r n show ?thesis by (auto simp: rb_contents_def rb_byte_def)
qed

lemma rb_contents_copy:
  assumes c: "rb_contents m0 (r, m, T) log" and inv: "rb_inv K (r, m, T)" and T: "T t = P_Copy elems hs hh new"
    and fits: "rb_block_fits r (T t)" and copy: "TryPush_copy elems hs hh new r m = (m', l)"
  shows "rb_contents m0 (r, m', T(t := l)) (log @ rb_pushing m (T t))"
proof -
  let ?cap = "unat (rb_Capacity r)" and ?h = "unat (HeadHard r)" and ?n = "unat (HeadSoft r - HeadHard r)"
  have ord: "rb_order r" and loc: "rb_local r (T t)" and one: "\<And>u v. rb_copying (T u) \<Longrightarrow> rb_copying (T v) \<Longrightarrow> u = v"
    using inv unfolding rb_inv_order by blast+
  have e: "hs = HeadHard r" "hh = HeadHard r" "new = HeadSoft r" using loc rb_local_copy T by metis+
  have n: "?h + ?n = unat (HeadSoft r)" "?h + ?n \<le> unat (TailHard r) + ?cap" "0 < ?cap"
    using ord by (auto simp: rb_order_def unat_sub word_le_nat_alt word_less_nat_alt)
  have "\<not> rb_storing (T u)" for u
  proof
    assume "rb_storing (T u)"
    moreover from this have "rb_copying (T u)" by (auto simp: rb_storing_def rb_copying_def split: rb_thread.splits)
    moreover have "rb_copying (T t)" by (simp add: T rb_copying_def)
    ultimately have "u = t" using one by blast
    with \<open>rb_storing (T u)\<close> T show False by (simp add: rb_storing_def)
  qed
  then have len: "length log = ?h" using c by (simp add: rb_contents_def rb_copied_to_def)
  have block: "?h mod ?cap + ?n \<le> ?cap" "\<forall>i < ?n. ?cap \<le> unat (elems + of_nat i - rb_Buffer r)"
    using fits T e by (simp_all add: rb_block_fits_def unat_mod list_all_iff)
  have dst: "rb_Buffer r + HeadHard r mod rb_Capacity r = rb_Buffer r + of_nat (?h mod ?cap)"
    by (simp add: unat_mod [symmetric])
  have "no_overrun (rb_Buffer r + of_nat (?h mod ?cap)) elems ?n"
  proof (rule ccontr)
    let ?k = "unat (rb_Buffer r + of_nat (?h mod ?cap) - elems)"
    assume "\<not> ?thesis"
    then have "?k < ?n" by (simp add: no_overrun_def)
    with block(2) have "?cap \<le> unat (elems + of_nat ?k - rb_Buffer r)" by blast
    then have "?cap \<le> unat (HeadHard r mod rb_Capacity r)" by (simp add: unat_mod [symmetric])
    with mod_less_divisor [OF n(3), of ?h] show False by (simp add: unat_mod)
  qed
  then have m': "m' = copied m (rb_Buffer r + of_nat (?h mod ?cap)) elems ?n" and l: "rb_storing l"
    using copy memcpy_copied [of "rb_Buffer r + of_nat (?h mod ?cap)" elems "HeadSoft r - HeadHard r" m]
    by (auto simp: TryPush_copy_def Let_def e dst rb_storing_def)
  note bytes = copied_bytes [OF block(1) n(3), where m = m and elems = elems, folded m']
  have push: "rb_pushing m (T t) = map (\<lambda>i. m (elems + of_nat i)) [0..<?n]" by (simp add: rb_pushing_def T e)
  have "rb_byte r m' p = (log @ rb_pushing m (T t)) ! p" if p: "unat (TailHard r) \<le> p" "p < ?h + ?n" for p
  proof (cases "p < ?h")
    case True
    with bytes(2) [OF True] n(2) p(1) c len show ?thesis by (simp add: nth_append rb_contents_def)
  next
    case False
    then have "p = ?h + (p - ?h)" "p - ?h < ?n" using p by simp_all
    with bytes(1) [of "p - ?h"] len False show ?thesis by (simp add: nth_append push)
  qed
  moreover have "rb_copied_to r (T(t := l)) = ?h + ?n" using l n(1) by (auto simp: rb_copied_to_def)
  moreover have "m' x = m0 x" if "?cap \<le> unat (x - rb_Buffer r)" for x
    using bytes(3) [OF that] that c by (simp add: rb_contents_def)
  ultimately show ?thesis using len by (simp add: rb_contents_def push)
qed

lemma rb_log_step_contents:
  assumes c: "rb_contents m0 (r, m, T) log" and inv: "rb_inv K (r, m, T)" and K: "\<And>t u. t \<in> K \<Longrightarrow> u \<in> K \<Longrightarrow> t = u"
    and acc: "rb_access (t \<in> K) (T t) (r, m) ((r', m'), l)" and small: "rb_small r'" and fits: "rb_block_fits r (T t)"
  shows "rb_contents m0 (r', m', T(t := l)) (log @ rb_pushing m (T t))"
proof (cases "\<exists>elems hs hh new. T t = P_Copy elems hs hh new")
  case True
  then obtain elems hs hh new where T: "T t = P_Copy elems hs hh new" by blast
  from acc T have "r' = r" "TryPush_copy elems hs hh new r m = (m', l)" by (auto elim: rb_access.cases simp: rb_returned_def)
  with rb_contents_copy [OF c inv T fits] show ?thesis by simp
next
  case False
  note mem = rb_access_memory [OF acc False]
  from inv have ord: "rb_order r" and loc: "\<And>u. rb_local r (T u)" and one: "\<And>u v. rb_copying (T u) \<Longrightarrow> rb_copying (T v) \<Longrightarrow> u = v"
    unfolding rb_inv_order by blast+
  have storing: "rb_copying (T u) \<and> HeadHard r < HeadSoft r" if "rb_storing (T u)" for u
    using that loc [of u] by (auto simp: rb_storing_def rb_roles split: rb_thread.splits)
  have "TailHard r \<le> TailHard r' \<and> rb_Buffer r' = rb_Buffer r \<and> rb_Capacity r' = rb_Capacity r
    \<and> rb_copied_to r' (T(t := l)) = rb_copied_to r T"
  proof (cases "rb_storing (T t)")
    case True
    then obtain new n where "T t = P_Store new n" by (auto simp: rb_storing_def split: rb_thread.splits)
    with acc loc [of t] have "r' = r\<lparr>HeadHard := HeadSoft r\<rparr>"
      by (auto elim!: rb_access.cases simp: TryPush_store_def rb_local_def rb_returned_def)
    moreover have "\<not> rb_storing ((T(t := l)) u)" for u using mem(3) storing [of u] storing [OF True] one [of u t] by auto
    ultimately show ?thesis using True by (auto simp: rb_copied_to_def)
  next
    case False
    have same: "(\<exists>u. rb_storing ((T(t := l)) u)) = (\<exists>u. rb_storing (T u))"
      using False mem(3) by (metis fun_upd_apply)
    have "\<not> rb_copying (T t)" using False \<open>\<nexists>elems hs hh new. T t = P_Copy elems hs hh new\<close>
      by (auto simp: rb_storing_def rb_copying_def split: rb_thread.splits)
    have "rb_change (T t) l r r'" using rb_step_change(2) [of K r m T t r' m' l] inv K acc small by blast
    then show ?thesis
      by (cases rule: rb_changeE) (use same storing ord \<open>\<not> rb_copying (T t)\<close> in \<open>auto simp: rb_copied_to_def rb_order_def\<close>)
  qed
  with rb_contents_keep [OF c] mem(1,2) show ?thesis by simp
qed

lemma rb_log_reachable:
  assumes "rtranclp (rb_log_step K) ((r0, m0, \<lambda>_. Idle), []) (s, log)" "rb_inv K (r0, m0, \<lambda>_. Idle)" "HeadHard r0 = 0"
    and K: "\<And>t u. t \<in> K \<Longrightarrow> u \<in> K \<Longrightarrow> t = u"
  shows "rb_inv K s \<and> rb_contents m0 s log"
  using assms(1)
proof (induction "(s, log)" arbitrary: s log rule: rtranclp_induct)
  case base
  with assms(2,3) show ?case by (simp add: rb_contents_def rb_copied_to_def rb_storing_def)
next
  case (step y)
  obtain s1 log1 where y: "y = (s1, log1)" by (cases y)
  with step(3) have IH: "rb_inv K s1" "rb_contents m0 s1 log1" by blast+
  from step(2)[unfolded y] show ?case
  proof (cases rule: rb_log_step.cases)
    case (1 t T r m r' m' l)
    with IH K show ?thesis using rb_step_inv [of K r m T t r' m' l] rb_log_step_contents [of m0 r m T log1 K t r' m' l] by auto
  qed
qed

lemma rb_log_step_place:
  "rb_log_step K ((r, m, T), log) ((r', m', T'), log') \<Longrightarrow> rb_Buffer r' = rb_Buffer r \<and> rb_Capacity r' = rb_Capacity r"
  by (auto elim!: rb_log_step.cases rb_access.cases simp: rb_ops Let_def split: if_splits)

lemma rb_log_reachable_place:
  assumes "rtranclp (rb_log_step K) ((r0, m0, T0), log0) ((r, m, T), log)"
  shows "rb_Buffer r = rb_Buffer r0 \<and> rb_Capacity r = rb_Capacity r0"
  using assms
proof (induction "((r, m, T), log)" arbitrary: r m T log rule: rtranclp_induct)
  case (step y)
  obtain r1 m1 T1 log1 where "y = ((r1, m1, T1), log1)" by (metis surj_pair)
  with step(2,3) rb_log_step_place show ?case by metis
qed simp

text \<open>Schedules with their log.\<close>

fun rb_log_run :: "nat set \<Rightarrow> rb_action list \<Rightarrow> rb_state \<times> u8 list \<Rightarrow> (rb_state \<times> u8 list) option" where
  "rb_log_run K [] s = Some s"
| "rb_log_run K (a # as) ((r, m, T), log) =
     (let t = (case a of A_Push t _ _ _ \<Rightarrow> t | A_Pop t _ _ \<Rightarrow> t | A_Go t \<Rightarrow> t) in
      if rb_block_fits r (T t) then
        (case rb_do K a (r, m, T) of Some s' \<Rightarrow> rb_log_run K as (s', log @ rb_pushing m (T t)) | None \<Rightarrow> None)
      else None)"

lemma rb_do_log_step:
  assumes "rb_do K a (r, m, T) = Some s'" "rb_block_fits r (T t)" "t = (case a of A_Push t _ _ _ \<Rightarrow> t | A_Pop t _ _ \<Rightarrow> t | A_Go t \<Rightarrow> t)"
  shows "rb_log_step K ((r, m, T), log) (s', log @ rb_pushing m (T t))"
  using assms by (cases a)
    (auto intro!: rb_log_step.intros rb_access.push rb_access.pop dest: rb_next_access split: if_splits option.splits)

lemma rb_log_run_reachable: "rb_log_run K as s = Some s' \<Longrightarrow> rtranclp (rb_log_step K) s s'"
proof (induction K as s rule: rb_log_run.induct)
  case (2 K a as r m T log)
  define t where "t = (case a of A_Push t _ _ _ \<Rightarrow> t | A_Pop t _ _ \<Rightarrow> t | A_Go t \<Rightarrow> t)"
  from 2(2) obtain s1 where s1: "rb_block_fits r (T t)" "rb_do K a (r, m, T) = Some s1"
    "rb_log_run K as (s1, log @ rb_pushing m (T t)) = Some s'"
    by (auto simp: Let_def t_def split: if_splits option.splits)
  with 2(1) [OF t_def] have "rtranclp (rb_log_step K) (s1, log @ rb_pushing m (T t)) s'" by simp
  with rb_do_log_step [OF s1(2,1) t_def, of log] show ?case by (rule converse_rtranclp_into_rtranclp)
qed simp

section \<open>First in, first out\<close>

text \<open>
  C38. The attempts deliver bytes in order to one consumer. Any number of producers in \<open>TryPush\<close> and one consumer in
  \<open>TryBeginPop\<close> and \<open>EndPop\<close> interleave their accesses on a new buffer, each access atomic and in program order.
  As long as no block runs past the end of the buffer or is taken from the buffer itself (the program does not see to it, and
  its copy then overruns), producers ask for at least one byte and the counters stay below \<open>2 ^ 62\<close>: the counters are in order and at most the capacity
  apart; the bytes between hard tail and hard head are those the producers copied, position by
  position; a cookie holds, from the hard tail on, the next bytes of that log; nothing outside the buffer is
  written.
\<close>

theorem ring_buffer_fifo:
  assumes "rtranclp (rb_log_step {c}) ((RingBufferConcurrent_new buf cap, m0, \<lambda>_. Idle), []) ((r, m, T), log)"
    "0 < cap" "cap < 2 ^ 62"
  shows "TailHard r \<le> TailSoft r \<and> TailSoft r \<le> HeadHard r \<and> HeadHard r \<le> HeadSoft r
    \<and> unat (HeadSoft r) \<le> unat (TailHard r) + unat cap
    \<and> unat (HeadHard r) \<le> length log \<and> length log \<le> unat (HeadSoft r)
    \<and> (\<forall>p. unat (TailHard r) \<le> p \<and> p < length log \<longrightarrow> m (buf + of_nat (p mod unat cap)) = log ! p)
    \<and> (\<forall>t ck. T t = C_Holding ck \<longrightarrow> t = c \<and> pc_Tail ck = TailHard r \<and> pc_Tail ck + pc_Count ck = TailSoft r
         \<and> map (\<lambda>i. m (pc_Array ck + of_nat i)) [0..<unat (pc_Count ck)] = take (unat (pc_Count ck)) (drop (unat (pc_Tail ck)) log))
    \<and> (\<forall>x. unat cap \<le> unat (x - buf) \<longrightarrow> m x = m0 x)"
proof -
  have "rb_inv {c} (RingBufferConcurrent_new buf cap, m0, \<lambda>_. Idle)"
    using assms(2,3) by (simp add: rb_inv_def rb_small_def RingBufferConcurrent_new_def rb_roles)
  with rb_log_reachable [OF assms(1)] have inv: "rb_inv {c} (r, m, T)" and con: "rb_contents m0 (r, m, T) log"
    by (simp_all add: RingBufferConcurrent_new_def)
  have place: "rb_Buffer r = buf" "rb_Capacity r = cap"
    using rb_log_reachable_place [OF assms(1)] by (simp_all add: RingBufferConcurrent_new_def)
  from inv have ord: "rb_order r" and loc: "\<And>t. rb_local r (T t)" and who: "\<And>t. rb_consuming (T t) \<Longrightarrow> t = c"
    unfolding rb_inv_order by blast+
  have bytes: "m (buf + of_nat (p mod unat cap)) = log ! p" if "unat (TailHard r) \<le> p" "p < length log" for p
    using con that place by (simp add: rb_contents_def rb_byte_def)
  have len: "unat (HeadHard r) \<le> length log" "length log \<le> unat (HeadSoft r)"
    using con ord by (auto simp: rb_contents_def rb_copied_to_def rb_order_def word_le_nat_alt)
  have "t = c \<and> pc_Tail ck = TailHard r \<and> pc_Tail ck + pc_Count ck = TailSoft r
      \<and> map (\<lambda>i. m (pc_Array ck + of_nat i)) [0..<unat (pc_Count ck)] = take (unat (pc_Count ck)) (drop (unat (pc_Tail ck)) log)"
    if ck: "T t = C_Holding ck" for t ck
  proof -
    have l: "pc_Tail ck = TailHard r" "unat (TailHard r) + unat (pc_Count ck) = unat (TailSoft r)"
      "pc_Array ck = buf + of_nat (unat (TailHard r) mod unat cap)" "unat (TailHard r) mod unat cap + unat (pc_Count ck) \<le> unat cap"
      using rb_local_holding [of r ck] loc [of t] ck place by (simp_all add: unat_mod flip: unat_mod)
    have "unat (TailSoft r) \<le> unat (HeadHard r)" using ord by (simp add: rb_order_def word_le_nat_alt)
    then have fits: "unat (TailHard r) + unat (pc_Count ck) \<le> length log" using l(2) len(1) by simp
    have "m (pc_Array ck + of_nat i) = log ! (unat (TailHard r) + i)" if "i < unat (pc_Count ck)" for i
      using bytes [of "unat (TailHard r) + i"] mod_shift [of "unat (TailHard r)" "unat cap" i] l(3,4) fits that
      by (simp add: add.assoc)
    then have "map (\<lambda>i. m (pc_Array ck + of_nat i)) [0..<unat (pc_Count ck)] = take (unat (pc_Count ck)) (drop (unat (pc_Tail ck)) log)"
      using fits l(1) by (intro nth_equalityI) simp_all
    moreover have "pc_Tail ck + pc_Count ck = TailSoft r" using l(1,2) by (metis of_nat_add of_nat_unat)
    moreover have "t = c" using who [of t] ck by (simp add: rb_consuming_def)
    ultimately show ?thesis using l(1) by blast
  qed
  moreover have "m x = m0 x" if "unat cap \<le> unat (x - buf)" for x
    using con that place by (simp add: rb_contents_def)
  ultimately show ?thesis using ord bytes len place unfolding rb_order_def by blast
qed

text \<open>A producer is copying two bytes while the consumer holds a cookie for the two bytes before.\<close>

definition log_start :: "rb_state \<times> u8 list" where
  "log_start = ((RingBufferConcurrent_new 100 8, \<lambda>x. ucast x, \<lambda>_. Idle), [])"

lemma log_schedule_runs:
  "map_option (\<lambda>((r, m, T), log). (T 0, rb_copying (T 1), log)) (rb_log_run {0} demo_schedule log_start)
   = Some (C_Holding \<lparr>pc_Array = 100, pc_Count = 2, pc_Tail = 0\<rparr>, True, [232, 233])"
  by code_simp

theorem ring_buffer_fifo_witness:
  "\<exists>r m T log. rtranclp (rb_log_step {0}) ((RingBufferConcurrent_new 100 8, \<lambda>x. ucast x, \<lambda>_. Idle), []) ((r, m, T), log)
     \<and> T 0 = C_Holding \<lparr>pc_Array = 100, pc_Count = 2, pc_Tail = 0\<rparr> \<and> rb_copying (T 1) \<and> m 100 = 232 \<and> m 101 = 233"
proof -
  obtain r m T log where run: "rb_log_run {0} demo_schedule log_start = Some ((r, m, T), log)"
    and t: "T 0 = C_Holding \<lparr>pc_Array = 100, pc_Count = 2, pc_Tail = 0\<rparr>" "rb_copying (T 1)" "log = [232, 233]"
    using log_schedule_runs by (cases "rb_log_run {0} demo_schedule log_start") auto
  have reach: "rtranclp (rb_log_step {0}) ((RingBufferConcurrent_new 100 8, \<lambda>x. ucast x, \<lambda>_. Idle), []) ((r, m, T), log)"
    using rb_log_run_reachable [OF run] by (simp add: log_start_def)
  have "(0 :: u64) < 8" "(8 :: u64) < 2 ^ 62" by simp_all
  from ring_buffer_fifo [OF reach this] t(1)
  have "map (\<lambda>i. m (100 + of_nat i)) [0..<2] = take 2 (drop 0 log)" by force
  then have "m 100 = 232" "m 101 = 233" by (simp_all add: t(3) upt_rec numeral_2_eq_2)
  with reach t show ?thesis by blast
qed

end
