(* ===== verification/Spec2Isabelle.thy ===== *)
theory Spec2Isabelle
  imports Comparisons Regions Pmm_Alloc_Theorems Conversions_Props Id_Pool_Theorems
    Ticket_Lock_Theorems Rw_Lock_Theorems Bigint_Theorems Vas_Theorems Cmd_Options_Theorems
    Rw_Spinlock_Theorems Mem_Strings_Theorems Init_Rd_Theorems Ring_Buffer_Fifo
begin

text \<open>
  A verification development for the Beelzebub operating system kernel, a C++ kernel for x86-64.
  The sources are under \<^verbatim>\<open>src/\<close>; paths below are relative to it.

  \<^bold>\<open>The program.\<close> The kernel (\<^verbatim>\<open>beelzebub/\<close>) manages physical memory (\<^verbatim>\<open>pmm.cpp\<close>), virtual memory
  (\<^verbatim>\<open>vmm.cpp\<close>, \<^verbatim>\<open>vas.cpp\<close>), threads, modules and devices, over a library shared with user space
  (\<^verbatim>\<open>libs/common/\<close>, \<^verbatim>\<open>sysheaders/\<close>): result handles, containers, locks, conversions. The physical
  memory manager hands out frames to everything above it; the virtual address space keeps its
  regions in an AVL tree whose nodes it allocates; every shared structure is protected by a ticket
  lock or is updated by single atomic exchanges; every fallible operation answers with a handle.

  \<^bold>\<open>Theories and sources.\<close>

  \<^item> \<open>Beel_Prelude\<close>: machine words read as numbers, rounding (\<^verbatim>\<open>math.h\<close>), chains of array indices,
    the locales \<open>index_stack\<close> (a stack threaded through an array) and \<open>simulation\<close> (a step relation
    that implements another one).
  \<^item> \<open>Handles\<close> (\<^verbatim>\<open>beel/handles.h\<close>): the 64-bit result and object handles; a handle is a word, the
    packed fields are read and written by the masks of the source.
  \<^item> \<open>Avl_Tree\<close> (\<^verbatim>\<open>beel/utils/avl.tree.hpp\<close>), \<open>Comparisons\<close> (\<^verbatim>\<open>utils/comparisons.cpp\<close>), \<open>Regions\<close>
    (\<^verbatim>\<open>memory/regions.hpp\<close>, \<^verbatim>\<open>regions.cpp\<close>): the tree with its stored heights, every static and member
    operation, with the comparison, the allocator of nodes and their removal as arguments; memory
    ranges and regions; the tree of regions the kernel uses. The properties of the tree are proved
    in a locale over a comparison that orders the payloads and interpreted on the comparison of
    regions.
  \<^item> \<open>Pmm\<close>, \<open>Pmm_Split\<close>, \<open>Pmm_Inv\<close>, \<open>Pmm_Ops\<close>, \<open>Pmm_New\<close>, \<open>Pmm_Props\<close>, \<open>Pmm_Theorems\<close>, \<open>Pmm_Alloc\<close>,
    \<open>Pmm_Alloc_Theorems\<close> (\<^verbatim>\<open>arc/amd64/.../pmm.cpp\<close>, \<^verbatim>\<open>pmm.arc.hpp\<close>): an allocation space as a record with
    its array of descriptors of large frames, each with the small frames of a split one; the
    operations in the order of the code (\<open>AllocateFrame\<close>, \<open>Mingle\<close>, \<open>ReserveRange\<close>, \<open>GetFrameInfo\<close>, the
    constructor); the chain of spaces (\<open>FrameAllocator\<close>) and the front end (\<open>Pmm\<close>, \<open>PmmArc\<close>). The
    stacks of small and of large frames are two interpretations of \<open>index_stack\<close>.
  \<^item> \<open>Conversions\<close>, \<open>Conversions_Props\<close> (\<^verbatim>\<open>utils/conversions.cpp\<close>): the parsers of integers in four bases
    and of booleans. The locale \<open>digit_loop\<close> holds what the three power-of-two bases share.
  \<^item> \<open>Id_Pool\<close>, \<open>Id_Pool_Props\<close>, \<open>Id_Pool_Theorems\<close> (\<^verbatim>\<open>beel/utils/id.pool.hpp\<close>): the pool of identifiers;
    its operations are split at their atomic accesses and interleaved by an inductive relation.
  \<^item> \<open>Ticket_Lock\<close>, \<open>Ticket_Lock_Theorems\<close> (\<^verbatim>\<open>beel/sync/ticket.lock.hpp\<close>): the lock word of two 16-bit
    counters, and the threads that use it as an inductive relation; an interpretation of
    \<open>simulation\<close> with the queue of a fair lock.
  \<^item> \<open>Rw_Lock\<close>, \<open>Rw_Lock_Theorems\<close> (\<^verbatim>\<open>beel/sync/rw.ticket.lock.hpp\<close>): the readers-writer lock of
    three 16-bit counters, its operations split at their atomic accesses and interleaved.
  \<^item> \<open>Bigint\<close>, \<open>Bigint_Mul\<close>, \<open>Bigint_Bits\<close>, \<open>Bigint_Shift\<close>, \<open>Bigint_Theorems\<close> (\<^verbatim>\<open>utils/bigint.cpp\<close>):
    numbers of many 32-bit digits; operations whose result depends on the aliasing of source and
    destination act on a store of arrays.
  \<^item> \<open>Obj_Pool\<close>, \<open>Obj_Alloc\<close>, \<open>Obj_Pool_Props\<close>, \<open>Obj_Alloc_Props\<close>, \<open>Obj_Alloc_Theorems\<close>
    (\<^verbatim>\<open>object_allocator_*.inc\<close>, \<^verbatim>\<open>object_allocator_pools.hpp\<close>, \<^verbatim>\<open>object_allocator_pools_heap.cpp\<close>): pools of objects
    of one size with the free ones linked through them (a third interpretation of \<open>index_stack\<close>), the
    allocator with its ring of pools, and the functions that take pools from the kernel heap. The
    contract of such functions is \<open>pool_funcs_ok\<close>; the provider of pages is an argument.
  \<^item> \<open>Vas_Model\<close>, \<open>Vas_Inv\<close>, \<open>Vas_Splice\<close>, \<open>Vas_Cases\<close>, \<open>Vas_Execute\<close>, \<open>Vas_Loops\<close>, \<open>Vas_Theorems\<close>
    (\<^verbatim>\<open>memory/vas.cpp\<close>, \<^verbatim>\<open>vas.hpp\<close>): an address space, whose regions are in a memory of nodes, a list and
    the tree at once; \<open>Execute\<close> with each of its nine cases, \<open>Allocate\<close>, \<open>Free\<close>, \<open>Initialize\<close>. It uses the tree through
    an interpretation of the tree's locale, and its allocator of nodes through the locale \<open>node_source\<close>, of which the
    object allocator is an interpretation.
  \<^item> \<open>Cmd_Options\<close>, \<open>Cmd_Options_Props\<close>, \<open>Cmd_Options_Theorems\<close> (\<^verbatim>\<open>cmd_options.cpp\<close>): the command line: the
    two passes in place over its buffer, the search for an option, and batches of options. The
    reference is a tokeniser on lists.
  \<^item> \<open>Rw_Spinlock\<close>, \<open>Rw_Spinlock_Theorems\<close> (\<^verbatim>\<open>beel/sync/rw.spinlock.hpp\<close>): the readers-writer spinlock of
    one 32-bit word, every operation split at its atomic accesses; another interpretation of
    \<open>simulation\<close>, with the sets of readers and writers.
  \<^item> \<open>Mem_Strings\<close>, \<open>Mem_Strings_Props\<close>, \<open>Mem_Strings_Theorems\<close> (\<^verbatim>\<open>string.c\<close>, the common and the x86 one): memory
    as a function from addresses to bytes, the string instructions of the processor, and the
    functions on memory and on strings over them.
  \<^item> \<open>Init_Rd\<close>, \<open>Init_Rd_Props\<close>, \<open>Init_Rd_Theorems\<close> (\<^verbatim>\<open>utils/tar.cpp\<close>, \<^verbatim>\<open>initrd.cpp\<close>, \<open>HandlePointer\<close> of
    \<^verbatim>\<open>handles.h\<close>): headers of a tape archive in that memory, the initial RAM disk, pointers packed
    into handles. The abstraction of a disk is the list of its entries.
  \<^item> \<open>Ring_Buffer\<close>, \<open>Ring_Buffer_Theorems\<close>, \<open>Ring_Buffer_Fifo\<close> (\<^verbatim>\<open>utils/ring.buffer.concurrent.cpp\<close>): the ring buffer of bytes;
    the attempts and the end of a pop are interleaved access by access, the waiting operations
    are modelled as they run alone.

  \<^bold>\<open>Conventions.\<close> Machine integers are words of their width. A null dereference, an access out of an
  array or a missing return value is \<open>None\<close> (or excluded by a hypothesis that says so); a returned
  handle is its result code. An uninitialised variable is an argument of the definition. Code
  outside of the sources (allocators passed as function pointers, contents of memory at
  construction) is an argument as well. Locks are not part of sequential models: a locked section is
  one step, which the theorems on the ticket lock justify.

  \<^bold>\<open>What is proved.\<close> For the tree of regions: insertion, removal and lookup by address on the sorted
  sequence of regions, balance and the meaning of the stored heights after any sequence of operations, traversals. For the physical memory manager:
  the invariant of an allocation space, kept by construction and every operation; allocation and
  freeing as operations on the map of allocated frames (refinement) with the addresses they stand for, disjointness of allocated
  frames in every reachable state, where the structures of new spaces are placed, the equivalence of the constructor's binary search with a
  division, round trips, and the same for the chain of spaces. For handles, conversions: round
  trips and error behaviour. For the identifier pool and the locks: safety under every
  interleaving, refinement of a queue, progress; what upgrading a reader breaks. For big integers: the
  operations as arithmetic on the numbers denoted. For object allocators: every allocation and release
  keeps the pools in order, the objects a client holds are disjoint and off the pool headers. For address spaces: every operation returns,
  follows no dangling pointer, keeps list, tree and memory of nodes consistent and changes the use of
  exactly the addresses it is asked to, or refuses and changes nothing; an allocated region records what was asked for, guards
  included, unless it is joined to a neighbour. For the command line: the
  passes in place compute the tokens of a reference, quoted tokens come back, batches end and read
  nothing outside of the buffer (on a line with tokens, if no option without a short form is compared with a short one). For the readers-writer spinlock: exclusion, the meaning of the word, no
  deadlock. For memory and strings: copying with overlap, searching, concatenation and comparison. For
  the initial RAM disk: an archive is accepted, and the entry of a name is found with its contents.
  For the ring buffer: order of the counters and delivery of the bytes in order to one consumer, for blocks that do not run past
  the end of the buffer, and
  what a second consumer and \<open>Push\<close> break. Deviations of the code from its purpose are theorems next to these.

  \<^bold>\<open>Bounds and fuel.\<close> Loops are structural recursion or functions with a termination proof. The two
  labels of \<open>Mingle\<close> and of \<open>GetFrameInfo\<close> that jump to each other are followed with fuel 2, and it
  is proved that two jumps suffice in every state that satisfies the invariant. \<open>Execute\<close> and its search
  have fuel for the recursion that continues a sparse operation and for the list: one more than the
  number of regions suffices for an allocation, one more than the number of bytes to release for \<open>Free\<close>. The ticket lock is
  safe for up to \<open>2 ^ 16\<close> threads, the number of its tickets, the spinlock for fewer than \<open>2 ^ 30\<close>, which its
  count of readers holds. Loops up to a NUL take fuel: one more than the length of the string (two more
  for a search) suffices. The walk over an archive needs two more than the number of entries.
  The ring buffer is looked at while its counters are below \<open>2 ^ 62\<close>. The addresses of frames are computed in
  32 bits: they are right for spaces of at most 2048 large frames (4 GiB), and theorems on addresses say so.

  \<^bold>\<open>Not modelled.\<close> Boot code, the loader and assembly; device drivers, terminals, fonts and serial ports
  (input and output); ACPICA (vendored); \<open>PmmArc::Remap\<close> and the virtual memory manager, which act on
  page tables through a recursive mapping; the scheduler, modules and ELF loading. Of
  the object allocators, \<open>Dispose\<close> (it reads an uninitialised pointer) and the variant with locks; of the
  address spaces, the hooks of \<open>KernelVas\<close>, which re-enter the space they are called from; of the string
  functions, the tables of error messages; of the ring buffer, the functions that wait, under interleaving (they are
  modelled as they run alone).
\<close>

end
